(* ===== verification/Go_Prelude.thy ===== *)
theory Go_Prelude
  imports Main "HOL-Library.AList" "HOL-Library.Word" "HOL-Library.Char_ord" "HOL-Library.List_Lexorder"
begin

text \<open>
  Shared vocabulary of the development: the proof collections, Go maps as association
  lists with distinct keys, the byte-string helpers of the Go standard library the
  modelled code calls (\<open>strings.ToLower\<close>, \<open>strings.EqualFold\<close>, \<open>strings.TrimSpace\<close>,
  \<open>strconv.FormatUint\<close>, \<open>strconv.ParseUint\<close>), and generic list lemmas.

  A Go \<open>string\<close> is a byte sequence and is modelled as the char list of Isabelle's
  \<open>string\<close>; its order is the bytewise lexicographic order of \<open>List_Lexorder\<close>. The case
  mapping and the white space are those of ASCII: a byte above 127 is left alone.

  A Go \<open>map[K]V\<close> that the code iterates is an association list with distinct keys.
  The order of the list stands for the (unspecified) iteration order; theorems about
  iterating code assume nothing about it.
\<close>

named_theorems gomap_simps \<open>lookup laws of Go maps\<close>
named_theorems step_defs \<open>definitions of the operations of a component\<close>

section \<open>Go maps\<close>

type_synonym ('k, 'v) gomap = "('k \<times> 'v) list"

abbreviation gm_get :: "('k, 'v) gomap \<Rightarrow> 'k \<Rightarrow> 'v option" where
  "gm_get \<equiv> map_of"

abbreviation gm_put :: "'k \<Rightarrow> 'v \<Rightarrow> ('k, 'v) gomap \<Rightarrow> ('k, 'v) gomap" where
  "gm_put \<equiv> AList.update"

abbreviation gm_del :: "'k \<Rightarrow> ('k, 'v) gomap \<Rightarrow> ('k, 'v) gomap" where
  "gm_del \<equiv> AList.delete"

text \<open>Reading a missing key yields the zero value of the value type.\<close>

definition gm_getz :: "'v \<Rightarrow> ('k, 'v) gomap \<Rightarrow> 'k \<Rightarrow> 'v" where
  "gm_getz z m k = (case gm_get m k of None \<Rightarrow> z | Some v \<Rightarrow> v)"

definition gm_wf :: "('k, 'v) gomap \<Rightarrow> bool" where
  "gm_wf m \<longleftrightarrow> distinct (map fst m)"

lemma gm_get_put [simp, gomap_simps]: "gm_get (gm_put k v m) k' = (if k' = k then Some v else gm_get m k')"
  by (simp add: update_conv')

lemma gm_get_del [simp, gomap_simps]: "gm_get (gm_del k m) k' = (if k' = k then None else gm_get m k')"
  by (simp add: delete_conv')

lemma gm_getz_put [simp, gomap_simps]: "gm_getz z (gm_put k v m) k' = (if k' = k then v else gm_getz z m k')"
  by (simp add: gm_getz_def)

lemma gm_getz_del [simp, gomap_simps]: "gm_getz z (gm_del k m) k' = (if k' = k then z else gm_getz z m k')"
  by (simp add: gm_getz_def)

lemma gm_getz_Nil [simp]: "gm_getz z [] k = z"
  by (simp add: gm_getz_def)

lemma gm_wf_Nil [simp]: "gm_wf []"
  by (simp add: gm_wf_def)

lemma gm_wf_put [simp, intro]: "gm_wf m \<Longrightarrow> gm_wf (gm_put k v m)"
  by (simp add: gm_wf_def distinct_update)

lemma gm_wf_del [simp, intro]: "gm_wf m \<Longrightarrow> gm_wf (gm_del k m)"
  by (simp add: gm_wf_def distinct_delete)

lemma gm_wf_filter [simp, intro]: "gm_wf m \<Longrightarrow> gm_wf (filter P m)"
  by (simp add: gm_wf_def distinct_map_filter)

lemma gm_entry_iff: "gm_wf m \<Longrightarrow> (k, v) \<in> set m \<longleftrightarrow> gm_get m k = Some v"
  by (simp add: gm_wf_def)

lemma gm_keys_iff: "k \<in> fst ` set m \<longleftrightarrow> gm_get m k \<noteq> None"
  by (simp add: map_of_eq_None_iff)

lemma gm_get_filter:
  assumes "gm_wf m"
  shows "gm_get (filter (\<lambda>(k, v). P k v) m) k
    = (case gm_get m k of None \<Rightarrow> None | Some v \<Rightarrow> if P k v then Some v else None)"
proof (cases "gm_get m k")
  case None
  then have "k \<notin> fst ` set m" by (simp add: map_of_eq_None_iff)
  then have "k \<notin> fst ` set (filter (\<lambda>(k, v). P k v) m)" by auto
  then have "gm_get (filter (\<lambda>(k, v). P k v) m) k = None" by (rule map_of_eq_None_iff [THEN iffD2])
  then show ?thesis using None by simp
next
  case (Some v)
  let ?f = "filter (\<lambda>(k, v). P k v) m"
  have wf: "gm_wf ?f" using assms by simp
  have mem: "\<And>w. (k, w) \<in> set ?f \<longleftrightarrow> w = v \<and> P k v"
    using Some assms by (auto simp: gm_entry_iff)
  show ?thesis
  proof (cases "P k v")
    case True
    then have "gm_get ?f k = Some v" using mem gm_entry_iff [OF wf] by blast
    then show ?thesis using Some True by simp
  next
    case False
    then have "gm_get ?f k \<noteq> Some w" for w using mem gm_entry_iff [OF wf] by blast
    then have "gm_get ?f k = None" by (cases "gm_get ?f k") auto
    then show ?thesis using Some False by simp
  qed
qed

text \<open>The interface of a finite map, and the association lists as its provider.\<close>

locale finite_map =
  fixes empty :: 'm
    and get :: "'m \<Rightarrow> 'k \<Rightarrow> 'v option"
    and put :: "'k \<Rightarrow> 'v \<Rightarrow> 'm \<Rightarrow> 'm"
    and del :: "'k \<Rightarrow> 'm \<Rightarrow> 'm"
    and wf :: "'m \<Rightarrow> bool"
  assumes wf_empty: "wf empty"
    and wf_put: "wf m \<Longrightarrow> wf (put k v m)"
    and wf_del: "wf m \<Longrightarrow> wf (del k m)"
    and get_empty: "get empty k = None"
    and get_put: "wf m \<Longrightarrow> get (put k v m) k' = (if k' = k then Some v else get m k')"
    and get_del: "wf m \<Longrightarrow> get (del k m) k' = (if k' = k then None else get m k')"
begin

lemma put_put: "wf m \<Longrightarrow> get (put k v (put k w m)) = get (put k v m)"
  by (rule ext) (simp add: get_put wf_put)

lemma put_commute:
  "wf m \<Longrightarrow> k \<noteq> k' \<Longrightarrow> get (put k v (put k' w m)) = get (put k' w (put k v m))"
  by (rule ext) (auto simp: get_put wf_put)

lemma del_put: "wf m \<Longrightarrow> get (del k (put k v m)) = get (del k m)"
  by (rule ext) (simp add: get_put get_del wf_put)

end

interpretation gm: finite_map "[]" gm_get gm_put gm_del gm_wf
  by unfold_locales auto

section \<open>Bytes and strings\<close>

definition to_lower_byte :: "char \<Rightarrow> char" where
  "to_lower_byte c =
     (if 65 \<le> (of_char c :: nat) \<and> (of_char c :: nat) \<le> 90 then char_of (of_char c + 32 :: nat) else c)"

definition ToLower :: "string \<Rightarrow> string" where
  "ToLower s = map to_lower_byte s"

definition EqualFold :: "string \<Rightarrow> string \<Rightarrow> bool" where
  "EqualFold s t \<longleftrightarrow> ToLower s = ToLower t"

definition is_space_byte :: "char \<Rightarrow> bool" where
  "is_space_byte c \<longleftrightarrow> (of_char c :: nat) \<in> {9, 10, 11, 12, 13, 32}"

definition TrimSpace :: "string \<Rightarrow> string" where
  "TrimSpace s = rev (dropWhile is_space_byte (rev (dropWhile is_space_byte s)))"

lemma of_char_bound: "(of_char c :: nat) < 256"
  using of_char_of [of "of_char c :: nat"] by (simp add: of_char_mod_256 mod_less_divisor)

lemma of_to_lower_byte:
  "(of_char (to_lower_byte c) :: nat)
     = (if 65 \<le> (of_char c :: nat) \<and> (of_char c :: nat) \<le> 90 then of_char c + 32 else of_char c)"
  by (simp add: to_lower_byte_def)

lemma to_lower_byte_idem [simp]: "to_lower_byte (to_lower_byte c) = to_lower_byte c"
  by (auto simp: to_lower_byte_def [of "to_lower_byte c"] of_to_lower_byte)

lemma ToLower_idem [simp]: "ToLower (ToLower s) = ToLower s"
  by (simp add: ToLower_def)

lemma ToLower_Nil [simp]: "ToLower [] = []"
  by (simp add: ToLower_def)

lemma ToLower_append [simp]: "ToLower (s @ t) = ToLower s @ ToLower t"
  by (simp add: ToLower_def)

lemma length_ToLower [simp]: "length (ToLower s) = length s"
  by (simp add: ToLower_def)

lemma ToLower_eq_Nil [simp]: "ToLower s = [] \<longleftrightarrow> s = []"
  by (simp add: ToLower_def)

section \<open>Decimal numbers\<close>

fun digit_char :: "nat \<Rightarrow> char" where
  "digit_char n = char_of (48 + n)"

definition digit_val :: "char \<Rightarrow> nat" where
  "digit_val c = of_char c - 48"

definition is_digit_byte :: "char \<Rightarrow> bool" where
  "is_digit_byte c \<longleftrightarrow> 48 \<le> (of_char c :: nat) \<and> (of_char c :: nat) \<le> 57"

text \<open>\<open>strconv.FormatUint(n, 10)\<close>.\<close>

fun FormatUint :: "nat \<Rightarrow> string" where
  "FormatUint n = (if n < 10 then [digit_char n] else FormatUint (n div 10) @ [digit_char (n mod 10)])"

declare FormatUint.simps [simp del]

fun digits_value :: "nat \<Rightarrow> string \<Rightarrow> nat" where
  "digits_value acc [] = acc"
| "digits_value acc (c # cs) = digits_value (acc * 10 + digit_val c) cs"

text \<open>\<open>strconv.ParseUint(s, 10, 64)\<close> on a run of digits: an empty string, a byte that is no
  digit and a value over 64 bits are errors.\<close>

definition ParseUint :: "string \<Rightarrow> nat option" where
  "ParseUint s =
     (if s = [] \<or> \<not> list_all is_digit_byte s then None
      else if digits_value 0 s < 2 ^ 64 then Some (digits_value 0 s) else None)"

lemma digit_char_props:
  assumes "n < 10"
  shows "is_digit_byte (digit_char n)" and "digit_val (digit_char n) = n"
  using assms by (auto simp: is_digit_byte_def digit_val_def)

lemma digits_value_append [simp]:
  "digits_value acc (s @ t) = digits_value (digits_value acc s) t"
  by (induction s arbitrary: acc) auto

lemma FormatUint_digits: "list_all is_digit_byte (FormatUint n)"
proof (induction n rule: FormatUint.induct)
  case (1 n)
  then show ?case
    by (subst FormatUint.simps) (auto simp: digit_char_props simp del: digit_char.simps)
qed

lemma FormatUint_not_Nil [simp]: "FormatUint n \<noteq> []"
  by (subst FormatUint.simps) simp

lemma digits_value_FormatUint [simp]: "digits_value 0 (FormatUint n) = n"
proof (induction n rule: FormatUint.induct)
  case (1 n)
  show ?case
  proof (cases "n < 10")
    case True
    then show ?thesis
      by (subst FormatUint.simps) (simp add: digit_char_props del: digit_char.simps)
  next
    case False
    then have "digits_value 0 (FormatUint (n div 10)) = n div 10" using 1 by simp
    then show ?thesis using False
      by (subst FormatUint.simps) (simp add: digit_char_props del: digit_char.simps)
  qed
qed

lemma ParseUint_FormatUint: "n < 2 ^ 64 \<Longrightarrow> ParseUint (FormatUint n) = Some n"
  by (simp add: ParseUint_def FormatUint_digits)

lemma FormatUint_inject [simp]: "FormatUint m = FormatUint n \<longleftrightarrow> m = n"
  by (metis digits_value_FormatUint)

section \<open>Results\<close>

text \<open>A Go function that returns a value and an error is a function into a sum, the error on
  the left. \<open>bindE\<close> is the early return on an error, \<open>mapE\<close> a loop over a slice that appends
  to its result and returns at the first error.\<close>

fun bindE :: "'e + 'a \<Rightarrow> ('a \<Rightarrow> 'e + 'b) \<Rightarrow> 'e + 'b" where
  "bindE (Inl e) f = Inl e"
| "bindE (Inr x) f = f x"

fun mapE :: "('a \<Rightarrow> 'e + 'b) \<Rightarrow> 'a list \<Rightarrow> 'e + 'b list" where
  "mapE f [] = Inr []"
| "mapE f (x # xs) = bindE (f x) (\<lambda>y. bindE (mapE f xs) (\<lambda>ys. Inr (y # ys)))"

fun isOK :: "'e + 'a \<Rightarrow> bool" where
  "isOK (Inl _) = False"
| "isOK (Inr _) = True"

lemma bindE_eq_Inr [simp]: "bindE m f = Inr y \<longleftrightarrow> (\<exists>x. m = Inr x \<and> f x = Inr y)"
  by (cases m) auto

lemma bindE_eq_Inl: "bindE m f = Inl e \<longleftrightarrow> m = Inl e \<or> (\<exists>x. m = Inr x \<and> f x = Inl e)"
  by (cases m) auto

lemma isOK_iff: "isOK m \<longleftrightarrow> (\<exists>y. m = Inr y)"
  by (cases m) auto

lemma mapE_eq_Inr: "mapE f xs = Inr ys \<longleftrightarrow> list_all2 (\<lambda>x y. f x = Inr y) xs ys"
  by (induction xs arbitrary: ys) (auto simp: list_all2_Cons1)

lemma mapE_cong [fundef_cong]:
  "xs = ys \<Longrightarrow> (\<And>x. x \<in> set ys \<Longrightarrow> f x = g x) \<Longrightarrow> mapE f xs = mapE g ys"
  by (induction xs arbitrary: ys) auto

lemma mapE_total: "(\<And>x. x \<in> set xs \<Longrightarrow> f x = Inr (g x)) \<Longrightarrow> mapE f xs = Inr (map g xs)"
  by (induction xs) auto

lemma mapE_isOK: "isOK (mapE f xs) \<longleftrightarrow> list_all (\<lambda>x. isOK (f x)) xs"
  by (induction xs) (auto simp: isOK_iff)

section \<open>Lists\<close>

lemma filter_True_conv [simp]: "filter (\<lambda>_. True) xs = xs"
  by (induction xs) auto

lemma butlast_last_app: "xs \<noteq> [] \<Longrightarrow> xs = butlast xs @ [last xs]"
  by simp

lemma takeWhile_append_stop:
  "list_all P s \<Longrightarrow> \<not> P c \<Longrightarrow> takeWhile P (s @ c # t) = s"
  by (induction s) auto

lemma takeWhile_all: "list_all P s \<Longrightarrow> takeWhile P s = s"
  by (induction s) auto

end
