(* ===== verification/Events.thy ===== *)
theory Events
  imports Go_Prelude "HOL-Library.Sublist"
begin

text \<open>
  The server event bus of \<open>src/go/events/events.go\<close>: a ring buffer with a monotonic
  sequence number and a live tail per subscriber.

  A \<open>*subscriber\<close> is shared between the bus (its fan-out list) and the client (the live
  channel and the lag latch of its \<open>Subscription\<close>), so subscribers live in a heap keyed by
  their id and the bus holds ids. Every method runs under \<open>Bus.mu\<close>, so it is one atomic
  step. The wall clock and the trace context of a publish are arguments.

  \<open>bus_hist\<close>, \<open>sub_got\<close> and \<open>sub_from\<close> are history variables: all events ever published,
  the events a client has taken off its live channel, and the head sequence at
  registration. No operation reads them. Sequence numbers are \<open>nat\<close>: \<open>nextSeq\<close> grows by
  one per publish (\<open>nextSeq_bound\<close>), so the 64-bit counter agrees for the first \<open>2^64 - 1\<close>
  publishes.
\<close>

section \<open>State\<close>

definition RingCapacity :: nat where
  "RingCapacity = 1024"

definition liveBufferCapacity :: nat where
  "liveBufferCapacity = RingCapacity"

record 'p stamped =
  st_seq :: nat
  st_at_unix_ms :: int
  st_instance_epoch :: nat
  st_payload :: 'p
  st_traceparent :: string

record 'p subscriber =
  sub_id :: nat
  sub_ch :: "'p stamped list"
  sub_closed :: bool
  sub_lagged :: bool
  sub_got :: "'p stamped list"
  sub_from :: nat

record 'p subscription =
  sn_replay :: "'p stamped list"
  sn_live :: "nat option"
  sn_epoch :: nat
  sn_head_seq :: nat

datatype bus_error = ErrBufferUnderflow

record 'p bus =
  bus_epoch :: nat
  bus_next_seq :: nat
  bus_next_sub_id :: nat
  bus_ring :: "'p stamped list"
  bus_subscribers :: "nat list"
  bus_closed :: bool
  bus_heap :: "nat \<Rightarrow> 'p subscriber option"
  bus_hist :: "'p stamped list"

definition NewBus :: "nat \<Rightarrow> 'p bus" where
  "NewBus epoch = \<lparr>bus_epoch = epoch, bus_next_seq = 1, bus_next_sub_id = 0, bus_ring = [],
     bus_subscribers = [], bus_closed = False, bus_heap = (\<lambda>_. None), bus_hist = []\<rparr>"

section \<open>Operations\<close>

text \<open>\<open>subscriber.close\<close>: \<open>closeOnce\<close> makes it idempotent.\<close>

definition sub_close :: "'p subscriber \<Rightarrow> 'p subscriber" where
  "sub_close s = s\<lparr>sub_closed := True\<rparr>"

text \<open>The non-blocking send of the fan-out; the flag says whether the subscriber is dropped.\<close>

definition send_live :: "'p stamped \<Rightarrow> 'p subscriber \<Rightarrow> 'p subscriber \<times> bool" where
  "send_live ev s =
     (if sub_lagged s then (s, True)
      else if length (sub_ch s) < liveBufferCapacity then (s\<lparr>sub_ch := sub_ch s @ [ev]\<rparr>, False)
      else (sub_close (s\<lparr>sub_lagged := True\<rparr>), True))"

text \<open>
  The fan-out loop. \<open>pre\<close> is \<open>b.subscribers[:i]\<close>, \<open>live\<close> the replacement slice, absent (nil)
  until the first drop forces a rebuild.
\<close>

definition send_to :: "'p stamped \<Rightarrow> nat \<Rightarrow> (nat \<Rightarrow> 'p subscriber option) \<Rightarrow> (nat \<Rightarrow> 'p subscriber option) \<times> bool" where
  "send_to ev i h =
     (case h i of None \<Rightarrow> (h, True)
      | Some s \<Rightarrow> (let (s', dropped) = send_live ev s in (h(i := Some s'), dropped)))"

fun fan_out :: "'p stamped \<Rightarrow> nat list \<Rightarrow> nat list \<Rightarrow> nat list option \<Rightarrow> (nat \<Rightarrow> 'p subscriber option)
    \<Rightarrow> nat list option \<times> (nat \<Rightarrow> 'p subscriber option)" where
  "fan_out ev pre [] live h = (live, h)"
| "fan_out ev pre (i # rest) live h =
     (let (h', dropped) = send_to ev i h;
          live' = (if dropped \<and> live = None then Some pre
                   else if \<not> dropped \<and> live \<noteq> None then map_option (\<lambda>l. l @ [i]) live
                   else live)
      in fan_out ev (pre @ [i]) rest live' h')"

definition publish :: "string \<Rightarrow> int \<Rightarrow> 'p \<Rightarrow> 'p bus \<Rightarrow> 'p bus \<times> nat" where
  "publish tp now p b =
     (let s = bus_next_seq b;
          ev = \<lparr>st_seq = s, st_at_unix_ms = now, st_instance_epoch = bus_epoch b,
                st_payload = p, st_traceparent = tp\<rparr>;
          ring' = (if length (bus_ring b) = RingCapacity then tl (bus_ring b) @ [ev] else bus_ring b @ [ev]);
          (live, h) = fan_out ev [] (bus_subscribers b) None (bus_heap b);
          subs = (case live of None \<Rightarrow> bus_subscribers b | Some l \<Rightarrow> l)
      in (b\<lparr>bus_next_seq := s + 1, bus_ring := ring', bus_subscribers := subs, bus_heap := h,
            bus_hist := bus_hist b @ [ev]\<rparr>, s))"

definition Subscribe :: "nat \<Rightarrow> nat \<Rightarrow> 'p bus \<Rightarrow> 'p bus \<times> (bus_error + 'p subscription)" where
  "Subscribe sinceSeq reqEpoch b =
     (if bus_closed b then
        (b, Inr \<lparr>sn_replay = [], sn_live = None, sn_epoch = bus_epoch b, sn_head_seq = bus_next_seq b - 1\<rparr>)
      else if 0 < sinceSeq \<and> reqEpoch \<noteq> bus_epoch b then (b, Inl ErrBufferUnderflow)
      else if bus_next_seq b \<le> sinceSeq then (b, Inl ErrBufferUnderflow)
      else if 0 < sinceSeq \<and> bus_ring b \<noteq> [] \<and> sinceSeq + 1 < st_seq (hd (bus_ring b))
        then (b, Inl ErrBufferUnderflow)
      else
        (let i = bus_next_sub_id b + 1;
             headSeq = bus_next_seq b - 1;
             s = \<lparr>sub_id = i, sub_ch = [], sub_closed = False, sub_lagged = False,
                  sub_got = [], sub_from = headSeq\<rparr>
         in (b\<lparr>bus_next_sub_id := i, bus_subscribers := bus_subscribers b @ [i],
               bus_heap := (bus_heap b)(i := Some s)\<rparr>,
             Inr \<lparr>sn_replay = filter (\<lambda>ev. sinceSeq < st_seq ev) (bus_ring b), sn_live = Some i,
                  sn_epoch = bus_epoch b, sn_head_seq = headSeq\<rparr>)))"

definition close_in :: "nat \<Rightarrow> (nat \<Rightarrow> 'p subscriber option) \<Rightarrow> (nat \<Rightarrow> 'p subscriber option)" where
  "close_in i h = (case h i of None \<Rightarrow> h | Some s \<Rightarrow> h(i := Some (sub_close s)))"

definition Close :: "'p bus \<Rightarrow> 'p bus" where
  "Close b = b\<lparr>bus_closed := True, bus_heap := fold close_in (bus_subscribers b) (bus_heap b),
               bus_subscribers := []\<rparr>"

definition unsubscribe :: "nat \<Rightarrow> 'p bus \<Rightarrow> 'p bus" where
  "unsubscribe i b = b\<lparr>bus_subscribers := remove1 i (bus_subscribers b), bus_heap := close_in i (bus_heap b)\<rparr>"

text \<open>\<open>Subscription.Cancel\<close>: a terminal subscription has nothing to cancel.\<close>

definition Cancel :: "'p subscription \<Rightarrow> 'p bus \<Rightarrow> 'p bus" where
  "Cancel sn b = (case sn_live sn of None \<Rightarrow> b | Some i \<Rightarrow> unsubscribe i b)"

definition Lagged :: "'p subscription \<Rightarrow> 'p bus \<Rightarrow> bool" where
  "Lagged sn b = (case sn_live sn of None \<Rightarrow> False
     | Some i \<Rightarrow> (case bus_heap b i of None \<Rightarrow> False | Some s \<Rightarrow> sub_lagged s))"

text \<open>A receive on the live channel: a buffered event, the closed channel, or blocked.\<close>

datatype 'p recv_result = RecvEvent "'p stamped" | RecvClosed | RecvBlocked

definition recv_live :: "nat \<Rightarrow> 'p bus \<Rightarrow> 'p bus \<times> 'p recv_result" where
  "recv_live i b =
     (case bus_heap b i of
        None \<Rightarrow> (b, RecvClosed)
      | Some s \<Rightarrow>
          (case sub_ch s of
             [] \<Rightarrow> (b, if sub_closed s then RecvClosed else RecvBlocked)
           | ev # rest \<Rightarrow>
               (b\<lparr>bus_heap := (bus_heap b)(i := Some (s\<lparr>sub_ch := rest, sub_got := sub_got s @ [ev]\<rparr>))\<rparr>,
                RecvEvent ev)))"

text \<open>The bus as a state machine: one step per call of a client.\<close>

datatype 'p bus_op =
    OpPublish string int 'p
  | OpSubscribe nat nat
  | OpCancel nat
  | OpClose
  | OpRecv nat

fun bus_exec :: "'p bus_op \<Rightarrow> 'p bus \<Rightarrow> 'p bus" where
  "bus_exec (OpPublish tp now p) b = fst (publish tp now p b)"
| "bus_exec (OpSubscribe since ep) b = fst (Subscribe since ep b)"
| "bus_exec (OpCancel i) b = unsubscribe i b"
| "bus_exec OpClose b = Close b"
| "bus_exec (OpRecv i) b = fst (recv_live i b)"

definition bus_run :: "'p bus_op list \<Rightarrow> 'p bus \<Rightarrow> 'p bus" where
  "bus_run ops b = fold bus_exec ops b"

inductive bus_reachable :: "nat \<Rightarrow> 'p bus \<Rightarrow> bool" for epoch :: nat where
  init: "bus_reachable epoch (NewBus epoch)"
| step: "bus_reachable epoch b \<Longrightarrow> bus_reachable epoch (bus_exec op b)"

lemmas [step_defs] = publish_def Subscribe_def Close_def unsubscribe_def Cancel_def recv_live_def

section \<open>The fan-out loop against its reference\<close>

definition fan_heap :: "'p stamped \<Rightarrow> nat list \<Rightarrow> (nat \<Rightarrow> 'p subscriber option) \<Rightarrow> (nat \<Rightarrow> 'p subscriber option)" where
  "fan_heap ev ids h = (\<lambda>i. if i \<in> set ids then map_option (\<lambda>s. fst (send_live ev s)) (h i) else h i)"

definition kept :: "'p stamped \<Rightarrow> (nat \<Rightarrow> 'p subscriber option) \<Rightarrow> nat \<Rightarrow> bool" where
  "kept ev h i = (\<not> snd (send_to ev i h))"

lemma fst_send_to: "fst (send_to ev i h) = fan_heap ev [i] h"
  by (auto simp: send_to_def fan_heap_def fun_eq_iff split: option.splits prod.splits)

lemma fan_heap_Cons: "i \<notin> set ids \<Longrightarrow> fan_heap ev ids (fan_heap ev [i] h) = fan_heap ev (i # ids) h"
  by (auto simp: fan_heap_def fun_eq_iff)

lemma filter_kept_fan: "i \<notin> set ids \<Longrightarrow> filter (kept ev (fan_heap ev [i] h)) ids = filter (kept ev h) ids"
  by (rule filter_cong) (auto simp: kept_def send_to_def fan_heap_def split: option.splits prod.splits)

lemma list_all_kept_fan: "i \<notin> set ids \<Longrightarrow> list_all (kept ev (fan_heap ev [i] h)) ids = list_all (kept ev h) ids"
  unfolding list_all_iff
  by (rule ball_cong) (auto simp: kept_def send_to_def fan_heap_def split: option.splits prod.splits)

lemma fan_out_gen:
  assumes "distinct ids"
  shows "fan_out ev pre ids live h =
    (case live of
       None \<Rightarrow> (if list_all (kept ev h) ids then None else Some (pre @ filter (kept ev h) ids))
     | Some l \<Rightarrow> Some (l @ filter (kept ev h) ids), fan_heap ev ids h)"
  using assms
proof (induction ids arbitrary: pre live h)
  case Nil
  then show ?case by (auto simp: fan_heap_def split: option.splits)
next
  case (Cons i ids)
  have st: "send_to ev i h = (fan_heap ev [i] h, \<not> kept ev h i)"
    by (rule prod_eqI) (simp_all add: fst_send_to kept_def)
  from Cons.prems have i: "i \<notin> set ids" and d: "distinct ids" by auto
  show ?case
    by (cases "kept ev h i"; cases live)
       (simp_all add: st Cons.IH [OF d] fan_heap_Cons [OF i] filter_kept_fan [OF i] list_all_kept_fan [OF i])
qed

text \<open>The slice after the loop, rebuilt or not, is the list of kept subscribers.\<close>

lemma fan_out_ref:
  assumes "distinct ids" and "fan_out ev [] ids None h = (live, h')"
  shows "(case live of None \<Rightarrow> ids | Some l \<Rightarrow> l) = filter (kept ev h) ids" and "h' = fan_heap ev ids h"
  using assms(2) unfolding fan_out_gen [OF assms(1)]
  by (auto simp: list_all_iff split: if_splits)

section \<open>Invariant\<close>

definition sub_ok :: "'p bus \<Rightarrow> nat \<Rightarrow> 'p subscriber \<Rightarrow> bool" where
  "sub_ok b i s \<longleftrightarrow>
     sub_id s = i \<and> i \<le> bus_next_sub_id b \<and> sub_from s \<le> length (bus_hist b) \<and>
     length (sub_ch s) \<le> liveBufferCapacity \<and>
     prefix (sub_got s @ sub_ch s) (drop (sub_from s) (bus_hist b)) \<and>
     (sub_closed s \<longleftrightarrow> i \<notin> set (bus_subscribers b)) \<and>
     (i \<in> set (bus_subscribers b) \<longrightarrow> sub_got s @ sub_ch s = drop (sub_from s) (bus_hist b)) \<and>
     (sub_lagged s \<longrightarrow> sub_closed s \<and> length (sub_got s @ sub_ch s) < length (bus_hist b) - sub_from s)"

definition bus_inv :: "'p bus \<Rightarrow> bool" where
  "bus_inv b \<longleftrightarrow>
     bus_next_seq b = length (bus_hist b) + 1 \<and>
     map st_seq (bus_hist b) = [1..<length (bus_hist b) + 1] \<and>
     bus_ring b = drop (length (bus_hist b) - RingCapacity) (bus_hist b) \<and>
     distinct (bus_subscribers b) \<and>
     (bus_closed b \<longrightarrow> bus_subscribers b = []) \<and>
     (\<forall>i \<in> set (bus_subscribers b). bus_heap b i \<noteq> None) \<and>
     (\<forall>i s. bus_heap b i = Some s \<longrightarrow> sub_ok b i s)"

lemma RingCapacity_pos: "0 < RingCapacity"
  by (simp add: RingCapacity_def)

lemma bus_inv_init: "bus_inv (NewBus epoch)"
  by (simp add: bus_inv_def NewBus_def)

lemma ring_step:
  assumes "r = drop (length h - RingCapacity) h"
  shows "(if length r = RingCapacity then tl r @ [ev] else r @ [ev])
    = drop (length (h @ [ev]) - RingCapacity) (h @ [ev])"
proof (cases "length r = RingCapacity")
  case True
  then have le: "RingCapacity \<le> length h" using assms by simp
  then have "tl r = drop (Suc (length h - RingCapacity)) h" using assms by (simp add: drop_Suc tl_drop)
  then show ?thesis using True le RingCapacity_pos by (simp add: Suc_diff_le)
next
  case False
  then have "length h < RingCapacity" using assms by auto
  then show ?thesis using False assms by simp
qed

lemma publish_eq:
  assumes "distinct (bus_subscribers b)"
  shows "publish tp now p b =
    (let ev = \<lparr>st_seq = bus_next_seq b, st_at_unix_ms = now, st_instance_epoch = bus_epoch b,
               st_payload = p, st_traceparent = tp\<rparr>
     in (b\<lparr>bus_next_seq := bus_next_seq b + 1,
           bus_ring := (if length (bus_ring b) = RingCapacity then tl (bus_ring b) @ [ev] else bus_ring b @ [ev]),
           bus_subscribers := filter (kept ev (bus_heap b)) (bus_subscribers b),
           bus_heap := fan_heap ev (bus_subscribers b) (bus_heap b),
           bus_hist := bus_hist b @ [ev]\<rparr>, bus_next_seq b))"
proof -
  let ?ev = "\<lparr>st_seq = bus_next_seq b, st_at_unix_ms = now, st_instance_epoch = bus_epoch b,
              st_payload = p, st_traceparent = tp\<rparr>"
  obtain live h where f: "fan_out ?ev [] (bus_subscribers b) None (bus_heap b) = (live, h)"
    by (cases "fan_out ?ev [] (bus_subscribers b) None (bus_heap b)")
  note r = fan_out_ref [OF assms f]
  show ?thesis
    by (simp add: publish_def Let_def f r)
qed

lemma send_live_ok:
  assumes ok: "sub_ok b i s" and reg: "i \<in> set (bus_subscribers b)"
    and b': "bus_hist b' = bus_hist b @ [ev]" "bus_next_sub_id b' = bus_next_sub_id b"
      "i \<in> set (bus_subscribers b') \<longleftrightarrow> \<not> snd (send_live ev s)"
  shows "sub_ok b' i (fst (send_live ev s))"
proof -
  from ok reg have open_: "\<not> sub_closed s" "\<not> sub_lagged s"
    and eq: "sub_got s @ sub_ch s = drop (sub_from s) (bus_hist b)"
    by (auto simp: sub_ok_def)
  have len: "length (sub_got s @ sub_ch s) = length (bus_hist b) - sub_from s"
    by (simp only: eq length_drop)
  show ?thesis
  proof (cases "length (sub_ch s) < liveBufferCapacity")
    case True
    have "sub_got s @ sub_ch s @ [ev] = drop (sub_from s) (bus_hist b) @ [ev]" by (simp flip: eq)
    then show ?thesis using ok True open_ b' by (auto simp: sub_ok_def send_live_def)
  next
    case False
    then show ?thesis using ok open_ b' eq len
      by (auto simp: sub_ok_def send_live_def sub_close_def)
  qed
qed

lemma bus_inv_publish:
  assumes inv: "bus_inv b"
  shows "bus_inv (fst (publish tp now p b))"
proof -
  from inv have d: "distinct (bus_subscribers b)" by (simp add: bus_inv_def)
  define ev where "ev = \<lparr>st_seq = bus_next_seq b, st_at_unix_ms = now, st_instance_epoch = bus_epoch b,
               st_payload = p, st_traceparent = tp\<rparr>"
  define b' where "b' = fst (publish tp now p b)"
  have b': "bus_next_seq b' = bus_next_seq b + 1"
      "bus_ring b' = (if length (bus_ring b) = RingCapacity then tl (bus_ring b) @ [ev] else bus_ring b @ [ev])"
      "bus_subscribers b' = filter (kept ev (bus_heap b)) (bus_subscribers b)"
      "bus_heap b' = fan_heap ev (bus_subscribers b) (bus_heap b)"
      "bus_hist b' = bus_hist b @ [ev]" "bus_closed b' = bus_closed b" "bus_next_sub_id b' = bus_next_sub_id b"
    by (simp_all add: b'_def publish_eq [OF d] Let_def ev_def)
  have "sub_ok b' i s'" if h: "bus_heap b' i = Some s'" for i s'
  proof (cases "i \<in> set (bus_subscribers b)")
    case True
    with h obtain s where s: "bus_heap b i = Some s" "s' = fst (send_live ev s)"
      by (auto simp: b' fan_heap_def)
    moreover from s inv have "sub_ok b i s" by (simp add: bus_inv_def)
    ultimately show ?thesis using True
      by (auto intro!: send_live_ok simp: b' kept_def send_to_def split: prod.splits)
  next
    case False
    with h have "bus_heap b i = Some s'" by (simp add: b' fan_heap_def)
    with inv have "sub_ok b i s'" by (simp add: bus_inv_def)
    then show ?thesis using False by (auto simp: sub_ok_def b' intro: prefix_prefix)
  qed
  moreover have "\<forall>i \<in> set (bus_subscribers b'). bus_heap b' i \<noteq> None"
    using inv by (auto simp: b' fan_heap_def bus_inv_def)
  moreover have "bus_ring b' = drop (length (bus_hist b') - RingCapacity) (bus_hist b')"
    unfolding b' using inv by (intro ring_step) (simp add: bus_inv_def)
  ultimately show ?thesis
    using inv unfolding b'_def [symmetric] by (auto simp: bus_inv_def b' ev_def)
qed

definition cursor_refused :: "nat \<Rightarrow> nat \<Rightarrow> 'p bus \<Rightarrow> bool" where
  "cursor_refused since ep b \<longleftrightarrow>
     (0 < since \<and> ep \<noteq> bus_epoch b) \<or> bus_next_seq b \<le> since \<or>
     (0 < since \<and> bus_ring b \<noteq> [] \<and> since + 1 < st_seq (hd (bus_ring b)))"

lemma Subscribe_refused:
  "\<not> bus_closed b \<Longrightarrow> cursor_refused since ep b \<Longrightarrow> Subscribe since ep b = (b, Inl ErrBufferUnderflow)"
  by (auto simp: Subscribe_def cursor_refused_def)

lemma Subscribe_closed:
  "bus_closed b \<Longrightarrow> Subscribe since ep b =
     (b, Inr \<lparr>sn_replay = [], sn_live = None, sn_epoch = bus_epoch b, sn_head_seq = bus_next_seq b - 1\<rparr>)"
  by (simp add: Subscribe_def)

lemma Subscribe_ok:
  assumes "\<not> bus_closed b" and "\<not> cursor_refused since ep b"
  shows "Subscribe since ep b =
    (b\<lparr>bus_next_sub_id := bus_next_sub_id b + 1,
       bus_subscribers := bus_subscribers b @ [bus_next_sub_id b + 1],
       bus_heap := (bus_heap b)(bus_next_sub_id b + 1 \<mapsto>
         \<lparr>sub_id = bus_next_sub_id b + 1, sub_ch = [], sub_closed = False, sub_lagged = False,
          sub_got = [], sub_from = bus_next_seq b - 1\<rparr>)\<rparr>,
     Inr \<lparr>sn_replay = filter (\<lambda>ev. since < st_seq ev) (bus_ring b), sn_live = Some (bus_next_sub_id b + 1),
          sn_epoch = bus_epoch b, sn_head_seq = bus_next_seq b - 1\<rparr>)"
  using assms unfolding cursor_refused_def de_Morgan_disj
  by (simp only: Subscribe_def Let_def if_False HOL.simp_thms)

lemma bus_inv_Subscribe:
  fixes b :: "'a bus"
  assumes inv: "bus_inv b"
  shows "bus_inv (fst (Subscribe since ep b))"
proof (cases "bus_closed b \<or> cursor_refused since ep b")
  case True
  then have "fst (Subscribe since ep b) = b"
    using Subscribe_refused [of b since ep] Subscribe_closed [of b since ep] by (cases "bus_closed b") auto
  then show ?thesis using inv by simp
next
  case False
  let ?i = "bus_next_sub_id b + 1"
  have fresh: "bus_heap b ?i = None"
  proof (cases "bus_heap b ?i")
    case (Some s)
    with inv have "sub_ok b ?i s" unfolding bus_inv_def by blast
    then show ?thesis by (simp add: sub_ok_def)
  qed
  with inv have new: "?i \<notin> set (bus_subscribers b)" by (auto simp: bus_inv_def)
  define s :: "'a subscriber" where "s = \<lparr>sub_id = ?i, sub_ch = [], sub_closed = False, sub_lagged = False,
                  sub_got = [], sub_from = bus_next_seq b - 1\<rparr>"
  define b' where "b' = fst (Subscribe since ep b)"
  have b': "b' = b\<lparr>bus_next_sub_id := ?i, bus_subscribers := bus_subscribers b @ [?i],
               bus_heap := (bus_heap b)(?i := Some s)\<rparr>"
    using False unfolding b'_def s_def by (simp add: Subscribe_ok)
  have "sub_ok b' ?i s"
    using inv by (simp add: sub_ok_def b' s_def bus_inv_def)
  moreover have "sub_ok b' j t" if "bus_heap b j = Some t" "j \<noteq> ?i" for j t
  proof -
    have "sub_ok b j t" using inv that(1) by (simp add: bus_inv_def)
    then show ?thesis using that(2) by (auto simp: sub_ok_def b')
  qed
  ultimately have "\<forall>j t. bus_heap b' j = Some t \<longrightarrow> sub_ok b' j t"
    by (simp add: b')
  then show ?thesis
    using inv new False unfolding b'_def [symmetric] by (simp add: bus_inv_def b' del: One_nat_def)
qed

lemma close_in_apply: "close_in j h = (\<lambda>i. if i = j then map_option sub_close (h i) else h i)"
  by (auto simp: close_in_def fun_eq_iff split: option.splits)

lemma sub_close_idem [simp]: "sub_close (sub_close s) = sub_close s"
  by (simp add: sub_close_def)

lemma fold_close_in:
  "fold close_in ids h = (\<lambda>i. if i \<in> set ids then map_option sub_close (h i) else h i)"
  by (induction ids arbitrary: h) (auto simp: close_in_apply fun_eq_iff option.map_comp comp_def)

lemma bus_inv_Close: "bus_inv b \<Longrightarrow> bus_inv (Close b)"
  by (auto simp: bus_inv_def Close_def fold_close_in sub_ok_def sub_close_def split: if_splits)

lemma bus_inv_unsubscribe:
  assumes inv: "bus_inv b"
  shows "bus_inv (unsubscribe i b)"
proof -
  have "sub_ok (unsubscribe i b) j s'" if "bus_heap (unsubscribe i b) j = Some s'" for j s'
  proof (cases "bus_heap b j")
    case None
    then show ?thesis using that by (auto simp: unsubscribe_def close_in_def split: option.splits if_splits)
  next
    case (Some s)
    with inv have "sub_ok b j s" and "distinct (bus_subscribers b)" by (auto simp: bus_inv_def)
    then show ?thesis using that Some
      by (auto simp: unsubscribe_def close_in_def sub_ok_def sub_close_def split: option.splits if_splits)
  qed
  then show ?thesis using inv
    by (auto simp: bus_inv_def unsubscribe_def close_in_def dest: notin_set_remove1 [rotated] split: option.splits)
qed

lemma bus_inv_recv:
  assumes inv: "bus_inv b"
  shows "bus_inv (fst (recv_live i b))"
proof (cases "bus_heap b i")
  case None
  then show ?thesis using inv by (simp add: recv_live_def)
next
  case (Some s)
  with inv have ok: "sub_ok b i s" by (simp add: bus_inv_def)
  show ?thesis
  proof (cases "sub_ch s")
    case Nil
    then show ?thesis using inv Some by (simp add: recv_live_def)
  next
    case (Cons ev rest)
    let ?s' = "s\<lparr>sub_ch := rest, sub_got := sub_got s @ [ev]\<rparr>"
    have "sub_ok b i ?s'" using ok Cons by (auto simp: sub_ok_def)
    moreover have "sub_ok (b\<lparr>bus_heap := h\<rparr>) j t = sub_ok b j t" for h j t by (simp add: sub_ok_def)
    ultimately show ?thesis using inv Some Cons by (auto simp: recv_live_def bus_inv_def)
  qed
qed

lemma bus_inv_exec: "bus_inv b \<Longrightarrow> bus_inv (bus_exec op b)"
  by (cases op) (simp_all add: bus_inv_publish bus_inv_Subscribe bus_inv_unsubscribe bus_inv_Close bus_inv_recv)

lemma bus_inv_reachable: "bus_reachable epoch b \<Longrightarrow> bus_inv b"
  by (induction rule: bus_reachable.induct) (simp_all add: bus_inv_init bus_inv_exec)

lemma bus_inv_run: "bus_inv b \<Longrightarrow> bus_inv (bus_run ops b)"
  by (induction ops arbitrary: b) (simp_all add: bus_run_def bus_inv_exec)


section \<open>What the bus promises\<close>

lemma bus_run_Cons: "bus_run (op # ops) b = bus_run ops (bus_exec op b)"
  by (simp add: bus_run_def)

lemma bus_run_Nil [simp]: "bus_run [] b = b"
  by (simp add: bus_run_def)

lemma recv_live_frame:
  "bus_hist (fst (recv_live i b)) = bus_hist b" "bus_next_seq (fst (recv_live i b)) = bus_next_seq b"
  by (auto simp: recv_live_def split: option.splits list.splits)

lemma publish_seq [simp]: "bus_next_seq (fst (publish tp now p b)) = bus_next_seq b + 1"
  by (simp add: publish_def Let_def split: prod.splits)

lemma publish_hist:
  "\<exists>ev. bus_hist (fst (publish tp now p b)) = bus_hist b @ [ev] \<and> st_payload ev = p \<and> st_seq ev = bus_next_seq b"
  by (simp add: publish_def Let_def split: prod.splits)

lemma Subscribe_frame:
  "bus_hist (fst (Subscribe since ep b)) = bus_hist b" "bus_next_seq (fst (Subscribe since ep b)) = bus_next_seq b"
  by (auto simp: Subscribe_def Let_def)

lemma exec_hist_prefix: "prefix (bus_hist b) (bus_hist (bus_exec op b))"
proof (cases op)
  case (OpPublish tp now p)
  then show ?thesis using publish_hist [of tp now p b] by auto
qed (simp_all add: Subscribe_frame unsubscribe_def Close_def recv_live_frame)

lemma run_hist_prefix: "prefix (bus_hist b) (bus_hist (bus_run ops b))"
proof (induction ops arbitrary: b)
  case (Cons op ops)
  then show ?case unfolding bus_run_Cons using exec_hist_prefix prefix_order.trans by blast
qed simp

text \<open>A subscriber is never freed and its registration point never moves.\<close>

lemma exec_heap_from:
  assumes "bus_inv b" and "bus_heap b i = Some s"
  shows "\<exists>s'. bus_heap (bus_exec op b) i = Some s' \<and> sub_from s' = sub_from s"
proof (cases op)
  case (OpPublish tp now p)
  from assms(1) have "distinct (bus_subscribers b)" by (simp add: bus_inv_def)
  then show ?thesis using assms(2) OpPublish
    by (auto simp: publish_eq Let_def fan_heap_def send_live_def sub_close_def)
next
  case (OpSubscribe since ep)
  have "i \<noteq> bus_next_sub_id b + 1"
    using assms unfolding bus_inv_def sub_ok_def by fastforce
  then show ?thesis using assms(2) OpSubscribe by (auto simp: Subscribe_def Let_def)
next
  case (OpRecv j)
  then show ?thesis using assms(2) by (auto simp: recv_live_def split: option.splits list.splits)
qed (use assms(2) in \<open>auto simp: unsubscribe_def Close_def fold_close_in close_in_apply sub_close_def\<close>)

lemma run_heap_from:
  assumes "bus_inv b" and "bus_heap b i = Some s"
  shows "\<exists>s'. bus_heap (bus_run ops b) i = Some s' \<and> sub_from s' = sub_from s"
  using assms
proof (induction ops arbitrary: b s)
  case Nil
  then show ?case by simp
next
  case (Cons op ops)
  from exec_heap_from [OF Cons.prems] obtain t
    where t: "bus_heap (bus_exec op b) i = Some t" "sub_from t = sub_from s" by blast
  from Cons.IH [OF bus_inv_exec [OF Cons.prems(1)] t(1)] t(2) show ?case
    by (simp add: bus_run_Cons)
qed

text \<open>The events a subscriber at \<open>since\<close> is owed: those after its cursor, or, for a
  snapshot (\<open>since = 0\<close>), those the ring still holds and all later ones.\<close>

definition owed_from :: "nat \<Rightarrow> 'p bus \<Rightarrow> nat" where
  "owed_from since b = (if 0 < since then since else length (bus_hist b) - RingCapacity)"

lemma hist_nth_seq: "bus_inv b \<Longrightarrow> i < length (bus_hist b) \<Longrightarrow> st_seq (bus_hist b ! i) = i + 1"
proof -
  assume inv: "bus_inv b" and i: "i < length (bus_hist b)"
  then have "map st_seq (bus_hist b) ! i = [1..<length (bus_hist b) + 1] ! i" by (simp add: bus_inv_def)
  then show ?thesis using i by (simp del: upt_Suc)
qed

lemma filter_seq_drop:
  assumes inv: "bus_inv b" and k: "k \<le> since"
  shows "filter (\<lambda>ev. since < st_seq ev) (drop k (bus_hist b)) = drop since (bus_hist b)"
proof -
  let ?h = "bus_hist b"
  have "drop k ?h = take (since - k) (drop k ?h) @ drop since ?h"
    using k by (metis append_take_drop_id drop_drop le_add_diff_inverse2)
  moreover have "filter (\<lambda>ev. since < st_seq ev) (take (since - k) (drop k ?h)) = []"
    using k hist_nth_seq [OF inv]
    by (auto simp: filter_empty_conv in_set_conv_nth)
  moreover have "filter (\<lambda>ev. since < st_seq ev) (drop since ?h) = drop since ?h"
    using hist_nth_seq [OF inv] by (auto simp: filter_id_conv in_set_conv_nth)
  ultimately show ?thesis by (metis append_Nil filter_append)
qed

lemma replay_eq:
  assumes inv: "bus_inv b" and ok: "\<not> cursor_refused since ep b"
  shows "filter (\<lambda>ev. since < st_seq ev) (bus_ring b) = drop (owed_from since b) (bus_hist b)"
    and "owed_from since b \<le> length (bus_hist b)"
proof -
  let ?n = "length (bus_hist b)" and ?k = "length (bus_hist b) - RingCapacity"
  have ring: "bus_ring b = drop ?k (bus_hist b)" and ns: "bus_next_seq b = ?n + 1"
    using inv by (simp_all add: bus_inv_def)
  have sl: "since \<le> ?n" using ok ns by (auto simp: cursor_refused_def)
  then show "owed_from since b \<le> ?n" by (simp add: owed_from_def)
  show "filter (\<lambda>ev. since < st_seq ev) (bus_ring b) = drop (owed_from since b) (bus_hist b)"
  proof (cases "0 < since")
    case False
    then have "filter (\<lambda>ev. since < st_seq ev) (bus_ring b) = bus_ring b"
      unfolding ring using hist_nth_seq [OF inv] by (auto simp: filter_id_conv in_set_conv_nth)
    then show ?thesis using False ring by (simp add: owed_from_def)
  next
    case True
    have "?k \<le> since"
    proof (cases "bus_ring b = []")
      case True
      then have "?n \<le> ?k" using ring by simp
      then have "?n = 0" using RingCapacity_pos by linarith
      then show ?thesis by simp
    next
      case False
      then have "?k < ?n" using ring by auto
      then have "st_seq (hd (bus_ring b)) = ?k + 1"
        using hist_nth_seq [OF inv] by (simp add: ring hd_drop_conv_nth)
      then show ?thesis using ok True False by (auto simp: cursor_refused_def)
    qed
    then show ?thesis using filter_seq_drop [OF inv] True by (simp add: ring owed_from_def)
  qed
qed

lemma subscription_stream:
  assumes inv: "bus_inv b" and sub: "Subscribe since ep b = (b1, Inr sn)" and live: "sn_live sn = Some i"
    and run: "b2 = bus_run ops b1"
  obtains s where "bus_heap b2 i = Some s"
    and "prefix (sn_replay sn @ sub_got s @ sub_ch s) (drop (owed_from since b) (bus_hist b2))"
    and "i \<in> set (bus_subscribers b2) \<Longrightarrow>
      sn_replay sn @ sub_got s @ sub_ch s = drop (owed_from since b) (bus_hist b2)"
    and "sub_lagged s \<Longrightarrow> sub_closed s \<and> i \<notin> set (bus_subscribers b2)"
    and "sub_closed s \<longleftrightarrow> i \<notin> set (bus_subscribers b2)"
proof -
  have nc: "\<not> bus_closed b"
    using sub live Subscribe_closed [of b since ep] by auto
  have nr: "\<not> cursor_refused since ep b"
    using sub nc Subscribe_refused [of b since ep] by auto
  note eq = Subscribe_ok [OF nc nr]
  have i: "i = bus_next_sub_id b + 1" and rep: "sn_replay sn = drop (owed_from since b) (bus_hist b)"
    using sub live replay_eq(1) [OF inv nr] by (auto simp: eq)
  let ?n = "length (bus_hist b)"
  obtain s0 where s0: "bus_heap b1 i = Some s0" "sub_from s0 = ?n"
    using sub inv by (auto simp: eq i bus_inv_def)
  have inv1: "bus_inv b1" using bus_inv_Subscribe [OF inv, of since ep] sub by simp
  obtain s where s: "bus_heap b2 i = Some s" "sub_from s = ?n"
    using run_heap_from [OF inv1 s0(1)] s0(2) run by auto
  have inv2: "bus_inv b2" using bus_inv_run [OF inv1] run by simp
  then have ok: "sub_ok b2 i s" using s(1) by (simp add: bus_inv_def)
  have hp: "prefix (bus_hist b) (bus_hist b2)"
    using run_hist_prefix [of b1 ops] sub run Subscribe_frame(1) [of since ep b] by simp
  have split: "drop (owed_from since b) (bus_hist b2)
      = drop (owed_from since b) (bus_hist b) @ drop ?n (bus_hist b2)"
    using hp replay_eq(2) [OF inv nr] by (auto simp: prefix_def)
  show ?thesis
    by (rule that [OF s(1)]) (use ok s(2) in \<open>auto simp: sub_ok_def split rep\<close>)
qed

text \<open>Only an overrun, a cancel of that very subscription or the shutdown closes a live channel.\<close>

lemma closed_only_by_overrun_step:
  assumes inv: "bus_inv b" and op: "op \<noteq> OpClose" "op \<noteq> OpCancel i"
    and P: "\<And>s. bus_heap b i = Some s \<Longrightarrow> sub_closed s \<Longrightarrow> sub_lagged s"
    and s: "bus_heap (bus_exec op b) i = Some s" "sub_closed s"
  shows "sub_lagged s"
proof (cases op)
  case (OpPublish tp now p)
  have "distinct (bus_subscribers b)" using inv by (simp add: bus_inv_def)
  then show ?thesis using s P OpPublish
    by (auto simp: publish_eq Let_def fan_heap_def send_live_def sub_close_def split: if_splits)
next
  case (OpSubscribe since ep)
  then show ?thesis using s P by (auto simp: Subscribe_def Let_def split: if_splits)
next
  case (OpCancel j)
  then show ?thesis using s P op by (auto simp: unsubscribe_def close_in_def split: option.splits if_splits)
next
  case (OpRecv j)
  then show ?thesis using s P by (auto simp: recv_live_def split: option.splits list.splits if_splits)
qed (use op in simp)

lemma closed_only_by_overrun:
  assumes "bus_inv b" and "\<And>s. bus_heap b i = Some s \<Longrightarrow> sub_closed s \<Longrightarrow> sub_lagged s"
    and "OpClose \<notin> set ops" and "OpCancel i \<notin> set ops"
    and "bus_heap (bus_run ops b) i = Some s" and "sub_closed s"
  shows "sub_lagged s"
  using assms
proof (induction ops arbitrary: b)
  case (Cons op ops)
  have "bus_inv (bus_exec op b)" using bus_inv_run [OF Cons.prems(1), of "[op]"] by (simp add: bus_run_def)
  moreover have "sub_lagged s'" if "bus_heap (bus_exec op b) i = Some s'" "sub_closed s'" for s'
    using closed_only_by_overrun_step [OF Cons.prems(1) _ _ Cons.prems(2) that] Cons.prems(3,4) by auto
  ultimately show ?case using Cons.IH Cons.prems(3-6) by (simp add: bus_run_Cons)
qed (simp add: bus_run_def)

lemma drop_hist_seqs:
  assumes "bus_inv b"
  shows "map st_seq (drop k (bus_hist b)) = [k + 1..<bus_next_seq b]"
proof -
  have "map st_seq (drop k (bus_hist b)) = drop k (map st_seq (bus_hist b))" by (simp add: drop_map)
  then show ?thesis using assms by (simp add: bus_inv_def del: upt_Suc)
qed

text \<open>
  The bus as its publishing clients see it: a publish appends its payload to what the bus
  has published so far. The presence publisher and the board projection rest on this
  interface.
\<close>

locale event_publisher =
  fixes pub :: "'p \<Rightarrow> 'b \<Rightarrow> 'b"
    and published :: "'b \<Rightarrow> 'p list"
  assumes published_pub: "published (pub p b) = published b @ [p]"
begin

lemma published_fold: "published (fold pub ps b) = published b @ ps"
  by (induction ps arbitrary: b) (simp_all add: published_pub)

lemma filter_published_pub:
  "filter P (published (pub p b)) = filter P (published b) @ (if P p then [p] else [])"
  by (simp add: published_pub)

end

abbreviation published :: "'p bus \<Rightarrow> 'p list" where
  "published b \<equiv> map st_payload (bus_hist b)"

interpretation bus: event_publisher "\<lambda>p b. fst (publish tp now p b)" published for tp now
proof
  show "published (fst (publish tp now p b)) = published b @ [p]" for p and b :: "'a bus"
    using publish_hist [of tp now p b] by auto
qed

lemma nextSeq_bound: "bus_next_seq (bus_run ops b) \<le> bus_next_seq b + length ops"
proof (induction ops arbitrary: b)
  case (Cons op ops)
  have "bus_next_seq (bus_exec op b) \<le> bus_next_seq b + 1"
    by (cases op) (simp_all add: Subscribe_frame recv_live_frame unsubscribe_def Close_def)
  then show ?case using Cons.IH [of "bus_exec op b"] by (simp add: bus_run_Cons)
qed simp

section \<open>Properties\<close>

text \<open>C1: gap-free resubscribe. From any reachable bus, a successful \<open>Subscribe\<close> at a cursor,
  followed by any interleaving of publishes, other subscribes, cancels and receives: as long
  as the subscriber is still registered, its replay, the events it has taken off the live
  channel and those still buffered are together exactly the published events after its
  cursor (after the ring's oldest event for a snapshot), in order, none twice, none missing.\<close>

theorem gap_free_stream:
  assumes "bus_reachable epoch b"
    and "Subscribe since ep b = (b1, Inr sn)" and "sn_live sn = Some i"
    and "b2 = bus_run ops b1" and "bus_heap b2 i = Some s" and "i \<in> set (bus_subscribers b2)"
  shows "sn_replay sn @ sub_got s @ sub_ch s = drop (owed_from since b) (bus_hist b2)
    \<and> map st_seq (sn_replay sn @ sub_got s @ sub_ch s) = [owed_from since b + 1..<bus_next_seq b2]"
proof -
  have inv: "bus_inv b" using assms(1) by (rule bus_inv_reachable)
  then have inv2: "bus_inv b2"
    using bus_inv_run [OF bus_inv_Subscribe [OF inv, of since ep], of ops] assms(2,4) by simp
  have "sn_replay sn @ sub_got s @ sub_ch s = drop (owed_from since b) (bus_hist b2)"
    by (rule subscription_stream [OF inv assms(2,3,4)]) (use assms(5,6) in auto)
  then show ?thesis using drop_hist_seqs [OF inv2] by metis
qed

theorem gap_free_stream_witness:
  "\<exists>(sn :: string subscription) (s :: string subscriber). sn_replay sn @ sub_got s @ sub_ch s
     = drop (owed_from 1 (bus_run [OpPublish [] 0 ''a'', OpPublish [] 1 ''b''] (NewBus 7)))
         (bus_hist (bus_run [OpPublish [] 2 ''c'', OpRecv 1, OpPublish [] 3 ''d'']
            (fst (Subscribe 1 7 (bus_run [OpPublish [] 0 ''a'', OpPublish [] 1 ''b''] (NewBus 7))))))
     \<and> map st_payload (sn_replay sn @ sub_got s @ sub_ch s) = [''b'', ''c'', ''d'']"
proof -
  define b :: "string bus" where "b = bus_run [OpPublish [] 0 ''a'', OpPublish [] 1 ''b''] (NewBus 7)"
  have r: "bus_reachable 7 b"
    unfolding b_def bus_run_def by (simp del: bus_exec.simps) (intro bus_reachable.intros)
  define ops :: "string bus_op list" where "ops = [OpPublish [] 2 ''c'', OpRecv 1, OpPublish [] 3 ''d'']"
  obtain sn where sn: "Subscribe 1 7 b = (fst (Subscribe 1 7 b), Inr sn)" "sn_live sn = Some 1"
      "map st_payload (sn_replay sn) = [''b'']"
    by (simp add: b_def bus_run_def NewBus_def publish_def Subscribe_def RingCapacity_def Let_def)
  define b2 where "b2 = bus_run ops (fst (Subscribe 1 7 b))"
  obtain s where s: "bus_heap b2 1 = Some s" "1 \<in> set (bus_subscribers b2)"
      "map st_payload (sub_got s @ sub_ch s) = [''c'', ''d'']"
    by (simp add: b2_def ops_def b_def bus_run_def NewBus_def publish_def Subscribe_def RingCapacity_def Let_def
        send_to_def send_live_def liveBufferCapacity_def recv_live_def)
  note g = gap_free_stream [OF r sn(1,2) b2_def s(1,2)]
  show ?thesis
    unfolding b_def [symmetric] ops_def [symmetric] b2_def [symmetric]
    by (rule exI [of _ sn], rule exI [of _ s], rule conjI [OF g [THEN conjunct1]])
       (simp only: map_append sn(3) s(3) [unfolded map_append] append_Cons append_Nil)
qed

text \<open>The verdict on a cursor. On an open reachable bus \<open>Subscribe\<close> refuses exactly the
  cursors no gap-free replay can serve: a positioned cursor of another boot, a cursor past
  the last published event, or one whose next event was already evicted from the ring.\<close>

theorem subscribe_verdict:
  assumes "bus_reachable epoch b" and "\<not> bus_closed b"
  shows "snd (Subscribe since ep b) = Inl ErrBufferUnderflow \<longleftrightarrow>
    (0 < since \<and> ep \<noteq> bus_epoch b) \<or> length (bus_hist b) < since
    \<or> (0 < since \<and> since < length (bus_hist b) - RingCapacity)"
proof -
  have inv: "bus_inv b" using assms(1) by (rule bus_inv_reachable)
  let ?n = "length (bus_hist b)"
  have ns: "bus_next_seq b = ?n + 1" and ring: "bus_ring b = drop (?n - RingCapacity) (bus_hist b)"
    using inv by (simp_all add: bus_inv_def)
  have hd: "st_seq (hd (bus_ring b)) = ?n - RingCapacity + 1" if "bus_ring b \<noteq> []"
    using that hist_nth_seq [OF inv] by (simp add: ring hd_drop_conv_nth)
  have "cursor_refused since ep b \<longleftrightarrow>
    (0 < since \<and> ep \<noteq> bus_epoch b) \<or> ?n < since \<or> (0 < since \<and> since < ?n - RingCapacity)"
  proof (cases "bus_ring b = []")
    case True
    then have "?n = 0" using ring RingCapacity_pos by (metis diff_less drop_eq_Nil2 gr0I leD)
    then show ?thesis using True by (auto simp: cursor_refused_def ns)
  next
    case False
    then show ?thesis using hd by (auto simp: cursor_refused_def ns)
  qed
  then show ?thesis using Subscribe_refused [OF assms(2)] Subscribe_ok [OF assms(2)] by (cases "cursor_refused since ep b") auto
qed

theorem subscribe_verdict_witness:
  "snd (Subscribe 2 7 (bus_run [OpPublish [] 0 ''a''] (NewBus 7))) = Inl ErrBufferUnderflow"
proof -
  have "bus_reachable 7 (bus_run [OpPublish [] 0 ''a''] (NewBus 7))"
    unfolding bus_run_def by (simp del: bus_exec.simps) (intro bus_reachable.intros)
  moreover have "\<not> bus_closed (bus_run [OpPublish [] 0 ''a''] (NewBus 7))"
    by (simp add: bus_run_def NewBus_def publish_def Let_def)
  ultimately show ?thesis
    by (subst subscribe_verdict) (simp_all add: bus_run_def NewBus_def publish_def Let_def)
qed

text \<open>C29: an overrun is never silent. Whatever happens after a successful \<open>Subscribe\<close>, the
  stream the client has seen is a prefix of the one it is owed; the live channel is closed
  exactly when the subscriber left the fan-out set; the lag latch is set only on a closed
  channel that really missed an event; and a channel closed by neither the shutdown nor its
  own cancel always has it set. So \<open>Lagged\<close> tells an overrun from a clean shutdown.\<close>

theorem overrun_signalled:
  assumes "bus_reachable epoch b"
    and "Subscribe since ep b = (b1, Inr sn)" and "sn_live sn = Some i" and "b2 = bus_run ops b1"
  shows "\<exists>s. bus_heap b2 i = Some s
    \<and> prefix (sn_replay sn @ sub_got s @ sub_ch s) (drop (owed_from since b) (bus_hist b2))
    \<and> (sub_closed s \<longleftrightarrow> i \<notin> set (bus_subscribers b2))
    \<and> (Lagged sn b2 \<longrightarrow> sub_closed s \<and>
         sn_replay sn @ sub_got s @ sub_ch s \<noteq> drop (owed_from since b) (bus_hist b2))
    \<and> (sub_closed s \<and> OpClose \<notin> set ops \<and> OpCancel i \<notin> set ops \<longrightarrow> Lagged sn b2)"
proof -
  have inv: "bus_inv b" using assms(1) by (rule bus_inv_reachable)
  have inv2: "bus_inv b2"
    using bus_inv_run [OF bus_inv_Subscribe [OF inv, of since ep], of ops] assms(2,4) by simp
  have nc: "\<not> bus_closed b" using assms(2,3) Subscribe_closed [of b since ep] by auto
  have nr: "\<not> cursor_refused since ep b" using assms(2) nc Subscribe_refused [of b since ep] by auto
  have rep: "sn_replay sn = drop (owed_from since b) (bus_hist b)"
    using assms(2) replay_eq(1) [OF inv nr] by (auto simp: Subscribe_ok [OF nc nr])
  obtain s0 where s0: "bus_heap b1 i = Some s0" "sub_from s0 = length (bus_hist b)" and s0c: "\<not> sub_closed s0"
    using assms(2,3) inv by (auto simp: Subscribe_ok [OF nc nr] bus_inv_def)
  obtain s where s: "bus_heap b2 i = Some s" "sub_from s = length (bus_hist b)"
    using run_heap_from [OF _ s0(1), of ops] bus_inv_Subscribe [OF inv, of since ep] s0(2) assms(2,4) by auto
  have ok: "sub_ok b2 i s" using inv2 s(1) by (simp add: bus_inv_def)
  have le: "owed_from since b \<le> length (bus_hist b)" using replay_eq(2) [OF inv nr] .
  have "length (sn_replay sn @ sub_got s @ sub_ch s) < length (drop (owed_from since b) (bus_hist b2))"
    if "sub_lagged s" using that ok s(2) rep le by (auto simp: sub_ok_def)
  then have "sn_replay sn @ sub_got s @ sub_ch s \<noteq> drop (owed_from since b) (bus_hist b2)" if "sub_lagged s"
    using that by (metis less_irrefl)
  moreover have lag: "Lagged sn b2 = sub_lagged s" using assms(3) s(1) by (simp add: Lagged_def)
  moreover have "sub_lagged s" if "sub_closed s" "OpClose \<notin> set ops" "OpCancel i \<notin> set ops"
    using closed_only_by_overrun [of b1 i ops s] bus_inv_Subscribe [OF inv, of since ep] assms(2,4) s0(1) s0c s(1) that by auto
  moreover have "prefix (sn_replay sn @ sub_got s @ sub_ch s) (drop (owed_from since b) (bus_hist b2))"
    by (rule subscription_stream [OF inv assms(2,3,4)]) (use s(1) in auto)
  ultimately show ?thesis using s(1) ok by (auto simp: sub_ok_def)
qed

theorem overrun_signalled_witness:
  "\<exists>s. bus_heap (bus_run [OpPublish [] 0 ''a'', OpClose] (fst (Subscribe 0 0 (NewBus 7)))) 1 = Some s
     \<and> sub_closed s \<and> \<not> sub_lagged s"
proof -
  have r: "bus_reachable 7 (NewBus 7 :: string bus)" by (rule bus_reachable.init)
  obtain sn where sn: "Subscribe 0 0 (NewBus 7 :: string bus) = (fst (Subscribe 0 0 (NewBus 7)), Inr sn)"
      "sn_live sn = Some 1"
    by (simp add: NewBus_def Subscribe_def Let_def)
  define b2 :: "string bus" where "b2 = bus_run [OpPublish [] 0 ''a'', OpClose] (fst (Subscribe 0 0 (NewBus 7)))"
  from overrun_signalled [OF r sn b2_def] obtain s
    where s: "bus_heap b2 1 = Some s" "sub_closed s \<longleftrightarrow> 1 \<notin> set (bus_subscribers b2)" by blast
  moreover have "bus_subscribers b2 = []" by (simp add: b2_def bus_run_def Close_def)
  moreover have "\<not> sub_lagged s"
    using s(1) by (auto simp: b2_def bus_run_def NewBus_def Subscribe_def publish_def Let_def Close_def
      send_to_def send_live_def liveBufferCapacity_def RingCapacity_def close_in_def sub_close_def)
  ultimately show ?thesis unfolding b2_def by auto
qed

lemma closed_sticky:
  assumes "bus_closed b" and "bus_subscribers b = []"
  shows "bus_closed (bus_run ops b) \<and> bus_subscribers (bus_run ops b) = []"
  using assms
proof (induction ops arbitrary: b)
  case (Cons op ops)
  have "bus_closed (bus_exec op b) \<and> bus_subscribers (bus_exec op b) = []"
  proof (cases op)
    case (OpRecv i)
    then show ?thesis using Cons.prems by (auto simp: recv_live_def split: option.splits list.splits)
  qed (use Cons.prems in \<open>simp_all add: publish_def Let_def Subscribe_def unsubscribe_def Close_def\<close>)
  then show ?case using Cons.IH by (simp add: bus_run_Cons)
qed simp

text \<open>A clean shutdown. \<open>Close\<close> closes the live channel of every registered subscriber
  without setting its lag latch or touching its buffered events, is idempotent, and is
  sticky: whatever runs afterwards, nobody is registered again and every \<open>Subscribe\<close> returns
  the terminal stream, whatever its cursor.\<close>

theorem close_is_clean:
  "(\<forall>i. bus_heap (Close b) i = (if i \<in> set (bus_subscribers b) then map_option sub_close (bus_heap b i)
                                else bus_heap b i))
   \<and> Close (Close b) = Close b
   \<and> bus_subscribers (bus_run ops (Close b)) = []
   \<and> snd (Subscribe since ep (bus_run ops (Close b)))
       = Inr \<lparr>sn_replay = [], sn_live = None, sn_epoch = bus_epoch (bus_run ops (Close b)),
              sn_head_seq = bus_next_seq (bus_run ops (Close b)) - 1\<rparr>"
proof -
  have c: "bus_closed (Close b)" "bus_subscribers (Close b) = []" by (simp_all add: Close_def)
  show ?thesis
    using closed_sticky [OF c, of ops] by (simp add: Subscribe_closed) (simp add: Close_def fold_close_in)
qed

text \<open>The lazy rebuild of the fan-out list. The loop that keeps the slice until the first
  drop and then rebuilds it computes the list of subscribers that took the event, and each
  subscriber gets the event at most once.\<close>

theorem fan_out_is_filter:
  assumes "distinct ids"
  shows "(case fst (fan_out ev [] ids None h) of None \<Rightarrow> ids | Some l \<Rightarrow> l) = filter (kept ev h) ids
    \<and> snd (fan_out ev [] ids None h) = fan_heap ev ids h"
  using fan_out_ref [OF assms, of ev h] by (metis prod.collapse)

theorem fan_out_is_filter_witness:
  "(case fst (fan_out \<lparr>st_seq = 1, st_at_unix_ms = 0, st_instance_epoch = 7, st_payload = ''a'', st_traceparent = []\<rparr>
       [] [1, 2] None (\<lambda>_. None)) of None \<Rightarrow> [1, 2] | Some l \<Rightarrow> l)
   = filter (kept \<lparr>st_seq = 1, st_at_unix_ms = 0, st_instance_epoch = 7, st_payload = ''a'', st_traceparent = []\<rparr>
       (\<lambda>_. None)) [1, 2]"
  by (rule fan_out_is_filter [THEN conjunct1]) simp

end
