(* ===== verification/Refs.thy ===== *)
theory Refs
  imports Go_Prelude
begin

text \<open>
  Work references in text, \<open>src/go/internal/refs/refs.go\<close>: a tracker key such as \<open>RIG-12\<close>
  and a forge ref such as \<open>owner/repo#12\<close>. The scanner works on byte offsets; the model
  keeps them, and the loops are recursive functions on the offset. A ref number is a
  \<open>nat\<close>: \<open>number\<close> rejects a value over \<open>MaxNumber\<close>, which is far below \<open>2^64\<close>.
\<close>

section \<open>Model\<close>

datatype ref_kind = KindTracker | KindForge

record Ref =
  r_kind :: ref_kind
  r_key :: string
  r_owner :: string
  r_repo :: string
  r_number :: nat

record Span =
  sp_start :: nat
  sp_end :: nat
  sp_ref :: Ref

datatype ref_error = ErrInvalid string

definition maxKeyLen :: nat where
  "maxKeyLen = 10"

definition MaxNumber :: nat where
  "MaxNumber = 2 ^ 53 - 1"

definition isUpper :: "char \<Rightarrow> bool" where
  "isUpper c \<longleftrightarrow> 65 \<le> (of_char c :: nat) \<and> (of_char c :: nat) \<le> 90"

definition isDigit :: "char \<Rightarrow> bool" where
  "isDigit c \<longleftrightarrow> 48 \<le> (of_char c :: nat) \<and> (of_char c :: nat) \<le> 57"

definition isWord :: "char \<Rightarrow> bool" where
  "isWord c \<longleftrightarrow> isDigit c \<or> isUpper c \<or> (97 \<le> (of_char c :: nat) \<and> (of_char c :: nat) \<le> 122) \<or> c = CHR ''_''"

definition isNameByte :: "char \<Rightarrow> bool" where
  "isNameByte c \<longleftrightarrow> isWord c \<or> c = CHR ''.'' \<or> c = CHR ''-''"

definition isSpace :: "char \<Rightarrow> bool" where
  "isSpace c \<longleftrightarrow> c = CHR '' '' \<or> c = CHR 0x09 \<or> c = CHR 0x0A \<or> c = CHR 0x0D"

definition blocksStart :: "char \<Rightarrow> bool" where
  "blocksStart c \<longleftrightarrow> isNameByte c \<or> c = CHR ''/'' \<or> c = CHR ''#''"

definition blocksEnd :: "char \<Rightarrow> bool" where
  "blocksEnd c \<longleftrightarrow> isWord c \<or> c = CHR ''/'' \<or> c = CHR ''#'' \<or> c = CHR ''-''"

function run :: "(char \<Rightarrow> bool) \<Rightarrow> string \<Rightarrow> nat \<Rightarrow> nat" where
  "run p s i = (if i < length s \<and> p (s ! i) then run p s (i + 1) else i)"
  by pat_completeness auto
termination by (relation "measure (\<lambda>(p, s, i). length s - i)") auto

declare run.simps [simp del]

text \<open>The Go slice expression \<open>s[i:j]\<close>.\<close>

definition slice :: "string \<Rightarrow> nat \<Rightarrow> nat \<Rightarrow> string" where
  "slice s i j = take (j - i) (drop i s)"

definition number :: "string \<Rightarrow> nat \<Rightarrow> (nat \<times> nat) option" where
  "number s i =
     (let e = run isDigit s i
      in if e = i then None
         else case ParseUint (slice s i e) of
                None \<Rightarrow> None
              | Some n \<Rightarrow> if MaxNumber < n then None else Some (n, e))"

definition matchForge :: "string \<Rightarrow> nat \<Rightarrow> (Ref \<times> nat) option" where
  "matchForge s i =
     (let ownerEnd = run isNameByte s i
      in if ownerEnd = i \<or> length s \<le> ownerEnd \<or> s ! ownerEnd \<noteq> CHR ''/'' then None
         else let repoEnd = run isNameByte s (ownerEnd + 1)
              in if repoEnd = ownerEnd + 1 \<or> length s \<le> repoEnd \<or> s ! repoEnd \<noteq> CHR ''#'' then None
                 else case number s (repoEnd + 1) of
                        None \<Rightarrow> None
                      | Some (n, e) \<Rightarrow>
                          Some (\<lparr>r_kind = KindForge, r_key = [], r_owner = ToLower (slice s i ownerEnd),
                                 r_repo = ToLower (slice s (ownerEnd + 1) repoEnd), r_number = n\<rparr>, e))"

definition isKeyByte :: "char \<Rightarrow> bool" where
  "isKeyByte c \<longleftrightarrow> isUpper c \<or> isDigit c"

definition matchTracker :: "string \<Rightarrow> nat \<Rightarrow> (Ref \<times> nat) option" where
  "matchTracker s i =
     (if length s \<le> i \<or> \<not> isUpper (s ! i) then None
      else let keyEnd = run isKeyByte s (i + 1)
           in if keyEnd - i < 2 \<or> maxKeyLen < keyEnd - i \<or> length s \<le> keyEnd \<or> s ! keyEnd \<noteq> CHR ''-'' then None
              else case number s (keyEnd + 1) of
                     None \<Rightarrow> None
                   | Some (n, e) \<Rightarrow>
                       Some (\<lparr>r_kind = KindTracker, r_key = slice s i keyEnd, r_owner = [], r_repo = [], r_number = n\<rparr>, e))"

definition matchAt :: "string \<Rightarrow> nat \<Rightarrow> (Ref \<times> nat) option" where
  "matchAt s i = (case matchForge s i of Some re \<Rightarrow> Some re | None \<Rightarrow> matchTracker s i)"

definition Parse :: "string \<Rightarrow> ref_error + Ref" where
  "Parse s = (case matchAt s 0 of
                Some (r, e) \<Rightarrow> if e = length s then Inr r else Inl (ErrInvalid s)
              | None \<Rightarrow> Inl (ErrInvalid s))"

definition String :: "Ref \<Rightarrow> string" where
  "String r =
     (let n = FormatUint (r_number r)
      in if r_kind r = KindForge then r_owner r @ ''/'' @ r_repo r @ ''#'' @ n else r_key r @ ''-'' @ n)"

definition tokenEnd :: "string \<Rightarrow> nat \<Rightarrow> nat" where
  "tokenEnd s i = run (\<lambda>c. \<not> isSpace c) s i"

fun Contains :: "string \<Rightarrow> string \<Rightarrow> bool" where
  "Contains s t = (take (length t) s = t \<or> (case s of [] \<Rightarrow> False | _ # s' \<Rightarrow> Contains s' t))"

declare Contains.simps [simp del]

section \<open>Runs\<close>

lemma run_eq: "run p s i = i + length (takeWhile p (drop i s))"
proof (induction p s i rule: run.induct)
  case (1 p s i)
  show ?case
  proof (cases "i < length s \<and> p (s ! i)")
    case True
    then have "run p s i = run p s (i + 1)" by (subst run.simps) simp
    moreover have "drop i s = s ! i # drop (i + 1) s" using True by (simp add: Cons_nth_drop_Suc)
    ultimately show ?thesis using True 1 by simp
  next
    case False
    then have "run p s i = i" by (subst run.simps) auto
    moreover have "takeWhile p (drop i s) = []"
      using False by (cases "i < length s") (auto simp: Cons_nth_drop_Suc [symmetric])
    ultimately show ?thesis by simp
  qed
qed

lemma run_ge: "i \<le> run p s i"
  by (simp add: run_eq)

lemma run_le: "i \<le> length s \<Longrightarrow> run p s i \<le> length s"
  using length_takeWhile_le [of p "drop i s"] by (simp add: run_eq)

lemma slice_run: "slice s i (run p s i) = takeWhile p (drop i s)"
  by (simp add: slice_def run_eq takeWhile_eq_take [symmetric])

lemma number_gt: "number s i = Some (n, e) \<Longrightarrow> i < e \<and> e \<le> length s"
proof -
  assume a: "number s i = Some (n, e)"
  then have e: "e = run isDigit s i" "e \<noteq> i" by (auto simp: number_def Let_def split: if_splits option.splits)
  then have "i < length s" by (subst (asm) run.simps) (auto split: if_splits)
  then show ?thesis using e run_ge [of i isDigit s] run_le [of i s isDigit] by auto
qed

lemma matchForge_gt: "matchForge s i = Some (r, e) \<Longrightarrow> i < e \<and> e \<le> length s"
proof -
  assume "matchForge s i = Some (r, e)"
  then obtain n where "number s (run isNameByte s (run isNameByte s i + 1) + 1) = Some (n, e)"
    by (auto simp: matchForge_def Let_def split: if_splits option.splits)
  then show ?thesis
    using number_gt run_ge [of i isNameByte s] run_ge [of "run isNameByte s i + 1" isNameByte s] by fastforce
qed

lemma matchTracker_gt: "matchTracker s i = Some (r, e) \<Longrightarrow> i < e \<and> e \<le> length s"
proof -
  assume "matchTracker s i = Some (r, e)"
  then obtain n where "number s (run isKeyByte s (i + 1) + 1) = Some (n, e)"
    by (auto simp: matchTracker_def Let_def split: if_splits option.splits)
  then show ?thesis using number_gt run_ge [of "i + 1" isKeyByte s] by fastforce
qed

lemma matchAt_gt: "matchAt s i = Some (r, e) \<Longrightarrow> i < e \<and> e \<le> length s"
  by (auto simp: matchAt_def dest: matchForge_gt matchTracker_gt split: option.splits)

section \<open>Scan\<close>

function scan_from :: "string \<Rightarrow> nat \<Rightarrow> Span list" where
  "scan_from tx i =
     (if length tx \<le> i then []
      else if (i = 0 \<or> isSpace (tx ! (i - 1))) \<and> Contains (slice tx i (tokenEnd tx i)) ''://''
        then scan_from tx (tokenEnd tx i + 1)
      else if 0 < i \<and> blocksStart (tx ! (i - 1)) then scan_from tx (i + 1)
      else case matchAt tx i of
             None \<Rightarrow> scan_from tx (i + 1)
           | Some (r, e) \<Rightarrow>
               if e < length tx \<and> blocksEnd (tx ! e) then scan_from tx (i + 1)
               else \<lparr>sp_start = i, sp_end = e, sp_ref = r\<rparr> # scan_from tx e)"
  by pat_completeness auto
termination
proof (relation "measure (\<lambda>(tx, i). length tx - i)", goal_cases)
  case (2 tx i)
  then show ?case using run_ge [of i "\<lambda>c. \<not> isSpace c" tx] by (simp add: tokenEnd_def)
next
  case (6 tx i x r e)
  then show ?case using matchAt_gt [of tx i r e] by auto
qed auto

declare scan_from.simps [simp del]

definition Scan :: "string \<Rightarrow> Span list" where
  "Scan tx = scan_from tx 0"

section \<open>The grammar the matchers accept\<close>

definition num_ok :: "string \<Rightarrow> bool" where
  "num_ok ds \<longleftrightarrow> ds \<noteq> [] \<and> list_all isDigit ds \<and> digits_value 0 ds \<le> MaxNumber"

definition stops :: "(char \<Rightarrow> bool) \<Rightarrow> string \<Rightarrow> bool" where
  "stops p rest \<longleftrightarrow> rest = [] \<or> \<not> p (hd rest)"

lemma isDigit_eq: "isDigit = is_digit_byte"
  by (rule ext) (simp add: isDigit_def is_digit_byte_def)

lemma takeWhile_stops: "list_all p u \<Longrightarrow> stops p rest \<Longrightarrow> takeWhile p (u @ rest) = u"
  by (induction u) (auto simp: stops_def takeWhile_eq_Nil_iff)

lemma stops_dropWhile: "stops p (dropWhile p u)"
  by (cases "dropWhile p u = []") (auto simp: stops_def hd_dropWhile)

lemma list_all_takeWhile: "list_all p (takeWhile p u)"
  by (auto simp: list_all_iff dest: set_takeWhileD)

lemma run_split:
  assumes "drop i s = u @ rest" and "list_all p u" and "stops p rest"
  shows "run p s i = i + length u" and "slice s i (i + length u) = u" and "drop (i + length u) s = rest"
proof -
  have t: "takeWhile p (drop i s) = u" using assms by (simp add: takeWhile_stops)
  then show r: "run p s i = i + length u" by (simp add: run_eq)
  show "slice s i (i + length u) = u" using slice_run [of s i p] r t by simp
  show "drop (i + length u) s = rest" using assms(1) by (metis add.commute append_eq_conv_conj drop_drop)
qed

lemma run_split_ex:
  obtains u rest where "drop i s = u @ rest" and "list_all p u" and "stops p rest" and "run p s i = i + length u"
  using that [of "takeWhile p (drop i s)" "dropWhile p (drop i s)"]
  by (simp add: list_all_takeWhile stops_dropWhile run_eq)

lemma drop_Cons_iff: "(\<exists>v. drop j s = c # v) \<longleftrightarrow> j < length s \<and> s ! j = c"
  by (metis Cons_nth_drop_Suc drop_eq_Nil2 list.distinct(1) list.inject linorder_not_le)

lemma drop_ConsD: "drop j s = c # v \<Longrightarrow> j < length s \<and> s ! j = c"
  using drop_Cons_iff [of j s c] by auto

lemma drop_step: "drop j s = c # v \<Longrightarrow> drop (Suc j) s = v"
  by (metis drop_Suc list.sel(3) tl_drop)

lemma number_iff:
  "number s i = Some (n, e) \<longleftrightarrow>
     (\<exists>ds rest. drop i s = ds @ rest \<and> num_ok ds \<and> stops isDigit rest \<and> n = digits_value 0 ds \<and> e = i + length ds)"
  (is "?l \<longleftrightarrow> ?r")
proof
  assume l: ?l
  obtain ds rest where d: "drop i s = ds @ rest" "list_all isDigit ds" "stops isDigit rest"
    and r: "run isDigit s i = i + length ds" by (rule run_split_ex)
  have sl: "slice s i (i + length ds) = ds" by (rule run_split(2) [OF d])
  from l r sl d have "ds \<noteq> []" "digits_value 0 ds \<le> MaxNumber" "n = digits_value 0 ds" "e = i + length ds"
    by (auto simp: number_def Let_def ParseUint_def split: if_splits option.splits)
  then show ?r using d by (auto simp: num_ok_def)
next
  assume ?r
  then obtain ds rest where d: "drop i s = ds @ rest" "num_ok ds" "stops isDigit rest"
    and n: "n = digits_value 0 ds" "e = i + length ds" by blast
  have all: "list_all isDigit ds" using d(2) by (simp add: num_ok_def)
  note rs = run_split [OF d(1) all d(3)]
  have "MaxNumber < 2 ^ 64" by (simp add: MaxNumber_def)
  then have "ParseUint ds = Some (digits_value 0 ds)"
    using d(2) by (auto simp: ParseUint_def num_ok_def isDigit_eq)
  then show ?l using rs d(2) n by (auto simp: number_def num_ok_def)
qed

lemma not_name: "\<not> isNameByte (CHR ''/'')" "\<not> isNameByte (CHR ''#'')"
  by (simp_all add: isNameByte_def isWord_def isDigit_def isUpper_def)

lemma not_key: "\<not> isKeyByte (CHR ''-'')"
  by (simp add: isKeyByte_def isDigit_def isUpper_def)

definition forge_ref :: "string \<Rightarrow> string \<Rightarrow> string \<Rightarrow> Ref" where
  "forge_ref o1 p ds = \<lparr>r_kind = KindForge, r_key = [], r_owner = ToLower o1, r_repo = ToLower p,
     r_number = digits_value 0 ds\<rparr>"

definition tracker_ref :: "string \<Rightarrow> string \<Rightarrow> Ref" where
  "tracker_ref k ds = \<lparr>r_kind = KindTracker, r_key = k, r_owner = [], r_repo = [], r_number = digits_value 0 ds\<rparr>"

definition key_ok :: "string \<Rightarrow> bool" where
  "key_ok k \<longleftrightarrow> 2 \<le> length k \<and> length k \<le> maxKeyLen \<and> isUpper (hd k) \<and> list_all isKeyByte k"

definition name_ok :: "string \<Rightarrow> bool" where
  "name_ok u \<longleftrightarrow> u \<noteq> [] \<and> list_all isNameByte u"

lemma matchForge_iff:
  "matchForge s i = Some (r, e) \<longleftrightarrow>
     (\<exists>o1 p ds rest. drop i s = o1 @ CHR ''/'' # p @ CHR ''#'' # ds @ rest \<and> name_ok o1 \<and> name_ok p \<and> num_ok ds
        \<and> stops isDigit rest \<and> r = forge_ref o1 p ds \<and> e = i + length o1 + length p + length ds + 2)"
  (is "?l \<longleftrightarrow> ?r")
proof
  assume l: ?l
  obtain o1 t1 where o1: "drop i s = o1 @ t1" "list_all isNameByte o1" "stops isNameByte t1"
    and ro: "run isNameByte s i = i + length o1" by (rule run_split_ex)
  note so = run_split(2,3) [OF o1]
  obtain p t2 where p: "drop (i + length o1 + 1) s = p @ t2" "list_all isNameByte p" "stops isNameByte t2"
    and rp: "run isNameByte s (i + length o1 + 1) = i + length o1 + 1 + length p" by (rule run_split_ex)
  note sp = run_split(2,3) [OF p]
  from l have c1: "o1 \<noteq> []" "i + length o1 < length s" "s ! (i + length o1) = CHR ''/''"
    by (auto simp: matchForge_def Let_def ro split: if_splits)
  from l c1 have c2: "p \<noteq> []" "i + length o1 + 1 + length p < length s" "s ! (i + length o1 + 1 + length p) = CHR ''#''"
    by (auto simp: matchForge_def Let_def ro rp [simplified] split: if_splits)
  from l c1 c2 obtain n where n: "number s (i + length o1 + 1 + length p + 1) = Some (n, e)"
    and r: "r = \<lparr>r_kind = KindForge, r_key = [], r_owner = ToLower o1, r_repo = ToLower p, r_number = n\<rparr>"
    using so sp by (auto simp: matchForge_def Let_def ro rp [simplified] split: if_splits option.splits)
  from n obtain ds rest where d: "drop (i + length o1 + 1 + length p + 1) s = ds @ rest" "num_ok ds" "stops isDigit rest"
    "n = digits_value 0 ds" "e = i + length o1 + 1 + length p + 1 + length ds" unfolding number_iff by blast
  have "t1 = CHR ''/'' # drop (i + length o1 + 1) s"
    using so(2) c1 by (metis Cons_nth_drop_Suc Suc_eq_plus1)
  moreover have "t2 = CHR ''#'' # drop (i + length o1 + 1 + length p + 1) s"
    using sp(2) c2 by (metis Cons_nth_drop_Suc Suc_eq_plus1)
  ultimately have "drop i s = o1 @ CHR ''/'' # p @ CHR ''#'' # ds @ rest" using o1(1) p(1) d(1) by simp
  then show ?r using o1(2) p(2) c1(1) c2(1) d r
    by (intro exI [of _ o1] exI [of _ p] exI [of _ ds] exI [of _ rest]) (auto simp: name_ok_def forge_ref_def)
next
  assume ?r
  then obtain o1 p ds rest where t: "drop i s = o1 @ CHR ''/'' # p @ CHR ''#'' # ds @ rest"
    and ok: "name_ok o1" "name_ok p" "num_ok ds" "stops isDigit rest"
    and r: "r = forge_ref o1 p ds" and e: "e = i + length o1 + length p + length ds + 2" by blast
  have o1: "list_all isNameByte o1" and p: "list_all isNameByte p" using ok by (simp_all add: name_ok_def)
  have st: "stops isNameByte (CHR ''/'' # v)" "stops isNameByte (CHR ''#'' # v)" for v
    by (simp_all add: stops_def not_name)
  note so = run_split [OF t o1 st(1)]
  have d1: "drop (i + length o1 + 1) s = p @ CHR ''#'' # ds @ rest"
    using drop_step [OF so(3)] by (simp only: Suc_eq_plus1)
  note sp = run_split [OF d1 p st(2)]
  have d2: "drop (i + length o1 + 1 + length p + 1) s = ds @ rest"
    using drop_step [OF sp(3)] by (simp only: Suc_eq_plus1)
  have c1: "i + length o1 < length s" "s ! (i + length o1) = CHR ''/''"
    using drop_ConsD [OF so(3)] by simp_all
  have c2: "i + length o1 + 1 + length p < length s" "s ! (i + length o1 + 1 + length p) = CHR ''#''"
    using drop_ConsD [OF sp(3)] by simp_all
  have n: "number s (i + length o1 + 1 + length p + 1) = Some (digits_value 0 ds, e)"
    unfolding number_iff using d2 ok e by (intro exI [of _ ds] exI [of _ rest]) auto
  have ne: "length o1 \<noteq> 0" "length p \<noteq> 0" using ok by (simp_all add: name_ok_def)
  show ?l
    unfolding matchForge_def Let_def so(1) sp(1) so(2) sp(2) n r forge_ref_def
    using c1 c2 ne by simp
qed


lemma matchTracker_iff:
  "matchTracker s i = Some (r, e) \<longleftrightarrow>
     (\<exists>k ds rest. drop i s = k @ CHR ''-'' # ds @ rest \<and> key_ok k \<and> num_ok ds
        \<and> stops isDigit rest \<and> r = tracker_ref k ds \<and> e = i + length k + length ds + 1)"
  (is "?l \<longleftrightarrow> ?r")
proof
  assume l: ?l
  then have i: "i < length s" "isUpper (s ! i)" by (auto simp: matchTracker_def split: if_splits)
  then have hd: "drop i s = s ! i # drop (i + 1) s" by (simp add: Cons_nth_drop_Suc)
  obtain k' t where k': "drop (i + 1) s = k' @ t" "list_all isKeyByte k'" "stops isKeyByte t"
    and rk: "run isKeyByte s (i + 1) = i + 1 + length k'" by (rule run_split_ex)
  define k where "k = s ! i # k'"
  have kd: "drop i s = k @ t" using hd k' by (simp add: k_def)
  have ka: "list_all isKeyByte k" using k'(2) i by (simp add: k_def isKeyByte_def)
  note sk = run_split(2,3) [OF kd ka k'(3)]
  have rk': "run isKeyByte s (i + 1) = i + length k" using rk by (simp add: k_def)
  from l i have c: "2 \<le> length k" "length k \<le> maxKeyLen" "i + length k < length s" "s ! (i + length k) = CHR ''-''"
    by (auto simp: matchTracker_def Let_def rk' [simplified] split: if_splits)
  from l i c obtain n where n: "number s (i + length k + 1) = Some (n, e)"
    and r: "r = \<lparr>r_kind = KindTracker, r_key = k, r_owner = [], r_repo = [], r_number = n\<rparr>"
    using sk by (auto simp: matchTracker_def Let_def rk' [simplified] split: if_splits option.splits)
  from n obtain ds rest where d: "drop (i + length k + 1) s = ds @ rest" "num_ok ds" "stops isDigit rest"
    "n = digits_value 0 ds" "e = i + length k + 1 + length ds" unfolding number_iff by blast
  have "t = CHR ''-'' # drop (i + length k + 1) s"
    using sk(2) c by (metis Cons_nth_drop_Suc Suc_eq_plus1)
  then have "drop i s = k @ CHR ''-'' # ds @ rest" using kd d(1) by simp
  moreover have "key_ok k" using c ka i by (simp add: key_ok_def k_def)
  ultimately show ?r using d r
    by (intro exI [of _ k] exI [of _ ds] exI [of _ rest]) (auto simp: tracker_ref_def)
next
  assume ?r
  then obtain k ds rest where t: "drop i s = k @ CHR ''-'' # ds @ rest"
    and ok: "key_ok k" "num_ok ds" "stops isDigit rest"
    and r: "r = tracker_ref k ds" and e: "e = i + length k + length ds + 1" by blast
  then obtain u k' where k: "k = u # k'" by (cases k) (auto simp: key_ok_def)
  have st: "stops isKeyByte (CHR ''-'' # v)" for v by (simp add: stops_def not_key)
  have i: "i < length s" "s ! i = u" using drop_ConsD [of i s u] t k by simp_all
  have d0: "drop (i + 1) s = k' @ CHR ''-'' # ds @ rest" using drop_step [of i s u] t k by simp
  have k': "list_all isKeyByte k'" "list_all isKeyByte k" "isUpper u" using ok(1) k by (simp_all add: key_ok_def)
  have rk: "run isKeyByte s (i + 1) = i + length k" using run_split(1) [OF d0 k'(1) st] k by simp
  note sk = run_split(2,3) [OF t k'(2) st]
  have d2: "drop (i + length k + 1) s = ds @ rest" using drop_step [OF sk(2)] by (simp only: Suc_eq_plus1)
  have c: "i + length k < length s" "s ! (i + length k) = CHR ''-''" using drop_ConsD [OF sk(2)] by simp_all
  have n: "number s (i + length k + 1) = Some (digits_value 0 ds, e)"
    unfolding number_iff using d2 ok e by (intro exI [of _ ds] exI [of _ rest]) auto
  have kk: "2 \<le> length k" "length k \<le> maxKeyLen" using ok(1) by (simp_all add: key_ok_def)
  show ?l
    unfolding matchTracker_def Let_def rk sk(1) n r tracker_ref_def
    using c i k'(3) kk by simp
qed


text \<open>The text of a match: what a ref looks like, whatever surrounds it.\<close>

definition ref_text :: "string \<Rightarrow> Ref \<Rightarrow> bool" where
  "ref_text u r \<longleftrightarrow>
     (\<exists>o1 p ds. u = o1 @ CHR ''/'' # p @ CHR ''#'' # ds \<and> name_ok o1 \<and> name_ok p \<and> num_ok ds \<and> r = forge_ref o1 p ds)
   \<or> (\<exists>k ds. u = k @ CHR ''-'' # ds \<and> key_ok k \<and> num_ok ds \<and> r = tracker_ref k ds)"

lemma tracker_no_slash: "key_ok k \<Longrightarrow> num_ok ds \<Longrightarrow> CHR ''/'' \<notin> set (k @ CHR ''-'' # ds)"
  by (auto simp: key_ok_def num_ok_def list_all_iff isKeyByte_def isDigit_def isUpper_def)

lemma matchForge_no_slash: "CHR ''/'' \<notin> set s \<Longrightarrow> matchForge s i = None"
proof (rule ccontr)
  assume ns: "CHR ''/'' \<notin> set s" and "matchForge s i \<noteq> None"
  then obtain r e where "matchForge s i = Some (r, e)" by auto
  then have "CHR ''/'' \<in> set (drop i s)" unfolding matchForge_iff by auto
  then show False using ns by (meson in_set_dropD)
qed

lemma matchAt_ref_text:
  assumes "matchAt s i = Some (r, e)"
  shows "ref_text (slice s i e) r" and "i < e" and "e \<le> length s"
    and "drop i s = slice s i e @ drop e s" and "stops isDigit (drop e s)"
proof -
  show "i < e" "e \<le> length s" using matchAt_gt [OF assms] by simp_all
  then have d: "drop i s = slice s i e @ drop e s" and l: "length (slice s i e) = e - i"
    by (simp_all add: slice_def) (metis append_take_drop_id drop_drop le_add_diff_inverse2 less_imp_le)
  show "drop i s = slice s i e @ drop e s" by (fact d)
  consider (f) "matchForge s i = Some (r, e)" | (t) "matchTracker s i = Some (r, e)"
    using assms by (auto simp: matchAt_def split: option.splits)
  then have "ref_text (slice s i e) r \<and> stops isDigit (drop e s)"
  proof cases
    case f
    then obtain o1 p ds rest where h: "drop i s = (o1 @ CHR ''/'' # p @ CHR ''#'' # ds) @ rest"
      "name_ok o1" "name_ok p" "num_ok ds" "stops isDigit rest" "r = forge_ref o1 p ds"
      "e = i + length o1 + length p + length ds + 2" unfolding matchForge_iff by auto
    then have "slice s i e = o1 @ CHR ''/'' # p @ CHR ''#'' # ds \<and> drop e s = rest"
      using d l by (metis (no_types, lifting) append_eq_append_conv add.assoc add_diff_cancel_left' length_Cons length_append
          add_Suc_right add_2_eq_Suc')
    then show ?thesis using h by (auto simp: ref_text_def)
  next
    case t
    then obtain k ds rest where h: "drop i s = (k @ CHR ''-'' # ds) @ rest" "key_ok k" "num_ok ds"
      "stops isDigit rest" "r = tracker_ref k ds" "e = i + length k + length ds + 1" unfolding matchTracker_iff by auto
    then have "slice s i e = k @ CHR ''-'' # ds \<and> drop e s = rest"
      using d l by (metis (no_types, lifting) append_eq_append_conv add.assoc add_diff_cancel_left' length_Cons length_append
          Suc_eq_plus1)
    then show ?thesis using h by (auto simp: ref_text_def)
  qed
  then show "ref_text (slice s i e) r" "stops isDigit (drop e s)" by simp_all
qed

lemma Parse_ref_text:
  assumes "ref_text u r"
  shows "Parse u = Inr r"
  using assms unfolding ref_text_def
proof (elim disjE exE conjE)
  fix o1 p ds
  assume h: "u = o1 @ CHR ''/'' # p @ CHR ''#'' # ds" "name_ok o1" "name_ok p" "num_ok ds" "r = forge_ref o1 p ds"
  then have "matchForge u 0 = Some (r, length u)"
    unfolding matchForge_iff
    by (intro exI [of _ o1] exI [of _ p] exI [of _ ds] exI [of _ "[]"]) (simp add: stops_def)
  then show ?thesis by (simp add: Parse_def matchAt_def)
next
  fix k ds
  assume h: "u = k @ CHR ''-'' # ds" "key_ok k" "num_ok ds" "r = tracker_ref k ds"
  then have "matchTracker u 0 = Some (r, length u)"
    unfolding matchTracker_iff by (intro exI [of _ k] exI [of _ ds] exI [of _ "[]"]) (simp add: stops_def)
  moreover have "matchForge u 0 = None"
    using matchForge_no_slash tracker_no_slash [OF h(2,3)] h(1) by simp
  ultimately show ?thesis by (simp add: Parse_def matchAt_def)
qed

lemma Parse_iff: "Parse u = Inr r \<longleftrightarrow> ref_text u r"
proof
  assume "Parse u = Inr r"
  then have m: "matchAt u 0 = Some (r, length u)"
    by (auto simp: Parse_def split: option.splits if_splits)
  then show "ref_text u r" using matchAt_ref_text(1) [OF m] by (simp add: slice_def)
qed (rule Parse_ref_text)

section \<open>Canonical form\<close>

definition canonical :: "Ref \<Rightarrow> bool" where
  "canonical r \<longleftrightarrow> r_number r \<le> MaxNumber \<and>
     (case r_kind r of
        KindForge \<Rightarrow> r_key r = [] \<and> name_ok (r_owner r) \<and> name_ok (r_repo r)
          \<and> ToLower (r_owner r) = r_owner r \<and> ToLower (r_repo r) = r_repo r
      | KindTracker \<Rightarrow> r_owner r = [] \<and> r_repo r = [] \<and> key_ok (r_key r))"

lemma isNameByte_lower: "isNameByte c \<Longrightarrow> isNameByte (to_lower_byte c)"
  by (auto simp: isNameByte_def isWord_def isDigit_def isUpper_def of_to_lower_byte to_lower_byte_def split: if_splits)

lemma name_ok_lower: "name_ok u \<Longrightarrow> name_ok (ToLower u)"
  by (auto simp: name_ok_def ToLower_def list_all_iff isNameByte_lower)

lemma num_ok_FormatUint: "n \<le> MaxNumber \<Longrightarrow> num_ok (FormatUint n)"
  by (simp add: num_ok_def isDigit_eq FormatUint_digits)

lemma canonical_text: "canonical r \<Longrightarrow> ref_text (String r) r"
proof (cases "r_kind r")
  case KindForge
  assume c: "canonical r"
  let ?ds = "FormatUint (r_number r)"
  have "r = forge_ref (r_owner r) (r_repo r) ?ds" using c KindForge by (simp add: forge_ref_def canonical_def)
  moreover have "String r = r_owner r @ CHR ''/'' # r_repo r @ CHR ''#'' # ?ds" using KindForge by (simp add: String_def)
  ultimately show ?thesis using c KindForge num_ok_FormatUint unfolding ref_text_def canonical_def by fastforce
next
  case KindTracker
  assume c: "canonical r"
  let ?ds = "FormatUint (r_number r)"
  have "r = tracker_ref (r_key r) ?ds" using c KindTracker by (simp add: tracker_ref_def canonical_def)
  moreover have "String r = r_key r @ CHR ''-'' # ?ds" using KindTracker by (simp add: String_def)
  ultimately show ?thesis using c KindTracker num_ok_FormatUint unfolding ref_text_def canonical_def by fastforce
qed

lemma ref_text_canonical: "ref_text u r \<Longrightarrow> canonical r"
  by (auto simp: ref_text_def canonical_def forge_ref_def tracker_ref_def name_ok_lower num_ok_def)

section \<open>Properties\<close>

text \<open>Round trip. Printing a canonical ref and parsing it back yields the same ref; every
  ref the parser returns is canonical, so re-parsing the canonical text of a parsed ref
  always succeeds with that ref.\<close>

theorem Parse_String_roundtrip:
  "(canonical r \<longrightarrow> Parse (String r) = Inr r) \<and> (Parse s = Inr r \<longrightarrow> canonical r \<and> Parse (String r) = Inr r)"
  using canonical_text ref_text_canonical Parse_iff by blast

theorem Parse_String_roundtrip_witness:
  "Parse ''RIG-007'' = Inr \<lparr>r_kind = KindTracker, r_key = ''RIG'', r_owner = [], r_repo = [], r_number = 7\<rparr>
   \<and> Parse (String \<lparr>r_kind = KindTracker, r_key = ''RIG'', r_owner = [], r_repo = [], r_number = 7\<rparr>)
     = Inr \<lparr>r_kind = KindTracker, r_key = ''RIG'', r_owner = [], r_repo = [], r_number = 7\<rparr>"
proof -
  let ?r = "\<lparr>r_kind = KindTracker, r_key = ''RIG'', r_owner = [], r_repo = [], r_number = 7\<rparr>"
  have "key_ok ''RIG''" "num_ok ''007''"
    by (simp_all add: key_ok_def maxKeyLen_def isUpper_def isKeyByte_def num_ok_def isDigit_def digit_val_def MaxNumber_def)
  then have "ref_text (''RIG'' @ CHR ''-'' # ''007'') (tracker_ref ''RIG'' ''007'')"
    unfolding ref_text_def by blast
  then have p: "Parse ''RIG-007'' = Inr ?r"
    by (simp add: Parse_iff tracker_ref_def digit_val_def)
  then show ?thesis using Parse_String_roundtrip [of ?r "''RIG-007''"] by blast
qed


lemma ref_text_blocksStart: "ref_text u r \<Longrightarrow> list_all blocksStart u"
  by (auto simp: ref_text_def list_all_iff name_ok_def key_ok_def num_ok_def blocksStart_def isKeyByte_def
      isNameByte_def isWord_def)

definition edge_ok :: "string \<Rightarrow> nat \<Rightarrow> nat \<Rightarrow> bool" where
  "edge_ok tx i e \<longleftrightarrow> (i = 0 \<or> \<not> blocksStart (tx ! (i - 1))) \<and> (e = length tx \<or> \<not> blocksEnd (tx ! e))"

text \<open>Position \<open>i\<close> lies in a white-space delimited token that holds \<open>://\<close>.\<close>

definition in_url :: "string \<Rightarrow> nat \<Rightarrow> bool" where
  "in_url tx i \<longleftrightarrow> (\<exists>j \<le> i. (j = 0 \<or> isSpace (tx ! (j - 1))) \<and> i < tokenEnd tx j
     \<and> Contains (slice tx j (tokenEnd tx j)) ''://'')"

text \<open>One round of the loop: the span it emits, if any, and the next offset.\<close>

definition url_at :: "string \<Rightarrow> nat \<Rightarrow> bool" where
  "url_at tx i \<longleftrightarrow> (i = 0 \<or> isSpace (tx ! (i - 1))) \<and> Contains (slice tx i (tokenEnd tx i)) ''://''"

definition scan_step :: "string \<Rightarrow> nat \<Rightarrow> Span option \<times> nat" where
  "scan_step tx i =
     (if url_at tx i then (None, tokenEnd tx i + 1)
      else if 0 < i \<and> blocksStart (tx ! (i - 1)) then (None, i + 1)
      else case matchAt tx i of
             None \<Rightarrow> (None, i + 1)
           | Some (r, e) \<Rightarrow> if e < length tx \<and> blocksEnd (tx ! e) then (None, i + 1)
                          else (Some \<lparr>sp_start = i, sp_end = e, sp_ref = r\<rparr>, e))"

lemma scan_from_done: "length tx \<le> i \<Longrightarrow> scan_from tx i = []"
  by (simp add: scan_from.simps)

lemma scan_from_step:
  "i < length tx \<Longrightarrow>
     scan_from tx i = (case scan_step tx i of (x, j) \<Rightarrow> (case x of None \<Rightarrow> [] | Some sp \<Rightarrow> [sp]) @ scan_from tx j)"
  by (subst scan_from.simps) (simp add: scan_step_def url_at_def split: option.splits prod.splits)

lemma scan_step_gt: "scan_step tx i = (x, j) \<Longrightarrow> i < j"
  using matchAt_gt [of tx i] run_ge [of i "\<lambda>c. \<not> isSpace c" tx]
  by (auto simp: scan_step_def tokenEnd_def split: if_splits option.splits prod.splits)

lemma scan_step_hit:
  assumes "scan_step tx i = (Some sp, j)"
  shows "sp_start sp = i \<and> sp_end sp = j \<and> matchAt tx i = Some (sp_ref sp, j) \<and> edge_ok tx i j"
  using assms matchAt_gt [of tx i]
  by (auto simp: scan_step_def edge_ok_def split: if_splits option.splits prod.splits)

lemma scan_induct [case_names finish step]:
  assumes "\<And>i. length tx \<le> i \<Longrightarrow> P i"
    and "\<And>i x j. i < length tx \<Longrightarrow> scan_step tx i = (x, j) \<Longrightarrow> i < j \<Longrightarrow> P j \<Longrightarrow> P i"
  shows "P i"
proof (induction "length tx - i" arbitrary: i rule: less_induct)
  case less
  obtain x j where s: "scan_step tx i = (x, j)" by (cases "scan_step tx i")
  show ?case
  proof (cases "length tx \<le> i")
    case False
    have ij: "i < j" using scan_step_gt [OF s] .
    then have "P j" using less False by simp
    then show ?thesis using assms(2) [OF _ s ij] False by simp
  qed (rule assms(1))
qed

lemma scan_sound:
  "sp \<in> set (scan_from tx i) \<Longrightarrow>
     i \<le> sp_start sp \<and> matchAt tx (sp_start sp) = Some (sp_ref sp, sp_end sp) \<and> edge_ok tx (sp_start sp) (sp_end sp)"
proof (induction i rule: scan_induct [of tx])
  case (finish i)
  then show ?case by (simp add: scan_from_done)
next
  case (step i x j)
  then show ?case using scan_step_hit [of tx i sp j]
    by (cases x) (auto simp: scan_from_step)
qed

lemma scan_ordered: "sorted_wrt (\<lambda>a b. sp_end a \<le> sp_start b) (scan_from tx i)"
proof (induction i rule: scan_induct [of tx])
  case (finish i)
  then show ?case by (simp add: scan_from_done)
next
  case (step i x j)
  then show ?case using scan_sound [of _ tx j] scan_step_hit [of tx i _ j]
    by (cases x) (fastforce simp: scan_from_step)+
qed

lemma tokenEnd_space: "tokenEnd tx i < length tx \<Longrightarrow> isSpace (tx ! tokenEnd tx i)"
proof -
  assume l: "tokenEnd tx i < length tx"
  obtain u rest where r: "drop i tx = u @ rest" "list_all (\<lambda>c. \<not> isSpace c) u" "stops (\<lambda>c. \<not> isSpace c) rest"
    "run (\<lambda>c. \<not> isSpace c) tx i = i + length u" by (rule run_split_ex)
  then have "drop (tokenEnd tx i) tx = rest" using run_split(3) [OF r(1,2,3)] by (simp add: tokenEnd_def)
  then show ?thesis using l r(3) by (metis Cons_nth_drop_Suc drop_eq_Nil2 leD list.sel(1) stops_def)
qed

lemma ref_no_space: "matchAt tx i = Some (r, e) \<Longrightarrow> \<not> isSpace (tx ! i)"
proof -
  assume m: "matchAt tx i = Some (r, e)"
  note t = matchAt_ref_text [OF m]
  have "slice tx i e \<noteq> []" using t(2,3) by (simp add: slice_def)
  then have "blocksStart (hd (slice tx i e))" using ref_text_blocksStart [OF t(1)] by (cases "slice tx i e") auto
  moreover have "hd (slice tx i e) = tx ! i" using t(2,3) by (simp add: slice_def hd_drop_conv_nth)
  ultimately show ?thesis
    by (auto simp: blocksStart_def isNameByte_def isWord_def isDigit_def isUpper_def isSpace_def)
qed

lemma inside_ref_blocked:
  assumes "matchAt tx a = Some (r, e)" and "a < i" and "i < e"
  shows "blocksStart (tx ! (i - 1))"
proof -
  note t = matchAt_ref_text [OF assms(1)]
  have "slice tx a e ! (i - 1 - a) = tx ! (i - 1)" using t(2,3) assms(2,3) by (simp add: slice_def)
  moreover have "i - 1 - a < length (slice tx a e)" using t(2,3) assms(2,3) by (simp add: slice_def)
  ultimately show ?thesis using ref_text_blocksStart [OF t(1)] by (metis list_all_length)
qed

lemma scan_complete:
  assumes m: "matchAt tx i = Some (r, e)" and edge: "edge_ok tx i e" and nu: "\<not> in_url tx i"
  shows "a \<le> i \<Longrightarrow> \<lparr>sp_start = i, sp_end = e, sp_ref = r\<rparr> \<in> set (scan_from tx a)"
proof (induction a rule: scan_induct [of tx])
  case (finish a)
  then show ?case using matchAt_gt [OF m] by simp
next
  case (step a x j)
  have nua: "\<not> url_at tx a" if "i < tokenEnd tx a" using nu step.prems that by (auto simp: in_url_def url_at_def)
  show ?case
  proof (cases "a = i")
    case True
    have "i < tokenEnd tx i"
      using ref_no_space [OF m] step.hyps(1) True run_ge [of "i + 1" "\<lambda>c. \<not> isSpace c" tx]
      by (simp add: tokenEnd_def run.simps [of _ tx i])
    then have "scan_step tx a = (Some \<lparr>sp_start = i, sp_end = e, sp_ref = r\<rparr>, e)"
      using m edge nua True by (auto simp: scan_step_def edge_ok_def)
    then show ?thesis using step by (simp add: scan_from_step)
  next
    case False
    then have ai: "a < i" using step.prems by simp
    have "j \<le> i"
    proof (cases x)
      case (Some sp)
      then have "matchAt tx a = Some (sp_ref sp, j)" using scan_step_hit step.hyps(2) by blast
      then show ?thesis using inside_ref_blocked ai edge by (fastforce simp: edge_ok_def)
    next
      case None
      show ?thesis
      proof (cases "url_at tx a")
        case True
        then have "tokenEnd tx a \<le> i" using nua by (meson not_le)
        moreover have "tokenEnd tx a \<noteq> i"
          using tokenEnd_space ref_no_space [OF m] matchAt_gt [OF m] by fastforce
        ultimately show ?thesis using step.hyps(2) True None by (auto simp: scan_step_def)
      next
        case False
        then show ?thesis using step.hyps(2) ai None
          by (auto simp: scan_step_def split: if_splits option.splits prod.splits)
      qed
    qed
    then show ?thesis using step by (cases x) (auto simp: scan_from_step)
  qed
qed

lemma token_no_space:
  assumes "a \<le> k" and "k < tokenEnd tx a"
  shows "\<not> isSpace (tx ! k)"
proof -
  obtain u rest where r: "drop a tx = u @ rest" "list_all (\<lambda>c. \<not> isSpace c) u" "stops (\<lambda>c. \<not> isSpace c) rest"
    "run (\<lambda>c. \<not> isSpace c) tx a = a + length u" by (rule run_split_ex)
  then have k: "k - a < length u" using assms by (simp add: tokenEnd_def)
  then have "drop a tx ! (k - a) = u ! (k - a)" using r(1) by (simp add: nth_append)
  moreover have "a \<le> length tx" using k r(1) by (cases "a \<le> length tx") auto
  ultimately have "tx ! k = u ! (k - a)" using assms by simp
  then show ?thesis using r(2) k by (simp add: list_all_length)
qed

text \<open>Every URL token that starts before a visited offset ends before it.\<close>

definition urls_passed :: "string \<Rightarrow> nat \<Rightarrow> bool" where
  "urls_passed tx a \<longleftrightarrow> (\<forall>j < a. url_at tx j \<longrightarrow> tokenEnd tx j < a)"

lemma urls_passed_step:
  assumes u: "urls_passed tx a" and s: "scan_step tx a = (x, j)"
  shows "urls_passed tx j"
  unfolding urls_passed_def
proof (intro allI impI)
  fix k assume k: "k < j" "url_at tx k"
  have aj: "a < j" using scan_step_gt [OF s] .
  consider (before) "k < a" | (same) "k = a" | (after) "a < k" by linarith
  then show "tokenEnd tx k < j"
  proof cases
    case before
    then show ?thesis using u k(2) aj by (fastforce simp: urls_passed_def)
  next
    case same
    then show ?thesis using s k(2) by (auto simp: scan_step_def)
  next
    case after
    then have sp: "isSpace (tx ! (k - 1))" using k(2) by (simp add: url_at_def)
    show ?thesis
    proof (cases "url_at tx a")
      case True
      then have "j = tokenEnd tx a + 1" using s by (simp add: scan_step_def)
      then show ?thesis using token_no_space [of a "k - 1" tx] after k(1) sp by auto
    next
      case False
      with after k(1) s obtain r where m: "matchAt tx a = Some (r, j)"
        by (auto simp: scan_step_def split: if_splits option.splits prod.splits)
      then have "blocksStart (tx ! (k - 1))" using inside_ref_blocked after k(1) by blast
      then show ?thesis using sp
        by (auto simp: blocksStart_def isNameByte_def isWord_def isDigit_def isUpper_def isSpace_def)
    qed
  qed
qed

lemma scan_not_url:
  "urls_passed tx a \<Longrightarrow> sp \<in> set (scan_from tx a) \<Longrightarrow> \<not> in_url tx (sp_start sp)"
proof (induction a rule: scan_induct [of tx])
  case (finish a)
  then show ?case by (simp add: scan_from_done)
next
  case (step a x j)
  have "\<not> in_url tx a" if "x = Some y" for y
  proof
    assume "in_url tx a"
    then obtain k where k: "k \<le> a" "url_at tx k" "a < tokenEnd tx k" by (auto simp: in_url_def url_at_def)
    have "\<not> url_at tx a" using step.hyps(2) that by (auto simp: scan_step_def)
    then have "k < a" using k by (cases "k = a") auto
    then show False using step.prems(1) k by (fastforce simp: urls_passed_def)
  qed
  then show ?case using step urls_passed_step [OF step.prems(1) step.hyps(2)] scan_step_hit [of tx a _ j]
    by (cases x) (auto simp: scan_from_step)
qed

text \<open>C34: the scanner finds exactly the refs. A span is reported iff a ref starts at its start
  and extends to its end, the bytes before and after do not join it to a larger token, and it
  is not inside a URL token; the text of every reported span parses to the reported ref, and
  the spans come in order without overlap.\<close>

theorem Scan_exact:
  "(sp \<in> set (Scan tx) \<longleftrightarrow>
      matchAt tx (sp_start sp) = Some (sp_ref sp, sp_end sp) \<and> edge_ok tx (sp_start sp) (sp_end sp)
      \<and> \<not> in_url tx (sp_start sp))
   \<and> list_all (\<lambda>q. Parse (slice tx (sp_start q) (sp_end q)) = Inr (sp_ref q)) (Scan tx)
   \<and> sorted_wrt (\<lambda>a b. sp_end a \<le> sp_start b) (Scan tx)"
proof (intro conjI iffI)
  assume a: "sp \<in> set (Scan tx)"
  then show "matchAt tx (sp_start sp) = Some (sp_ref sp, sp_end sp)" "edge_ok tx (sp_start sp) (sp_end sp)"
    "\<not> in_url tx (sp_start sp)"
    using scan_sound [of sp tx 0] scan_not_url [of tx 0 sp] by (simp_all add: Scan_def urls_passed_def)
next
  assume a: "matchAt tx (sp_start sp) = Some (sp_ref sp, sp_end sp) \<and> edge_ok tx (sp_start sp) (sp_end sp)
      \<and> \<not> in_url tx (sp_start sp)"
  then show "sp \<in> set (Scan tx)"
    using scan_complete [of tx "sp_start sp" "sp_ref sp" "sp_end sp" 0] by (cases sp) (simp add: Scan_def)
next
  show "list_all (\<lambda>q. Parse (slice tx (sp_start q) (sp_end q)) = Inr (sp_ref q)) (Scan tx)"
    using scan_sound [of _ tx 0] Parse_ref_text matchAt_ref_text(1) by (fastforce simp: Scan_def list_all_iff)
next
  show "sorted_wrt (\<lambda>a b. sp_end a \<le> sp_start b) (Scan tx)" by (simp add: Scan_def scan_ordered)
qed

end
