(* ===== verification/Comms_Types.thy ===== *)
theory Comms_Types
  imports Refs
begin

text \<open>
  The data of the communication layer. First the store's own types of
  \<open>src/go/internal/store\<close> (\<open>types.go\<close>, \<open>user_peers.go\<close>, \<open>channel_pins.go\<close>, \<open>inputs.go\<close>,
  \<open>pull_requests.go\<close>), then the \<open>compass.v1\<close> wire messages those types are mapped to.

  Ids are strings. A Go pointer that may be nil is an \<open>option\<close>, and an enum is a datatype
  with one more constructor for the numbers its constants do not name, which a Go enum and
  a proto3 enum both admit. A nil wire message reads as the zero record, as the generated
  getters do. Timestamps are \<open>int\<close>.
\<close>

section \<open>Store types\<close>

type_synonym AccountID = string
type_synonym ChannelGroupID = string
type_synonym ChannelID = string
type_synonym WorkspaceID = string
type_synonym MessageID = string
type_synonym TenantID = string

datatype UserRole = UserRoleMember | UserRoleAdmin | UserRoleOther int
datatype ChannelGroupVisibility = VisibilityOwner | VisibilityShared | VisibilityOther int
datatype ChannelKind = ChannelKindChannel | ChannelKindDM | ChannelKindGroupDM | ChannelKindOther int
datatype ChannelPostPolicy = ChannelPostPolicyOpen | ChannelPostPolicyOwnerOnly | ChannelPostPolicyOther int
datatype ChannelMembershipMode =
  ChannelMembershipModeExplicit | ChannelMembershipModeTree | ChannelMembershipModeOther int
datatype PeeringState = PeeringPendingOutgoing | PeeringPendingIncoming | PeeringApproved | PeeringOther int
datatype ForgeProvider = ForgeProviderGitHub | ForgeProviderLinear | ForgeProviderOther int

record UserAccount =
  ua_role :: UserRole

record AgentAccount =
  aa_owner_user_id :: AccountID
  aa_home_channel_id :: ChannelID
  aa_persona :: string
  aa_role :: string
  aa_parent_agent_id :: AccountID

datatype SystemAccount = SystemAccount

record Account =
  ac_id :: AccountID
  ac_handle :: string
  ac_display_name :: string
  ac_user :: "UserAccount option"
  ac_agent :: "AgentAccount option"
  ac_system :: "SystemAccount option"

definition IsAgent :: "Account \<Rightarrow> bool" where
  "IsAgent a \<longleftrightarrow> ac_agent a \<noteq> None"

definition managerRoles :: "string list" where
  "managerRoles = [''supervisor'', ''owner'', ''manager'']"

definition IsManagerRole :: "string \<Rightarrow> bool" where
  "IsManagerRole role \<longleftrightarrow> role \<in> set managerRoles"

record ChannelGroup =
  cg_id :: ChannelGroupID
  cg_name :: string
  cg_parent_group_id :: ChannelGroupID
  cg_owner_user_id :: AccountID
  cg_namespace_owner_id :: AccountID
  cg_visibility :: ChannelGroupVisibility

record ChannelPolicy =
  cp_post_policy :: ChannelPostPolicy
  cp_owner_account_id :: AccountID
  cp_mandatory_subscription :: bool

record Channel =
  ch_id :: ChannelID
  ch_name :: string
  ch_group_id :: ChannelGroupID
  ch_kind :: ChannelKind
  ch_parent_agent_id :: AccountID
  ch_membership_mode :: ChannelMembershipMode
  ch_member_account_ids :: "AccountID list"
  ch_subscriber_account_ids :: "AccountID list"
  ch_policy :: ChannelPolicy

record AgentWorkspace =
  aw_id :: WorkspaceID
  aw_agent_account_id :: AccountID

record TopicStats =
  ts_message_count :: int
  ts_last_message_at_unix_ms :: int

record Topic =
  tp_id :: string
  tp_channel_id :: string
  tp_name :: string
  tp_created_by_account_id :: string
  tp_created_at_unix_ms :: int
  tp_archived :: bool
  tp_last_seq :: int
  tp_stats :: "TopicStats option"

record Peering =
  pe_peer_id :: AccountID
  pe_handle :: string
  pe_state :: PeeringState

record PinnedEntry =
  pi_message_id :: MessageID
  pi_position :: int
  pi_pinned_at_unix_ms :: int
  pi_pinned_by_account_id :: AccountID

record MemberUpdate =
  mu_account_id :: AccountID
  mu_remove :: bool
  mu_subscribed :: bool
  mu_unsubscribe :: bool

record ForgeCoord =
  fc_provider :: ForgeProvider
  fc_host :: string
  fc_repo :: string
  fc_number :: nat

text \<open>\<open>ForgeCoord.Normalized\<close>.\<close>

definition Normalized :: "ForgeCoord \<Rightarrow> ForgeCoord" where
  "Normalized c =
     (let c1 = c\<lparr>fc_repo := TrimSpace (fc_repo c)\<rparr>
      in if fc_provider c1 = ForgeProviderGitHub then c1\<lparr>fc_repo := ToLower (fc_repo c1)\<rparr> else c1)"

record AskOption =
  ao_id :: string
  ao_label :: string
  ao_description :: string
  ao_preview :: string

record AskQuestion =
  aq_question_id :: string
  aq_question :: string
  aq_header :: string
  aq_options :: "AskOption list"
  aq_allow_multiple :: bool
  aq_recommended :: "32 word option"
  aq_chosen_option_ids :: "string list"
  aq_custom_text :: string
  aq_timed_out :: bool

record Ask =
  ask_id :: string
  ask_ref :: string
  ask_ref_coord :: "ForgeCoord option"
  ask_questions :: "AskQuestion list"
  ask_answered :: bool

record AskAnswerBlock =
  aab_ask :: Ask
  aab_asker_account_id :: AccountID

record MessageBlock =
  mb_text :: "string option"
  mb_ask :: "Ask option"
  mb_ask_answer :: "AskAnswerBlock option"

record Message =
  m_id :: MessageID
  m_topic_id :: string
  m_channel_id :: ChannelID
  m_author_account_id :: AccountID
  m_author_handle :: string
  m_at :: int
  m_blocks :: "MessageBlock list"
  m_turn_sequence :: nat

text \<open>\<open>time.Time.UnixMilli\<close>, of a time given in nanoseconds since the epoch.\<close>

definition UnixMilli :: "int \<Rightarrow> int" where
  "UnixMilli ns = ns div 1000000"

section \<open>Submitted handles\<close>

record QualifiedHandle =
  qh_owner :: string
  qh_handle :: string
  qh_raw :: string

text \<open>\<open>strings.Cut(s, "/")\<close>.\<close>

definition Cut_slash :: "string \<Rightarrow> (string \<times> string) option" where
  "Cut_slash s =
     (case dropWhile (\<lambda>c. c \<noteq> CHR ''/'') s of
        [] \<Rightarrow> None
      | _ # rest \<Rightarrow> Some (takeWhile (\<lambda>c. c \<noteq> CHR ''/'') s, rest))"

definition Qualified :: "QualifiedHandle \<Rightarrow> bool" where
  "Qualified q \<longleftrightarrow> qh_handle q \<noteq> qh_raw q"

definition Malformed :: "QualifiedHandle \<Rightarrow> bool" where
  "Malformed q \<longleftrightarrow> Qualified q \<and> (qh_owner q = [] \<or> qh_handle q = [] \<or> Contains (qh_handle q) ''/'')"

definition ParseQualifiedHandle :: "string \<Rightarrow> QualifiedHandle" where
  "ParseQualifiedHandle raw =
     (case Cut_slash raw of
        Some (ow, h) \<Rightarrow> \<lparr>qh_owner = ow, qh_handle = h, qh_raw = raw\<rparr>
      | None \<Rightarrow> \<lparr>qh_owner = [], qh_handle = raw, qh_raw = raw\<rparr>)"

section \<open>Wire messages\<close>

datatype wire_user_role = USER_ROLE_MEMBER | USER_ROLE_ADMIN | USER_ROLE_NUM int
datatype wire_visibility =
  CHANNEL_GROUP_VISIBILITY_OWNER | CHANNEL_GROUP_VISIBILITY_SHARED | CHANNEL_GROUP_VISIBILITY_NUM int
datatype wire_channel_kind =
  CHANNEL_KIND_CHANNEL | CHANNEL_KIND_DM | CHANNEL_KIND_GROUP_DM | CHANNEL_KIND_NUM int
datatype wire_post_policy = CHANNEL_POST_POLICY_OPEN | CHANNEL_POST_POLICY_OWNER_ONLY | CHANNEL_POST_POLICY_NUM int
datatype wire_membership_mode =
  CHANNEL_MEMBERSHIP_MODE_EXPLICIT | CHANNEL_MEMBERSHIP_MODE_TREE | CHANNEL_MEMBERSHIP_MODE_NUM int
datatype wire_peering_state =
  PEERING_STATE_UNSPECIFIED | PEERING_STATE_PENDING_OUTGOING | PEERING_STATE_PENDING_INCOMING
  | PEERING_STATE_APPROVED | PEERING_STATE_NUM int

datatype wire_account_kind =
    WUser wire_user_role
  | WAgent (w_owner: string) (w_home: string) (w_parent: string)
  | WSystem
  | WKindUnset

record wire_account =
  wac_id :: string
  wac_handle :: string
  wac_display_name :: string
  wac_kind :: wire_account_kind

record wire_peering =
  wpe_user_account_id :: string
  wpe_handle :: string
  wpe_state :: wire_peering_state

record wire_group =
  wcg_id :: string
  wcg_name :: string
  wcg_parent_group_id :: string
  wcg_owner_user_id :: string
  wcg_visibility :: wire_visibility

record wire_channel =
  wch_id :: string
  wch_name :: string
  wch_group_id :: string
  wch_kind :: wire_channel_kind
  wch_member_account_ids :: "string list"
  wch_subscriber_account_ids :: "string list"
  wch_post_policy :: wire_post_policy
  wch_owner_account_id :: string
  wch_mandatory_subscription :: bool
  wch_parent_agent_id :: string
  wch_membership_mode :: wire_membership_mode

record wire_pinned_entry =
  wpi_message_id :: string
  wpi_position :: int
  wpi_pinned_at_unix_ms :: int
  wpi_pinned_by_account_id :: string

record wire_workspace =
  waw_id :: string
  waw_agent_account_id :: string

record wire_topic =
  wtp_id :: string
  wtp_channel_id :: string
  wtp_name :: string
  wtp_created_at_unix_ms :: int
  wtp_created_by_account_id :: string
  wtp_archived :: bool
  wtp_message_count :: "nat option"
  wtp_last_message_at_unix_ms :: "int option"

record wire_ask_option =
  wao_id :: string
  wao_label :: string
  wao_description :: string
  wao_preview :: string

record wire_ask_question =
  waq_question_id :: string
  waq_question :: string
  waq_header :: string
  waq_options :: "wire_ask_option list"
  waq_allow_multiple :: bool
  waq_recommended :: "32 word option"
  waq_chosen_option_ids :: "string list"
  waq_custom_text :: string
  waq_timed_out :: bool

record wire_ask =
  wask_id :: string
  wask_questions :: "wire_ask_question list"
  wask_answered :: bool
  wask_ref :: string

record wire_ask_answer =
  waab_ask :: wire_ask
  waab_asker_account_id :: string

datatype wire_block = WText string | WAsk wire_ask | WAskAnswer wire_ask_answer | WBlockUnset

record wire_message =
  wm_id :: string
  wm_topic_id :: string
  wm_channel_id :: string
  wm_author_account_id :: string
  wm_author_handle :: string
  wm_at_unix_ms :: int
  wm_blocks :: "wire_block list"
  wm_turn_sequence :: nat

text \<open>The presence of an agent and the lifecycle state of its session.\<close>

datatype agent_presence =
  AGENT_PRESENCE_UNSPECIFIED | AGENT_PRESENCE_WORKING | AGENT_PRESENCE_IDLE | AGENT_PRESENCE_WAITING
  | AGENT_PRESENCE_OFFLINE | AGENT_PRESENCE_NUM int

datatype agent_session_state =
  AGENT_SESSION_STATE_UNSPECIFIED | AGENT_SESSION_STATE_STARTING | AGENT_SESSION_STATE_READY
  | AGENT_SESSION_STATE_WORKING | AGENT_SESSION_STATE_STOPPED | AGENT_SESSION_STATE_ERRORED
  | AGENT_SESSION_STATE_DISCONNECTED | AGENT_SESSION_STATE_NUM int

end
