(* ===== verification/Json.thy ===== *)
theory Json
  imports Go_Prelude
begin

text \<open>
  JSON trees and the part of Go's \<open>encoding/json\<close> the modelled code uses: encoding a struct
  leaves out the \<open>omitempty\<close> fields that hold the zero value; decoding gives a missing field
  and a JSON null the zero value, rejects a value of another type and ignores an unknown
  field. Keys are matched exactly.
\<close>

datatype json_error = BadJSON

section \<open>JSON encoding\<close>

datatype json = JNull | JBool bool | JInt int | JStr string | JArr "json list" | JObj "(string \<times> json) list"

text \<open>A field with \<open>omitempty\<close>: nothing when the flag says the value is empty.\<close>

definition omit :: "bool \<Rightarrow> string \<Rightarrow> json \<Rightarrow> (string \<times> json) list" where
  "omit zero name v = (if zero then [] else [(name, v)])"

definition omit_opt :: "('a \<Rightarrow> json) \<Rightarrow> string \<Rightarrow> 'a option \<Rightarrow> (string \<times> json) list" where
  "omit_opt enc name x = (case x of None \<Rightarrow> [] | Some v \<Rightarrow> [(name, enc v)])"

section \<open>JSON decoding\<close>

text \<open>The value of a field, JSON null for a missing one.\<close>

definition fld :: "(string \<times> json) list \<Rightarrow> string \<Rightarrow> json" where
  "fld kvs k = (case map_of kvs k of None \<Rightarrow> JNull | Some v \<Rightarrow> v)"

fun dec_str :: "json \<Rightarrow> json_error + string" where
  "dec_str JNull = Inr []"
| "dec_str (JStr s) = Inr s"
| "dec_str _ = Inl BadJSON"

fun dec_bool :: "json \<Rightarrow> json_error + bool" where
  "dec_bool JNull = Inr False"
| "dec_bool (JBool b) = Inr b"
| "dec_bool _ = Inl BadJSON"

fun dec_int32 :: "json \<Rightarrow> json_error + 32 word" where
  "dec_int32 JNull = Inr 0"
| "dec_int32 (JInt i) = (if - (2 ^ 31) \<le> i \<and> i < 2 ^ 31 then Inr (word_of_int i) else Inl BadJSON)"
| "dec_int32 _ = Inl BadJSON"

fun dec_list :: "(json \<Rightarrow> json_error + 'a) \<Rightarrow> json \<Rightarrow> json_error + 'a list" where
  "dec_list f JNull = Inr []"
| "dec_list f (JArr js) = mapE f js"
| "dec_list f _ = Inl BadJSON"

text \<open>A pointer field: JSON null is nil.\<close>

definition dec_ptr :: "(json \<Rightarrow> json_error + 'a) \<Rightarrow> json \<Rightarrow> json_error + 'a option" where
  "dec_ptr f j = (if j = JNull then Inr None else bindE (f j) (\<lambda>x. Inr (Some x)))"

text \<open>A struct: null leaves it zero, which is decoding the object with no field.\<close>

fun dec_obj :: "((string \<times> json) list \<Rightarrow> json_error + 'a) \<Rightarrow> json \<Rightarrow> json_error + 'a" where
  "dec_obj f JNull = f []"
| "dec_obj f (JObj kvs) = f kvs"
| "dec_obj f _ = Inl BadJSON"

section \<open>Decoding what was encoded\<close>

lemma fld_simps [simp]:
  "fld [] k = JNull"
  "fld ((k', v) # kvs) k = (if k = k' then v else fld kvs k)"
  by (simp_all add: fld_def)

lemma fld_omit [simp]: "fld (omit z name v @ kvs) k = (if k = name \<and> \<not> z then v else fld kvs k)"
  "fld (omit z name v) k = (if k = name \<and> \<not> z then v else JNull)"
  by (simp_all add: omit_def)

lemma fld_omit_opt [simp]:
  "fld (omit_opt enc name x @ kvs) k = (if k = name \<and> x \<noteq> None then enc (the x) else fld kvs k)"
  "fld (omit_opt enc name x) k = (if k = name \<and> x \<noteq> None then enc (the x) else JNull)"
  by (auto simp: omit_opt_def split: option.splits)

lemma mapE_enc: "(\<And>x. dec (enc x) = Inr x) \<Longrightarrow> mapE dec (map enc xs) = Inr xs"
  by (induction xs) simp_all

lemma dec_ptr_simps [simp]:
  "dec_ptr dec JNull = Inr None"
  "j \<noteq> JNull \<Longrightarrow> dec j = Inr x \<Longrightarrow> dec_ptr dec j = Inr (Some x)"
  by (simp_all add: dec_ptr_def)

lemma dec_int32_sint [simp]: "dec_int32 (JInt (sint (w :: 32 word))) = Inr w"
  using sint_ge [of w] sint_lt [of w] by simp

lemma dec_ptr_int32 [simp]: "dec_ptr dec_int32 (JInt (sint (w :: 32 word))) = Inr (Some w)"
  by (simp add: dec_ptr_def dec_int32_sint del: dec_int32.simps)

end
