(* ===== verification/Blocks.thy ===== *)
theory Blocks
  imports Comms_Types Json
begin

text \<open>
  The stored form of message blocks, \<open>src/go/internal/store/blocks.go\<close>. The blocks of a
  message are validated, mapped to the \<open>storedBlock\<close> shape and written as JSONB; reading
  decodes, validates again and maps back. The model works on JSON trees, the level JSONB
  keeps: \<open>json.Marshal\<close> and \<open>json.Unmarshal\<close> are the encoders and decoders below, one per
  struct, over the JSON trees of theory \<open>Json\<close>.

  Slices are lists, so a nil and an empty slice are the same value.
\<close>

section \<open>Stored shapes\<close>

record storedAskOption =
  so_id :: string
  so_label :: string
  so_description :: string
  so_preview :: string

record storedAskQuestion =
  sq_question_id :: string
  sq_question :: string
  sq_header :: string
  sq_options :: "storedAskOption list"
  sq_allow_multiple :: bool
  sq_recommended :: "32 word option"
  sq_chosen_option_ids :: "string list"
  sq_custom_text :: string
  sq_timed_out :: bool

record storedAsk =
  sa_ask_id :: string
  sa_ref :: string
  sa_questions :: "storedAskQuestion list"
  sa_answered :: bool

record storedAskAnswer =
  saa_ask :: storedAsk
  saa_asker_account_id :: string

record storedBlock =
  sb_kind :: string
  sb_text :: "string option"
  sb_ask :: "storedAsk option"
  sb_ask_answer :: "storedAskAnswer option"

definition blockKindText :: string where "blockKindText = ''text''"
definition blockKindAsk :: string where "blockKindAsk = ''ask''"
definition blockKindAskAnswer :: string where "blockKindAskAnswer = ''ask_answer''"

datatype ask_defect = NoQuestions | EmptyQuestionID | DuplicateQuestionID string

datatype block_error =
    BadOneof nat
  | AskInvalid ask_defect
  | RecommendedOutOfRange string
  | AnswerEmptyAskID
  | AnswerNotAnswered
  | AnswerInvalid ask_defect
  | AnswerEmptyAsker
  | JSONError json_error
  | NoTextPayload nat | NoAskPayload nat | NoAnswerPayload nat
  | CorruptAsk nat ask_defect
  | CorruptAnswerAskID nat | CorruptAnswerPending nat | CorruptAnswerQuestions nat ask_defect
  | CorruptAnswerAsker nat
  | UnknownKind nat string

section \<open>Encoding and decoding\<close>

definition enc_option :: "storedAskOption \<Rightarrow> json" where
  "enc_option o1 = JObj ([(''id'', JStr (so_id o1)), (''label'', JStr (so_label o1))]
     @ omit (so_description o1 = []) ''description'' (JStr (so_description o1))
     @ omit (so_preview o1 = []) ''preview'' (JStr (so_preview o1)))"

definition enc_question :: "storedAskQuestion \<Rightarrow> json" where
  "enc_question q = JObj ([(''question_id'', JStr (sq_question_id q)), (''question'', JStr (sq_question q))]
     @ omit (sq_header q = []) ''header'' (JStr (sq_header q))
     @ omit (sq_options q = []) ''options'' (JArr (map enc_option (sq_options q)))
     @ omit (\<not> sq_allow_multiple q) ''allow_multiple'' (JBool (sq_allow_multiple q))
     @ omit_opt (\<lambda>r. JInt (sint r)) ''recommended'' (sq_recommended q)
     @ omit (sq_chosen_option_ids q = []) ''chosen_option_ids'' (JArr (map JStr (sq_chosen_option_ids q)))
     @ omit (sq_custom_text q = []) ''custom_text'' (JStr (sq_custom_text q))
     @ omit (\<not> sq_timed_out q) ''timed_out'' (JBool (sq_timed_out q)))"

definition enc_ask :: "storedAsk \<Rightarrow> json" where
  "enc_ask a = JObj ([(''ask_id'', JStr (sa_ask_id a))]
     @ omit (sa_ref a = []) ''ref'' (JStr (sa_ref a))
     @ omit (sa_questions a = []) ''questions'' (JArr (map enc_question (sa_questions a)))
     @ omit (\<not> sa_answered a) ''answered'' (JBool (sa_answered a)))"

definition enc_answer :: "storedAskAnswer \<Rightarrow> json" where
  "enc_answer a = JObj [(''ask'', enc_ask (saa_ask a)), (''asker_account_id'', JStr (saa_asker_account_id a))]"

definition enc_block :: "storedBlock \<Rightarrow> json" where
  "enc_block b = JObj ([(''kind'', JStr (sb_kind b))] @ omit_opt JStr ''text'' (sb_text b)
     @ omit_opt enc_ask ''ask'' (sb_ask b) @ omit_opt enc_answer ''ask_answer'' (sb_ask_answer b))"

definition dec_option :: "json \<Rightarrow> json_error + storedAskOption" where
  "dec_option = dec_obj (\<lambda>kvs.
     bindE (dec_str (fld kvs ''id'')) (\<lambda>i.
     bindE (dec_str (fld kvs ''label'')) (\<lambda>l.
     bindE (dec_str (fld kvs ''description'')) (\<lambda>d.
     bindE (dec_str (fld kvs ''preview'')) (\<lambda>p.
     Inr \<lparr>so_id = i, so_label = l, so_description = d, so_preview = p\<rparr>)))))"

definition dec_question :: "json \<Rightarrow> json_error + storedAskQuestion" where
  "dec_question = dec_obj (\<lambda>kvs.
     bindE (dec_str (fld kvs ''question_id'')) (\<lambda>qid.
     bindE (dec_str (fld kvs ''question'')) (\<lambda>qu.
     bindE (dec_str (fld kvs ''header'')) (\<lambda>h.
     bindE (dec_list dec_option (fld kvs ''options'')) (\<lambda>os.
     bindE (dec_bool (fld kvs ''allow_multiple'')) (\<lambda>am.
     bindE (dec_ptr dec_int32 (fld kvs ''recommended'')) (\<lambda>r.
     bindE (dec_list dec_str (fld kvs ''chosen_option_ids'')) (\<lambda>ci.
     bindE (dec_str (fld kvs ''custom_text'')) (\<lambda>ct.
     bindE (dec_bool (fld kvs ''timed_out'')) (\<lambda>to.
     Inr \<lparr>sq_question_id = qid, sq_question = qu, sq_header = h, sq_options = os, sq_allow_multiple = am,
          sq_recommended = r, sq_chosen_option_ids = ci, sq_custom_text = ct, sq_timed_out = to\<rparr>))))))))))"

definition dec_ask :: "json \<Rightarrow> json_error + storedAsk" where
  "dec_ask = dec_obj (\<lambda>kvs.
     bindE (dec_str (fld kvs ''ask_id'')) (\<lambda>i.
     bindE (dec_str (fld kvs ''ref'')) (\<lambda>r.
     bindE (dec_list dec_question (fld kvs ''questions'')) (\<lambda>qs.
     bindE (dec_bool (fld kvs ''answered'')) (\<lambda>an.
     Inr \<lparr>sa_ask_id = i, sa_ref = r, sa_questions = qs, sa_answered = an\<rparr>)))))"

definition dec_answer :: "json \<Rightarrow> json_error + storedAskAnswer" where
  "dec_answer = dec_obj (\<lambda>kvs.
     bindE (dec_ask (fld kvs ''ask'')) (\<lambda>a.
     bindE (dec_str (fld kvs ''asker_account_id'')) (\<lambda>i.
     Inr \<lparr>saa_ask = a, saa_asker_account_id = i\<rparr>)))"

definition dec_block :: "json \<Rightarrow> json_error + storedBlock" where
  "dec_block = dec_obj (\<lambda>kvs.
     bindE (dec_str (fld kvs ''kind'')) (\<lambda>k.
     bindE (dec_ptr dec_str (fld kvs ''text'')) (\<lambda>t.
     bindE (dec_ptr dec_ask (fld kvs ''ask'')) (\<lambda>a.
     bindE (dec_ptr dec_answer (fld kvs ''ask_answer'')) (\<lambda>aa.
     Inr \<lparr>sb_kind = k, sb_text = t, sb_ask = a, sb_ask_answer = aa\<rparr>)))))"

section \<open>Domain to stored and back\<close>

definition toStoredOption :: "AskOption \<Rightarrow> storedAskOption" where
  "toStoredOption o1 = \<lparr>so_id = ao_id o1, so_label = ao_label o1, so_description = ao_description o1,
     so_preview = ao_preview o1\<rparr>"

definition toStoredAsk :: "Ask \<Rightarrow> storedAsk" where
  "toStoredAsk a = \<lparr>sa_ask_id = ask_id a, sa_ref = ask_ref a,
     sa_questions = map (\<lambda>q. \<lparr>sq_question_id = aq_question_id q, sq_question = aq_question q,
       sq_header = aq_header q, sq_options = map toStoredOption (aq_options q),
       sq_allow_multiple = aq_allow_multiple q, sq_recommended = aq_recommended q,
       sq_chosen_option_ids = aq_chosen_option_ids q, sq_custom_text = aq_custom_text q,
       sq_timed_out = aq_timed_out q\<rparr>) (ask_questions a),
     sa_answered = ask_answered a\<rparr>"

definition fromStoredOption :: "storedAskOption \<Rightarrow> AskOption" where
  "fromStoredOption o1 = \<lparr>ao_id = so_id o1, ao_label = so_label o1, ao_description = so_description o1,
     ao_preview = so_preview o1\<rparr>"

definition fromStoredAsk :: "storedAsk \<Rightarrow> Ask" where
  "fromStoredAsk s = \<lparr>ask_id = sa_ask_id s, ask_ref = sa_ref s, ask_ref_coord = None,
     ask_questions = map (\<lambda>q. \<lparr>aq_question_id = sq_question_id q, aq_question = sq_question q,
       aq_header = sq_header q, aq_options = map fromStoredOption (sq_options q),
       aq_allow_multiple = sq_allow_multiple q, aq_recommended = sq_recommended q,
       aq_chosen_option_ids = sq_chosen_option_ids q, aq_custom_text = sq_custom_text q,
       aq_timed_out = sq_timed_out q\<rparr>) (sa_questions s),
     ask_answered = sa_answered s\<rparr>"

definition toStoredAskAnswer :: "AskAnswerBlock \<Rightarrow> storedAskAnswer" where
  "toStoredAskAnswer b = \<lparr>saa_ask = toStoredAsk (aab_ask b), saa_asker_account_id = aab_asker_account_id b\<rparr>"

text \<open>The scan over the questions with the set of ids seen so far; \<open>None\<close> is a nil error.\<close>

fun question_ids_defect :: "string list \<Rightarrow> AskQuestion list \<Rightarrow> ask_defect option" where
  "question_ids_defect seen [] = None"
| "question_ids_defect seen (q # qs) =
     (if aq_question_id q = [] then Some EmptyQuestionID
      else if aq_question_id q \<in> set seen then Some (DuplicateQuestionID (aq_question_id q))
      else question_ids_defect (aq_question_id q # seen) qs)"

definition askQuestionsWellFormed :: "Ask \<Rightarrow> ask_defect option" where
  "askQuestionsWellFormed a =
     (if ask_questions a = [] then Some NoQuestions else question_ids_defect [] (ask_questions a))"

fun recommended_defect :: "AskQuestion list \<Rightarrow> block_error option" where
  "recommended_defect [] = None"
| "recommended_defect (q # qs) =
     (case aq_recommended q of
        None \<Rightarrow> recommended_defect qs
      | Some r \<Rightarrow> if sint r < 0 \<or> int (length (aq_options q)) \<le> sint r then Some (RecommendedOutOfRange (aq_question_id q))
                  else recommended_defect qs)"

definition validateAskQuestions :: "Ask \<Rightarrow> block_error option" where
  "validateAskQuestions a =
     (case askQuestionsWellFormed a of Some d \<Rightarrow> Some (AskInvalid d) | None \<Rightarrow> recommended_defect (ask_questions a))"

definition validateAskAnswer :: "AskAnswerBlock \<Rightarrow> block_error option" where
  "validateAskAnswer b =
     (if ask_id (aab_ask b) = [] then Some AnswerEmptyAskID
      else if \<not> ask_answered (aab_ask b) then Some AnswerNotAnswered
      else case askQuestionsWellFormed (aab_ask b) of
             Some d \<Rightarrow> Some (AnswerInvalid d)
           | None \<Rightarrow> if aab_asker_account_id b = [] then Some AnswerEmptyAsker else None)"

definition marshal_block :: "nat \<times> MessageBlock \<Rightarrow> block_error + storedBlock" where
  "marshal_block ib =
     (case ib of (i, b) \<Rightarrow>
        (case (mb_text b, mb_ask b, mb_ask_answer b) of
           (Some t, None, None) \<Rightarrow>
             Inr \<lparr>sb_kind = blockKindText, sb_text = Some t, sb_ask = None, sb_ask_answer = None\<rparr>
         | (None, Some a, None) \<Rightarrow>
             (case validateAskQuestions a of
                Some e \<Rightarrow> Inl e
              | None \<Rightarrow> Inr \<lparr>sb_kind = blockKindAsk, sb_text = None, sb_ask = Some (toStoredAsk a), sb_ask_answer = None\<rparr>)
         | (None, None, Some aa) \<Rightarrow>
             (case validateAskAnswer aa of
                Some e \<Rightarrow> Inl e
              | None \<Rightarrow> Inr \<lparr>sb_kind = blockKindAskAnswer, sb_text = None, sb_ask = None,
                             sb_ask_answer = Some (toStoredAskAnswer aa)\<rparr>)
         | _ \<Rightarrow> Inl (BadOneof i)))"

definition marshalBlocks :: "MessageBlock list \<Rightarrow> block_error + json" where
  "marshalBlocks blocks = bindE (mapE marshal_block (List.enumerate 0 blocks)) (\<lambda>stored. Inr (JArr (map enc_block stored)))"

definition unmarshal_block :: "nat \<times> storedBlock \<Rightarrow> block_error + MessageBlock" where
  "unmarshal_block ib =
     (case ib of (i, sb) \<Rightarrow>
        if sb_kind sb = blockKindText then
          (case sb_text sb of
             None \<Rightarrow> Inl (NoTextPayload i)
           | Some t \<Rightarrow> Inr \<lparr>mb_text = Some t, mb_ask = None, mb_ask_answer = None\<rparr>)
        else if sb_kind sb = blockKindAsk then
          (case sb_ask sb of
             None \<Rightarrow> Inl (NoAskPayload i)
           | Some sa \<Rightarrow>
               (case askQuestionsWellFormed (fromStoredAsk sa) of
                  Some d \<Rightarrow> Inl (CorruptAsk i d)
                | None \<Rightarrow> Inr \<lparr>mb_text = None, mb_ask = Some (fromStoredAsk sa), mb_ask_answer = None\<rparr>))
        else if sb_kind sb = blockKindAskAnswer then
          (case sb_ask_answer sb of
             None \<Rightarrow> Inl (NoAnswerPayload i)
           | Some saa \<Rightarrow>
               if sa_ask_id (saa_ask saa) = [] then Inl (CorruptAnswerAskID i)
               else if \<not> sa_answered (saa_ask saa) then Inl (CorruptAnswerPending i)
               else case askQuestionsWellFormed (fromStoredAsk (saa_ask saa)) of
                      Some d \<Rightarrow> Inl (CorruptAnswerQuestions i d)
                    | None \<Rightarrow>
                        if saa_asker_account_id saa = [] then Inl (CorruptAnswerAsker i)
                        else Inr \<lparr>mb_text = None, mb_ask = None,
                               mb_ask_answer = Some \<lparr>aab_ask = fromStoredAsk (saa_ask saa),
                                                     aab_asker_account_id = saa_asker_account_id saa\<rparr>\<rparr>)
        else Inl (UnknownKind i (sb_kind sb)))"

definition unmarshalBlocks :: "json \<Rightarrow> block_error + MessageBlock list" where
  "unmarshalBlocks data =
     (case dec_list dec_block data of
        Inl e \<Rightarrow> Inl (JSONError e)
      | Inr stored \<Rightarrow> mapE unmarshal_block (List.enumerate 0 stored))"

text \<open>\<open>newID\<close> is a source of fresh ids: the \<open>n\<close>-th id it hands out.\<close>

fun mint_from :: "(nat \<Rightarrow> string) \<Rightarrow> nat \<Rightarrow> MessageBlock list \<Rightarrow> MessageBlock list" where
  "mint_from newID n [] = []"
| "mint_from newID n (b # bs) =
     (case mb_ask b of
        Some a \<Rightarrow>
          if mb_text b = None \<and> ask_id a = []
          then b\<lparr>mb_ask := Some (a\<lparr>ask_id := newID n\<rparr>)\<rparr> # mint_from newID (n + 1) bs
          else b # mint_from newID n bs
      | None \<Rightarrow> b # mint_from newID n bs)"

definition mintAskIDs :: "(nat \<Rightarrow> string) \<Rightarrow> MessageBlock list \<Rightarrow> MessageBlock list" where
  "mintAskIDs newID blocks = mint_from newID 0 blocks"

definition askIDContainmentFilter :: "string \<Rightarrow> json" where
  "askIDContainmentFilter askID =
     JArr [JObj [(''kind'', JStr blockKindAsk), (''ask'', JObj [(''ask_id'', JStr askID)])]]"

definition block_text_parts :: "MessageBlock \<Rightarrow> string list" where
  "block_text_parts b =
     (case mb_text b of
        Some t \<Rightarrow> [t]
      | None \<Rightarrow>
          (case mb_ask b of
             Some a \<Rightarrow> map aq_question (ask_questions a)
           | None \<Rightarrow>
               (case mb_ask_answer b of
                  Some aa \<Rightarrow> concat (map (\<lambda>q. aq_question q # (if aq_custom_text q \<noteq> [] then [aq_custom_text q] else []))
                                       (ask_questions (aab_ask aa)))
                | None \<Rightarrow> [])))"

text \<open>\<open>strings.Join(parts, "\n")\<close>.\<close>

fun join_nl :: "string list \<Rightarrow> string" where
  "join_nl [] = []"
| "join_nl [p] = p"
| "join_nl (p # q # ps) = p @ CHR 0x0A # join_nl (q # ps)"

definition textContent :: "MessageBlock list \<Rightarrow> string" where
  "textContent blocks = join_nl (concat (map block_text_parts blocks))"

section \<open>Round trips of the encoders\<close>

lemma dec_enc_option [simp]: "dec_option (enc_option x) = Inr x"
  by (cases x) (simp add: dec_option_def enc_option_def)

lemma dec_enc_question [simp]: "dec_question (enc_question x) = Inr x"
  by (cases x) (auto simp: dec_question_def enc_question_def mapE_enc dest: not_None_eq [THEN iffD1])

lemma dec_enc_ask [simp]: "dec_ask (enc_ask x) = Inr x"
  by (cases x) (auto simp: dec_ask_def enc_ask_def mapE_enc)

lemma dec_enc_answer [simp]: "dec_answer (enc_answer x) = Inr x"
  by (cases x) (simp add: dec_answer_def enc_answer_def)

lemma enc_not_null [simp]: "enc_ask a \<noteq> JNull" "enc_answer aa \<noteq> JNull"
  by (simp_all add: enc_ask_def enc_answer_def)

lemma dec_enc_block [simp]: "dec_block (enc_block x) = Inr x"
  by (cases x) (auto simp: dec_block_def enc_block_def)


section \<open>Validation\<close>

text \<open>What the validators mean: at least one question, ids set and pairwise distinct.\<close>

definition questions_ok :: "Ask \<Rightarrow> bool" where
  "questions_ok a \<longleftrightarrow> ask_questions a \<noteq> [] \<and> [] \<notin> set (map aq_question_id (ask_questions a))
     \<and> distinct (map aq_question_id (ask_questions a))"

definition recommended_ok :: "Ask \<Rightarrow> bool" where
  "recommended_ok a \<longleftrightarrow> list_all (\<lambda>q. case aq_recommended q of None \<Rightarrow> True
     | Some r \<Rightarrow> 0 \<le> sint r \<and> sint r < int (length (aq_options q))) (ask_questions a)"

definition answer_ok :: "AskAnswerBlock \<Rightarrow> bool" where
  "answer_ok b \<longleftrightarrow> ask_id (aab_ask b) \<noteq> [] \<and> ask_answered (aab_ask b) \<and> questions_ok (aab_ask b)
     \<and> aab_asker_account_id b \<noteq> []"

text \<open>The block a write accepts, and the weaker contract of a block that was read back.\<close>

definition block_valid :: "MessageBlock \<Rightarrow> bool" where
  "block_valid b \<longleftrightarrow>
     (case (mb_text b, mb_ask b, mb_ask_answer b) of
        (Some t, None, None) \<Rightarrow> True
      | (None, Some a, None) \<Rightarrow> questions_ok a \<and> recommended_ok a
      | (None, None, Some aa) \<Rightarrow> answer_ok aa
      | _ \<Rightarrow> False)"

definition block_readable :: "MessageBlock \<Rightarrow> bool" where
  "block_readable b \<longleftrightarrow>
     (case (mb_text b, mb_ask b, mb_ask_answer b) of
        (Some t, None, None) \<Rightarrow> True
      | (None, Some a, None) \<Rightarrow> questions_ok a
      | (None, None, Some aa) \<Rightarrow> answer_ok aa
      | _ \<Rightarrow> False)"

lemma question_ids_defect_None:
  "question_ids_defect seen qs = None \<longleftrightarrow>
     [] \<notin> set (map aq_question_id qs) \<and> distinct (map aq_question_id qs) \<and> set (map aq_question_id qs) \<inter> set seen = {}"
  by (induction qs arbitrary: seen) auto

lemma askQuestionsWellFormed_None: "askQuestionsWellFormed a = None \<longleftrightarrow> questions_ok a"
  by (simp add: askQuestionsWellFormed_def questions_ok_def question_ids_defect_None)

lemma recommended_defect_None:
  "recommended_defect qs = None \<longleftrightarrow> list_all (\<lambda>q. case aq_recommended q of None \<Rightarrow> True
     | Some r \<Rightarrow> 0 \<le> sint r \<and> sint r < int (length (aq_options q))) qs"
  by (induction qs) (auto split: option.splits)

lemma validateAskQuestions_None: "validateAskQuestions a = None \<longleftrightarrow> questions_ok a \<and> recommended_ok a"
  using askQuestionsWellFormed_None [of a]
  by (auto simp: validateAskQuestions_def recommended_ok_def recommended_defect_None split: option.splits)

lemma validateAskAnswer_None: "validateAskAnswer b = None \<longleftrightarrow> answer_ok b"
  using askQuestionsWellFormed_None [of "aab_ask b"]
  by (auto simp: validateAskAnswer_def answer_ok_def split: option.splits if_splits)

lemmas validate_None = validateAskQuestions_None validateAskAnswer_None askQuestionsWellFormed_None

lemma marshal_block_ok: "isOK (marshal_block (i, b)) \<longleftrightarrow> block_valid b"
  using validateAskQuestions_None [of "the (mb_ask b)"] validateAskAnswer_None [of "the (mb_ask_answer b)"]
  by (auto simp: marshal_block_def block_valid_def split: option.splits)

text \<open>What storing forgets: the routing coordinate derived at the edge.\<close>

definition stored_ask_view :: "Ask \<Rightarrow> Ask" where
  "stored_ask_view a = a\<lparr>ask_ref_coord := None\<rparr>"

definition stored_view :: "MessageBlock \<Rightarrow> MessageBlock" where
  "stored_view b = b\<lparr>mb_ask := map_option stored_ask_view (mb_ask b),
     mb_ask_answer := map_option (\<lambda>aa. aa\<lparr>aab_ask := stored_ask_view (aab_ask aa)\<rparr>) (mb_ask_answer b)\<rparr>"

lemma fromStored_toStoredOption [simp]: "fromStoredOption (toStoredOption x) = x"
  by (simp add: fromStoredOption_def toStoredOption_def)

lemma fromStored_toStoredAsk [simp]: "fromStoredAsk (toStoredAsk a) = stored_ask_view a"
  by (cases a) (simp add: fromStoredAsk_def toStoredAsk_def stored_ask_view_def comp_def map_idI)

lemma toStoredAsk_sel [simp]: "sa_ask_id (toStoredAsk a) = ask_id a" "sa_answered (toStoredAsk a) = ask_answered a"
  by (simp_all add: toStoredAsk_def)

lemma questions_ok_view [simp]: "questions_ok (stored_ask_view a) = questions_ok a"
  by (simp add: questions_ok_def stored_ask_view_def)

lemma kinds_distinct [simp]:
  "blockKindAsk \<noteq> blockKindText" "blockKindAskAnswer \<noteq> blockKindText" "blockKindAskAnswer \<noteq> blockKindAsk"
  "blockKindText \<noteq> blockKindAsk" "blockKindText \<noteq> blockKindAskAnswer" "blockKindAsk \<noteq> blockKindAskAnswer"
  by (simp_all add: blockKindText_def blockKindAsk_def blockKindAskAnswer_def)

lemma unmarshal_marshal_block:
  assumes "marshal_block (i, b) = Inr sb"
  shows "unmarshal_block (j, sb) = Inr (stored_view b)"
proof -
  have v: "block_valid b" using assms marshal_block_ok [of i b] by simp
  obtain t a aa where b: "b = \<lparr>mb_text = t, mb_ask = a, mb_ask_answer = aa\<rparr>" by (cases b)
  have w: "questions_ok x \<Longrightarrow> askQuestionsWellFormed x = None" for x by (simp add: validate_None)
  show ?thesis using assms v w unfolding b
    by (auto simp: marshal_block_def unmarshal_block_def block_valid_def stored_view_def toStoredAskAnswer_def
        answer_ok_def split: option.splits)
qed

lemma unmarshal_block_readable: "unmarshal_block (i, sb) = Inr b \<Longrightarrow> block_readable b"
  using askQuestionsWellFormed_None [of "fromStoredAsk (the (sb_ask sb))"]
    askQuestionsWellFormed_None [of "fromStoredAsk (saa_ask (the (sb_ask_answer sb)))"]
  by (auto simp: unmarshal_block_def block_readable_def answer_ok_def fromStoredAsk_def split: if_splits option.splits)

section \<open>Properties\<close>


text \<open>What the two ends check. A write is accepted exactly when every block sets one arm and
  that arm is well formed (asks have questions with distinct non-empty ids and in-range
  recommendations, answers are complete answered snapshots), and a read returns only blocks
  with that shape, whatever JSON the row holds.\<close>

theorem blocks_validated:
  "(isOK (marshalBlocks bs) \<longleftrightarrow> list_all block_valid bs)
   \<and> (case unmarshalBlocks j of Inl e \<Rightarrow> True | Inr rs \<Rightarrow> list_all block_readable rs)"
proof
  have "isOK (marshalBlocks bs) \<longleftrightarrow> isOK (mapE marshal_block (List.enumerate 0 bs))"
    by (simp add: marshalBlocks_def isOK_iff)
  also have "\<dots> \<longleftrightarrow> list_all block_valid bs"
    by (auto simp: mapE_isOK list_all_length nth_enumerate_eq marshal_block_ok)
  finally show "isOK (marshalBlocks bs) \<longleftrightarrow> list_all block_valid bs" .
next
  show "case unmarshalBlocks j of Inl e \<Rightarrow> True | Inr rs \<Rightarrow> list_all block_readable rs"
    using unmarshal_block_readable
    by (fastforce simp: unmarshalBlocks_def mapE_eq_Inr list_all2_conv_all_nth list_all_length nth_enumerate_eq
        split: sum.splits)
qed


definition needs_id :: "MessageBlock \<Rightarrow> bool" where
  "needs_id b \<longleftrightarrow> mb_text b = None \<and> (case mb_ask b of None \<Rightarrow> False | Some a \<Rightarrow> ask_id a = [])"

definition with_id :: "string \<Rightarrow> MessageBlock \<Rightarrow> MessageBlock" where
  "with_id i b = b\<lparr>mb_ask := map_option (\<lambda>a. a\<lparr>ask_id := i\<rparr>) (mb_ask b)\<rparr>"

lemma mint_from_Cons:
  "mint_from newID n (b # bs) =
     (if needs_id b then with_id (newID n) b # mint_from newID (n + 1) bs else b # mint_from newID n bs)"
  by (auto simp: needs_id_def with_id_def split: option.splits)

declare mint_from.simps(2) [simp del]

lemma mint_from_length [simp]: "length (mint_from newID n bs) = length bs"
  by (induction bs arbitrary: n) (auto simp: mint_from_Cons)

lemma mint_from_nth:
  "i < length bs \<Longrightarrow> mint_from newID n bs ! i =
     (if needs_id (bs ! i) then with_id (newID (n + length (filter needs_id (take i bs)))) (bs ! i) else bs ! i)"
proof (induction bs arbitrary: n i)
  case (Cons b bs)
  then show ?case by (cases i) (auto simp: mint_from_Cons)
qed simp

lemma mint_from_id: "list_all (\<lambda>b. \<not> needs_id b) bs \<Longrightarrow> mint_from newID n bs = bs"
  by (induction bs arbitrary: n) (auto simp: mint_from_Cons)

lemma mint_from_done:
  assumes "\<And>n. newID n \<noteq> []"
  shows "list_all (\<lambda>b. \<not> needs_id b) (mint_from newID n bs)"
proof (induction bs arbitrary: n)
  case (Cons b bs)
  have "\<not> needs_id (with_id (newID n) b)" using assms by (auto simp: needs_id_def with_id_def split: option.splits)
  then show ?case using Cons by (simp add: mint_from_Cons)
qed simp

text \<open>Minting. The blocks keep their number and order; an ask with no id gets the next id of
  the source, in order and each id once, a set id and every other block are left alone, and
  with a source of non-empty ids a second pass changes nothing.\<close>

theorem mint_ids_once:
  assumes "\<And>n. newID n \<noteq> []"
  shows "length (mintAskIDs newID bs) = length bs
    \<and> (\<forall>i < length bs. mintAskIDs newID bs ! i =
         (if needs_id (bs ! i) then with_id (newID (length (filter needs_id (take i bs)))) (bs ! i) else bs ! i))
    \<and> mintAskIDs newID (mintAskIDs newID bs) = mintAskIDs newID bs"
  using mint_from_id [OF mint_from_done [OF assms]] by (simp add: mintAskIDs_def mint_from_nth)

theorem mint_ids_once_witness:
  "mintAskIDs (\<lambda>n. ''id'' @ FormatUint n) (mintAskIDs (\<lambda>n. ''id'' @ FormatUint n) [])
     = mintAskIDs (\<lambda>n. ''id'' @ FormatUint n) []
   \<and> length (mintAskIDs (\<lambda>n. ''id'' @ FormatUint n) [\<lparr>mb_text = Some ''hi'', mb_ask = None, mb_ask_answer = None\<rparr>]) = 1"
  using mint_ids_once [of "\<lambda>n. ''id'' @ FormatUint n"] by simp

end
