(* ===== verification/Fabric_Subjects.thy ===== *)
theory Fabric_Subjects
  imports Json
begin

text \<open>
  The subject grammar of the event fabric, \<open>src/go/internal/fabric/subjects.go\<close>, and the row
  reference that rides on it, \<open>eventref.go\<close>. A subject is a dot-separated list of tokens; ids
  become tokens unescaped, so the builders reject an id that is no single token. The hash of
  \<open>msgID\<close> is a parameter.
\<close>

section \<open>Model\<close>

type_synonym EventKind = string

datatype subject_error =
    EmptyToken string
  | ReservedChar string string nat
  | WhitespaceChar string string nat
  | WrongTokenCount nat
  | WrongRoot string
  | WrongCommsToken string
  | EmptyRowID
  | RefJSON json_error
  | IncompleteRef

definition subjectPrefix :: string where "subjectPrefix = ''compass''"
definition wildcardToken :: string where "wildcardToken = ''*''"
definition commsToken :: string where "commsToken = ''comms''"
definition commsSubjectTokens :: nat where "commsSubjectTokens = 4"
definition routingBindingPrefix :: string where "routingBindingPrefix = subjectPrefix @ ''.routing.binding''"

definition KindMessagePosted :: EventKind where "KindMessagePosted = ''message_posted''"

text \<open>The offset of the first byte that satisfies the predicate.\<close>

fun index_from :: "(char \<Rightarrow> bool) \<Rightarrow> nat \<Rightarrow> string \<Rightarrow> nat option" where
  "index_from p i [] = None"
| "index_from p i (c # cs) = (if p c then Some i else index_from p (i + 1) cs)"

definition is_reserved :: "char \<Rightarrow> bool" where
  "is_reserved c \<longleftrightarrow> c = CHR ''.'' \<or> c = CHR ''*'' \<or> c = CHR ''>''"

definition is_ws :: "char \<Rightarrow> bool" where
  "is_ws c \<longleftrightarrow> c = CHR '' '' \<or> c = CHR 0x09 \<or> c = CHR 0x0D \<or> c = CHR 0x0A"

definition ValidSubjectToken :: "string \<Rightarrow> string \<Rightarrow> subject_error + unit" where
  "ValidSubjectToken what s =
     (if s = [] then Inl (EmptyToken what)
      else case index_from is_reserved 0 s of
             Some i \<Rightarrow> Inl (ReservedChar what s i)
           | None \<Rightarrow>
               (case index_from is_ws 0 s of
                  Some i \<Rightarrow> Inl (WhitespaceChar what s i)
                | None \<Rightarrow> Inr ()))"

definition CommsSubject :: "string \<Rightarrow> EventKind \<Rightarrow> subject_error + string" where
  "CommsSubject tenant kind =
     bindE (ValidSubjectToken ''tenant'' tenant) (\<lambda>_.
     bindE (ValidSubjectToken ''event kind'' kind) (\<lambda>_.
     Inr (subjectPrefix @ ''.'' @ tenant @ ''.comms.'' @ kind)))"

definition CommsWildcardSubject :: "EventKind \<Rightarrow> subject_error + string" where
  "CommsWildcardSubject kind =
     bindE (ValidSubjectToken ''event kind'' kind) (\<lambda>_.
     Inr (subjectPrefix @ ''.'' @ wildcardToken @ ''.comms.'' @ kind))"

text \<open>\<open>strings.Split(s, ".")\<close>.\<close>

fun split_dot :: "string \<Rightarrow> string list" where
  "split_dot [] = [[]]"
| "split_dot (c # cs) =
     (if c = CHR ''.'' then [] # split_dot cs
      else case split_dot cs of [] \<Rightarrow> [[c]] | t # ts \<Rightarrow> (c # t) # ts)"

definition validCommsSubject :: "string \<Rightarrow> subject_error + unit" where
  "validCommsSubject subject =
     (let tokens = split_dot subject
      in if length tokens \<noteq> commsSubjectTokens then Inl (WrongTokenCount (length tokens))
         else if tokens ! 0 \<noteq> subjectPrefix then Inl (WrongRoot (tokens ! 0))
         else if tokens ! 2 \<noteq> commsToken then Inl (WrongCommsToken (tokens ! 2))
         else bindE (ValidSubjectToken ''tenant'' (tokens ! 1)) (\<lambda>_. ValidSubjectToken ''event kind'' (tokens ! 3)))"

definition RunnerCommandSubject :: "string \<Rightarrow> subject_error + string" where
  "RunnerCommandSubject runnerID =
     bindE (ValidSubjectToken ''runner id'' runnerID) (\<lambda>_.
     Inr (subjectPrefix @ ''.runner.'' @ runnerID @ ''.cmd''))"

definition RunnerEventsSubject :: string where
  "RunnerEventsSubject = subjectPrefix @ ''.runner.events''"

definition RoutingBindingSubject :: "string \<Rightarrow> subject_error + string" where
  "RoutingBindingSubject tenant =
     bindE (ValidSubjectToken ''tenant'' tenant) (\<lambda>_. Inr (routingBindingPrefix @ ''.'' @ tenant))"

definition RoutingBindingWildcardSubject :: string where
  "RoutingBindingWildcardSubject = routingBindingPrefix @ ''.'' @ wildcardToken"

definition ClientSubject :: "string \<Rightarrow> subject_error + string" where
  "ClientSubject sessionID = bindE (ValidSubjectToken ''session id'' sessionID) (\<lambda>_. Inr (''client.'' @ sessionID))"

record EventRef =
  er_tenant :: string
  er_kind :: EventKind
  er_row_id :: string

definition encode_ref :: "EventRef \<Rightarrow> json" where
  "encode_ref r = JObj [(''tenant'', JStr (er_tenant r)), (''kind'', JStr (er_kind r)), (''row_id'', JStr (er_row_id r))]"

definition decodeEventRef :: "json \<Rightarrow> subject_error + EventRef" where
  "decodeEventRef b =
     (case dec_obj (\<lambda>kvs.
          bindE (dec_str (fld kvs ''tenant'')) (\<lambda>t.
          bindE (dec_str (fld kvs ''kind'')) (\<lambda>k.
          bindE (dec_str (fld kvs ''row_id'')) (\<lambda>i.
          Inr \<lparr>er_tenant = t, er_kind = k, er_row_id = i\<rparr>)))) b of
        Inl e \<Rightarrow> Inl (RefJSON e)
      | Inr r \<Rightarrow> if er_tenant r = [] \<or> er_kind r = [] \<or> er_row_id r = [] then Inl IncompleteRef else Inr r)"

definition ref_valid :: "EventRef \<Rightarrow> subject_error + unit" where
  "ref_valid r =
     bindE (ValidSubjectToken ''tenant'' (er_tenant r)) (\<lambda>_.
     bindE (ValidSubjectToken ''event kind'' (er_kind r)) (\<lambda>_.
     if er_row_id r = [] then Inl EmptyRowID else Inr ()))"

text \<open>The bytes \<open>msgID\<close> hashes: every field with its decimal length and a colon in front.\<close>

definition len_prefixed :: "string \<Rightarrow> string" where
  "len_prefixed f = FormatUint (length f) @ '':'' @ f"

definition msgID :: "(string \<Rightarrow> string) \<Rightarrow> EventRef \<Rightarrow> string" where
  "msgID sha256hex r = sha256hex (concat (map len_prefixed [er_tenant r, er_kind r, er_row_id r]))"

section \<open>Tokens\<close>

definition token_ok :: "string \<Rightarrow> bool" where
  "token_ok s \<longleftrightarrow> s \<noteq> [] \<and> list_all (\<lambda>c. \<not> is_reserved c \<and> \<not> is_ws c) s"

lemma index_from_None: "index_from p i s = None \<longleftrightarrow> list_all (\<lambda>c. \<not> p c) s"
  by (induction s arbitrary: i) auto

lemma ValidSubjectToken_ok [simp]: "ValidSubjectToken what s = Inr () \<longleftrightarrow> token_ok s"
  using index_from_None [of is_reserved 0 s] index_from_None [of is_ws 0 s]
  by (auto simp: ValidSubjectToken_def token_ok_def list_all_iff split: option.splits)

lemma ValidSubjectToken_Inr [simp]: "ValidSubjectToken what s = Inr u \<longleftrightarrow> token_ok s"
  using ValidSubjectToken_ok [of what s] by (cases u) simp

definition dotless :: "string \<Rightarrow> bool" where
  "dotless s \<longleftrightarrow> CHR ''.'' \<notin> set s"

lemma token_dotless: "token_ok s \<Longrightarrow> dotless s"
  by (auto simp: token_ok_def dotless_def list_all_iff is_reserved_def)

lemma split_dot_nonempty [simp]: "split_dot s \<noteq> []"
  by (induction s) (auto split: list.splits)

lemma split_dot_dotless: "dotless s \<Longrightarrow> split_dot s = [s]"
  by (induction s) (auto simp: dotless_def)

lemma split_dot_append: "dotless s \<Longrightarrow> split_dot (s @ CHR ''.'' # t) = s # split_dot t"
  by (induction s) (auto simp: dotless_def)

fun join_dot :: "string list \<Rightarrow> string" where
  "join_dot [] = []"
| "join_dot [t] = t"
| "join_dot (t # u # ts) = t @ CHR ''.'' # join_dot (u # ts)"

lemma join_split_dot: "join_dot (split_dot s) = s"
proof (induction s)
  case (Cons c s)
  obtain t ts where "split_dot s = t # ts" by (cases "split_dot s") auto
  then show ?case using Cons by (cases ts) auto
qed simp

lemma dotless_lits [simp]: "dotless ''compass''" "dotless ''comms''" "dotless ''runner''" "dotless ''cmd''"
  "dotless ''routing''" "dotless ''binding''" "dotless ''client''" "dotless ''events''"
  by (simp_all add: dotless_def)

lemma split_comms:
  assumes "dotless t" and "dotless k"
  shows "split_dot (subjectPrefix @ ''.'' @ t @ ''.comms.'' @ k) = [subjectPrefix, t, commsToken, k]"
  using assms split_dot_append [of "''compass''"] split_dot_append [of t] split_dot_append [of "''comms''" k]
  by (simp add: subjectPrefix_def commsToken_def split_dot_dotless)

lemma split_runner:
  assumes "dotless r"
  shows "split_dot (subjectPrefix @ ''.runner.'' @ r @ ''.cmd'') = [subjectPrefix, ''runner'', r, ''cmd'']"
  using assms split_dot_append [of "''compass''"] split_dot_append [of "''runner''"] split_dot_append [of r "''cmd''"]
  by (simp add: subjectPrefix_def split_dot_dotless [of "''cmd''", simplified])

lemma split_binding:
  assumes "dotless t"
  shows "split_dot (routingBindingPrefix @ ''.'' @ t) = [subjectPrefix, ''routing'', ''binding'', t]"
  using assms split_dot_append [of "''compass''"] split_dot_append [of "''routing''"] split_dot_append [of "''binding''" t]
  by (simp add: subjectPrefix_def routingBindingPrefix_def split_dot_dotless)

lemma CommsSubject_split: "CommsSubject t k = Inr s \<Longrightarrow> split_dot s = [subjectPrefix, t, commsToken, k]"
  using split_comms token_dotless by (auto simp: CommsSubject_def)

lemma validCommsSubject_iff:
  "validCommsSubject s = Inr u \<longleftrightarrow>
     (\<exists>t k. split_dot s = [subjectPrefix, t, commsToken, k] \<and> token_ok t \<and> token_ok k)"
proof -
  have "length ts = 4 \<longleftrightarrow> (\<exists>a b c d. ts = [a, b, c, d])" for ts :: "string list"
    by (auto simp: numeral_eq_Suc length_Suc_conv)
  then show ?thesis
    by (auto simp: validCommsSubject_def Let_def commsSubjectTokens_def numeral_eq_Suc split: if_splits)
qed

lemma len_prefixed_inj:
  assumes "len_prefixed f @ u = len_prefixed g @ v"
  shows "f = g \<and> u = v"
proof -
  let ?d = is_digit_byte
  have stop: "\<not> ?d (CHR '':'')" by (simp add: is_digit_byte_def)
  have tw: "takeWhile ?d (len_prefixed h @ w) = FormatUint (length h)" for h w
    using takeWhile_append_stop [OF FormatUint_digits stop, of "length h" "h @ w"] by (simp add: len_prefixed_def)
  have n: "length f = length g" using tw [of f u] tw [of g v] assms by simp
  then have "f @ u = g @ v" using assms by (simp add: len_prefixed_def)
  then show ?thesis using n by simp
qed

section \<open>Properties\<close>

text \<open>The comms grammar. The subscribe-side check accepts exactly the subjects the builder
  makes, and a subject determines the tenant and the kind it was built from, so no tenant's
  events can land on another tenant's subject.\<close>

theorem comms_subject_grammar:
  "(validCommsSubject s = Inr () \<longleftrightarrow> (\<exists>t k. CommsSubject t k = Inr s))
   \<and> (CommsSubject t1 k1 = Inr s \<and> CommsSubject t2 k2 = Inr s \<longrightarrow> t1 = t2 \<and> k1 = k2)"
proof (intro conjI iffI impI)
  assume "validCommsSubject s = Inr ()"
  then obtain t k where tk: "split_dot s = [subjectPrefix, t, commsToken, k]" "token_ok t" "token_ok k"
    by (auto simp: validCommsSubject_iff)
  then have "s = join_dot [subjectPrefix, t, commsToken, k]" using join_split_dot [of s] by simp
  then show "\<exists>t k. CommsSubject t k = Inr s"
    using tk by (intro exI [of _ t] exI [of _ k]) (simp add: CommsSubject_def commsToken_def)
next
  assume "\<exists>t k. CommsSubject t k = Inr s"
  then obtain t k where c: "CommsSubject t k = Inr s" by blast
  then show "validCommsSubject s = Inr ()"
    using CommsSubject_split [OF c] by (auto simp: validCommsSubject_iff CommsSubject_def)
next
  assume "CommsSubject t1 k1 = Inr s \<and> CommsSubject t2 k2 = Inr s"
  then show "t1 = t2" "k1 = k2" using CommsSubject_split [of t1 k1 s] CommsSubject_split [of t2 k2 s] by simp_all
qed

theorem comms_subject_grammar_witness:
  "validCommsSubject ''compass.acme.comms.message_posted'' = Inr ()
   \<and> CommsSubject ''acme'' ''message_posted'' = Inr ''compass.acme.comms.message_posted''"
proof -
  have "CommsSubject ''acme'' ''message_posted'' = Inr ''compass.acme.comms.message_posted''"
    by (simp add: CommsSubject_def token_ok_def is_reserved_def is_ws_def subjectPrefix_def)
  then show ?thesis
    using comms_subject_grammar [of "''compass.acme.comms.message_posted''" "''acme''" "''message_posted''"] by blast
qed

text \<open>The planes. No routing-binding subject and no client subject is in the comms grammar,
  whatever the tenant or session id; a Runner's command subject is in it exactly when the
  Runner's id is \<open>comms\<close>, when it equals the comms subject of tenant \<open>runner\<close> and kind \<open>cmd\<close>.\<close>

theorem planes_disjoint_but_comms_runner:
  "\<not> isOK (bindE (RoutingBindingSubject t) validCommsSubject)
   \<and> \<not> isOK (bindE (ClientSubject t) validCommsSubject)
   \<and> (isOK (bindE (RunnerCommandSubject r) validCommsSubject) \<longleftrightarrow> r = ''comms'')
   \<and> RunnerCommandSubject ''comms'' = CommsSubject ''runner'' ''cmd''"
proof -
  have eq: "token_ok a \<Longrightarrow> ValidSubjectToken w a = Inr ()" for w a by simp
  have lit: "token_ok ''comms''" "token_ok ''runner''" "token_ok ''cmd''"
    by (simp_all add: token_ok_def is_reserved_def is_ws_def)
  have client: "split_dot (''client.'' @ t) = ''client'' # split_dot t"
    using split_dot_append [of "''client''" t] by simp
  have "RunnerCommandSubject ''comms'' = CommsSubject ''runner'' ''cmd''"
    by (simp add: RunnerCommandSubject_def CommsSubject_def eq lit)
  then show ?thesis
    using lit client split_binding [OF token_dotless, of t] split_runner [OF token_dotless, of r]
    by (auto simp: isOK_iff RoutingBindingSubject_def ClientSubject_def RunnerCommandSubject_def
        validCommsSubject_iff commsToken_def subjectPrefix_def)
qed

text \<open>The dedup key. Two refs have the same bytes under the hash exactly when they are the
  same ref: the length prefixes leave no ambiguous split of the fields. And a published ref
  decodes to itself on the subscribe side.\<close>

theorem msgID_unambiguous:
  "((\<forall>h. msgID h r = msgID h r') \<longleftrightarrow> r = r')
   \<and> (isOK (ref_valid q) \<longrightarrow> decodeEventRef (encode_ref q) = Inr q)"
proof (intro conjI iffI impI)
  assume h: "\<forall>h. msgID h r = msgID h r'"
  have "msgID (\<lambda>x. x) r = msgID (\<lambda>x. x) r'" using h by blast
  then have e: "len_prefixed (er_tenant r) @ len_prefixed (er_kind r) @ len_prefixed (er_row_id r)
    = len_prefixed (er_tenant r') @ len_prefixed (er_kind r') @ len_prefixed (er_row_id r')"
    by (simp add: msgID_def)
  note a = len_prefixed_inj [OF e]
  note b = len_prefixed_inj [OF a [THEN conjunct2]]
  have "len_prefixed (er_row_id r) @ [] = len_prefixed (er_row_id r') @ []" using b by simp
  then show "r = r'" using a b len_prefixed_inj by (metis EventRef.equality old.unit.exhaust)
next
  assume "isOK (ref_valid q)"
  then show "decodeEventRef (encode_ref q) = Inr q"
    by (auto simp: isOK_iff ref_valid_def decodeEventRef_def encode_ref_def token_ok_def split: if_splits)
qed simp

theorem msgID_unambiguous_witness:
  "decodeEventRef (encode_ref \<lparr>er_tenant = ''a'', er_kind = KindMessagePosted, er_row_id = ''m1''\<rparr>)
     = Inr \<lparr>er_tenant = ''a'', er_kind = KindMessagePosted, er_row_id = ''m1''\<rparr>"
proof -
  let ?q = "\<lparr>er_tenant = ''a'', er_kind = KindMessagePosted, er_row_id = ''m1''\<rparr>"
  have "isOK (ref_valid ?q)"
    by (simp add: isOK_iff ref_valid_def token_ok_def is_reserved_def is_ws_def KindMessagePosted_def)
  then show ?thesis using msgID_unambiguous [of ?q ?q ?q] by blast
qed

end
