(* ===== verification/Comms_Mapping.thy ===== *)
theory Comms_Mapping
  imports Events Blocks Fabric_Subjects
begin

text \<open>
  The service edge of the communication layer, \<open>src/go/internal/comms/mapping.go\<close> and
  \<open>resolve.go\<close>: every crossing between the store's types and the wire, the resolution of
  submitted handles, the merge of member updates, and the write-through publishers that put
  an event on the comms bus of theory \<open>Events\<close> after a commit.

  The store's lookups are arguments of the definitions that use them (they run SQL), as is
  the fabric's \<open>Publish\<close>; their results are values, an error or an answer.
\<close>

section \<open>Store to wire\<close>

definition userRoleToWire :: "UserRole \<Rightarrow> wire_user_role" where
  "userRoleToWire r = (if r = UserRoleAdmin then USER_ROLE_ADMIN else USER_ROLE_MEMBER)"

definition accountToWire :: "Account \<Rightarrow> wire_account" where
  "accountToWire a = \<lparr>wac_id = ac_id a, wac_handle = ac_handle a, wac_display_name = ac_display_name a,
     wac_kind =
       (case ac_user a of
          Some u \<Rightarrow> WUser (userRoleToWire (ua_role u))
        | None \<Rightarrow>
            (case ac_agent a of
               Some g \<Rightarrow> WAgent (aa_owner_user_id g) (aa_home_channel_id g) (aa_parent_agent_id g)
             | None \<Rightarrow> (case ac_system a of Some _ \<Rightarrow> WSystem | None \<Rightarrow> WKindUnset)))\<rparr>"

fun peeringStateToWire :: "PeeringState \<Rightarrow> wire_peering_state" where
  "peeringStateToWire PeeringPendingOutgoing = PEERING_STATE_PENDING_OUTGOING"
| "peeringStateToWire PeeringPendingIncoming = PEERING_STATE_PENDING_INCOMING"
| "peeringStateToWire PeeringApproved = PEERING_STATE_APPROVED"
| "peeringStateToWire (PeeringOther _) = PEERING_STATE_UNSPECIFIED"

definition peeringToWire :: "Peering \<Rightarrow> wire_peering" where
  "peeringToWire p = \<lparr>wpe_user_account_id = pe_peer_id p, wpe_handle = pe_handle p, wpe_state = peeringStateToWire (pe_state p)\<rparr>"

definition groupVisibilityToWire :: "ChannelGroupVisibility \<Rightarrow> wire_visibility" where
  "groupVisibilityToWire v =
     (if v = VisibilityShared then CHANNEL_GROUP_VISIBILITY_SHARED else CHANNEL_GROUP_VISIBILITY_OWNER)"

definition groupToWire :: "ChannelGroup \<Rightarrow> wire_group" where
  "groupToWire g = \<lparr>wcg_id = cg_id g, wcg_name = cg_name g, wcg_parent_group_id = cg_parent_group_id g,
     wcg_owner_user_id = cg_owner_user_id g, wcg_visibility = groupVisibilityToWire (cg_visibility g)\<rparr>"

definition channelMembershipModeToWire :: "ChannelMembershipMode \<Rightarrow> wire_membership_mode" where
  "channelMembershipModeToWire m =
     (if m = ChannelMembershipModeTree then CHANNEL_MEMBERSHIP_MODE_TREE else CHANNEL_MEMBERSHIP_MODE_EXPLICIT)"

datatype comms_error =
    UnknownMembershipMode int
  | ErrEmptyBlock
  | ErrServerOwnedBlock
  | AskRefInvalid ref_error
  | ParseCanonicalRef ref_error
  | MissingMemberUpdate
  | NotFound
  | NotFoundHandle string
  | StoreFault string

fun channelMembershipModeFromWire :: "wire_membership_mode \<Rightarrow> comms_error + ChannelMembershipMode" where
  "channelMembershipModeFromWire CHANNEL_MEMBERSHIP_MODE_EXPLICIT = Inr ChannelMembershipModeExplicit"
| "channelMembershipModeFromWire CHANNEL_MEMBERSHIP_MODE_TREE = Inr ChannelMembershipModeTree"
| "channelMembershipModeFromWire (CHANNEL_MEMBERSHIP_MODE_NUM n) = Inl (UnknownMembershipMode n)"

definition channelKindToWire :: "ChannelKind \<Rightarrow> wire_channel_kind" where
  "channelKindToWire k = (case k of ChannelKindDM \<Rightarrow> CHANNEL_KIND_DM | _ \<Rightarrow> CHANNEL_KIND_CHANNEL)"

definition channelPostPolicyToWire :: "ChannelPostPolicy \<Rightarrow> wire_post_policy" where
  "channelPostPolicyToWire p =
     (case p of
        ChannelPostPolicyOpen \<Rightarrow> CHANNEL_POST_POLICY_OPEN
      | ChannelPostPolicyOwnerOnly \<Rightarrow> CHANNEL_POST_POLICY_OWNER_ONLY
      | _ \<Rightarrow> CHANNEL_POST_POLICY_OPEN)"

definition channelPostPolicyFromWire :: "wire_post_policy \<Rightarrow> ChannelPostPolicy" where
  "channelPostPolicyFromWire p =
     (case p of
        CHANNEL_POST_POLICY_OWNER_ONLY \<Rightarrow> ChannelPostPolicyOwnerOnly
      | CHANNEL_POST_POLICY_OPEN \<Rightarrow> ChannelPostPolicyOpen
      | _ \<Rightarrow> ChannelPostPolicyOpen)"

definition accountIDsToWire :: "AccountID list \<Rightarrow> string list" where
  "accountIDsToWire ids = (if ids = [] then [] else map (\<lambda>i. i) ids)"

definition channelToWire :: "Channel \<Rightarrow> wire_channel" where
  "channelToWire c = \<lparr>wch_id = ch_id c, wch_name = ch_name c, wch_group_id = ch_group_id c,
     wch_kind = channelKindToWire (ch_kind c),
     wch_member_account_ids = accountIDsToWire (ch_member_account_ids c),
     wch_subscriber_account_ids = accountIDsToWire (ch_subscriber_account_ids c),
     wch_post_policy = channelPostPolicyToWire (cp_post_policy (ch_policy c)),
     wch_owner_account_id = cp_owner_account_id (ch_policy c),
     wch_mandatory_subscription = cp_mandatory_subscription (ch_policy c),
     wch_parent_agent_id = ch_parent_agent_id c,
     wch_membership_mode = channelMembershipModeToWire (ch_membership_mode c)\<rparr>"

definition pinnedEntriesToWire :: "PinnedEntry list \<Rightarrow> wire_pinned_entry list" where
  "pinnedEntriesToWire entries =
     map (\<lambda>e. \<lparr>wpi_message_id = pi_message_id e, wpi_position = pi_position e,
       wpi_pinned_at_unix_ms = pi_pinned_at_unix_ms e, wpi_pinned_by_account_id = pi_pinned_by_account_id e\<rparr>) entries"

definition workspaceToWire :: "AgentWorkspace \<Rightarrow> wire_workspace" where
  "workspaceToWire w = \<lparr>waw_id = aw_id w, waw_agent_account_id = aw_agent_account_id w\<rparr>"

definition askToWire :: "Ask \<Rightarrow> wire_ask" where
  "askToWire a = \<lparr>wask_id = ask_id a,
     wask_questions = map (\<lambda>q. \<lparr>waq_question_id = aq_question_id q, waq_question = aq_question q,
       waq_header = aq_header q,
       waq_options = map (\<lambda>o1. \<lparr>wao_id = ao_id o1, wao_label = ao_label o1, wao_description = ao_description o1,
         wao_preview = ao_preview o1\<rparr>) (aq_options q),
       waq_allow_multiple = aq_allow_multiple q, waq_recommended = aq_recommended q,
       waq_chosen_option_ids = aq_chosen_option_ids q, waq_custom_text = aq_custom_text q,
       waq_timed_out = aq_timed_out q\<rparr>) (ask_questions a),
     wask_answered = ask_answered a, wask_ref = ask_ref a\<rparr>"

definition askAnswerToWire :: "AskAnswerBlock \<Rightarrow> wire_ask_answer" where
  "askAnswerToWire b = \<lparr>waab_ask = askToWire (aab_ask b), waab_asker_account_id = aab_asker_account_id b\<rparr>"

text \<open>A block with no arm set leaves a nil element, which reads as an unset block.\<close>

definition blocksToWire :: "MessageBlock list \<Rightarrow> wire_block list" where
  "blocksToWire blocks =
     map (\<lambda>b. case mb_text b of
            Some t \<Rightarrow> WText t
          | None \<Rightarrow>
              (case mb_ask b of
                 Some a \<Rightarrow> WAsk (askToWire a)
               | None \<Rightarrow> (case mb_ask_answer b of Some aa \<Rightarrow> WAskAnswer (askAnswerToWire aa) | None \<Rightarrow> WBlockUnset))) blocks"

definition MessageToWire :: "Message \<Rightarrow> wire_message" where
  "MessageToWire m = \<lparr>wm_id = m_id m, wm_topic_id = m_topic_id m, wm_channel_id = m_channel_id m,
     wm_author_account_id = m_author_account_id m, wm_author_handle = m_author_handle m,
     wm_at_unix_ms = UnixMilli (m_at m), wm_blocks = blocksToWire (m_blocks m), wm_turn_sequence = m_turn_sequence m\<rparr>"

definition messagesToWire :: "Message list \<Rightarrow> wire_message list" where
  "messagesToWire ms = map MessageToWire ms"

definition topicToWire :: "Topic \<Rightarrow> wire_topic" where
  "topicToWire t = \<lparr>wtp_id = tp_id t, wtp_channel_id = tp_channel_id t, wtp_name = tp_name t,
     wtp_created_at_unix_ms = tp_created_at_unix_ms t, wtp_created_by_account_id = tp_created_by_account_id t,
     wtp_archived = tp_archived t,
     wtp_message_count = map_option (\<lambda>s. nat (max (ts_message_count s) 0)) (tp_stats t),
     wtp_last_message_at_unix_ms = map_option ts_last_message_at_unix_ms (tp_stats t)\<rparr>"

definition topicsToWire :: "Topic list \<Rightarrow> wire_topic list" where
  "topicsToWire ts = map topicToWire ts"

section \<open>Wire to store\<close>

definition groupVisibilityFromWire :: "wire_visibility \<Rightarrow> ChannelGroupVisibility" where
  "groupVisibilityFromWire v = (if v = CHANNEL_GROUP_VISIBILITY_SHARED then VisibilityShared else VisibilityOwner)"

definition channelKindFromWire :: "wire_channel_kind \<Rightarrow> ChannelKind" where
  "channelKindFromWire k = (case k of CHANNEL_KIND_DM \<Rightarrow> ChannelKindDM | _ \<Rightarrow> ChannelKindChannel)"

definition askRefFromWire :: "string \<Rightarrow> comms_error + string" where
  "askRefFromWire raw =
     (if raw = [] then Inr []
      else case Parse raw of Inl e \<Rightarrow> Inl (AskRefInvalid e) | Inr r \<Rightarrow> Inr (String r))"

definition askQuestionsFromWire :: "wire_ask \<Rightarrow> AskQuestion list" where
  "askQuestionsFromWire a =
     map (\<lambda>q. \<lparr>aq_question_id = waq_question_id q, aq_question = waq_question q, aq_header = waq_header q,
       aq_options = map (\<lambda>o1. \<lparr>ao_id = wao_id o1, ao_label = wao_label o1, ao_description = wao_description o1,
         ao_preview = wao_preview o1\<rparr>) (waq_options q),
       aq_allow_multiple = waq_allow_multiple q, aq_recommended = waq_recommended q,
       aq_chosen_option_ids = [], aq_custom_text = [], aq_timed_out = False\<rparr>) (wask_questions a)"

definition LinearHost :: string where "LinearHost = ''linear.app''"

definition askFromWire :: "wire_ask \<Rightarrow> string \<Rightarrow> comms_error + Ask" where
  "askFromWire a githubHost =
     bindE (askRefFromWire (wask_ref a)) (\<lambda>ref.
     bindE (if ref = [] then Inr None
            else case Parse ref of
                   Inl e \<Rightarrow> Inl (ParseCanonicalRef e)
                 | Inr r \<Rightarrow>
                     if r_kind r = KindForge
                     then Inr (Some \<lparr>fc_provider = ForgeProviderGitHub,
                                     fc_host = (if githubHost = [] then ''github.com'' else githubHost),
                                     fc_repo = r_owner r @ ''/'' @ r_repo r, fc_number = r_number r\<rparr>)
                     else Inr (Some \<lparr>fc_provider = ForgeProviderLinear, fc_host = LinearHost,
                                     fc_repo = r_key r, fc_number = r_number r\<rparr>)) (\<lambda>coord.
     Inr \<lparr>ask_id = [], ask_ref = ref, ask_ref_coord = coord, ask_questions = askQuestionsFromWire a,
          ask_answered = False\<rparr>))"

definition block_from_wire :: "string \<Rightarrow> wire_block \<Rightarrow> comms_error + MessageBlock" where
  "block_from_wire githubHost b =
     (case b of
        WText t \<Rightarrow> Inr \<lparr>mb_text = Some t, mb_ask = None, mb_ask_answer = None\<rparr>
      | WAsk a \<Rightarrow> bindE (askFromWire a githubHost) (\<lambda>ask. Inr \<lparr>mb_text = None, mb_ask = Some ask, mb_ask_answer = None\<rparr>)
      | WAskAnswer _ \<Rightarrow> Inl ErrServerOwnedBlock
      | WBlockUnset \<Rightarrow> Inl ErrEmptyBlock)"

definition blocksFromWire :: "wire_block list \<Rightarrow> string \<Rightarrow> comms_error + MessageBlock list" where
  "blocksFromWire blocks githubHost = mapE (block_from_wire githubHost) blocks"

section \<open>Handles\<close>

text \<open>The store's account lookups.\<close>

record account_reads =
  ResolveOwner :: "AccountID \<Rightarrow> comms_error + AccountID"
  AccountsByHandles :: "AccountID \<Rightarrow> AccountID \<Rightarrow> QualifiedHandle list \<Rightarrow> comms_error + (string, AccountID) gomap"
  AgentByHandle :: "AccountID \<Rightarrow> string \<Rightarrow> comms_error + Account"
  VisibleAgentByHandle :: "AccountID \<Rightarrow> AccountID \<Rightarrow> string \<Rightarrow> comms_error + Account"
  UserByHandle :: "string \<Rightarrow> comms_error + Account"
  AccountVisibleTo :: "AccountID \<Rightarrow> AccountID \<Rightarrow> comms_error + bool"
  AgentOwner :: "AccountID \<Rightarrow> comms_error + AccountID"

text \<open>\<open>errors.Is(err, store.ErrNotFound)\<close>.\<close>

fun is_not_found :: "comms_error \<Rightarrow> bool" where
  "is_not_found NotFound = True"
| "is_not_found (NotFoundHandle _) = True"
| "is_not_found _ = False"

definition notFoundHandle :: "comms_error \<Rightarrow> string \<Rightarrow> comms_error" where
  "notFoundHandle e h = (if is_not_found e then NotFoundHandle h else e)"

definition resolveHandles :: "account_reads \<Rightarrow> AccountID \<Rightarrow> string list \<Rightarrow> comms_error + AccountID list" where
  "resolveHandles st caller handles =
     (if handles = [] then Inr []
      else bindE (ResolveOwner st caller) (\<lambda>callerOwner.
           bindE (AccountsByHandles st caller callerOwner (map ParseQualifiedHandle handles)) (\<lambda>hits.
           Inr (map (gm_getz [] hits) handles))))"

definition agentOwnerNamespace :: "account_reads \<Rightarrow> AccountID \<Rightarrow> QualifiedHandle \<Rightarrow> comms_error + AccountID" where
  "agentOwnerNamespace st caller qh =
     (if Malformed qh then Inl NotFound
      else if \<not> Qualified qh then ResolveOwner st caller
      else bindE (UserByHandle st (qh_owner qh)) (\<lambda>u. Inr (ac_id u)))"

definition rekey :: "string \<Rightarrow> comms_error + 'a \<Rightarrow> comms_error + 'a" where
  "rekey h m = (case m of Inl e \<Rightarrow> Inl (notFoundHandle e h) | Inr x \<Rightarrow> Inr x)"

definition resolveAgentAccount :: "account_reads \<Rightarrow> AccountID \<Rightarrow> string \<Rightarrow> comms_error + Account" where
  "resolveAgentAccount st caller handle =
     (let qh = ParseQualifiedHandle handle
      in bindE (rekey (qh_raw qh) (agentOwnerNamespace st caller qh)) (\<lambda>ow.
         rekey (qh_raw qh) (AgentByHandle st ow (qh_handle qh))))"

definition resolveAgentHandle :: "account_reads \<Rightarrow> AccountID \<Rightarrow> string \<Rightarrow> comms_error + AccountID" where
  "resolveAgentHandle st caller handle = bindE (resolveAgentAccount st caller handle) (\<lambda>acc. Inr (ac_id acc))"

definition resolveAddressableAgent :: "account_reads \<Rightarrow> AccountID \<Rightarrow> string \<Rightarrow> comms_error + Account" where
  "resolveAddressableAgent st caller handle =
     (let qh = ParseQualifiedHandle handle
      in bindE (rekey (qh_raw qh) (agentOwnerNamespace st caller qh)) (\<lambda>ow.
         rekey (qh_raw qh) (VisibleAgentByHandle st caller ow (qh_handle qh))))"

definition resolveVisibleAgentHandle :: "account_reads \<Rightarrow> AccountID \<Rightarrow> string \<Rightarrow> comms_error + AccountID" where
  "resolveVisibleAgentHandle st caller handle =
     bindE (resolveAgentAccount st caller handle) (\<lambda>acc.
     bindE (AccountVisibleTo st caller (ac_id acc)) (\<lambda>visible.
     if \<not> visible then Inl (notFoundHandle NotFound (qh_raw (ParseQualifiedHandle handle))) else Inr (ac_id acc)))"

definition resolveSameOwnerAgent :: "account_reads \<Rightarrow> AccountID \<Rightarrow> string \<Rightarrow> comms_error + AccountID" where
  "resolveSameOwnerAgent st caller handle =
     (if handle = [] then Inr []
      else bindE (resolveAgentHandle st caller handle) (\<lambda>agentID.
           bindE (ResolveOwner st caller) (\<lambda>ow.
           bindE (rekey handle (AgentOwner st agentID)) (\<lambda>agentOwner.
           if agentOwner \<noteq> ow then Inl (notFoundHandle NotFound handle) else Inr agentID))))"

section \<open>Member updates\<close>

record members_request =
  mr_add :: "string list"
  mr_subscribe :: "string list"
  mr_unsubscribe :: "string list"
  mr_remove :: "string list"

record mu_state =
  byID :: "(AccountID, MemberUpdate) gomap"
  order :: "AccountID list"

definition zero_update :: "AccountID \<Rightarrow> MemberUpdate" where
  "zero_update i = \<lparr>mu_account_id = i, mu_remove = False, mu_subscribed = False, mu_unsubscribe = False\<rparr>"

text \<open>\<open>touch(id)\<close> followed by the field writes through the pointer it returns.\<close>

definition touch :: "(MemberUpdate \<Rightarrow> MemberUpdate) \<Rightarrow> AccountID \<Rightarrow> mu_state \<Rightarrow> mu_state" where
  "touch f i st =
     (case gm_get (byID st) i of
        Some u \<Rightarrow> st\<lparr>byID := gm_put i (f u) (byID st)\<rparr>
      | None \<Rightarrow> st\<lparr>byID := gm_put i (f (zero_update i)) (byID st), order := order st @ [i]\<rparr>)"

definition merge_updates :: "AccountID list \<Rightarrow> AccountID list \<Rightarrow> AccountID list \<Rightarrow> AccountID list \<Rightarrow> mu_state" where
  "merge_updates add sub unsub rem =
     (let s0 = \<lparr>byID = [], order = []\<rparr>;
          s1 = fold (touch (\<lambda>u. u)) add s0;
          s2 = fold (touch (\<lambda>u. u\<lparr>mu_subscribed := True\<rparr>)) sub s1;
          s3 = fold (touch (\<lambda>u. u\<lparr>mu_subscribed := False, mu_unsubscribe := True\<rparr>)) unsub s2
      in fold (touch (\<lambda>u. u\<lparr>mu_remove := True\<rparr>)) rem s3)"

definition memberUpdatesFromWire :: "account_reads \<Rightarrow> AccountID \<Rightarrow> members_request \<Rightarrow> comms_error + MemberUpdate list" where
  "memberUpdatesFromWire st caller req =
     bindE (resolveHandles st caller (mr_add req @ mr_subscribe req @ mr_unsubscribe req @ mr_remove req)) (\<lambda>resolved.
       let a = length (mr_add req); b = length (mr_subscribe req); c = length (mr_unsubscribe req); d = length (mr_remove req);
           merged = merge_updates (take a resolved) (take b (drop a resolved)) (take c (drop (a + b) resolved))
                      (take d (drop (a + b + c) resolved))
       in mapE (\<lambda>i. case gm_get (byID merged) i of None \<Rightarrow> Inl MissingMemberUpdate | Some u \<Rightarrow> Inr u) (order merged))"

section \<open>Write-through publishers\<close>

datatype comms_payload =
    PayloadUnset
  | MessagePosted wire_message nat
  | MessageUpdated wire_message
  | ChannelChanged "wire_channel option" "string list"
  | ChannelGroupChanged wire_group
  | AccountChanged wire_account
  | AgentWorkspaceChanged wire_workspace
  | AgentBoardChanged string
  | AgentPresenceChanged string agent_presence
  | TopicUpserted wire_topic
  | ResyncRequired

record comms_response =
  cr_seq :: nat
  cr_at_unix_ms :: int
  cr_instance_epoch :: nat
  cr_snapshot_seq :: nat
  cr_payload :: comms_payload

definition of_payload :: "comms_payload \<Rightarrow> comms_response" where
  "of_payload p = \<lparr>cr_seq = 0, cr_at_unix_ms = 0, cr_instance_epoch = 0, cr_snapshot_seq = 0, cr_payload = p\<rparr>"

text \<open>The state the publishers change: the bus, the publish attempts handed to the fabric and
  the count of those that failed. \<open>traceparent\<close> and \<open>now\<close> are what \<open>Bus.Publish\<close> reads of the
  context and the clock.\<close>

record comms_out =
  co_bus :: "comms_response bus"
  co_fabric_sent :: "(string \<times> EventRef) list"
  co_fabric_failures :: nat

definition publish_payload :: "string \<Rightarrow> int \<Rightarrow> comms_payload \<Rightarrow> comms_out \<Rightarrow> comms_out" where
  "publish_payload tp now p c = c\<lparr>co_bus := fst (publish tp now (of_payload p) (co_bus c))\<rparr>"

definition publishAccountChanged :: "string \<Rightarrow> int \<Rightarrow> Account \<Rightarrow> comms_out \<Rightarrow> comms_out" where
  "publishAccountChanged tp now a = publish_payload tp now (AccountChanged (accountToWire a))"

definition publishChannelGroupChanged :: "string \<Rightarrow> int \<Rightarrow> ChannelGroup \<Rightarrow> comms_out \<Rightarrow> comms_out" where
  "publishChannelGroupChanged tp now g = publish_payload tp now (ChannelGroupChanged (groupToWire g))"

definition publishChannelChanged :: "string \<Rightarrow> int \<Rightarrow> Channel \<Rightarrow> AccountID list \<Rightarrow> comms_out \<Rightarrow> comms_out" where
  "publishChannelChanged tp now ch removed =
     publish_payload tp now (ChannelChanged (Some (channelToWire ch)) (accountIDsToWire removed))"

definition publishAgentWorkspaceChanged :: "string \<Rightarrow> int \<Rightarrow> AgentWorkspace \<Rightarrow> comms_out \<Rightarrow> comms_out" where
  "publishAgentWorkspaceChanged tp now w = publish_payload tp now (AgentWorkspaceChanged (workspaceToWire w))"

definition publishMessageUpdated :: "string \<Rightarrow> int \<Rightarrow> Message \<Rightarrow> comms_out \<Rightarrow> comms_out" where
  "publishMessageUpdated tp now m = publish_payload tp now (MessageUpdated (MessageToWire m))"

definition publishTopicUpserted :: "string \<Rightarrow> int \<Rightarrow> Topic \<Rightarrow> comms_out \<Rightarrow> comms_out" where
  "publishTopicUpserted tp now t = publish_payload tp now (TopicUpserted (topicToWire t))"

text \<open>\<open>fab\<close> is the fabric, if one is wired: whether a publish of a ref to a subject succeeds. The
  flag says whether the failure counter is wired.\<close>

definition publishMessagePosted ::
  "(string \<Rightarrow> EventRef \<Rightarrow> bool) option \<Rightarrow> bool \<Rightarrow> TenantID \<Rightarrow> string \<Rightarrow> int \<Rightarrow> Message \<Rightarrow> comms_out \<Rightarrow> comms_out" where
  "publishMessagePosted fab counted tenant tp now m c =
     (let c1 = publish_payload tp now (MessagePosted (MessageToWire m) (m_turn_sequence m)) c
      in case fab of
           None \<Rightarrow> c1
         | Some pub \<Rightarrow>
             (let ref = \<lparr>er_tenant = tenant, er_kind = KindMessagePosted, er_row_id = m_id m\<rparr>;
                  (c2, ok) = (case CommsSubject tenant KindMessagePosted of
                                Inl _ \<Rightarrow> (c1, False)
                              | Inr subject \<Rightarrow> (c1\<lparr>co_fabric_sent := co_fabric_sent c1 @ [(subject, ref)]\<rparr>, pub subject ref))
              in if \<not> ok \<and> counted then c2\<lparr>co_fabric_failures := co_fabric_failures c2 + 1\<rparr> else c2))"

section \<open>Handles, facts\<close>

lemma Contains_slash: "Contains s ''/'' \<longleftrightarrow> CHR ''/'' \<in> set s"
proof (induction s)
  case Nil
  show ?case by (subst Contains.simps) simp
next
  case (Cons c s)
  then show ?case by (subst Contains.simps) (simp, blast)
qed

lemma qh_raw_Parse [simp]: "qh_raw (ParseQualifiedHandle h) = h"
  by (simp add: ParseQualifiedHandle_def split: option.splits)

lemma Cut_slash_None: "Cut_slash s = None \<longleftrightarrow> CHR ''/'' \<notin> set s"
proof -
  have "Cut_slash s = None \<longleftrightarrow> dropWhile (\<lambda>c. c \<noteq> CHR ''/'') s = []"
    by (cases "dropWhile (\<lambda>c. c \<noteq> CHR ''/'') s"; simp only: Cut_slash_def list.case option.distinct list.distinct simp_thms)
  then show ?thesis by (auto simp: dropWhile_eq_Nil_conv)
qed

lemma Cut_slash_Some:
  "Cut_slash s = Some (u, v) \<longleftrightarrow> s = u @ CHR ''/'' # v \<and> CHR ''/'' \<notin> set u"
proof
  assume c: "Cut_slash s = Some (u, v)"
  then obtain d where d: "dropWhile (\<lambda>c. c \<noteq> CHR ''/'') s = d # v" "u = takeWhile (\<lambda>c. c \<noteq> CHR ''/'') s"
    by (auto simp: Cut_slash_def split: list.splits)
  then have "d = CHR ''/''" using hd_dropWhile [of "\<lambda>c. c \<noteq> CHR ''/''" s] by simp
  then show "s = u @ CHR ''/'' # v \<and> CHR ''/'' \<notin> set u"
    using d takeWhile_dropWhile_id [of "\<lambda>c. c \<noteq> CHR ''/''" s] by (auto dest: set_takeWhileD)
next
  assume h: "s = u @ CHR ''/'' # v \<and> CHR ''/'' \<notin> set u"
  then have "\<And>c. c \<in> set u \<Longrightarrow> c \<noteq> CHR ''/''" by auto
  then have "dropWhile (\<lambda>c. c \<noteq> CHR ''/'') s = CHR ''/'' # v" "takeWhile (\<lambda>c. c \<noteq> CHR ''/'') s = u"
    using h by (simp_all add: dropWhile_append3 takeWhile_append2)
  then show "Cut_slash s = Some (u, v)" by (simp add: Cut_slash_def)
qed

lemma is_not_found_rekey: "rekey h m = Inl e \<Longrightarrow> is_not_found e \<Longrightarrow> e = NotFoundHandle h"
  by (auto simp: rekey_def notFoundHandle_def split: sum.splits if_splits)

lemma resolve_not_found_names_input:
  "resolveAgentAccount st caller h = Inl e \<Longrightarrow> is_not_found e \<Longrightarrow> e = NotFoundHandle h"
  "resolveAddressableAgent st caller h = Inl e \<Longrightarrow> is_not_found e \<Longrightarrow> e = NotFoundHandle h"
  by (auto simp: resolveAgentAccount_def resolveAddressableAgent_def Let_def bindE_eq_Inl dest: is_not_found_rekey)

section \<open>Blocks from the wire, facts\<close>

definition coord_of :: "string \<Rightarrow> Ref \<Rightarrow> ForgeCoord" where
  "coord_of host r =
     (if r_kind r = KindForge
      then \<lparr>fc_provider = ForgeProviderGitHub, fc_host = (if host = [] then ''github.com'' else host),
            fc_repo = r_owner r @ ''/'' @ r_repo r, fc_number = r_number r\<rparr>
      else \<lparr>fc_provider = ForgeProviderLinear, fc_host = LinearHost, fc_repo = r_key r, fc_number = r_number r\<rparr>)"

text \<open>What a post makes of a wire ask: the content is the client's, the id and the answer state
  are blank, the ref is canonical and carries its coordinate.\<close>

definition ask_posted_as :: "string \<Rightarrow> wire_ask \<Rightarrow> Ask \<Rightarrow> bool" where
  "ask_posted_as host a k \<longleftrightarrow>
     ask_id k = [] \<and> \<not> ask_answered k \<and> ask_questions k = askQuestionsFromWire a
     \<and> list_all (\<lambda>q. aq_chosen_option_ids q = [] \<and> aq_custom_text q = [] \<and> \<not> aq_timed_out q) (ask_questions k)
     \<and> (if wask_ref a = [] then ask_ref k = [] \<and> ask_ref_coord k = None
        else \<exists>r. Parse (wask_ref a) = Inr r \<and> ask_ref k = String r \<and> ask_ref_coord k = Some (coord_of host r))"

definition wire_block_ok :: "wire_block \<Rightarrow> bool" where
  "wire_block_ok w =
     (case w of
        WText t \<Rightarrow> True
      | WAsk a \<Rightarrow> wask_ref a = [] \<or> isOK (Parse (wask_ref a))
      | WAskAnswer _ \<Rightarrow> False
      | WBlockUnset \<Rightarrow> False)"

definition posted_as :: "string \<Rightarrow> wire_block \<Rightarrow> MessageBlock \<Rightarrow> bool" where
  "posted_as host w b \<longleftrightarrow> mb_ask_answer b = None \<and>
     (case w of
        WText t \<Rightarrow> mb_text b = Some t \<and> mb_ask b = None
      | WAsk a \<Rightarrow> mb_text b = None \<and> (\<exists>k. mb_ask b = Some k \<and> ask_posted_as host a k)
      | _ \<Rightarrow> False)"

lemma String_not_Nil [simp]: "String r \<noteq> []"
  by (simp add: String_def Let_def)

lemma reparse: "Parse s = Inr r \<Longrightarrow> Parse (String r) = Inr r"
  using Parse_iff ref_text_canonical canonical_text by blast

lemma askFromWire_eq:
  "askFromWire a host =
     (if wask_ref a = []
      then Inr \<lparr>ask_id = [], ask_ref = [], ask_ref_coord = None, ask_questions = askQuestionsFromWire a, ask_answered = False\<rparr>
      else case Parse (wask_ref a) of
             Inl e \<Rightarrow> Inl (AskRefInvalid e)
           | Inr r \<Rightarrow> Inr \<lparr>ask_id = [], ask_ref = String r, ask_ref_coord = Some (coord_of host r),
                           ask_questions = askQuestionsFromWire a, ask_answered = False\<rparr>)"
  using reparse [of "wask_ref a"]
  by (auto simp: askFromWire_def askRefFromWire_def coord_of_def split: sum.splits)

lemma askQuestionsFromWire_blank:
  "list_all (\<lambda>q. aq_chosen_option_ids q = [] \<and> aq_custom_text q = [] \<and> \<not> aq_timed_out q) (askQuestionsFromWire a)"
  by (simp add: askQuestionsFromWire_def list_all_iff)

lemma block_from_wire_ok: "isOK (block_from_wire host w) \<longleftrightarrow> wire_block_ok w"
  by (cases w) (auto simp: block_from_wire_def wire_block_ok_def askFromWire_eq isOK_iff split: sum.splits if_splits)

lemma block_from_wire_posted: "block_from_wire host w = Inr b \<Longrightarrow> posted_as host w b"
  using askQuestionsFromWire_blank
  by (cases w) (auto simp: block_from_wire_def posted_as_def ask_posted_as_def askFromWire_eq split: sum.splits if_splits)

section \<open>Member updates, facts\<close>

definition snoc_new :: "'a \<Rightarrow> 'a list \<Rightarrow> 'a list" where
  "snoc_new x xs = (if x \<in> set xs then xs else xs @ [x])"

text \<open>The elements of a list in the order of their first occurrence.\<close>

definition first_occ :: "'a list \<Rightarrow> 'a list" where
  "first_occ xs = rev (remdups (rev xs))"

lemma fold_snoc_new: "fold snoc_new xs [] = first_occ xs"
proof (induction xs rule: rev_induct)
  case (snoc x xs)
  then show ?case by (auto simp: first_occ_def snoc_new_def)
qed (simp add: first_occ_def)

definition mu_inv :: "mu_state \<Rightarrow> bool" where
  "mu_inv st \<longleftrightarrow> (\<forall>i. gm_get (byID st) i = None \<longleftrightarrow> i \<notin> set (order st))"

lemma touch_facts:
  assumes "mu_inv st"
  shows "mu_inv (touch f i st)" and "order (touch f i st) = snoc_new i (order st)"
    and "gm_get (byID (touch f i st)) j
      = (if j = i then Some (f (gm_getz (zero_update i) (byID st) i)) else gm_get (byID st) j)"
proof -
  have h: "gm_get (byID st) j \<noteq> None \<longleftrightarrow> j \<in> set (order st)" for j using assms by (simp add: mu_inv_def)
  show "order (touch f i st) = snoc_new i (order st)"
    using h [of i] by (cases "gm_get (byID st) i") (simp_all add: touch_def snoc_new_def)
  show g: "gm_get (byID (touch f i st)) j
      = (if j = i then Some (f (gm_getz (zero_update i) (byID st) i)) else gm_get (byID st) j)" for j
    by (cases "gm_get (byID st) i") (simp_all add: touch_def gm_getz_def)
  show "mu_inv (touch f i st)" unfolding mu_inv_def
  proof
    fix j
    show "gm_get (byID (touch f i st)) j = None \<longleftrightarrow> j \<notin> set (order (touch f i st))"
      using h [of i] h [of j] by (cases "gm_get (byID st) i") (auto simp: touch_def)
  qed
qed

lemma fold_touch_facts:
  assumes "mu_inv st" and idem: "\<And>u. f (f u) = f u"
  shows "mu_inv (fold (touch f) ids st) \<and> order (fold (touch f) ids st) = fold snoc_new ids (order st)
    \<and> (\<forall>j. gm_getz (zero_update j) (byID (fold (touch f) ids st)) j
        = (if j \<in> set ids then f (gm_getz (zero_update j) (byID st) j) else gm_getz (zero_update j) (byID st) j))"
  using assms(1)
proof (induction ids arbitrary: st)
  case (Cons i ids)
  note t = touch_facts [OF Cons.prems, of f i]
  have g: "gm_getz (zero_update j) (byID (touch f i st)) j
    = (if j = i then f (gm_getz (zero_update j) (byID st) j) else gm_getz (zero_update j) (byID st) j)" for j
    using t(3) [of j] by (simp add: gm_getz_def split: option.splits)
  show ?case using Cons.IH [OF t(1)] t(2) g idem by auto
qed simp

definition merged_update :: "AccountID list \<Rightarrow> AccountID list \<Rightarrow> AccountID list \<Rightarrow> AccountID \<Rightarrow> MemberUpdate" where
  "merged_update sub unsub rem i = \<lparr>mu_account_id = i, mu_remove = (i \<in> set rem),
     mu_subscribed = (i \<in> set sub \<and> i \<notin> set unsub), mu_unsubscribe = (i \<in> set unsub)\<rparr>"

lemma merge_updates_spec:
  fixes add sub unsub rem :: "AccountID list"
  defines "st \<equiv> merge_updates add sub unsub rem"
  shows "mu_inv st \<and> order st = first_occ (add @ sub @ unsub @ rem)
    \<and> (\<forall>j. gm_getz (zero_update j) (byID st) j = merged_update sub unsub rem j)"
proof -
  define s0 :: mu_state where "s0 = \<lparr>byID = [], order = []\<rparr>"
  define s1 where "s1 = fold (touch (\<lambda>u. u)) add s0"
  define s2 where "s2 = fold (touch (\<lambda>u. u\<lparr>mu_subscribed := True\<rparr>)) sub s1"
  define s3 where "s3 = fold (touch (\<lambda>u. u\<lparr>mu_subscribed := False, mu_unsubscribe := True\<rparr>)) unsub s2"
  have i0: "mu_inv s0" by (simp add: mu_inv_def s0_def)
  note f1 = fold_touch_facts [OF i0, of "\<lambda>u. u" add, folded s1_def, simplified]
  have i1: "mu_inv s1" using f1 by blast
  note f2 = fold_touch_facts [OF i1, of "\<lambda>u. u\<lparr>mu_subscribed := True\<rparr>" sub, folded s2_def, simplified]
  have i2: "mu_inv s2" using f2 by blast
  note f3 = fold_touch_facts [OF i2, of "\<lambda>u. u\<lparr>mu_subscribed := False, mu_unsubscribe := True\<rparr>" unsub, folded s3_def, simplified]
  have i3: "mu_inv s3" using f3 by blast
  note f4 = fold_touch_facts [OF i3, of "\<lambda>u. u\<lparr>mu_remove := True\<rparr>" rem, simplified]
  have st: "st = fold (touch (\<lambda>u. u\<lparr>mu_remove := True\<rparr>)) rem s3"
    by (simp add: st_def merge_updates_def Let_def s0_def s1_def s2_def s3_def)
  have ord: "order st = first_occ (add @ sub @ unsub @ rem)"
    using f1 f2 f3 f4 by (simp add: st s0_def flip: fold_snoc_new)
  have z: "gm_getz (zero_update j) (byID s0) j = zero_update j" for j by (simp add: s0_def)
  have "gm_getz (zero_update j) (byID st) j = merged_update sub unsub rem j" for j
    using f1 f2 f3 f4 z [of j] by (simp add: st merged_update_def zero_update_def)
  then show ?thesis using f4 ord st by blast
qed

lemma resolveHandles_length: "resolveHandles st caller hs = Inr ids \<Longrightarrow> length ids = length hs"
  by (auto simp: resolveHandles_def split: if_splits)

lemma slices_append:
  "length xs = a + b + c + d \<Longrightarrow> take a xs @ take b (drop a xs) @ take c (drop (a + b) xs) @ take d (drop (a + b + c) xs) = xs"
proof -
  assume l: "length xs = a + b + c + d"
  have "take d (drop (a + b + c) xs) = drop (a + b + c) xs" using l by simp
  then show ?thesis
    by (metis add.commute append_take_drop_id drop_drop)
qed

section \<open>Properties\<close>

text \<open>The post edge. A post is accepted exactly when no block is unset or a server-owned
  answer and every ask ref parses (so re-parsing the canonical ref never fails); each block
  it stores is the client's content with blank ask id and answer state, the ref in canonical
  form and the coordinate that form names.\<close>

theorem posted_blocks_client_owned:
  "(isOK (blocksFromWire ws host) \<longleftrightarrow> list_all wire_block_ok ws)
   \<and> (case blocksFromWire ws host of Inl e \<Rightarrow> True | Inr bs \<Rightarrow> list_all2 (posted_as host) ws bs)"
proof
  show "isOK (blocksFromWire ws host) \<longleftrightarrow> list_all wire_block_ok ws"
    by (simp add: blocksFromWire_def mapE_isOK block_from_wire_ok)
next
  show "case blocksFromWire ws host of Inl e \<Rightarrow> True | Inr bs \<Rightarrow> list_all2 (posted_as host) ws bs"
    using block_from_wire_posted
    by (auto simp: blocksFromWire_def mapE_eq_Inr split: sum.splits elim: list_all2_mono)
qed

text \<open>Member updates. Each resolved account gets exactly one update, in the order of its
  first mention across the four lists; it is a removal iff it is on the remove list, an
  explicit unsubscribe iff it is on that list, and subscribed iff it is on the subscribe list
  and not on the unsubscribe list, however often and under whatever spelling it was named.
  The only errors are those of the resolution.\<close>

theorem member_updates_merged:
  "memberUpdatesFromWire st caller req =
     bindE (resolveHandles st caller (mr_add req @ mr_subscribe req @ mr_unsubscribe req @ mr_remove req)) (\<lambda>ids.
       let a = length (mr_add req); b = length (mr_subscribe req); c = length (mr_unsubscribe req);
           sub = take b (drop a ids); unsub = take c (drop (a + b) ids); rem = drop (a + b + c) ids
       in Inr (map (merged_update sub unsub rem) (first_occ ids)))"
proof (cases "resolveHandles st caller (mr_add req @ mr_subscribe req @ mr_unsubscribe req @ mr_remove req)")
  case (Inr ids)
  let ?a = "length (mr_add req)" and ?b = "length (mr_subscribe req)" and ?c = "length (mr_unsubscribe req)"
  let ?d = "length (mr_remove req)"
  have l: "length ids = ?a + ?b + ?c + ?d" using resolveHandles_length [OF Inr] by simp
  have rem: "take ?d (drop (?a + ?b + ?c) ids) = drop (?a + ?b + ?c) ids" using l by simp
  define m where "m = merge_updates (take ?a ids) (take ?b (drop ?a ids)) (take ?c (drop (?a + ?b) ids)) (drop (?a + ?b + ?c) ids)"
  note sp = merge_updates_spec [of "take ?a ids" "take ?b (drop ?a ids)" "take ?c (drop (?a + ?b) ids)"
      "drop (?a + ?b + ?c) ids", folded m_def]
  have ord: "order m = first_occ ids" using sp slices_append [OF l] rem by simp
  have "(case gm_get (byID m) i of None \<Rightarrow> Inl MissingMemberUpdate | Some u \<Rightarrow> Inr u)
    = (Inr (merged_update (take ?b (drop ?a ids)) (take ?c (drop (?a + ?b) ids)) (drop (?a + ?b + ?c) ids) i)
        :: comms_error + MemberUpdate)"
    if "i \<in> set (order m)" for i
    using sp that by (auto simp: mu_inv_def gm_getz_def split: option.splits)
  then show ?thesis using Inr rem
    by (simp add: memberUpdatesFromWire_def Let_def mapE_total ord flip: m_def)
qed (simp add: memberUpdatesFromWire_def)

text \<open>Posting is published once. Whatever the fabric does, the bus gains exactly one event,
  the posted message; the fabric is handed at most one ref, naming that row on the tenant's
  own subject; and the failure counter moves by one exactly when it is wired, a fabric is
  wired and the ref was not accepted.\<close>

theorem message_posted_once:
  fixes fab counted tenant tp now m c
  defines "c' \<equiv> publishMessagePosted fab counted tenant tp now m c"
  shows "map st_payload (bus_hist (co_bus c'))
      = map st_payload (bus_hist (co_bus c)) @ [of_payload (MessagePosted (MessageToWire m) (m_turn_sequence m))]
    \<and> co_fabric_sent c' = co_fabric_sent c @
        (case (fab, CommsSubject tenant KindMessagePosted) of
           (Some _, Inr s) \<Rightarrow> [(s, \<lparr>er_tenant = tenant, er_kind = KindMessagePosted, er_row_id = m_id m\<rparr>)]
         | _ \<Rightarrow> [])
    \<and> co_fabric_failures c' = co_fabric_failures c +
        (case fab of
           None \<Rightarrow> 0
         | Some pub \<Rightarrow>
             if counted \<and> (case CommsSubject tenant KindMessagePosted of Inl _ \<Rightarrow> True
                | Inr s \<Rightarrow> \<not> pub s \<lparr>er_tenant = tenant, er_kind = KindMessagePosted, er_row_id = m_id m\<rparr>)
             then 1 else 0)"
proof -
  have "published (fst (publish tp now p b)) = published b @ [p]" for p and b :: "comms_response bus"
    by (rule bus.published_pub)
  then show ?thesis
    by (simp add: c'_def publishMessagePosted_def publish_payload_def Let_def split: option.splits sum.splits)
qed

text \<open>No probing by handle. A resolver that fails because something was not found names only
  the handle the caller submitted, and resolving an agent the caller may not see gives the
  very error an unknown handle gives. A qualified handle outside the one-level grammar is
  such a miss, never a bare lookup.\<close>

theorem resolve_oracle_safe:
  "(case resolveAddressableAgent st caller h of Inl e \<Rightarrow> is_not_found e \<longrightarrow> e = NotFoundHandle h | Inr _ \<Rightarrow> True)
   \<and> (case resolveAgentHandle st caller h of Inl e \<Rightarrow> is_not_found e \<longrightarrow> e = NotFoundHandle h | Inr _ \<Rightarrow> True)
   \<and> (resolveAgentAccount st caller h = Inr acc \<and> AccountVisibleTo st caller (ac_id acc) = Inr False \<longrightarrow>
        resolveVisibleAgentHandle st caller h = Inl (NotFoundHandle h))
   \<and> (CHR ''/'' \<in> set h \<and> \<not> (\<exists>u v. h = u @ CHR ''/'' # v \<and> u \<noteq> [] \<and> v \<noteq> [] \<and> CHR ''/'' \<notin> set (u @ v)) \<longrightarrow>
        resolveAddressableAgent st caller h = Inl (NotFoundHandle h))"
proof (intro conjI impI)
  show "case resolveAddressableAgent st caller h of Inl e \<Rightarrow> is_not_found e \<longrightarrow> e = NotFoundHandle h | Inr _ \<Rightarrow> True"
    using resolve_not_found_names_input(2) by (fastforce split: sum.splits)
next
  show "case resolveAgentHandle st caller h of Inl e \<Rightarrow> is_not_found e \<longrightarrow> e = NotFoundHandle h | Inr _ \<Rightarrow> True"
    using resolve_not_found_names_input(1) by (fastforce simp: resolveAgentHandle_def bindE_eq_Inl split: sum.splits)
next
  assume "resolveAgentAccount st caller h = Inr acc \<and> AccountVisibleTo st caller (ac_id acc) = Inr False"
  then show "resolveVisibleAgentHandle st caller h = Inl (NotFoundHandle h)"
    by (simp add: resolveVisibleAgentHandle_def notFoundHandle_def)
next
  assume a: "CHR ''/'' \<in> set h \<and> \<not> (\<exists>u v. h = u @ CHR ''/'' # v \<and> u \<noteq> [] \<and> v \<noteq> [] \<and> CHR ''/'' \<notin> set (u @ v))"
  then obtain u v where c: "Cut_slash h = Some (u, v)" using Cut_slash_None [of h] by (cases "Cut_slash h") auto
  then have h: "h = u @ CHR ''/'' # v" "CHR ''/'' \<notin> set u" by (auto simp: Cut_slash_Some)
  have "Malformed (ParseQualifiedHandle h)"
    using a c h by (auto simp: Malformed_def Qualified_def ParseQualifiedHandle_def Contains_slash)
  then show "resolveAddressableAgent st caller h = Inl (NotFoundHandle h)"
    by (simp add: resolveAddressableAgent_def Let_def agentOwnerNamespace_def rekey_def notFoundHandle_def)
qed

theorem resolve_oracle_safe_witness:
  "resolveAddressableAgent \<lparr>ResolveOwner = \<lambda>_. Inl NotFound, AccountsByHandles = \<lambda>_ _ _. Inl NotFound,
      AgentByHandle = \<lambda>_ _. Inl NotFound, VisibleAgentByHandle = \<lambda>_ _ _. Inl NotFound,
      UserByHandle = \<lambda>_. Inl NotFound, AccountVisibleTo = \<lambda>_ _. Inr False, AgentOwner = \<lambda>_. Inl NotFound\<rparr>
    ''me'' ''/x'' = Inl (NotFoundHandle ''/x'')"
proof -
  have "\<not> (\<exists>u v. ''/x'' = u @ CHR ''/'' # v \<and> u \<noteq> [] \<and> v \<noteq> [] \<and> CHR ''/'' \<notin> set (u @ v))"
    by (auto simp: Cons_eq_append_conv)
  then show ?thesis using resolve_oracle_safe [where caller = "''me''" and h = "''/x''"] by simp
qed

end
