(* ===== verification/Comms_Subscribe.thy ===== *)
theory Comms_Subscribe
  imports Comms_Mapping
begin

text \<open>
  The comms event stream, \<open>src/go/internal/comms/subscribe.go\<close>: a subscriber of the shared bus
  sees the replay and then the live tail, each event passed through the visibility predicate
  of the matching list read and trimmed to what the account may see.

  The visibility reads of the store are arguments. The client is a function that says whether
  a send succeeds after what was sent before. What the live loop's \<open>select\<close> picks, round by
  round, is a list of \<open>live_event\<close>; \<open>cancelled n\<close> says whether the context is done at the
  \<open>n\<close>-th round of the replay drain.
\<close>

section \<open>Model\<close>

datatype vis_error = VisCanceled | VisFault

record event_visibility =
  IsTopicChannelMember :: "AccountID \<Rightarrow> string \<Rightarrow> vis_error + bool"
  IsChannelMember :: "AccountID \<Rightarrow> ChannelID \<Rightarrow> vis_error + bool"
  ChannelVisibleTo :: "AccountID \<Rightarrow> ChannelID \<Rightarrow> vis_error + bool"
  ChannelGroupVisibleTo :: "AccountID \<Rightarrow> ChannelGroupID \<Rightarrow> vis_error + bool"
  EvAccountVisibleTo :: "AccountID \<Rightarrow> AccountID \<Rightarrow> vis_error + bool"
  IsAgentWorkspaceVisible :: "AccountID \<Rightarrow> AccountID \<Rightarrow> vis_error + bool"
  SharesVisibleChannel :: "AccountID \<Rightarrow> AccountID \<Rightarrow> vis_error + bool"
  boardVisible :: "AccountID \<Rightarrow> AccountID \<Rightarrow> vis_error + bool"

definition chan_id :: "wire_channel option \<Rightarrow> string" where
  "chan_id c = (case c of None \<Rightarrow> [] | Some w \<Rightarrow> wch_id w)"

fun visibleToActor :: "event_visibility \<Rightarrow> AccountID \<Rightarrow> comms_payload \<Rightarrow> vis_error + bool" where
  "visibleToActor vis actor PayloadUnset = Inr True"
| "visibleToActor vis actor (MessagePosted m _) = IsTopicChannelMember vis actor (wm_topic_id m)"
| "visibleToActor vis actor (MessageUpdated m) = IsTopicChannelMember vis actor (wm_topic_id m)"
| "visibleToActor vis actor (ChannelChanged c removed) =
     (if actor \<in> set removed then Inr True else ChannelVisibleTo vis actor (chan_id c))"
| "visibleToActor vis actor (ChannelGroupChanged g) = ChannelGroupVisibleTo vis actor (wcg_id g)"
| "visibleToActor vis actor (AccountChanged a) = EvAccountVisibleTo vis actor (wac_id a)"
| "visibleToActor vis actor (AgentWorkspaceChanged w) = IsAgentWorkspaceVisible vis actor (waw_agent_account_id w)"
| "visibleToActor vis actor (AgentBoardChanged agent) = boardVisible vis actor agent"
| "visibleToActor vis actor (AgentPresenceChanged agent _) = SharesVisibleChannel vis actor agent"
| "visibleToActor vis actor (TopicUpserted t) = IsChannelMember vis actor (wtp_channel_id t)"
| "visibleToActor vis actor ResyncRequired = Inr True"

text \<open>A channel message with only its id set.\<close>

definition id_only_channel :: "string \<Rightarrow> wire_channel" where
  "id_only_channel i = \<lparr>wch_id = i, wch_name = [], wch_group_id = [], wch_kind = CHANNEL_KIND_CHANNEL,
     wch_member_account_ids = [], wch_subscriber_account_ids = [], wch_post_policy = CHANNEL_POST_POLICY_OPEN,
     wch_owner_account_id = [], wch_mandatory_subscription = False, wch_parent_agent_id = [],
     wch_membership_mode = CHANNEL_MEMBERSHIP_MODE_EXPLICIT\<rparr>"

definition commsToResponse :: "AccountID \<Rightarrow> comms_response stamped \<Rightarrow> comms_response" where
  "commsToResponse actor ev =
     (let resp = \<lparr>cr_seq = st_seq ev, cr_at_unix_ms = st_at_unix_ms ev, cr_instance_epoch = st_instance_epoch ev,
                  cr_snapshot_seq = 0, cr_payload = cr_payload (st_payload ev)\<rparr>
      in case cr_payload (st_payload ev) of
           ChannelChanged (Some c) removed \<Rightarrow>
             if actor \<in> set removed
             then resp\<lparr>cr_payload := ChannelChanged (Some (id_only_channel (wch_id c))) removed\<rparr>
             else resp
         | _ \<Rightarrow> resp)"

definition trimRemovedToActor :: "comms_response \<Rightarrow> AccountID \<Rightarrow> comms_response" where
  "trimRemovedToActor resp actor =
     (case cr_payload resp of
        ChannelChanged c removed \<Rightarrow>
          if removed = [] then resp
          else resp\<lparr>cr_payload := ChannelChanged c (if actor \<in> set removed then [actor] else [])\<rparr>
      | _ \<Rightarrow> resp)"

definition commsResyncSeq :: nat where "commsResyncSeq = 0"

definition commsResyncRequired :: "nat \<Rightarrow> comms_response" where
  "commsResyncRequired epoch = \<lparr>cr_seq = commsResyncSeq, cr_at_unix_ms = 0, cr_instance_epoch = epoch,
     cr_snapshot_seq = 0, cr_payload = ResyncRequired\<rparr>"

definition commsSnapshotBoundary :: "nat \<Rightarrow> nat \<Rightarrow> comms_response" where
  "commsSnapshotBoundary snapshotSeq epoch = \<lparr>cr_seq = commsResyncSeq, cr_at_unix_ms = 0, cr_instance_epoch = epoch,
     cr_snapshot_seq = snapshotSeq, cr_payload = PayloadUnset\<rparr>"

type_synonym client = "comms_response list \<Rightarrow> comms_response \<Rightarrow> bool"

text \<open>\<open>stream.Send\<close>: the frames the client has, and whether the send succeeded.\<close>

definition stream_send :: "client \<Rightarrow> comms_response \<Rightarrow> comms_response list \<Rightarrow> comms_response list \<times> bool" where
  "stream_send client r sent = (if client sent r then (sent @ [r], True) else (sent, False))"

datatype send_result = SendFault | SendStop | SendGo

definition send_event ::
  "event_visibility \<Rightarrow> AccountID \<Rightarrow> client \<Rightarrow> comms_response stamped \<Rightarrow> comms_response list \<Rightarrow> comms_response list \<times> send_result" where
  "send_event vis actor client ev sent =
     (case visibleToActor vis actor (cr_payload (st_payload ev)) of
        Inl VisCanceled \<Rightarrow> (sent, SendStop)
      | Inl VisFault \<Rightarrow> (sent, SendFault)
      | Inr False \<Rightarrow> (sent, SendGo)
      | Inr True \<Rightarrow>
          (case stream_send client (trimRemovedToActor (commsToResponse actor ev) actor) sent of
             (sent', ok) \<Rightarrow> (sent', if ok then SendGo else SendStop)))"

text \<open>How the stream ended: \<open>Running\<close> is a live loop that waits for its next round.\<close>

datatype stream_end = Running | EndClean | EndFault

datatype live_event = LiveEvent "comms_response stamped" | LiveClosed bool | CtxDone

fun forward_replay ::
  "event_visibility \<Rightarrow> AccountID \<Rightarrow> client \<Rightarrow> (nat \<Rightarrow> bool) \<Rightarrow> nat \<Rightarrow> comms_response stamped list \<Rightarrow> comms_response list
    \<Rightarrow> comms_response list \<times> stream_end" where
  "forward_replay vis actor client cancelled n [] sent = (sent, Running)"
| "forward_replay vis actor client cancelled n (ev # evs) sent =
     (if cancelled n then (sent, EndClean)
      else case send_event vis actor client ev sent of
             (sent', SendFault) \<Rightarrow> (sent', EndFault)
           | (sent', SendStop) \<Rightarrow> (sent', EndClean)
           | (sent', SendGo) \<Rightarrow> forward_replay vis actor client cancelled (n + 1) evs sent')"

fun forward_live ::
  "event_visibility \<Rightarrow> AccountID \<Rightarrow> client \<Rightarrow> nat \<Rightarrow> live_event list \<Rightarrow> comms_response list \<Rightarrow> comms_response list \<times> stream_end" where
  "forward_live vis actor client epoch [] sent = (sent, Running)"
| "forward_live vis actor client epoch (CtxDone # _) sent = (sent, EndClean)"
| "forward_live vis actor client epoch (LiveClosed lagged # _) sent =
     (if lagged then fst (stream_send client (commsResyncRequired epoch) sent) else sent, EndClean)"
| "forward_live vis actor client epoch (LiveEvent ev # rest) sent =
     (case send_event vis actor client ev sent of
        (sent', SendFault) \<Rightarrow> (sent', EndFault)
      | (sent', SendStop) \<Rightarrow> (sent', EndClean)
      | (sent', SendGo) \<Rightarrow> forward_live vis actor client epoch rest sent')"

definition forwardComms ::
  "event_visibility \<Rightarrow> AccountID \<Rightarrow> client \<Rightarrow> (nat \<Rightarrow> bool) \<Rightarrow> comms_response subscription \<Rightarrow> live_event list
    \<Rightarrow> comms_response list \<Rightarrow> comms_response list \<times> stream_end" where
  "forwardComms vis actor client cancelled sn live sent =
     (case forward_replay vis actor client cancelled 0 (sn_replay sn) sent of
        (sent', Running) \<Rightarrow> forward_live vis actor client (sn_epoch sn) live sent'
      | (sent', e) \<Rightarrow> (sent', e))"

text \<open>The whole handler on the bus it finds, with the store's head sequence (or its error): the
  frames sent and how the handler ends. The deferred \<open>sub.Cancel\<close> runs when it has ended.\<close>

definition SubscribeComms ::
  "event_visibility \<Rightarrow> AccountID \<Rightarrow> client \<Rightarrow> (nat \<Rightarrow> bool) \<Rightarrow> nat option \<Rightarrow> nat \<Rightarrow> nat \<Rightarrow> live_event list
    \<Rightarrow> comms_response bus \<Rightarrow> comms_response bus \<times> comms_response list \<times> stream_end" where
  "SubscribeComms vis actor client cancelled head since ep live b =
     (case Subscribe since ep b of
        (b1, Inl ErrBufferUnderflow) \<Rightarrow>
          (b1, fst (stream_send client (commsResyncRequired (bus_epoch b1)) []), EndClean)
      | (b1, Inr sn) \<Rightarrow>
          (let (sent, e) =
             (if since = 0
              then (case head of
                      None \<Rightarrow> ([], EndFault)
                    | Some h \<Rightarrow>
                        (case stream_send client (commsSnapshotBoundary h (sn_epoch sn)) [] of
                           (sent0, True) \<Rightarrow> forwardComms vis actor client cancelled sn live sent0
                         | (sent0, False) \<Rightarrow> (sent0, EndClean)))
              else forwardComms vis actor client cancelled sn live [])
           in (if e = Running then b1 else Cancel sn b1, sent, e)))"

section \<open>What a stream shows\<close>

definition present :: "AccountID \<Rightarrow> comms_response stamped \<Rightarrow> comms_response" where
  "present actor ev = trimRemovedToActor (commsToResponse actor ev) actor"

definition vis_of :: "event_visibility \<Rightarrow> AccountID \<Rightarrow> comms_response stamped \<Rightarrow> vis_error + bool" where
  "vis_of vis actor ev = visibleToActor vis actor (cr_payload (st_payload ev))"

definition shown :: "event_visibility \<Rightarrow> AccountID \<Rightarrow> comms_response stamped list \<Rightarrow> comms_response list" where
  "shown vis actor evs = map (present actor) (filter (\<lambda>ev. vis_of vis actor ev = Inr True) evs)"

text \<open>The events before the first one whose visibility could not be resolved.\<close>

definition resolved :: "event_visibility \<Rightarrow> AccountID \<Rightarrow> comms_response stamped list \<Rightarrow> comms_response stamped list" where
  "resolved vis actor evs = takeWhile (\<lambda>ev. isOK (vis_of vis actor ev)) evs"

fun live_evs :: "live_event list \<Rightarrow> comms_response stamped list" where
  "live_evs (LiveEvent ev # rest) = ev # live_evs rest"
| "live_evs _ = []"

lemma shown_simps [simp]:
  "shown vis actor [] = []"
  "shown vis actor (ev # evs) = (if vis_of vis actor ev = Inr True then [present actor ev] else []) @ shown vis actor evs"
  "shown vis actor (evs @ evs') = shown vis actor evs @ shown vis actor evs'"
  by (simp_all add: shown_def)

lemma resolved_simps [simp]:
  "resolved vis actor [] = []"
  "resolved vis actor (ev # evs) = (if isOK (vis_of vis actor ev) then ev # resolved vis actor evs else [])"
  by (simp_all add: resolved_def)

lemma send_event_cases:
  obtains (fault) "send_event vis actor client ev sent = (sent, SendFault)" "\<not> isOK (vis_of vis actor ev)"
  | (stop) "send_event vis actor client ev sent = (sent, SendStop)"
  | (skip) "send_event vis actor client ev sent = (sent, SendGo)" "vis_of vis actor ev = Inr False"
  | (go) "send_event vis actor client ev sent = (sent @ [present actor ev], SendGo)" "vis_of vis actor ev = Inr True"
    "client sent (present actor ev)"
proof (cases "vis_of vis actor ev")
  case (Inl e)
  then show ?thesis using fault stop by (cases e) (auto simp: send_event_def vis_of_def)
next
  case (Inr v)
  show ?thesis
  proof (cases v)
    case True
    then show ?thesis using Inr stop go
      by (cases "client sent (present actor ev)") (auto simp: send_event_def vis_of_def present_def stream_send_def)
  next
    case False
    then show ?thesis using Inr skip by (auto simp: send_event_def vis_of_def)
  qed
qed

lemma forward_replay_shows:
  "\<exists>es. prefix es (shown vis actor (resolved vis actor evs)) \<and>
     fst (forward_replay vis actor client cancelled n evs sent) = sent @ es \<and>
     (snd (forward_replay vis actor client cancelled n evs sent) = Running \<longrightarrow>
        resolved vis actor evs = evs \<and> es = shown vis actor evs)"
proof (induction evs arbitrary: n sent)
  case (Cons ev evs)
  show ?case
  proof (cases "cancelled n")
    case False
    show ?thesis
    proof (cases rule: send_event_cases [of vis actor client ev sent])
      case skip
      then show ?thesis using Cons.IH [of "n + 1" sent] False by simp
    next
      case go
      obtain es where "prefix es (shown vis actor (resolved vis actor evs))"
        "fst (forward_replay vis actor client cancelled (n + 1) evs (sent @ [present actor ev])) = (sent @ [present actor ev]) @ es"
        "snd (forward_replay vis actor client cancelled (n + 1) evs (sent @ [present actor ev])) = Running \<longrightarrow>
           resolved vis actor evs = evs \<and> es = shown vis actor evs"
        using Cons.IH [of "n + 1" "sent @ [present actor ev]"] by blast
      then show ?thesis using go False by (intro exI [of _ "present actor ev # es"]) auto
    qed (use False in auto)
  qed auto
qed simp

lemma forward_live_shows:
  "\<exists>es rs. prefix es (shown vis actor (resolved vis actor (live_evs live))) \<and>
     fst (forward_live vis actor client epoch live sent) = sent @ es @ rs \<and>
     (rs = [] \<or> rs = [commsResyncRequired epoch] \<and> LiveClosed True \<in> set live)"
proof (induction live arbitrary: sent)
  case (Cons l live)
  show ?case
  proof (cases l)
    case (LiveEvent ev)
    show ?thesis
    proof (cases rule: send_event_cases [of vis actor client ev sent])
      case skip
      then show ?thesis using Cons.IH [of sent] LiveEvent by fastforce
    next
      case go
      obtain es rs where "prefix es (shown vis actor (resolved vis actor (live_evs live)))"
        "fst (forward_live vis actor client epoch live (sent @ [present actor ev])) = (sent @ [present actor ev]) @ es @ rs"
        "rs = [] \<or> rs = [commsResyncRequired epoch] \<and> LiveClosed True \<in> set live"
        using Cons.IH [of "sent @ [present actor ev]"] by blast
      then show ?thesis using go LiveEvent by (intro exI [of _ "present actor ev # es"] exI [of _ rs]) auto
    qed (use LiveEvent in auto)
  qed (auto simp: stream_send_def)
qed simp

lemma resolved_append: "resolved vis actor evs = evs \<Longrightarrow> resolved vis actor (evs @ evs') = evs @ resolved vis actor evs'"
  by (auto simp: resolved_def takeWhile_append)

lemma resolved_prefix: "prefix (shown vis actor (resolved vis actor evs)) (shown vis actor (resolved vis actor (evs @ evs')))"
proof (induction evs)
  case (Cons ev evs)
  then show ?case by simp
qed simp

lemma forward_all:
  assumes "\<And>fs f. client fs f" and "\<And>n. \<not> cancelled n" and "\<And>ev. ev \<in> set (evs @ levs) \<Longrightarrow> isOK (vis_of vis actor ev)"
  shows "forward_replay vis actor client cancelled n evs sent = (sent @ shown vis actor evs, Running)"
    and "forward_live vis actor client epoch (map LiveEvent levs) sent = (sent @ shown vis actor levs, Running)"
proof -
  have step: "send_event vis actor client ev s = (s @ shown vis actor [ev], SendGo)" if "ev \<in> set (evs @ levs)" for ev s
    using assms(3) [OF that] assms(1)
    by (cases "vis_of vis actor ev") (auto simp: send_event_def vis_of_def present_def stream_send_def split: bool.splits)
  show "forward_replay vis actor client cancelled n evs sent = (sent @ shown vis actor evs, Running)"
    using step assms(2) by (induction evs arbitrary: n sent) (simp_all add: assms(2))
  show "forward_live vis actor client epoch (map LiveEvent levs) sent = (sent @ shown vis actor levs, Running)"
    using step by (induction levs arbitrary: sent) simp_all
qed

section \<open>Properties\<close>


text \<open>What a frame discloses. The frame made of an event keeps its position and, unless the
  event is a channel change, its payload; of a channel change it names no removed account but
  the recipient, and a recipient that was removed gets the channel id and nothing else of the
  channel.\<close>

theorem frame_trimmed:
  "cr_seq (present actor ev) = st_seq ev \<and> cr_instance_epoch (present actor ev) = st_instance_epoch ev
   \<and> (case cr_payload (st_payload ev) of
        ChannelChanged c removed \<Rightarrow>
          cr_payload (present actor ev) =
            (if actor \<in> set removed then ChannelChanged (map_option (\<lambda>w. id_only_channel (wch_id w)) c) [actor]
             else ChannelChanged c [])
      | p \<Rightarrow> cr_payload (present actor ev) = p)"
  by (cases "cr_payload (st_payload ev)")
     (auto simp: present_def trimRemovedToActor_def commsToResponse_def Let_def split: option.splits)

text \<open>C38: a subscriber that keeps up misses nothing it may see. From a reachable bus, for a
  subscription that is still registered after any further run of the bus and has taken every
  buffered event, a stream with a live client and working reads has sent exactly the visible
  events after the cursor, in order.\<close>

theorem stream_complete:
  assumes "bus_reachable epoch b" and "Subscribe since ep b = (b1, Inr sn)" and "sn_live sn = Some i"
    and "b2 = bus_run ops b1" and "bus_heap b2 i = Some s" and "i \<in> set (bus_subscribers b2)" and "sub_ch s = []"
    and "\<And>fs f. client fs f" and "\<And>n. \<not> cancelled n"
    and "\<And>ev. ev \<in> set (bus_hist b2) \<Longrightarrow> isOK (vis_of vis actor ev)"
  shows "forwardComms vis actor client cancelled sn (map LiveEvent (sub_got s)) sent
    = (sent @ shown vis actor (drop (owed_from since b) (bus_hist b2)), Running)"
proof -
  have inv: "bus_inv b" using assms(1) by (rule bus_inv_reachable)
  have st: "sn_replay sn @ sub_got s @ sub_ch s = drop (owed_from since b) (bus_hist b2)"
    by (rule subscription_stream [OF inv assms(2,3,4)]) (use assms(5,6) in auto)
  then have eq: "drop (owed_from since b) (bus_hist b2) = sn_replay sn @ sub_got s" using assms(7) by simp
  then have ok: "isOK (vis_of vis actor ev)" if "ev \<in> set (sn_replay sn @ sub_got s)" for ev
    using assms(10) that by (metis in_set_dropD)
  have f: "forward_replay vis actor client cancelled 0 (sn_replay sn) sent = (sent @ shown vis actor (sn_replay sn), Running)"
    "forward_live vis actor client (sn_epoch sn) (map LiveEvent (sub_got s)) (sent @ shown vis actor (sn_replay sn))
       = ((sent @ shown vis actor (sn_replay sn)) @ shown vis actor (sub_got s), Running)"
    using forward_all [where client = client and cancelled = cancelled and evs = "sn_replay sn" and levs = "sub_got s"
        and vis = vis and actor = actor, OF assms(8,9) ok] by blast+
  show ?thesis unfolding eq by (simp add: forwardComms_def f)
qed

definition open_vis :: event_visibility where
  "open_vis = \<lparr>IsTopicChannelMember = \<lambda>_ _. Inr True, IsChannelMember = \<lambda>_ _. Inr True,
     ChannelVisibleTo = \<lambda>_ _. Inr True, ChannelGroupVisibleTo = \<lambda>_ _. Inr True, EvAccountVisibleTo = \<lambda>_ _. Inr True,
     IsAgentWorkspaceVisible = \<lambda>_ _. Inr True, SharesVisibleChannel = \<lambda>_ a. Inr (a = ''ada''), boardVisible = \<lambda>_ _. Inr True\<rparr>"

definition demo_ops :: "comms_response bus_op list" where
  "demo_ops = [OpPublish [] 0 (of_payload (AgentPresenceChanged ''ada'' AGENT_PRESENCE_IDLE)),
     OpPublish [] 1 (of_payload (AgentPresenceChanged ''bob'' AGENT_PRESENCE_IDLE)), OpRecv 1, OpRecv 1]"

theorem stream_complete_witness:
  "\<exists>sn s. bus_heap (bus_run demo_ops (fst (Subscribe 0 0 (NewBus 7)))) 1 = Some s
     \<and> map cr_seq (fst (forwardComms open_vis ''eve'' (\<lambda>_ _. True) (\<lambda>_. False) sn (map LiveEvent (sub_got s)) [])) = [1]"
proof -
  have r: "bus_reachable 7 (NewBus 7 :: comms_response bus)" by (rule bus_reachable.init)
  obtain sn where sn: "Subscribe 0 0 (NewBus 7 :: comms_response bus) = (fst (Subscribe 0 0 (NewBus 7)), Inr sn)"
      "sn_live sn = Some 1"
    by (simp add: NewBus_def Subscribe_def Let_def)
  define b2 where "b2 = bus_run demo_ops (fst (Subscribe 0 0 (NewBus 7)))"
  have run: "\<exists>s. bus_heap b2 1 = Some s \<and> sub_ch s = [] \<and> 1 \<in> set (bus_subscribers b2)"
    by (simp add: b2_def demo_ops_def bus_run_def NewBus_def Subscribe_def publish_def Let_def recv_live_def
        send_to_def send_live_def liveBufferCapacity_def RingCapacity_def)
  then obtain s where s: "bus_heap b2 1 = Some s" "sub_ch s = []" "1 \<in> set (bus_subscribers b2)" by blast
  have hist: "map cr_seq (shown open_vis ''eve'' (drop (owed_from 0 (NewBus 7 :: comms_response bus)) (bus_hist b2))) = [1]"
    "\<And>ev. ev \<in> set (bus_hist b2) \<Longrightarrow> isOK (vis_of open_vis ''eve'' ev)"
    by (auto simp: b2_def demo_ops_def bus_run_def NewBus_def Subscribe_def publish_def Let_def recv_live_def
        send_to_def send_live_def liveBufferCapacity_def RingCapacity_def owed_from_def vis_of_def open_vis_def of_payload_def
        present_def trimRemovedToActor_def commsToResponse_def)
  have "forwardComms open_vis ''eve'' (\<lambda>_ _. True) (\<lambda>_. False) sn (map LiveEvent (sub_got s)) []
      = ([] @ shown open_vis ''eve'' (drop (owed_from 0 (NewBus 7 :: comms_response bus)) (bus_hist b2)), Running)"
    by (rule stream_complete [OF r sn b2_def s(1,3,2)]) (use hist(2) in auto)
  then show ?thesis using s(1) hist(1) unfolding b2_def by (intro exI [of _ sn] exI [of _ s]) simp
qed

end
