(* ===== verification/Presence.thy ===== *)
theory Presence
  imports Comms_Mapping
begin

text \<open>
  The presence publisher, \<open>src/go/internal/presence/presence.go\<close> and \<open>run.go\<close>: a loop that tails
  the comms bus and drains edges queued by the runner hub, and publishes an agent's presence
  on the same bus when it changes.

  The store's open-ask read and the hub's status relay are arguments of a step, \<open>None\<close> being
  an error or a missing status. The publisher runs beside the hub's sinks and the bus's other
  publishers: \<open>pres_op\<close> lists what one step of any of them can be. A sink's \<open>enqueue\<close> is two
  steps, the append under the lock and the non-blocking send on \<open>notify\<close>, and the drain loop
  takes one edge a step, so the steps interleave as the goroutines do.
\<close>

section \<open>Model\<close>

datatype edge_kind = EdgeLifecycle | EdgePromoted

record hubEdge =
  he_kind :: edge_kind
  he_account :: AccountID
  he_session_id :: string
  he_state :: agent_session_state
  he_traceparent :: string

record publisher =
  pb_bus :: "comms_response bus"
  pb_sub :: "comms_response subscription option"
  pb_last :: "(AccountID, agent_presence) gomap"
  pb_last_state :: "(AccountID, agent_session_state) gomap"
  pb_queue :: "hubEdge list"
  pb_notify :: bool
  pb_draining :: bool
  pb_signals :: nat
  pb_failed :: bool

text \<open>The answers a step gets: the open-ask read, the status relay, and the publish clock.\<close>

record presence_reads =
  AgentHasOpenAsk :: "AccountID \<Rightarrow> bool option"
  SessionState :: "string \<Rightarrow> agent_session_state option"
  clock :: int

definition NewPublisher :: "comms_response bus \<Rightarrow> publisher" where
  "NewPublisher b = \<lparr>pb_bus = b, pb_sub = None, pb_last = [], pb_last_state = [], pb_queue = [], pb_notify = False,
     pb_draining = False, pb_signals = 0, pb_failed = False\<rparr>"

fun presenceFor :: "agent_session_state \<Rightarrow> bool \<Rightarrow> agent_presence" where
  "presenceFor AGENT_SESSION_STATE_WORKING openAsk = AGENT_PRESENCE_WORKING"
| "presenceFor AGENT_SESSION_STATE_STARTING openAsk = (if openAsk then AGENT_PRESENCE_WAITING else AGENT_PRESENCE_IDLE)"
| "presenceFor AGENT_SESSION_STATE_READY openAsk = (if openAsk then AGENT_PRESENCE_WAITING else AGENT_PRESENCE_IDLE)"
| "presenceFor _ openAsk = AGENT_PRESENCE_OFFLINE"

definition PresenceSnapshot :: "publisher \<Rightarrow> (AccountID, agent_presence) gomap" where
  "PresenceSnapshot p = pb_last p"

definition publishIfChanged :: "string \<Rightarrow> int \<Rightarrow> AccountID \<Rightarrow> agent_presence \<Rightarrow> publisher \<Rightarrow> publisher" where
  "publishIfChanged tp now account presence p =
     (if gm_get (pb_last p) account = Some presence then p
      else p\<lparr>pb_last := gm_put account presence (pb_last p),
             pb_bus := fst (publish tp now (of_payload (AgentPresenceChanged account presence)) (pb_bus p))\<rparr>)"

text \<open>\<open>enqueue\<close>: the append, then the coalescing send.\<close>

definition enqueue_append :: "hubEdge \<Rightarrow> publisher \<Rightarrow> publisher" where
  "enqueue_append e p = p\<lparr>pb_queue := pb_queue p @ [e], pb_signals := pb_signals p + 1\<rparr>"

definition enqueue_signal :: "publisher \<Rightarrow> publisher" where
  "enqueue_signal p = (if pb_signals p = 0 then p else p\<lparr>pb_signals := pb_signals p - 1, pb_notify := True\<rparr>)"

definition OnSessionLifecycle :: "string \<Rightarrow> AccountID \<Rightarrow> string \<Rightarrow> agent_session_state \<Rightarrow> publisher \<Rightarrow> publisher" where
  "OnSessionLifecycle tp account sessionID state =
     enqueue_append \<lparr>he_kind = EdgeLifecycle, he_account = account, he_session_id = sessionID, he_state = state,
                     he_traceparent = tp\<rparr>"

definition OnSessionPromoted :: "string \<Rightarrow> AccountID \<Rightarrow> string \<Rightarrow> publisher \<Rightarrow> publisher" where
  "OnSessionPromoted tp account sessionID =
     enqueue_append \<lparr>he_kind = EdgePromoted, he_account = account, he_session_id = sessionID,
                     he_state = AGENT_SESSION_STATE_UNSPECIFIED, he_traceparent = tp\<rparr>"

definition recomputeFromStore :: "presence_reads \<Rightarrow> string \<Rightarrow> AccountID \<Rightarrow> publisher \<Rightarrow> publisher" where
  "recomputeFromStore env tp account p =
     (case gm_get (pb_last_state p) account of
        None \<Rightarrow> p
      | Some state \<Rightarrow>
          (case AgentHasOpenAsk env account of
             None \<Rightarrow> p
           | Some openAsk \<Rightarrow> publishIfChanged tp (clock env) account (presenceFor state openAsk) p))"

definition hasAsk :: "wire_message \<Rightarrow> bool" where
  "hasAsk m \<longleftrightarrow> list_ex (\<lambda>b. case b of WAsk _ \<Rightarrow> True | _ \<Rightarrow> False) (wm_blocks m)"

definition handleEvent :: "presence_reads \<Rightarrow> string \<Rightarrow> comms_response \<Rightarrow> publisher \<Rightarrow> publisher" where
  "handleEvent env tp resp p =
     (case cr_payload resp of
        MessagePosted m _ \<Rightarrow>
          if \<not> hasAsk m then p
          else if wm_author_account_id m = [] then p
          else recomputeFromStore env tp (wm_author_account_id m) p
      | MessageUpdated m \<Rightarrow>
          if wm_author_account_id m = [] then p else recomputeFromStore env tp (wm_author_account_id m) p
      | _ \<Rightarrow> p)"

definition applyLifecycle :: "presence_reads \<Rightarrow> string \<Rightarrow> AccountID \<Rightarrow> agent_session_state \<Rightarrow> publisher \<Rightarrow> publisher" where
  "applyLifecycle env tp account state p =
     (case AgentHasOpenAsk env account of
        None \<Rightarrow> p
      | Some openAsk \<Rightarrow>
          publishIfChanged tp (clock env) account (presenceFor state openAsk)
            (p\<lparr>pb_last_state := gm_put account state (pb_last_state p)\<rparr>))"

definition applyPromoted :: "presence_reads \<Rightarrow> string \<Rightarrow> AccountID \<Rightarrow> string \<Rightarrow> publisher \<Rightarrow> publisher" where
  "applyPromoted env tp account sessionID p =
     (let state = (case SessionState env sessionID of None \<Rightarrow> AGENT_SESSION_STATE_UNSPECIFIED | Some s \<Rightarrow> s)
      in case AgentHasOpenAsk env account of
           None \<Rightarrow> p
         | Some openAsk \<Rightarrow>
             publishIfChanged tp (clock env) account (presenceFor state openAsk)
               (p\<lparr>pb_last_state := gm_put account state (pb_last_state p)\<rparr>))"

definition apply_edge :: "presence_reads \<Rightarrow> hubEdge \<Rightarrow> publisher \<Rightarrow> publisher" where
  "apply_edge env e p =
     (case he_kind e of
        EdgeLifecycle \<Rightarrow> applyLifecycle env (he_traceparent e) (he_account e) (he_state e) p
      | EdgePromoted \<Rightarrow> applyPromoted env (he_traceparent e) (he_account e) (he_session_id e) p)"

text \<open>One round of \<open>drainEdges\<close>, and the loop run to its end with the answers of each round.\<close>

definition drain_round :: "presence_reads \<Rightarrow> publisher \<Rightarrow> publisher" where
  "drain_round env p =
     (if \<not> pb_draining p then p
      else case pb_queue p of
             [] \<Rightarrow> p\<lparr>pb_draining := False\<rparr>
           | e # rest \<Rightarrow> apply_edge env e (p\<lparr>pb_queue := rest\<rparr>))"

lemma publishIfChanged_frame [simp]:
  "pb_queue (publishIfChanged tp now a pr p) = pb_queue p" "pb_notify (publishIfChanged tp now a pr p) = pb_notify p"
  "pb_draining (publishIfChanged tp now a pr p) = pb_draining p" "pb_signals (publishIfChanged tp now a pr p) = pb_signals p"
  "pb_last_state (publishIfChanged tp now a pr p) = pb_last_state p" "pb_sub (publishIfChanged tp now a pr p) = pb_sub p"
  "pb_failed (publishIfChanged tp now a pr p) = pb_failed p"
  by (simp_all add: publishIfChanged_def)

lemma apply_edge_frame [simp]:
  "pb_queue (apply_edge env e p) = pb_queue p" "pb_notify (apply_edge env e p) = pb_notify p"
  "pb_draining (apply_edge env e p) = pb_draining p" "pb_signals (apply_edge env e p) = pb_signals p"
  "pb_sub (apply_edge env e p) = pb_sub p" "pb_failed (apply_edge env e p) = pb_failed p"
  by (simp_all add: apply_edge_def applyLifecycle_def applyPromoted_def Let_def split: edge_kind.splits option.splits)

function drainEdges :: "(nat \<Rightarrow> presence_reads) \<Rightarrow> nat \<Rightarrow> publisher \<Rightarrow> publisher" where
  "drainEdges env n p =
     (case pb_queue p of
        [] \<Rightarrow> p
      | e # rest \<Rightarrow> drainEdges env (n + 1) (apply_edge (env n) e (p\<lparr>pb_queue := rest\<rparr>)))"
  by pat_completeness auto
termination by (relation "measure (\<lambda>(env, n, p). length (pb_queue p))") auto

declare drainEdges.simps [simp del]

text \<open>The start of \<open>Run\<close>: subscribe at cursor 0 and drain the replay.\<close>

definition run_start :: "presence_reads \<Rightarrow> publisher \<Rightarrow> publisher" where
  "run_start env p =
     (case Subscribe 0 (bus_epoch (pb_bus p)) (pb_bus p) of
        (b, Inl _) \<Rightarrow> p\<lparr>pb_bus := b, pb_failed := True\<rparr>
      | (b, Inr sn) \<Rightarrow>
          fold (\<lambda>ev. handleEvent env (st_traceparent ev) (st_payload ev)) (sn_replay sn) (p\<lparr>pb_bus := b, pb_sub := Some sn\<rparr>))"

text \<open>The arm of \<open>Run\<close>'s loop on the live channel: an event, an overrun (a fresh subscription
  whose replay is skipped), a clean shutdown, or nothing to receive. The loop is inside
  \<open>drainEdges\<close> while \<open>pb_draining\<close> holds, so it takes no other arm then.\<close>

definition run_live :: "presence_reads \<Rightarrow> publisher \<Rightarrow> publisher" where
  "run_live env p =
     (case pb_sub p of
        None \<Rightarrow> p
      | Some sn \<Rightarrow>
          if pb_draining p then p
          else case sn_live sn of
                 None \<Rightarrow> p\<lparr>pb_sub := None\<rparr>
               | Some i \<Rightarrow>
                   (case recv_live i (pb_bus p) of
                      (b, RecvEvent ev) \<Rightarrow> handleEvent env (st_traceparent ev) (st_payload ev) (p\<lparr>pb_bus := b\<rparr>)
                    | (b, RecvBlocked) \<Rightarrow> p
                    | (b, RecvClosed) \<Rightarrow>
                        if Lagged sn (pb_bus p)
                        then (case Subscribe 0 (bus_epoch (pb_bus p)) (pb_bus p) of
                                (b1, Inl _) \<Rightarrow> p\<lparr>pb_bus := Cancel sn b1, pb_sub := None, pb_failed := True\<rparr>
                              | (b1, Inr fresh) \<Rightarrow> p\<lparr>pb_bus := Cancel sn b1, pb_sub := Some fresh\<rparr>)
                        else p\<lparr>pb_bus := Cancel sn (pb_bus p), pb_sub := None\<rparr>))"

text \<open>The arm on \<open>notify\<close>: take the signal and enter \<open>drainEdges\<close>.\<close>

definition run_notify :: "publisher \<Rightarrow> publisher" where
  "run_notify p =
     (if pb_notify p \<and> \<not> pb_draining p \<and> pb_sub p \<noteq> None then p\<lparr>pb_notify := False, pb_draining := True\<rparr> else p)"

text \<open>Everything that can happen around the publisher. A foreign publish on the bus is any
  event but a presence change, which only the publisher makes.\<close>

datatype pres_op =
    Foreign string int comms_payload
  | Lifecycle string AccountID string agent_session_state
  | Promoted string AccountID string
  | Signal
  | Start presence_reads
  | Live presence_reads
  | Wake
  | Drain presence_reads

fun is_presence :: "comms_payload \<Rightarrow> bool" where
  "is_presence (AgentPresenceChanged _ _) = True"
| "is_presence _ = False"

fun pres_exec :: "pres_op \<Rightarrow> publisher \<Rightarrow> publisher" where
  "pres_exec (Foreign tp now pl) p =
     (if is_presence pl then p else p\<lparr>pb_bus := fst (publish tp now (of_payload pl) (pb_bus p))\<rparr>)"
| "pres_exec (Lifecycle tp a sid s) p = OnSessionLifecycle tp a sid s p"
| "pres_exec (Promoted tp a sid) p = OnSessionPromoted tp a sid p"
| "pres_exec Signal p = enqueue_signal p"
| "pres_exec (Start env) p = (if pb_sub p = None \<and> \<not> pb_draining p then run_start env p else p)"
| "pres_exec (Live env) p = run_live env p"
| "pres_exec Wake p = run_notify p"
| "pres_exec (Drain env) p = drain_round env p"

inductive pres_reachable :: "nat \<Rightarrow> publisher \<Rightarrow> bool" for epoch :: nat where
  init: "pres_reachable epoch (NewPublisher (NewBus epoch))"
| step: "pres_reachable epoch p \<Longrightarrow> pres_reachable epoch (pres_exec op p)"

definition pres_run :: "pres_op list \<Rightarrow> publisher \<Rightarrow> publisher" where
  "pres_run ops p = fold pres_exec ops p"

section \<open>What was published about an agent\<close>

definition presence_of :: "AccountID \<Rightarrow> comms_response \<Rightarrow> agent_presence option" where
  "presence_of a r = (case cr_payload r of AgentPresenceChanged b pr \<Rightarrow> if b = a then Some pr else None | _ \<Rightarrow> None)"

definition trail :: "AccountID \<Rightarrow> comms_response bus \<Rightarrow> agent_presence list" where
  "trail a b = List.map_filter (presence_of a) (published b)"

lemma trail_publish:
  "trail a (fst (publish tp now r b)) = trail a b @ (case presence_of a r of None \<Rightarrow> [] | Some pr \<Rightarrow> [pr])"
proof -
  have "published (fst (publish tp now r b)) = published b @ [r]" by (rule bus.published_pub)
  then show ?thesis by (simp add: trail_def map_filter_def split: option.splits)
qed

lemma trail_hist: "bus_hist b' = bus_hist b \<Longrightarrow> trail a b' = trail a b"
  by (simp add: trail_def)

lemma presence_of_foreign: "\<not> is_presence pl \<Longrightarrow> presence_of a (of_payload pl) = None"
  by (cases pl) (simp_all add: presence_of_def of_payload_def)

lemma presence_of_own:
  "presence_of a (of_payload (AgentPresenceChanged b pr)) = (if b = a then Some pr else None)"
  by (simp add: presence_of_def of_payload_def)

text \<open>The bus is sound; the table of last presences is the end of each agent's published trail,
  which never repeats a presence; and only agents with a recorded lifecycle are in it.\<close>

definition table_ok :: "publisher \<Rightarrow> bool" where
  "table_ok p \<longleftrightarrow> bus_inv (pb_bus p) \<and>
     (\<forall>a. distinct_adj (trail a (pb_bus p)) \<and>
          gm_get (pb_last p) a = (if trail a (pb_bus p) = [] then None else Some (last (trail a (pb_bus p)))) \<and>
          (gm_get (pb_last p) a \<noteq> None \<longrightarrow> gm_get (pb_last_state p) a \<noteq> None))"

lemma table_ok_cong:
  "table_ok p \<Longrightarrow> bus_inv (pb_bus p') \<Longrightarrow> bus_hist (pb_bus p') = bus_hist (pb_bus p) \<Longrightarrow> pb_last p' = pb_last p \<Longrightarrow>
     (\<And>a. gm_get (pb_last_state p) a \<noteq> None \<Longrightarrow> gm_get (pb_last_state p') a \<noteq> None) \<Longrightarrow> table_ok p'"
  using trail_hist [of "pb_bus p'" "pb_bus p"] unfolding table_ok_def by metis

lemma distinct_adj_snoc: "distinct_adj (xs @ [x]) \<longleftrightarrow> distinct_adj xs \<and> (xs = [] \<or> last xs \<noteq> x)"
  by (induction xs rule: induct_list012) auto

lemma table_ok_publish:
  assumes t: "table_ok p" and s: "gm_get (pb_last_state p) a \<noteq> None"
  shows "table_ok (publishIfChanged tp now a pr p)"
proof (cases "gm_get (pb_last p) a = Some pr")
  case False
  let ?p = "publishIfChanged tp now a pr p"
  have bus: "pb_bus ?p = fst (publish tp now (of_payload (AgentPresenceChanged a pr)) (pb_bus p))"
    and last: "pb_last ?p = gm_put a pr (pb_last p)" using False by (simp_all add: publishIfChanged_def)
  have inv: "bus_inv (pb_bus ?p)" using t by (simp add: bus bus_inv_publish table_ok_def)
  have tr: "trail b (pb_bus ?p) = trail b (pb_bus p) @ (if b = a then [pr] else [])" for b
    by (simp add: bus trail_publish presence_of_own)
  have "distinct_adj (trail b (pb_bus ?p)) \<and>
      gm_get (pb_last ?p) b = (if trail b (pb_bus ?p) = [] then None else Some (last (trail b (pb_bus ?p)))) \<and>
      (gm_get (pb_last ?p) b \<noteq> None \<longrightarrow> gm_get (pb_last_state ?p) b \<noteq> None)" for b
    using t False s unfolding table_ok_def tr last by (auto simp: distinct_adj_snoc)
  then show ?thesis using inv by (simp add: table_ok_def)
qed (simp add: publishIfChanged_def t)

lemma table_ok_recompute: "table_ok p \<Longrightarrow> table_ok (recomputeFromStore env tp a p)"
  by (auto simp: recomputeFromStore_def table_ok_publish split: option.splits)

lemma table_ok_handle: "table_ok p \<Longrightarrow> table_ok (handleEvent env tp r p)"
  by (simp add: handleEvent_def table_ok_recompute split: comms_payload.splits)

lemma table_ok_record: "table_ok p \<Longrightarrow> table_ok (p\<lparr>pb_last_state := gm_put a s (pb_last_state p)\<rparr>)"
  by (auto simp: table_ok_def)

lemma table_ok_apply: "table_ok p \<Longrightarrow> table_ok (apply_edge env e p)"
  by (simp add: apply_edge_def applyLifecycle_def applyPromoted_def Let_def table_ok_publish table_ok_record
      split: edge_kind.splits option.splits)

lemma table_ok_queue [simp]: "table_ok (p\<lparr>pb_queue := q\<rparr>) = table_ok p" "table_ok (p\<lparr>pb_draining := d\<rparr>) = table_ok p"
  "table_ok (p\<lparr>pb_notify := n\<rparr>) = table_ok p" "table_ok (p\<lparr>pb_sub := sn\<rparr>) = table_ok p"
  "table_ok (p\<lparr>pb_signals := k\<rparr>) = table_ok p" "table_ok (p\<lparr>pb_failed := f\<rparr>) = table_ok p"
  by (simp_all add: table_ok_def)

lemma table_ok_bus: "table_ok p \<Longrightarrow> bus_inv b \<Longrightarrow> bus_hist b = bus_hist (pb_bus p) \<Longrightarrow> table_ok (p\<lparr>pb_bus := b\<rparr>)"
  by (rule table_ok_cong [of p]) simp_all

lemma Cancel_inv: "bus_inv b \<Longrightarrow> bus_inv (Cancel sn b)" "bus_hist (Cancel sn b) = bus_hist b"
  by (simp_all add: Cancel_def bus_inv_unsubscribe split: option.splits) (simp add: unsubscribe_def)

text \<open>A fresh subscription cannot be refused.\<close>

lemma Subscribe_zero:
  assumes "bus_inv b"
  obtains b1 sn where "Subscribe 0 ep b = (b1, Inr sn)" "bus_inv b1" "bus_hist b1 = bus_hist b"
proof -
  have "snd (Subscribe 0 ep b) \<noteq> Inl e" for e using assms by (auto simp: Subscribe_def Let_def bus_inv_def)
  then obtain sn where "Subscribe 0 ep b = (fst (Subscribe 0 ep b), Inr sn)"
    by (metis prod.collapse sum.exhaust)
  then show ?thesis using that bus_inv_Subscribe [OF assms, of 0 ep] Subscribe_frame(1) [of 0 ep b] by blast
qed

lemma table_ok_replay:
  "table_ok p \<Longrightarrow> table_ok (fold (\<lambda>ev. handleEvent env (st_traceparent ev) (st_payload ev)) evs p)"
  by (induction evs arbitrary: p) (simp_all add: table_ok_handle)

lemma handle_frame [simp]:
  "pb_queue (handleEvent env tp r p) = pb_queue p" "pb_notify (handleEvent env tp r p) = pb_notify p"
  "pb_draining (handleEvent env tp r p) = pb_draining p" "pb_signals (handleEvent env tp r p) = pb_signals p"
  "pb_last_state (handleEvent env tp r p) = pb_last_state p" "pb_failed (handleEvent env tp r p) = pb_failed p"
  by (simp_all add: handleEvent_def recomputeFromStore_def split: comms_payload.splits option.splits)

lemma replay_frame [simp]:
  fixes env evs
  defines "h \<equiv> fold (\<lambda>ev. handleEvent env (st_traceparent ev) (st_payload ev)) evs"
  shows "pb_queue (h p) = pb_queue p" "pb_notify (h p) = pb_notify p" "pb_draining (h p) = pb_draining p"
    "pb_signals (h p) = pb_signals p" "pb_last_state (h p) = pb_last_state p" "pb_failed (h p) = pb_failed p"
  unfolding h_def by (induction evs arbitrary: p) simp_all

lemma table_ok_run_start: "table_ok p \<Longrightarrow> table_ok (run_start env p) \<and> pb_failed (run_start env p) = pb_failed p"
proof -
  assume t: "table_ok p"
  then have "bus_inv (pb_bus p)" by (simp add: table_ok_def)
  then obtain b sn where "Subscribe 0 (bus_epoch (pb_bus p)) (pb_bus p) = (b, Inr sn)" "bus_inv b" "bus_hist b = bus_hist (pb_bus p)"
    by (rule Subscribe_zero)
  then show ?thesis using t by (simp add: run_start_def table_ok_replay table_ok_bus)
qed

lemma table_ok_run_live: "table_ok p \<Longrightarrow> table_ok (run_live env p) \<and> pb_failed (run_live env p) = pb_failed p"
proof -
  assume t: "table_ok p"
  then have inv: "bus_inv (pb_bus p)" by (simp add: table_ok_def)
  then obtain b sn where sub: "Subscribe 0 (bus_epoch (pb_bus p)) (pb_bus p) = (b, Inr sn)" "bus_inv b" "bus_hist b = bus_hist (pb_bus p)"
    by (rule Subscribe_zero)
  have recv: "bus_inv b'" "bus_hist b' = bus_hist (pb_bus p)" if "recv_live i (pb_bus p) = (b', r)" for i b' r
    using bus_inv_recv [OF inv, of i] recv_live_frame(1) [of i "pb_bus p"] that by simp_all
  have c: "bus_inv (Cancel s b)" "bus_hist (Cancel s b) = bus_hist (pb_bus p)"
    "bus_inv (Cancel s (pb_bus p))" "bus_hist (Cancel s (pb_bus p)) = bus_hist (pb_bus p)" for s
    by (simp_all add: Cancel_inv sub inv)
  show ?thesis using t
    by (auto simp: run_live_def sub table_ok_handle table_ok_bus recv c split: option.splits prod.splits recv_result.splits)
qed

lemma table_ok_exec: "table_ok p \<Longrightarrow> table_ok (pres_exec op p) \<and> pb_failed (pres_exec op p) = pb_failed p"
proof (cases op)
  case (Foreign tp now pl)
  assume t: "table_ok p"
  have "table_ok (p\<lparr>pb_bus := fst (publish tp now (of_payload pl) (pb_bus p))\<rparr>)" if "\<not> is_presence pl"
    using t that by (simp add: table_ok_def bus_inv_publish trail_publish presence_of_foreign)
  then show ?thesis using t Foreign by simp
next
  case (Start env)
  then show "table_ok p \<Longrightarrow> ?thesis" using table_ok_run_start by simp
next
  case (Live env)
  then show "table_ok p \<Longrightarrow> ?thesis" using table_ok_run_live by simp
next
  case (Drain env)
  then show "table_ok p \<Longrightarrow> ?thesis" by (simp add: drain_round_def table_ok_apply split: list.splits)
qed (simp_all add: OnSessionLifecycle_def OnSessionPromoted_def enqueue_append_def enqueue_signal_def run_notify_def)

lemma table_ok_reachable: "pres_reachable epoch p \<Longrightarrow> table_ok p \<and> \<not> pb_failed p"
proof (induction rule: pres_reachable.induct)
  case init
  have "bus_hist (NewBus epoch :: comms_response bus) = []" by (simp add: NewBus_def)
  then show ?case by (simp add: table_ok_def NewPublisher_def bus_inv_init trail_def map_filter_def)
next
  case (step p op)
  then show ?case using table_ok_exec [of p op] by simp
qed

section \<open>Wakeups\<close>

text \<open>A queued edge is always about to be taken: a signal is pending or about to be sent, or the
  loop is draining.\<close>

definition wake_ok :: "publisher \<Rightarrow> bool" where
  "wake_ok p \<longleftrightarrow> (pb_queue p \<noteq> [] \<longrightarrow> pb_notify p \<or> pb_draining p \<or> 0 < pb_signals p)"

lemma run_live_frame [simp]:
  "pb_queue (run_live env p) = pb_queue p" "pb_notify (run_live env p) = pb_notify p"
  "pb_draining (run_live env p) = pb_draining p" "pb_signals (run_live env p) = pb_signals p"
  "pb_last_state (run_live env p) = pb_last_state p"
  by (simp_all add: run_live_def split: option.splits prod.splits recv_result.splits sum.splits)

lemma run_start_frame [simp]:
  "pb_queue (run_start env p) = pb_queue p" "pb_notify (run_start env p) = pb_notify p"
  "pb_draining (run_start env p) = pb_draining p" "pb_signals (run_start env p) = pb_signals p"
  "pb_last_state (run_start env p) = pb_last_state p"
  by (simp_all add: run_start_def split: prod.splits sum.splits)

lemma wake_ok_exec: "wake_ok p \<Longrightarrow> wake_ok (pres_exec op p)"
  by (cases op) (auto simp: wake_ok_def OnSessionLifecycle_def OnSessionPromoted_def enqueue_append_def enqueue_signal_def
      run_notify_def drain_round_def split: list.splits)

lemma wake_ok_reachable: "pres_reachable epoch p \<Longrightarrow> wake_ok p"
  by (induction rule: pres_reachable.induct) (simp_all add: wake_ok_exec, simp add: wake_ok_def NewPublisher_def)

lemma drain_rounds:
  "pb_draining p \<Longrightarrow> length envs = length (pb_queue p) + 1 \<Longrightarrow>
     pb_queue (fold drain_round envs p) = [] \<and> \<not> pb_draining (fold drain_round envs p)"
proof (induction envs arbitrary: p)
  case (Cons env envs)
  show ?case
  proof (cases "pb_queue p")
    case Nil
    then have "envs = []" using Cons.prems by simp
    then show ?thesis using Nil Cons.prems by (simp add: drain_round_def)
  next
    case (Cons e rest)
    let ?p = "drain_round env p"
    have "pb_draining ?p" "pb_queue ?p = rest" using Cons Cons.prems by (simp_all add: drain_round_def)
    then show ?thesis using Cons.IH [of ?p] Cons Cons.prems by simp
  qed
qed simp

lemma drainEdges_empty: "pb_queue (drainEdges env n p) = []"
proof (induction env n p rule: drainEdges.induct)
  case (1 env n p)
  then show ?case by (subst drainEdges.simps) (simp split: list.splits)
qed

section \<open>Who is published\<close>

fun edge_account :: "pres_op \<Rightarrow> AccountID list" where
  "edge_account (Lifecycle _ a _ _) = [a]"
| "edge_account (Promoted _ a _) = [a]"
| "edge_account _ = []"

definition known :: "publisher \<Rightarrow> AccountID set" where
  "known p = he_account ` set (pb_queue p) \<union> {a. gm_get (pb_last_state p) a \<noteq> None}"

lemma apply_edge_states:
  "gm_get (pb_last_state (apply_edge env e p)) a \<noteq> None \<Longrightarrow> gm_get (pb_last_state p) a \<noteq> None \<or> a = he_account e"
  by (auto simp: apply_edge_def applyLifecycle_def applyPromoted_def Let_def split: edge_kind.splits option.splits if_splits)

lemma known_exec: "known (pres_exec op p) \<subseteq> known p \<union> set (edge_account op)"
proof (cases op)
  case (Drain env)
  show ?thesis
  proof (cases "pb_draining p \<and> pb_queue p \<noteq> []")
    case True
    then obtain e rest where q: "pb_queue p = e # rest" by (cases "pb_queue p") auto
    have "pres_exec op p = apply_edge env e (p\<lparr>pb_queue := rest\<rparr>)" using True q Drain by (simp add: drain_round_def)
    then show ?thesis using apply_edge_states [of env e "p\<lparr>pb_queue := rest\<rparr>"] by (auto simp: known_def q)
  next
    case False
    then show ?thesis using Drain by (auto simp: drain_round_def known_def split: list.splits)
  qed
qed (auto simp: known_def OnSessionLifecycle_def OnSessionPromoted_def enqueue_append_def enqueue_signal_def run_notify_def)

lemma known_run: "known (pres_run ops p) \<subseteq> known p \<union> set (concat (map edge_account ops))"
proof (induction ops arbitrary: p)
  case (Cons op ops)
  then show ?case using known_exec [of op p] by (fastforce simp: pres_run_def)
qed (simp add: pres_run_def)

lemma reachable_run: "pres_reachable epoch p \<Longrightarrow> pres_reachable epoch (pres_run ops p)"
  by (induction ops arbitrary: p) (simp_all add: pres_run_def pres_reachable.step)

section \<open>Properties\<close>


definition demo_reads :: presence_reads where
  "demo_reads = \<lparr>AgentHasOpenAsk = \<lambda>_. Some True, SessionState = \<lambda>_. None, clock = 5\<rparr>"

definition demo_run :: "pres_op list" where
  "demo_run = [Start demo_reads, Lifecycle [] ''ada'' ''s1'' AGENT_SESSION_STATE_READY,
     Lifecycle [] ''ada'' ''s1'' AGENT_SESSION_STATE_READY, Signal, Wake, Drain demo_reads, Drain demo_reads]"


text \<open>No lost edge. In every reachable state of the interleaved sinks and loop, a queued edge
  has a wakeup pending (or a sink about to send it) or the loop is draining; and a drain that
  gets one round per queued edge and one more ends with the queue empty.\<close>

theorem no_lost_edge:
  assumes "pres_reachable epoch p"
  shows "(pb_queue p \<noteq> [] \<longrightarrow> pb_notify p \<or> pb_draining p \<or> 0 < pb_signals p)
    \<and> (pb_draining p \<and> length envs = length (pb_queue p) + 1 \<longrightarrow>
         pb_queue (fold drain_round envs p) = [] \<and> \<not> pb_draining (fold drain_round envs p))"
  using wake_ok_reachable [OF assms] drain_rounds [of p envs] by (simp add: wake_ok_def)

theorem no_lost_edge_witness:
  "pb_notify (pres_run [Lifecycle [] ''ada'' ''s1'' AGENT_SESSION_STATE_READY, Signal] (NewPublisher (NewBus 7)))"
proof -
  let ?p = "pres_run [Lifecycle [] ''ada'' ''s1'' AGENT_SESSION_STATE_READY, Signal] (NewPublisher (NewBus 7))"
  have r: "pres_reachable 7 ?p" by (intro reachable_run pres_reachable.init)
  have "pb_queue ?p \<noteq> []" "\<not> pb_draining ?p" "pb_signals ?p = 0"
    by (simp_all add: pres_run_def OnSessionLifecycle_def enqueue_append_def enqueue_signal_def NewPublisher_def)
  then show ?thesis using no_lost_edge [OF r, of "[]", THEN conjunct1] by simp
qed

text \<open>Only agents have a presence. In any run from a fresh publisher, an account for which the
  hub never reported a session (a human asking a question, say) never has a presence
  published, whatever messages it posts.\<close>

theorem presence_only_for_sessions:
  "trail a (pb_bus (pres_run ops (NewPublisher (NewBus epoch)))) = [] \<or> a \<in> set (concat (map edge_account ops))"
proof -
  let ?p = "pres_run ops (NewPublisher (NewBus epoch))"
  have t: "table_ok ?p" using table_ok_reachable [OF reachable_run [OF pres_reachable.init]] by blast
  have "known (NewPublisher (NewBus epoch)) = {}" by (simp add: known_def NewPublisher_def)
  then have k: "known ?p \<subseteq> set (concat (map edge_account ops))" using known_run [of ops "NewPublisher (NewBus epoch)"] by simp
  show ?thesis
  proof (cases "trail a (pb_bus ?p) = []")
    case False
    then have "gm_get (pb_last_state ?p) a \<noteq> None" using t by (auto simp: table_ok_def)
    then show ?thesis using k by (auto simp: known_def)
  qed simp
qed

text \<open>The four-state overlay. When the open-ask read answers, applying an edge leaves the agent
  with the presence its session state and open ask project to, having published one event if
  that differs from the last and none otherwise; a failed read changes nothing.\<close>

theorem edge_applied:
  "(case AgentHasOpenAsk env (he_account e) of
      None \<Rightarrow> apply_edge env e p = p
    | Some openAsk \<Rightarrow>
        (let st = (case he_kind e of EdgeLifecycle \<Rightarrow> he_state e
                   | EdgePromoted \<Rightarrow> (case SessionState env (he_session_id e) of None \<Rightarrow> AGENT_SESSION_STATE_UNSPECIFIED | Some s \<Rightarrow> s));
             pr = (if st = AGENT_SESSION_STATE_WORKING then AGENT_PRESENCE_WORKING
                   else if st \<in> {AGENT_SESSION_STATE_STARTING, AGENT_SESSION_STATE_READY}
                        then (if openAsk then AGENT_PRESENCE_WAITING else AGENT_PRESENCE_IDLE)
                   else AGENT_PRESENCE_OFFLINE)
         in gm_get (PresenceSnapshot (apply_edge env e p)) (he_account e) = Some pr
            \<and> gm_get (pb_last_state (apply_edge env e p)) (he_account e) = Some st
            \<and> published (pb_bus (apply_edge env e p)) = published (pb_bus p) @
                (if gm_get (PresenceSnapshot p) (he_account e) = Some pr then []
                 else [of_payload (AgentPresenceChanged (he_account e) pr)])))"
proof -
  have pf: "presenceFor st openAsk = (if st = AGENT_SESSION_STATE_WORKING then AGENT_PRESENCE_WORKING
                   else if st \<in> {AGENT_SESSION_STATE_STARTING, AGENT_SESSION_STATE_READY}
                        then (if openAsk then AGENT_PRESENCE_WAITING else AGENT_PRESENCE_IDLE)
                   else AGENT_PRESENCE_OFFLINE)" for st openAsk
    by (cases st) simp_all
  have pub: "published (fst (publish tp now r b)) = published b @ [r]" for tp now r and b :: "comms_response bus"
    by (rule bus.published_pub)
  show ?thesis
    by (cases "he_kind e"; cases "AgentHasOpenAsk env (he_account e)")
       (simp_all add: apply_edge_def applyLifecycle_def applyPromoted_def publishIfChanged_def PresenceSnapshot_def Let_def
          pub flip: pf)
qed

end
