(* ===== verification/Board_Gate.thy ===== *)
theory Board_Gate
  imports Events Comms_Types
begin

text \<open>
  Two parts of the board. \<open>src/go/internal/board/pr_gate.go\<close> derives from the stored facts of a
  pull request the first gate it has not met; \<open>src/go/internal/board/projection.go\<close> keeps the
  latest state of every agent session and fans each transition out on the events bus.

  The repeated message fields of a pull request are lists of options, the nil elements the
  code guards against being \<open>None\<close>.
\<close>

section \<open>Pull-request gates\<close>

datatype BoardPrGate =
    BOARD_PR_GATE_UNSPECIFIED
  | BOARD_PR_GATE_DRAFT
  | BOARD_PR_GATE_CHECKS_PENDING
  | BOARD_PR_GATE_CHECKS_FAILED
  | BOARD_PR_GATE_CONFLICTS
  | BOARD_PR_GATE_AWAITING_REVIEW
  | BOARD_PR_GATE_CHANGES_REQUESTED
  | BOARD_PR_GATE_AWAITING_ENQUEUE
  | BOARD_PR_GATE_QUEUED
  | BOARD_PR_GATE_QUEUE_FAILED
  | BOARD_PR_GATE_QUEUE_REMOVED
  | BOARD_PR_GATE_MERGED
  | BOARD_PR_GATE_CLOSED

record wire_check =
  ck_state :: string
  ck_required :: bool

record checks_summary =
  cs_state :: string
  cs_checks :: "wire_check option list"

record wire_review =
  rv_author :: string
  rv_is_bot :: bool
  rv_verdict :: string
  rv_commit_id :: string

record wire_thread =
  th_resolved :: bool

record pull_request =
  pr_repo :: string
  pr_number :: nat
  pr_forge_state :: string
  pr_head_ref :: string
  pr_base_ref :: string
  pr_head_sha :: string
  pr_draft :: bool
  pr_mergeable_state :: string
  pr_merge_queue_state :: string
  pr_checks :: "checks_summary option"
  pr_reviews :: "wire_review option list"
  pr_threads :: "wire_thread option list"
  pr_title :: string
  pr_url :: string

definition queueGate :: "string \<Rightarrow> BoardPrGate" where
  "queueGate state =
     (let s = ToLower state
      in if s = ''queued'' \<or> s = ''testing'' then BOARD_PR_GATE_QUEUED
         else if s = ''failed'' then BOARD_PR_GATE_QUEUE_FAILED
         else if s = ''removed'' then BOARD_PR_GATE_QUEUE_REMOVED
         else BOARD_PR_GATE_UNSPECIFIED)"

definition checkStateGate :: "string \<Rightarrow> BoardPrGate" where
  "checkStateGate state =
     (let s = ToLower state
      in if s = ''failure'' \<or> s = ''cancelled'' then BOARD_PR_GATE_CHECKS_FAILED
         else if s = ''success'' \<or> s = ''neutral'' \<or> s = [] then BOARD_PR_GATE_UNSPECIFIED
         else BOARD_PR_GATE_CHECKS_PENDING)"

text \<open>The first loop over the checks: \<open>None\<close> is the early return on a failed required check,
  otherwise whether any check is required.\<close>

fun required_scan :: "wire_check option list \<Rightarrow> bool \<Rightarrow> bool option" where
  "required_scan [] hasRequired = Some hasRequired"
| "required_scan (None # cs) hasRequired = required_scan cs hasRequired"
| "required_scan (Some c # cs) hasRequired =
     (if \<not> ck_required c then required_scan cs hasRequired
      else if checkStateGate (ck_state c) = BOARD_PR_GATE_CHECKS_FAILED then None
      else required_scan cs True)"

fun pending_scan :: "wire_check option list \<Rightarrow> bool" where
  "pending_scan [] = False"
| "pending_scan (None # cs) = pending_scan cs"
| "pending_scan (Some c # cs) =
     ((ck_required c \<and> checkStateGate (ck_state c) = BOARD_PR_GATE_CHECKS_PENDING) \<or> pending_scan cs)"

definition checksGate :: "checks_summary option \<Rightarrow> BoardPrGate" where
  "checksGate checks =
     (case checks of
        None \<Rightarrow> BOARD_PR_GATE_CHECKS_PENDING
      | Some cs \<Rightarrow>
          (case required_scan (cs_checks cs) False of
             None \<Rightarrow> BOARD_PR_GATE_CHECKS_FAILED
           | Some hasRequired \<Rightarrow>
               if \<not> hasRequired
               then (if TrimSpace (cs_state cs) = [] then BOARD_PR_GATE_CHECKS_PENDING else checkStateGate (cs_state cs))
               else if pending_scan (cs_checks cs) then BOARD_PR_GATE_CHECKS_PENDING
               else BOARD_PR_GATE_UNSPECIFIED))"

record reviewStateResult =
  changesRequested :: bool
  approved :: bool
  staleApproval :: bool

definition review_step :: "wire_review option \<Rightarrow> (string, wire_review) gomap \<Rightarrow> (string, wire_review) gomap" where
  "review_step r latest =
     (case r of
        None \<Rightarrow> latest
      | Some rv \<Rightarrow>
          if rv_is_bot rv \<or> rv_author rv = [] then latest
          else let v = ToLower (rv_verdict rv)
               in if v = ''approved'' \<or> v = ''changes_requested'' then gm_put (rv_author rv) rv latest
                  else if v = ''dismissed'' then gm_del (rv_author rv) latest
                  else latest)"

definition tally_step :: "string \<Rightarrow> wire_review \<Rightarrow> reviewStateResult \<Rightarrow> reviewStateResult" where
  "tally_step headSha rv res =
     (let v = ToLower (rv_verdict rv)
      in if v = ''changes_requested'' then res\<lparr>changesRequested := True\<rparr>
         else if v = ''approved''
           then (if rv_commit_id rv \<noteq> [] \<and> rv_commit_id rv \<noteq> headSha then res\<lparr>staleApproval := True\<rparr>
                 else res\<lparr>approved := True\<rparr>)
         else res)"

definition reviewState :: "pull_request \<Rightarrow> reviewStateResult" where
  "reviewState pr =
     (let latest = fold review_step (pr_reviews pr) []
      in fold (tally_step (pr_head_sha pr)) (map snd latest)
           \<lparr>changesRequested = False, approved = False, staleApproval = False\<rparr>)"

definition prGate :: "pull_request \<Rightarrow> reviewStateResult \<Rightarrow> BoardPrGate" where
  "prGate pr reviews =
     (if EqualFold (pr_forge_state pr) ''merged'' \<or> EqualFold (pr_merge_queue_state pr) ''merged'' then BOARD_PR_GATE_MERGED
      else if EqualFold (pr_forge_state pr) ''closed'' then BOARD_PR_GATE_CLOSED
      else if queueGate (pr_merge_queue_state pr) \<noteq> BOARD_PR_GATE_UNSPECIFIED then queueGate (pr_merge_queue_state pr)
      else if pr_draft pr then BOARD_PR_GATE_DRAFT
      else if EqualFold (pr_mergeable_state pr) ''dirty'' then BOARD_PR_GATE_CONFLICTS
      else if checksGate (pr_checks pr) \<noteq> BOARD_PR_GATE_UNSPECIFIED then checksGate (pr_checks pr)
      else if changesRequested reviews then BOARD_PR_GATE_CHANGES_REQUESTED
      else if \<not> approved reviews then BOARD_PR_GATE_AWAITING_REVIEW
      else if list_ex (\<lambda>t. case t of None \<Rightarrow> False | Some th \<Rightarrow> \<not> th_resolved th) (pr_threads pr)
        then BOARD_PR_GATE_AWAITING_REVIEW
      else BOARD_PR_GATE_AWAITING_ENQUEUE)"

definition derivePRState :: "pull_request option \<Rightarrow> BoardPrGate \<times> bool" where
  "derivePRState p =
     (case p of
        None \<Rightarrow> (BOARD_PR_GATE_UNSPECIFIED, False)
      | Some pr \<Rightarrow> (let reviews = reviewState pr in (prGate pr reviews, staleApproval reviews)))"

definition PrGate :: "pull_request option \<Rightarrow> BoardPrGate" where
  "PrGate p = fst (derivePRState p)"

section \<open>Session projection\<close>

record session_status =
  ss_session_id :: string
  ss_state :: agent_session_state
  ss_agent_account_id :: string
  ss_runtime_tier :: int
  ss_egress_posture :: int

record sessionEntry =
  se_state :: agent_session_state
  se_account :: string
  se_tier :: int
  se_egress_posture :: int

record projection =
  pj_bus :: "session_status bus"
  pj_sessions :: "(string, sessionEntry) gomap"

definition NewProjection :: "session_status bus \<Rightarrow> projection" where
  "NewProjection b = \<lparr>pj_bus = b, pj_sessions = []\<rparr>"

definition PublishSessionStatus :: "string \<Rightarrow> int \<Rightarrow> session_status option \<Rightarrow> projection \<Rightarrow> projection" where
  "PublishSessionStatus tp now status p =
     (case status of
        None \<Rightarrow> p
      | Some s \<Rightarrow>
          if ss_session_id s = [] \<or> ss_state s = AGENT_SESSION_STATE_UNSPECIFIED then p
          else p\<lparr>pj_sessions := gm_put (ss_session_id s)
                   \<lparr>se_state = ss_state s, se_account = ss_agent_account_id s, se_tier = ss_runtime_tier s,
                    se_egress_posture = ss_egress_posture s\<rparr> (pj_sessions p),
                 pj_bus := fst (publish tp now s (pj_bus p))\<rparr>)"

definition isTerminal :: "agent_session_state \<Rightarrow> bool" where
  "isTerminal s \<longleftrightarrow> s = AGENT_SESSION_STATE_STOPPED \<or> s = AGENT_SESSION_STATE_ERRORED"

definition statusOf :: "string \<Rightarrow> sessionEntry \<Rightarrow> session_status" where
  "statusOf sid e = \<lparr>ss_session_id = sid, ss_state = se_state e, ss_agent_account_id = se_account e,
     ss_runtime_tier = se_tier e, ss_egress_posture = se_egress_posture e\<rparr>"

definition Snapshot :: "string \<Rightarrow> projection \<Rightarrow> session_status list" where
  "Snapshot sessionID p =
     (if sessionID \<noteq> []
      then (case gm_get (pj_sessions p) sessionID of None \<Rightarrow> [] | Some e \<Rightarrow> [statusOf sessionID e])
      else sort_key ss_session_id (map (\<lambda>(i, e). statusOf i e) (filter (\<lambda>(i, e). \<not> isTerminal (se_state e)) (pj_sessions p))))"

section \<open>Checks and reviews, facts\<close>

definition state_passes :: "string \<Rightarrow> bool" where
  "state_passes s \<longleftrightarrow> ToLower s \<in> {''success'', ''neutral'', []}"

definition required_checks :: "checks_summary \<Rightarrow> wire_check list" where
  "required_checks cs = filter ck_required (List.map_filter (\<lambda>c. c) (cs_checks cs))"

text \<open>The checks pass: every required check does, or, when none is required, the non-blank
  summary does.\<close>

definition checks_pass :: "checks_summary option \<Rightarrow> bool" where
  "checks_pass checks \<longleftrightarrow>
     (case checks of
        None \<Rightarrow> False
      | Some cs \<Rightarrow>
          if required_checks cs = [] then TrimSpace (cs_state cs) \<noteq> [] \<and> state_passes (cs_state cs)
          else list_all (\<lambda>c. state_passes (ck_state c)) (required_checks cs))"

lemma checkStateGate_cases:
  "checkStateGate s = BOARD_PR_GATE_UNSPECIFIED \<longleftrightarrow> state_passes s"
  "checkStateGate s \<noteq> BOARD_PR_GATE_AWAITING_ENQUEUE"
  "state_passes s \<longleftrightarrow> checkStateGate s \<noteq> BOARD_PR_GATE_CHECKS_FAILED \<and> checkStateGate s \<noteq> BOARD_PR_GATE_CHECKS_PENDING"
  by (auto simp: checkStateGate_def state_passes_def Let_def)

lemma required_scan_eq:
  "required_scan cs h =
     (if list_ex (\<lambda>c. checkStateGate (ck_state c) = BOARD_PR_GATE_CHECKS_FAILED) (filter ck_required (List.map_filter (\<lambda>c. c) cs))
      then None else Some (h \<or> filter ck_required (List.map_filter (\<lambda>c. c) cs) \<noteq> []))"
  by (induction cs h rule: required_scan.induct) (simp_all add: map_filter_simps)

lemma pending_scan_eq:
  "pending_scan cs \<longleftrightarrow>
     list_ex (\<lambda>c. checkStateGate (ck_state c) = BOARD_PR_GATE_CHECKS_PENDING) (filter ck_required (List.map_filter (\<lambda>c. c) cs))"
  by (induction cs rule: pending_scan.induct) (auto simp: map_filter_simps)

lemma checksGate_pass: "checksGate checks = BOARD_PR_GATE_UNSPECIFIED \<longleftrightarrow> checks_pass checks"
proof (cases checks)
  case (Some cs)
  let ?r = "required_checks cs"
  have "(\<not> list_ex (\<lambda>c. checkStateGate (ck_state c) = BOARD_PR_GATE_CHECKS_FAILED) ?r
      \<and> \<not> list_ex (\<lambda>c. checkStateGate (ck_state c) = BOARD_PR_GATE_CHECKS_PENDING) ?r)
    \<longleftrightarrow> list_all (\<lambda>c. state_passes (ck_state c)) ?r"
    by (auto simp: list_ex_iff list_all_iff checkStateGate_cases(3))
  then show ?thesis
    by (auto simp: Some checksGate_def required_scan_eq pending_scan_eq checks_pass_def checkStateGate_cases(1)
        simp flip: required_checks_def)
qed (simp add: checksGate_def checks_pass_def)

definition decisive :: "string \<Rightarrow> wire_review option \<Rightarrow> bool" where
  "decisive a r \<longleftrightarrow>
     (case r of
        None \<Rightarrow> False
      | Some rv \<Rightarrow> \<not> rv_is_bot rv \<and> rv_author rv = a \<and> a \<noteq> []
          \<and> ToLower (rv_verdict rv) \<in> {''approved'', ''changes_requested'', ''dismissed''})"

lemma decisive_simps [simp]:
  "\<not> decisive a None"
  "decisive a (Some rv) \<longleftrightarrow> \<not> rv_is_bot rv \<and> rv_author rv = a \<and> a \<noteq> []
     \<and> (ToLower (rv_verdict rv) = ''approved'' \<or> ToLower (rv_verdict rv) = ''changes_requested''
        \<or> ToLower (rv_verdict rv) = ''dismissed'')"
  by (simp_all add: decisive_def)

text \<open>The review of an author that counts: the last one with a verdict, unless it was dismissed.\<close>

definition standing :: "pull_request \<Rightarrow> string \<Rightarrow> wire_review option" where
  "standing pr a =
     (case rev (filter (decisive a) (pr_reviews pr)) of
        Some rv # _ \<Rightarrow> if ToLower (rv_verdict rv) = ''dismissed'' then None else Some rv
      | _ \<Rightarrow> None)"

lemma latest_get:
  "gm_get (fold review_step rs []) a =
     (case rev (filter (decisive a) rs) of
        Some rv # _ \<Rightarrow> if ToLower (rv_verdict rv) = ''dismissed'' then None else Some rv
      | _ \<Rightarrow> None)"
proof (induction rs rule: rev_induct)
  case (snoc r rs)
  then show ?case by (cases r) (auto simp: review_step_def Let_def)
qed simp

lemma latest_wf: "gm_wf (fold review_step rs [])"
proof (induction rs rule: rev_induct)
  case (snoc r rs)
  then show ?case by (auto simp: review_step_def Let_def split: option.splits)
qed simp

lemma tally_fold:
  "fold (tally_step sha) rvs res =
     \<lparr>changesRequested = changesRequested res \<or> (\<exists>rv \<in> set rvs. ToLower (rv_verdict rv) = ''changes_requested''),
      approved = approved res \<or> (\<exists>rv \<in> set rvs. ToLower (rv_verdict rv) = ''approved'' \<and> (rv_commit_id rv = [] \<or> rv_commit_id rv = sha)),
      staleApproval = staleApproval res \<or> (\<exists>rv \<in> set rvs. ToLower (rv_verdict rv) = ''approved'' \<and> rv_commit_id rv \<noteq> [] \<and> rv_commit_id rv \<noteq> sha)\<rparr>"
  by (induction rvs arbitrary: res) (auto simp: tally_step_def Let_def)

lemma in_latest: "rv \<in> set (map snd (fold review_step (pr_reviews pr) [])) \<longleftrightarrow> (\<exists>a. standing pr a = Some rv)"
proof -
  let ?m = "fold review_step (pr_reviews pr) []"
  have "rv \<in> set (map snd ?m) \<longleftrightarrow> (\<exists>a. (a, rv) \<in> set ?m)" by force
  also have "\<dots> \<longleftrightarrow> (\<exists>a. standing pr a = Some rv)"
    using gm_entry_iff [OF latest_wf] latest_get by (simp add: standing_def)
  finally show ?thesis .
qed

lemma reviewState_standing:
  "changesRequested (reviewState pr) \<longleftrightarrow> (\<exists>a rv. standing pr a = Some rv \<and> ToLower (rv_verdict rv) = ''changes_requested'')"
  "approved (reviewState pr) \<longleftrightarrow> (\<exists>a rv. standing pr a = Some rv \<and> ToLower (rv_verdict rv) = ''approved''
     \<and> (rv_commit_id rv = [] \<or> rv_commit_id rv = pr_head_sha pr))"
  "staleApproval (reviewState pr) \<longleftrightarrow> (\<exists>a rv. standing pr a = Some rv \<and> ToLower (rv_verdict rv) = ''approved''
     \<and> rv_commit_id rv \<noteq> [] \<and> rv_commit_id rv \<noteq> pr_head_sha pr)"
proof -
  have "set (map snd (fold review_step (pr_reviews pr) [])) = {rv. \<exists>a. standing pr a = Some rv}"
    using in_latest [of _ pr] by blast
  then show "changesRequested (reviewState pr) \<longleftrightarrow> (\<exists>a rv. standing pr a = Some rv \<and> ToLower (rv_verdict rv) = ''changes_requested'')"
    "approved (reviewState pr) \<longleftrightarrow> (\<exists>a rv. standing pr a = Some rv \<and> ToLower (rv_verdict rv) = ''approved''
       \<and> (rv_commit_id rv = [] \<or> rv_commit_id rv = pr_head_sha pr))"
    "staleApproval (reviewState pr) \<longleftrightarrow> (\<exists>a rv. standing pr a = Some rv \<and> ToLower (rv_verdict rv) = ''approved''
       \<and> rv_commit_id rv \<noteq> [] \<and> rv_commit_id rv \<noteq> pr_head_sha pr)"
    unfolding reviewState_def Let_def tally_fold by auto
qed

section \<open>Properties\<close>

text \<open>C33: ready to enqueue. A pull request is shown as awaiting its enqueue exactly when it is
  neither merged, closed, queued nor ejected from the queue, is no draft, has no conflict,
  passes its checks, has no reviewer whose standing verdict requests changes, has a reviewer
  whose standing approval is of the current head, and has no open thread. A bot's review, a
  dismissed one and one superseded by the same author never count.\<close>

theorem gate_ready_iff:
  "PrGate (Some pr) = BOARD_PR_GATE_AWAITING_ENQUEUE \<longleftrightarrow>
     ToLower (pr_forge_state pr) \<notin> {''merged'', ''closed''}
     \<and> ToLower (pr_merge_queue_state pr) \<notin> {''merged'', ''queued'', ''testing'', ''failed'', ''removed''}
     \<and> \<not> pr_draft pr \<and> ToLower (pr_mergeable_state pr) \<noteq> ''dirty'' \<and> checks_pass (pr_checks pr)
     \<and> \<not> (\<exists>a rv. standing pr a = Some rv \<and> ToLower (rv_verdict rv) = ''changes_requested'')
     \<and> (\<exists>a rv. standing pr a = Some rv \<and> ToLower (rv_verdict rv) = ''approved''
          \<and> (rv_commit_id rv = [] \<or> rv_commit_id rv = pr_head_sha pr))
     \<and> list_all (\<lambda>t. case t of None \<Rightarrow> True | Some th \<Rightarrow> th_resolved th) (pr_threads pr)"
proof -
  have low: "EqualFold x ''merged'' \<longleftrightarrow> ToLower x = ''merged''" "EqualFold x ''closed'' \<longleftrightarrow> ToLower x = ''closed''"
    "EqualFold x ''dirty'' \<longleftrightarrow> ToLower x = ''dirty''" for x
    by (simp_all add: EqualFold_def ToLower_def to_lower_byte_def)
  have q: "queueGate x = BOARD_PR_GATE_UNSPECIFIED \<longleftrightarrow> ToLower x \<notin> {''queued'', ''testing'', ''failed'', ''removed''}"
    "queueGate x \<noteq> BOARD_PR_GATE_AWAITING_ENQUEUE" for x
    by (auto simp: queueGate_def Let_def)
  have c: "checksGate x \<noteq> BOARD_PR_GATE_AWAITING_ENQUEUE" for x
    by (auto simp: checksGate_def checkStateGate_cases(2) split: option.splits)
  have t: "list_ex (\<lambda>t. case t of None \<Rightarrow> False | Some th \<Rightarrow> \<not> th_resolved th) ts \<longleftrightarrow>
      \<not> list_all (\<lambda>t. case t of None \<Rightarrow> True | Some th \<Rightarrow> th_resolved th) ts" for ts
    by (induction ts) (auto split: option.splits)
  have "PrGate (Some pr) = prGate pr (reviewState pr)" by (simp add: PrGate_def derivePRState_def Let_def)
  then show ?thesis
    unfolding prGate_def low using q c
    by (auto simp: t checksGate_pass reviewState_standing simp del: not_ex)
qed


text \<open>The calls the hub makes, in order, on a fresh projection.\<close>

definition project :: "(string \<times> int \<times> session_status option) list \<Rightarrow> nat \<Rightarrow> projection" where
  "project calls epoch = fold (\<lambda>(tp, now, s). PublishSessionStatus tp now s) calls (NewProjection (NewBus epoch))"

definition last_status :: "projection \<Rightarrow> string \<Rightarrow> session_status option" where
  "last_status p sid =
     (case rev (filter (\<lambda>s. ss_session_id s = sid) (published (pj_bus p))) of [] \<Rightarrow> None | s # _ \<Rightarrow> Some s)"

definition board_ok :: "projection \<Rightarrow> bool" where
  "board_ok p \<longleftrightarrow> gm_wf (pj_sessions p) \<and> gm_get (pj_sessions p) [] = None \<and>
     (\<forall>sid. map_option (statusOf sid) (gm_get (pj_sessions p) sid) = last_status p sid)"

lemma board_ok_publish: "board_ok p \<Longrightarrow> board_ok (PublishSessionStatus tp now s p)"
proof (cases s)
  case (Some st)
  assume ok: "board_ok p"
  show ?thesis
  proof (cases "ss_session_id st = [] \<or> ss_state st = AGENT_SESSION_STATE_UNSPECIFIED")
    case False
    let ?p = "PublishSessionStatus tp now s p"
    have "published (pj_bus ?p) = published (pj_bus p) @ [st]"
      using False Some bus.published_pub by (simp add: PublishSessionStatus_def)
    then have "last_status ?p sid = (if ss_session_id st = sid then Some st else last_status p sid)" for sid
      by (simp add: last_status_def)
    then show ?thesis using ok False Some by (auto simp: board_ok_def PublishSessionStatus_def statusOf_def)
  qed (use ok Some in \<open>simp add: PublishSessionStatus_def\<close>)
qed (simp add: PublishSessionStatus_def)

lemma board_ok_project: "board_ok (project calls epoch)"
proof -
  have "board_ok (NewProjection (NewBus epoch))"
    by (simp add: board_ok_def NewProjection_def last_status_def NewBus_def)
  then have "board_ok (fold (\<lambda>(tp, now, s). PublishSessionStatus tp now s) calls (NewProjection (NewBus epoch)))"
    by (induction calls rule: rev_induct) (auto simp: board_ok_publish)
  then show ?thesis by (simp add: project_def)
qed

text \<open>The snapshot agrees with the stream. After any calls, reading one session gives the last
  status published for it on the events bus and nothing for a session never published, and
  the unfiltered read lists exactly the sessions whose last published status is not
  terminal, each once, in the order of their ids.\<close>

theorem snapshot_matches_stream:
  "(sid \<noteq> [] \<longrightarrow> Snapshot sid (project calls epoch) =
      (case last_status (project calls epoch) sid of None \<Rightarrow> [] | Some s \<Rightarrow> [s]))
   \<and> set (Snapshot [] (project calls epoch)) =
       {s. \<exists>i. last_status (project calls epoch) i = Some s \<and> \<not> isTerminal (ss_state s)}
   \<and> sorted_wrt (<) (map ss_session_id (Snapshot [] (project calls epoch)))"
proof -
  let ?p = "project calls epoch" and ?m = "pj_sessions (project calls epoch)"
  have ok: "gm_wf ?m" "\<And>i. map_option (statusOf i) (gm_get ?m i) = last_status ?p i"
    using board_ok_project [of calls epoch] by (simp_all add: board_ok_def)
  let ?l = "map (\<lambda>(i, e). statusOf i e) (filter (\<lambda>(i, e). \<not> isTerminal (se_state e)) ?m)"
  have one: "sid \<noteq> [] \<longrightarrow> Snapshot sid ?p = (case last_status ?p sid of None \<Rightarrow> [] | Some s \<Rightarrow> [s])"
    using ok(2) [of sid] by (auto simp: Snapshot_def split: option.splits)
  have "s \<in> set ?l \<longleftrightarrow> (\<exists>i e. gm_get ?m i = Some e \<and> \<not> isTerminal (se_state e) \<and> s = statusOf i e)" for s
    using ok(1) by (auto simp flip: gm_entry_iff)
  also have "\<dots> s \<longleftrightarrow> (\<exists>i. last_status ?p i = Some s \<and> \<not> isTerminal (ss_state s))" for s
    by (auto simp: statusOf_def simp flip: ok(2))
  finally have all: "set (Snapshot [] ?p) = {s. \<exists>i. last_status ?p i = Some s \<and> \<not> isTerminal (ss_state s)}"
    by (auto simp: Snapshot_def)
  have ids: "map ss_session_id ?l = map fst (filter (\<lambda>(i, e). \<not> isTerminal (se_state e)) ?m)"
    by (auto simp: statusOf_def)
  have "distinct (map ss_session_id ?l)" using ok(1) by (simp only: ids gm_wf_def distinct_map_filter)
  then have "distinct (map ss_session_id (sort_key ss_session_id ?l))"
    by (simp only: distinct_map set_sort distinct_sort)
  then have "distinct (map ss_session_id (Snapshot [] ?p))" by (simp only: Snapshot_def if_False simp_thms)
  moreover have "sorted (map ss_session_id (Snapshot [] ?p))" by (simp add: Snapshot_def)
  ultimately show ?thesis using one all by (simp add: strict_sorted_iff)
qed

theorem snapshot_matches_stream_witness:
  "map ss_state (Snapshot ''s1'' (project [([], 0, Some \<lparr>ss_session_id = ''s1'', ss_state = AGENT_SESSION_STATE_STOPPED,
      ss_agent_account_id = ''ada'', ss_runtime_tier = 0, ss_egress_posture = 0\<rparr>)] 7)) = [AGENT_SESSION_STATE_STOPPED]"
proof -
  let ?s = "\<lparr>ss_session_id = ''s1'', ss_state = AGENT_SESSION_STATE_STOPPED, ss_agent_account_id = ''ada'',
      ss_runtime_tier = 0, ss_egress_posture = 0\<rparr>"
  have "last_status (project [([], 0, Some ?s)] 7) ''s1'' = Some ?s"
    by (simp add: project_def last_status_def PublishSessionStatus_def NewProjection_def publish_def NewBus_def Let_def)
  then show ?thesis using snapshot_matches_stream [of "''s1''" "[([], 0, Some ?s)]" 7] by simp
qed

end
