(* ===== verification/Usage.thy ===== *)
theory Usage
  imports Comms_Types "HOL-Library.Signed_Division"
begin

text \<open>
  Usage metering, \<open>src/go/internal/usage/usage.go\<close> and the in-memory reference store
  \<open>memory.go\<close>: append-only token events and compute intervals, the hourly and daily rollups
  kept beside them, the series reads over the rollups, and the pruning of the raw logs, after
  which the older rollups are frozen.

  Counters are \<open>64 word\<close>: Go's \<open>int64\<close> addition wraps. Timestamps are \<open>int\<close>: validation keeps
  them positive and far below the \<open>int64\<close> range, so no timestamp arithmetic wraps. Go's \<open>%\<close> is
  \<open>smod\<close>, the remainder of the division that truncates. The maps that the code iterates are
  association lists.
\<close>

section \<open>Events and buckets\<close>

datatype usage_error =
    GranularityHasNoRollup
  | BadEvent nat string
  | EmptyIntervalID | IntervalStartRange | IntervalEndRange | EmptyIntervalKey

record TokenUsageEvent =
  ev_id :: string
  ev_occurred :: int
  ev_agent :: string
  ev_owner :: string
  ev_session :: string
  ev_request :: string
  ev_provider :: string
  ev_model :: string
  ev_credential :: string
  ev_input :: "64 word"
  ev_output :: "64 word"
  ev_cache_read :: "64 word"
  ev_cache_write :: "64 word"
  ev_total :: "64 word"
  ev_cost :: "64 word"
  ev_rate_version :: string
  ev_outcome :: string

datatype Granularity = GranularityUnspecified | GranularityHour | GranularityDay | GranularityNum int

definition hourMs :: int where "hourMs = 3600000"
definition dayMs :: int where "dayMs = 24 * hourMs"
definition maxTimestamptzMs :: int where "maxTimestamptzMs = (2 ^ 63 - 1) div 1000"
definition MinInt64 :: int where "MinInt64 = - (2 ^ 63)"

record SeriesQuery =
  q_granularity :: Granularity
  q_start :: int
  q_end :: int
  q_agents :: "string list"
  q_provider :: string

record Bucket =
  b_start :: int
  b_input :: "64 word"
  b_output :: "64 word"
  b_cache_read :: "64 word"
  b_cache_write :: "64 word"
  b_total :: "64 word"
  b_cost :: "64 word"

record ComputeInterval =
  ci_id :: string
  ci_start :: int
  ci_end :: int
  ci_agent :: string
  ci_owner :: string

record ComputeBucket =
  cb_start :: int
  cb_active :: "64 word"
  cb_intervals :: "64 word"

fun widthMs :: "Granularity \<Rightarrow> int" where
  "widthMs GranularityHour = hourMs"
| "widthMs GranularityDay = dayMs"
| "widthMs GranularityUnspecified = 0"
| "widthMs (GranularityNum _) = 0"

definition BucketStart :: "Granularity \<Rightarrow> int \<Rightarrow> int" where
  "BucketStart g unixMs = (if widthMs g = 0 then unixMs else unixMs - unixMs smod widthMs g)"

definition Validate :: "SeriesQuery \<Rightarrow> usage_error option" where
  "Validate q = (if widthMs (q_granularity q) = 0 then Some GranularityHasNoRollup else None)"

definition OutcomeOK :: string where "OutcomeOK = ''ok''"
definition OutcomeError :: string where "OutcomeError = ''error''"
definition OutcomeAborted :: string where "OutcomeAborted = ''aborted''"

text \<open>The first defect of an event; the quotes around an unknown outcome are left out.\<close>

definition problem :: "TokenUsageEvent \<Rightarrow> string" where
  "problem e =
     (if ev_id e = [] then ''empty id''
      else if ev_occurred e \<le> 0 then ''non-positive occurred_at''
      else if maxTimestamptzMs < ev_occurred e then ''occurred_at past the last storable timestamp''
      else if ev_agent e = [] \<or> ev_owner e = [] \<or> ev_provider e = [] \<or> ev_model e = [] then ''empty rollup key (agent, owner, provider, model)''
      else if sint (ev_input e) < 0 \<or> sint (ev_output e) < 0 \<or> sint (ev_cache_read e) < 0 \<or> sint (ev_cache_write e) < 0
        \<or> sint (ev_total e) < 0 \<or> sint (ev_cost e) < 0 then ''negative token count or cost''
      else if ev_outcome e \<noteq> OutcomeOK \<and> ev_outcome e \<noteq> OutcomeError \<and> ev_outcome e \<noteq> OutcomeAborted
        then ''unknown outcome '' @ ev_outcome e
      else [])"

fun validate_from :: "nat \<Rightarrow> TokenUsageEvent list \<Rightarrow> usage_error option" where
  "validate_from i [] = None"
| "validate_from i (e # es) = (if problem e \<noteq> [] then Some (BadEvent i (problem e)) else validate_from (i + 1) es)"

definition ValidateEvents :: "TokenUsageEvent list \<Rightarrow> usage_error option" where
  "ValidateEvents es = validate_from 0 es"

definition usage :: "TokenUsageEvent \<Rightarrow> Bucket" where
  "usage e = \<lparr>b_start = 0, b_input = ev_input e, b_output = ev_output e, b_cache_read = ev_cache_read e,
     b_cache_write = ev_cache_write e, b_total = ev_total e, b_cost = ev_cost e\<rparr>"

definition bplus :: "Bucket \<Rightarrow> Bucket \<Rightarrow> Bucket" where
  "bplus b o1 = \<lparr>b_start = b_start b, b_input = b_input b + b_input o1, b_output = b_output b + b_output o1,
     b_cache_read = b_cache_read b + b_cache_read o1, b_cache_write = b_cache_write b + b_cache_write o1,
     b_total = b_total b + b_total o1, b_cost = b_cost b + b_cost o1\<rparr>"

definition zeroBucket :: Bucket where
  "zeroBucket = \<lparr>b_start = 0, b_input = 0, b_output = 0, b_cache_read = 0, b_cache_write = 0, b_total = 0, b_cost = 0\<rparr>"

definition zeroComputeBucket :: ComputeBucket where
  "zeroComputeBucket = \<lparr>cb_start = 0, cb_active = 0, cb_intervals = 0\<rparr>"

section \<open>The in-memory store\<close>

definition rollupGranularities :: "Granularity list" where
  "rollupGranularities = [GranularityHour, GranularityDay]"

record rollupKey =
  rk_granularity :: Granularity
  rk_start :: int
  rk_owner :: string
  rk_agent :: string
  rk_provider :: string
  rk_model :: string

record computeRollupKey =
  ck_granularity :: Granularity
  ck_start :: int
  ck_owner :: string
  ck_agent :: string

record memoryTenant =
  mt_events :: "(string, TokenUsageEvent) gomap"
  mt_rollups :: "(rollupKey, Bucket) gomap"
  mt_compute_events :: "(string, ComputeInterval) gomap"
  mt_compute_rollups :: "(computeRollupKey, ComputeBucket) gomap"

record Memory =
  mem_tenants :: "(TenantID, memoryTenant) gomap"
  mem_horizon :: int
  mem_compute_horizon :: int

definition NewMemory :: Memory where
  "NewMemory = \<lparr>mem_tenants = [], mem_horizon = MinInt64, mem_compute_horizon = MinInt64\<rparr>"

definition emptyTenant :: memoryTenant where
  "emptyTenant = \<lparr>mt_events = [], mt_rollups = [], mt_compute_events = [], mt_compute_rollups = []\<rparr>"

definition tenant_of :: "TenantID \<Rightarrow> Memory \<Rightarrow> memoryTenant" where
  "tenant_of tid m = gm_getz emptyTenant (mem_tenants m) tid"

text \<open>\<open>m.tenant(ctx)\<close> followed by writes through the pointer it returns.\<close>

definition update_tenant :: "TenantID \<Rightarrow> (memoryTenant \<Rightarrow> memoryTenant) \<Rightarrow> Memory \<Rightarrow> Memory" where
  "update_tenant tid f m = m\<lparr>mem_tenants := gm_put tid (f (tenant_of tid m)) (mem_tenants m)\<rparr>"

definition key_of :: "TokenUsageEvent \<Rightarrow> Granularity \<Rightarrow> rollupKey" where
  "key_of e g = \<lparr>rk_granularity = g, rk_start = BucketStart g (ev_occurred e), rk_owner = ev_owner e,
     rk_agent = ev_agent e, rk_provider = ev_provider e, rk_model = ev_model e\<rparr>"

definition rollUp :: "TokenUsageEvent \<Rightarrow> memoryTenant \<Rightarrow> memoryTenant" where
  "rollUp e t = fold (\<lambda>g t.
     (let k = key_of e g;
          b = bplus (gm_getz zeroBucket (mt_rollups t) k) (usage e)
      in t\<lparr>mt_rollups := gm_put k (b\<lparr>b_start := rk_start k\<rparr>) (mt_rollups t)\<rparr>)) rollupGranularities t"

definition append_event :: "TokenUsageEvent \<Rightarrow> memoryTenant \<Rightarrow> memoryTenant" where
  "append_event e t =
     (if gm_get (mt_events t) (ev_id e) \<noteq> None then t
      else rollUp e (t\<lparr>mt_events := gm_put (ev_id e) e (mt_events t)\<rparr>))"

definition AppendTokenUsage :: "TenantID \<Rightarrow> TokenUsageEvent list \<Rightarrow> Memory \<Rightarrow> Memory \<times> usage_error option" where
  "AppendTokenUsage tid events m =
     (case ValidateEvents events of
        Some e \<Rightarrow> (m, Some e)
      | None \<Rightarrow> (update_tenant tid (fold append_event events) m, None))"

definition series_matches :: "SeriesQuery \<Rightarrow> rollupKey \<Rightarrow> bool" where
  "series_matches q k \<longleftrightarrow>
     \<not> (rk_granularity k \<noteq> q_granularity q \<or> rk_start k < q_start q \<or> q_end q \<le> rk_start k)
     \<and> \<not> (q_agents q \<noteq> [] \<and> rk_agent k \<notin> set (q_agents q))
     \<and> \<not> (q_provider q \<noteq> [] \<and> rk_provider k \<noteq> q_provider q)"

definition series_sums :: "SeriesQuery \<Rightarrow> (rollupKey, Bucket) gomap \<Rightarrow> (int, Bucket) gomap" where
  "series_sums q rolls =
     fold (\<lambda>(k, b) sums. if series_matches q k
                         then gm_put (rk_start k) (bplus (gm_getz zeroBucket sums (rk_start k)) b) sums else sums) rolls []"

definition TokenUsageSeries :: "TenantID \<Rightarrow> SeriesQuery \<Rightarrow> Memory \<Rightarrow> usage_error + Bucket list" where
  "TokenUsageSeries tid q m =
     (case Validate q of
        Some e \<Rightarrow> Inl e
      | None \<Rightarrow> Inr (sort_key b_start (map (\<lambda>(start, b). b\<lparr>b_start := start\<rparr>) (series_sums q (mt_rollups (tenant_of tid m))))))"

definition rebuild_tokens :: "int \<Rightarrow> memoryTenant \<Rightarrow> memoryTenant" where
  "rebuild_tokens horizon t =
     fold (\<lambda>(_, e) t. if horizon \<le> ev_occurred e then rollUp e t else t) (mt_events t)
       (t\<lparr>mt_rollups := filter (\<lambda>(k, _). \<not> horizon \<le> rk_start k) (mt_rollups t)\<rparr>)"

definition RebuildTokenUsageRollups :: "TenantID \<Rightarrow> Memory \<Rightarrow> Memory" where
  "RebuildTokenUsageRollups tid m = update_tenant tid (rebuild_tokens (mem_horizon m)) m"

definition PruneTokenUsageBefore :: "int \<Rightarrow> Memory \<Rightarrow> Memory \<times> nat" where
  "PruneTokenUsageBefore beforeUnixMs m =
     (let cutoff = BucketStart GranularityDay beforeUnixMs
      in (m\<lparr>mem_tenants := map (\<lambda>(i, t). (i, t\<lparr>mt_events := filter (\<lambda>(_, e). \<not> ev_occurred e < cutoff) (mt_events t)\<rparr>)) (mem_tenants m),
            mem_horizon := max (mem_horizon m) cutoff\<rparr>,
          sum_list (map (\<lambda>(i, t). length (filter (\<lambda>(_, e). ev_occurred e < cutoff) (mt_events t))) (mem_tenants m))))"

section \<open>Compute intervals\<close>

definition validateComputeInterval :: "ComputeInterval \<Rightarrow> usage_error option" where
  "validateComputeInterval i =
     (if ci_id i = [] then Some EmptyIntervalID
      else if ci_start i \<le> 0 \<or> maxTimestamptzMs < ci_start i then Some IntervalStartRange
      else if ci_end i < 0 \<or> maxTimestamptzMs < ci_end i \<or> (ci_end i \<noteq> 0 \<and> ci_end i < ci_start i) then Some IntervalEndRange
      else if ci_agent i = [] \<or> ci_owner i = [] then Some EmptyIntervalKey
      else None)"

text \<open>The loop over the buckets of one granularity, from \<open>start\<close> to \<open>lst\<close>.\<close>

function compute_loop :: "ComputeInterval \<Rightarrow> int \<Rightarrow> Granularity \<Rightarrow> int \<Rightarrow> int \<Rightarrow> (computeRollupKey, ComputeBucket) gomap
    \<Rightarrow> (computeRollupKey, ComputeBucket) gomap" where
  "compute_loop i horizon g start lst m =
     (if start \<le> lst \<and> 0 < widthMs g
      then let activeStart = max (ci_start i) start;
               activeEnd = min (ci_end i) (start + widthMs g);
               count = (if horizon \<le> ci_start i \<and> BucketStart g (ci_start i) = start then 1 else 0);
               key = \<lparr>ck_granularity = g, ck_start = start, ck_owner = ci_owner i, ck_agent = ci_agent i\<rparr>;
               b = gm_getz zeroComputeBucket m key
           in compute_loop i horizon g (start + widthMs g) lst
                (gm_put key \<lparr>cb_start = start, cb_active = cb_active b + word_of_int (max 0 (activeEnd - activeStart)),
                             cb_intervals = cb_intervals b + count\<rparr> m)
      else m)"
  by pat_completeness auto
termination by (relation "measure (\<lambda>(i, h, g, start, lst, m). nat (lst - start + 1))") auto

declare compute_loop.simps [simp del]

definition rollUpCompute :: "ComputeInterval \<Rightarrow> int \<Rightarrow> (computeRollupKey, ComputeBucket) gomap \<Rightarrow> (computeRollupKey, ComputeBucket) gomap" where
  "rollUpCompute i horizon m =
     (if ci_end i = 0 \<or> (horizon \<noteq> MinInt64 \<and> ci_end i < horizon) then m
      else fold (\<lambda>g m.
             let startBucket = BucketStart g (ci_start i);
                 horizonStart = (if horizon \<noteq> MinInt64 then BucketStart g horizon else MinInt64)
             in compute_loop i horizon g (max startBucket horizonStart) (max startBucket (BucketStart g (ci_end i - 1))) m)
           rollupGranularities m)"

definition AppendComputeInterval :: "TenantID \<Rightarrow> ComputeInterval \<Rightarrow> Memory \<Rightarrow> Memory \<times> usage_error option" where
  "AppendComputeInterval tid i m =
     (case validateComputeInterval i of
        Some e \<Rightarrow> (m, Some e)
      | None \<Rightarrow>
          (let t = tenant_of tid m;
               roll = (\<lambda>i t. if ci_end i \<noteq> 0
                             then t\<lparr>mt_compute_rollups := rollUpCompute i MinInt64 (mt_compute_rollups t)\<rparr> else t);
               m1 = update_tenant tid (\<lambda>t. t) m
           in case gm_get (mt_compute_events t) (ci_id i) of
                None \<Rightarrow>
                  (update_tenant tid (\<lambda>t. roll i (t\<lparr>mt_compute_events := gm_put (ci_id i) i (mt_compute_events t)\<rparr>)) m, None)
              | Some ex \<Rightarrow>
                  if ci_end ex \<noteq> 0 \<or> ci_end i = 0 then (m1, None)
                  else let ex' = ex\<lparr>ci_end := ci_end i\<rparr>
                       in case validateComputeInterval ex' of
                            Some e \<Rightarrow> (m1, Some e)
                          | None \<Rightarrow>
                              (update_tenant tid (\<lambda>t. roll ex' (t\<lparr>mt_compute_events := gm_put (ci_id i) ex' (mt_compute_events t)\<rparr>)) m, None)))"

definition compute_matches :: "SeriesQuery \<Rightarrow> computeRollupKey \<Rightarrow> bool" where
  "compute_matches q k \<longleftrightarrow>
     \<not> (ck_granularity k \<noteq> q_granularity q \<or> ck_start k < q_start q \<or> q_end q \<le> ck_start k)
     \<and> \<not> (q_agents q \<noteq> [] \<and> ck_agent k \<notin> set (q_agents q))"

definition ComputeUsageSeries :: "TenantID \<Rightarrow> SeriesQuery \<Rightarrow> Memory \<Rightarrow> usage_error + ComputeBucket list" where
  "ComputeUsageSeries tid q m =
     (case Validate q of
        Some e \<Rightarrow> Inl e
      | None \<Rightarrow>
          Inr (sort_key cb_start (map snd
            (fold (\<lambda>(k, b) sums. if compute_matches q k
               then (let s = gm_getz zeroComputeBucket sums (ck_start k)
                     in gm_put (ck_start k) \<lparr>cb_start = ck_start k, cb_active = cb_active s + cb_active b,
                          cb_intervals = cb_intervals s + cb_intervals b\<rparr> sums)
               else sums) (mt_compute_rollups (tenant_of tid m)) []))))"

definition rebuild_compute :: "int \<Rightarrow> memoryTenant \<Rightarrow> memoryTenant" where
  "rebuild_compute horizon t =
     t\<lparr>mt_compute_rollups :=
         fold (\<lambda>(_, i) r. if ci_end i \<noteq> 0 \<and> horizon \<le> BucketStart GranularityDay (ci_end i)
                          then rollUpCompute i horizon r else r) (mt_compute_events t)
           (filter (\<lambda>(k, _). \<not> BucketStart GranularityDay horizon \<le> ck_start k) (mt_compute_rollups t))\<rparr>"

definition RebuildComputeUsageRollups :: "TenantID \<Rightarrow> Memory \<Rightarrow> Memory" where
  "RebuildComputeUsageRollups tid m = update_tenant tid (rebuild_compute (mem_compute_horizon m)) m"

definition compute_prunable :: "int \<Rightarrow> ComputeInterval \<Rightarrow> bool" where
  "compute_prunable cutoff i \<longleftrightarrow> ci_end i \<noteq> 0 \<and> BucketStart GranularityDay (ci_end i) < cutoff"

definition PruneComputeUsageBefore :: "int \<Rightarrow> Memory \<Rightarrow> Memory \<times> nat" where
  "PruneComputeUsageBefore beforeUnixMs m =
     (let cutoff = BucketStart GranularityDay beforeUnixMs
      in (m\<lparr>mem_tenants := map (\<lambda>(i, t). (i, t\<lparr>mt_compute_events := filter (\<lambda>(_, c). \<not> compute_prunable cutoff c) (mt_compute_events t)\<rparr>))
                            (mem_tenants m),
            mem_compute_horizon := max (mem_compute_horizon m) cutoff\<rparr>,
          sum_list (map (\<lambda>(i, t). 2 * length (filter (\<lambda>(_, c). compute_prunable cutoff c) (mt_compute_events t))) (mem_tenants m))))"

definition clearRollups :: "Memory \<Rightarrow> Memory" where
  "clearRollups m = m\<lparr>mem_tenants := map (\<lambda>(i, t). (i, t\<lparr>mt_rollups := [], mt_compute_rollups := []\<rparr>)) (mem_tenants m)\<rparr>"

section \<open>Rows as sums\<close>

text \<open>What a rollup row holds, as a value that can be summed: whether the row exists, and its
  counters.\<close>

datatype tally = Tally bool "64 word" "64 word" "64 word" "64 word" "64 word" "64 word"

instantiation tally :: comm_monoid_add
begin

definition zero_tally :: tally where
  "zero_tally = Tally False 0 0 0 0 0 0"

fun plus_tally :: "tally \<Rightarrow> tally \<Rightarrow> tally" where
  "plus_tally (Tally p a b c d e f) (Tally p' a' b' c' d' e' f')
     = Tally (p \<or> p') (a + a') (b + b') (c + c') (d + d') (e + e') (f + f')"

instance
proof
  fix x y z :: tally
  show "x + y + z = x + (y + z)" by (cases x; cases y; cases z) (simp add: add.assoc)
  show "x + y = y + x" by (cases x; cases y) (auto simp: add.commute)
  show "0 + x = x" by (cases x) (simp add: zero_tally_def)
qed

end

fun present :: "tally \<Rightarrow> bool" where
  "present (Tally p _ _ _ _ _ _) = p"

lemma present_add [simp]: "present (x + y) \<longleftrightarrow> present x \<or> present y"
  by (cases x; cases y) simp

lemma present_zero [simp]: "\<not> present 0"
  by (simp add: zero_tally_def)

lemma present_sum_list: "present (sum_list xs) \<longleftrightarrow> (\<exists>x \<in> set xs. present x)"
  by (induction xs) auto

text \<open>The contract between a raw log and the rollups kept beside it: an entry adds \<open>part e\<close> to
  the rows, a rebuild from a horizon adds \<open>part_from\<close>, a prune drops the stale entries. The
  laws say that a rebuild re-adds exactly what the entry holds from the horizon on, and that
  a stale entry holds nothing there.\<close>

locale incremental_rollup =
  fixes part :: "'e \<Rightarrow> 'k \<Rightarrow> 'c :: comm_monoid_add"
    and part_from :: "int \<Rightarrow> 'e \<Rightarrow> 'k \<Rightarrow> 'c"
    and kstart :: "'k \<Rightarrow> int"
    and stale :: "int \<Rightarrow> 'e \<Rightarrow> bool"
    and aligned :: "int \<Rightarrow> bool"
    and valid :: "'e \<Rightarrow> bool"
  assumes part_from_new: "aligned h \<Longrightarrow> valid e \<Longrightarrow> h \<le> kstart k \<Longrightarrow> part_from h e k = part e k"
    and part_from_old: "aligned h \<Longrightarrow> valid e \<Longrightarrow> kstart k < h \<Longrightarrow> part_from h e k = 0"
    and stale_part: "aligned h \<Longrightarrow> valid e \<Longrightarrow> stale h e \<Longrightarrow> h \<le> kstart k \<Longrightarrow> part e k = 0"
begin

definition total :: "'e list \<Rightarrow> 'k \<Rightarrow> 'c" where
  "total log k = sum_list (map (\<lambda>e. part e k) log)"

text \<open>From the horizon on, the rows are the totals of the log.\<close>

definition exact :: "int \<Rightarrow> 'e list \<Rightarrow> ('k \<Rightarrow> 'c) \<Rightarrow> bool" where
  "exact h log roll \<longleftrightarrow> (\<forall>k. h \<le> kstart k \<longrightarrow> roll k = total log k)"

lemma exact_append:
  "exact h log roll \<Longrightarrow> (\<And>k. roll' k = roll k + part e k) \<Longrightarrow> exact h (log @ [e]) roll'"
  by (simp add: exact_def total_def)

lemma exact_replace:
  "exact h (xs @ e # ys) roll \<Longrightarrow> (\<And>k. part e k = 0) \<Longrightarrow> (\<And>k. roll' k = roll k + part e' k) \<Longrightarrow> exact h (xs @ e' # ys) roll'"
  by (simp add: exact_def total_def ac_simps)

lemma total_filter:
  assumes "aligned h" and "list_all valid log" and "h \<le> kstart k"
  shows "total (filter (\<lambda>e. \<not> stale h e) log) k = total log k"
  using assms(2) stale_part [OF assms(1) _ _ assms(3)] by (induction log) (auto simp: total_def)

lemma exact_prune:
  assumes "exact h log roll" and "aligned h'" and "list_all valid log"
  shows "exact (max h h') (filter (\<lambda>e. \<not> stale h' e) log) roll"
  using assms by (simp add: exact_def total_filter)

lemma rebuild_same:
  assumes "exact h log roll" and "aligned h" and "list_all valid log"
    and "\<And>k. roll' k = (if h \<le> kstart k then 0 else roll k) + sum_list (map (\<lambda>e. part_from h e k) log)"
  shows "roll' = roll"
proof
  fix k
  have "sum_list (map (\<lambda>e. part_from h e k) log) = (if h \<le> kstart k then total log k else 0)"
    using assms(2,3) by (induction log) (auto simp: total_def part_from_new part_from_old)
  then show "roll' k = roll k" using assms(1,4) by (simp add: exact_def)
qed

end

section \<open>Bucket starts\<close>

definition day_aligned :: "int \<Rightarrow> bool" where
  "day_aligned h \<longleftrightarrow> h = MinInt64 \<or> dayMs dvd h"

lemma BucketStart_pos: "0 \<le> x \<Longrightarrow> widthMs g \<noteq> 0 \<Longrightarrow> BucketStart g x = x - x mod widthMs g"
  by (cases g) (auto simp: BucketStart_def smod_int_alt_def hourMs_def dayMs_def sgn_if)

lemma width_cases: "g \<in> set rollupGranularities \<Longrightarrow> 0 < widthMs g \<and> widthMs g dvd dayMs"
  by (auto simp: rollupGranularities_def hourMs_def dayMs_def)

lemma BucketStart_le: "g \<in> set rollupGranularities \<Longrightarrow> 0 \<le> x \<Longrightarrow> BucketStart g x \<le> x \<and> 0 \<le> BucketStart g x"
  using width_cases [of g] zmod_le_nonneg_dividend [of x "widthMs g"] by (simp add: BucketStart_pos)

lemma BucketStart_dvd: "g \<in> set rollupGranularities \<Longrightarrow> widthMs g dvd BucketStart g x"
  using width_cases [of g] by (simp add: BucketStart_def minus_smod_eq_mult_sdiv)

lemma BucketStart_ge:
  assumes "g \<in> set rollupGranularities" and "day_aligned h" and "0 \<le> x" and "h \<le> x"
  shows "h \<le> BucketStart g x"
proof (cases "h \<le> 0")
  case True
  then show ?thesis using BucketStart_le [OF assms(1,3)] by simp
next
  case False
  let ?w = "widthMs g"
  have w: "0 < ?w" "?w dvd dayMs" using width_cases [OF assms(1)] by simp_all
  have "dayMs dvd h" using assms(2) False by (auto simp: day_aligned_def MinInt64_def)
  then have "?w dvd h" by (rule dvd_trans [OF w(2)])
  then obtain c where c: "h = ?w * c" by blast
  have "h div ?w \<le> x div ?w" using assms(4) w(1) by (rule zdiv_mono1)
  then have "c \<le> x div ?w" using w(1) by (simp add: c)
  then show ?thesis using w(1) by (simp add: BucketStart_pos assms(3) minus_mod_eq_mult_div c)
qed

lemma BucketStart_id: "g \<in> set rollupGranularities \<Longrightarrow> dayMs dvd h \<Longrightarrow> BucketStart g h = h"
proof -
  assume g: "g \<in> set rollupGranularities" and d: "dayMs dvd h"
  have "widthMs g dvd h" using dvd_trans [OF _ d] width_cases [OF g] by blast
  then show ?thesis by (simp add: BucketStart_def smod_int_alt_def)
qed

lemma day_in [simp]: "GranularityDay \<in> set rollupGranularities"
  by (simp add: rollupGranularities_def)

lemma BucketStart_day_aligned: "day_aligned (BucketStart GranularityDay x)"
  using BucketStart_dvd [OF day_in, of x] by (simp add: day_aligned_def)

lemma day_aligned_max: "day_aligned h \<Longrightarrow> day_aligned h' \<Longrightarrow> day_aligned (max h h')"
  by (simp add: max_def)

section \<open>Token rows\<close>

definition usage_tally :: "TokenUsageEvent \<Rightarrow> tally" where
  "usage_tally e = Tally True (ev_input e) (ev_output e) (ev_cache_read e) (ev_cache_write e) (ev_total e) (ev_cost e)"

definition bucket_tally :: "Bucket option \<Rightarrow> tally" where
  "bucket_tally b = (case b of None \<Rightarrow> 0
     | Some b \<Rightarrow> Tally True (b_input b) (b_output b) (b_cache_read b) (b_cache_write b) (b_total b) (b_cost b))"

definition token_row :: "(rollupKey, Bucket) gomap \<Rightarrow> rollupKey \<Rightarrow> tally" where
  "token_row m k = bucket_tally (gm_get m k)"

definition token_part :: "TokenUsageEvent \<Rightarrow> rollupKey \<Rightarrow> tally" where
  "token_part e k = (\<Sum>g\<leftarrow>rollupGranularities. if k = key_of e g then usage_tally e else 0)"

definition token_part_from :: "int \<Rightarrow> TokenUsageEvent \<Rightarrow> rollupKey \<Rightarrow> tally" where
  "token_part_from h e k = (if h \<le> ev_occurred e then token_part e k else 0)"

definition token_valid :: "TokenUsageEvent \<Rightarrow> bool" where
  "token_valid e \<longleftrightarrow> 0 < ev_occurred e"

lemma token_part_0: "(\<And>g. g \<in> set rollupGranularities \<Longrightarrow> k \<noteq> key_of e g) \<Longrightarrow> token_part e k = 0"
  by (simp add: token_part_def rollupGranularities_def)

interpretation tok: incremental_rollup token_part token_part_from rk_start "\<lambda>h e. ev_occurred e < h" day_aligned token_valid
proof
  fix h e k assume h: "day_aligned h" and v: "token_valid e"
  have le: "rk_start (key_of e g) \<le> ev_occurred e" if "g \<in> set rollupGranularities" for g
    using BucketStart_le [OF that, of "ev_occurred e"] v by (simp add: key_of_def token_valid_def)
  show "token_part_from h e k = token_part e k" if "h \<le> rk_start k"
  proof (cases "h \<le> ev_occurred e")
    case False
    then have "token_part e k = 0" using that le by (intro token_part_0) force
    then show ?thesis by (simp add: token_part_from_def)
  qed (simp add: token_part_from_def)
  show "token_part_from h e k = 0" if "rk_start k < h"
  proof (cases "h \<le> ev_occurred e")
    case True
    then have "h \<le> rk_start (key_of e g)" if "g \<in> set rollupGranularities" for g
      using BucketStart_ge [OF that h, of "ev_occurred e"] v by (simp add: key_of_def token_valid_def)
    then have "token_part e k = 0" using that by (intro token_part_0) force
    then show ?thesis by (simp add: token_part_from_def)
  qed (simp add: token_part_from_def)
  show "token_part e k = 0" if "ev_occurred e < h" "h \<le> rk_start k"
    using that le by (intro token_part_0) force
qed

lemma token_row_add:
  "token_row (gm_put k ((bplus (gm_getz zeroBucket m k) (usage e))\<lparr>b_start := x\<rparr>) m) k'
     = token_row m k' + (if k' = k then usage_tally e else 0)"
  by (simp add: token_row_def bucket_tally_def gm_getz_def bplus_def usage_def usage_tally_def zeroBucket_def zero_tally_def
      split: option.splits)

lemma rollUp_row: "token_row (mt_rollups (rollUp e t)) k = token_row (mt_rollups t) k + token_part e k"
  by (simp add: rollUp_def rollupGranularities_def token_part_def Let_def token_row_add ac_simps del: gm_getz_put)

lemma rollUp_frame [simp]: "mt_events (rollUp e t) = mt_events t" "mt_compute_events (rollUp e t) = mt_compute_events t"
  "mt_compute_rollups (rollUp e t) = mt_compute_rollups t"
  by (simp_all add: rollUp_def rollupGranularities_def Let_def)

lemma rollUp_wf: "gm_wf (mt_rollups t) \<Longrightarrow> gm_wf (mt_rollups (rollUp e t))"
  by (simp add: rollUp_def rollupGranularities_def Let_def)

section \<open>Compute rows\<close>

definition cbucket_tally :: "ComputeBucket option \<Rightarrow> tally" where
  "cbucket_tally b = (case b of None \<Rightarrow> 0 | Some b \<Rightarrow> Tally True (cb_active b) (cb_intervals b) 0 0 0 0)"

definition compute_row :: "(computeRollupKey, ComputeBucket) gomap \<Rightarrow> computeRollupKey \<Rightarrow> tally" where
  "compute_row m k = cbucket_tally (gm_get m k)"

text \<open>What an interval adds to the bucket that starts at \<open>start\<close>.\<close>

definition compute_inc :: "ComputeInterval \<Rightarrow> int \<Rightarrow> Granularity \<Rightarrow> int \<Rightarrow> tally" where
  "compute_inc i h g start =
     Tally True (word_of_int (max 0 (min (ci_end i) (start + widthMs g) - max (ci_start i) start)))
       (if h \<le> ci_start i \<and> BucketStart g (ci_start i) = start then 1 else 0) 0 0 0 0"

definition in_loop :: "ComputeInterval \<Rightarrow> Granularity \<Rightarrow> int \<Rightarrow> int \<Rightarrow> computeRollupKey \<Rightarrow> bool" where
  "in_loop i g first lst k \<longleftrightarrow> ck_granularity k = g \<and> ck_owner k = ci_owner i \<and> ck_agent k = ci_agent i
     \<and> first \<le> ck_start k \<and> ck_start k \<le> lst \<and> widthMs g dvd ck_start k - first"

definition loop_first :: "ComputeInterval \<Rightarrow> int \<Rightarrow> Granularity \<Rightarrow> int" where
  "loop_first i h g = max (BucketStart g (ci_start i)) (if h \<noteq> MinInt64 then BucketStart g h else MinInt64)"

definition loop_last :: "ComputeInterval \<Rightarrow> Granularity \<Rightarrow> int" where
  "loop_last i g = max (BucketStart g (ci_start i)) (BucketStart g (ci_end i - 1))"

definition clipped_part :: "int \<Rightarrow> ComputeInterval \<Rightarrow> computeRollupKey \<Rightarrow> tally" where
  "clipped_part h i k =
     (if ci_end i = 0 \<or> (h \<noteq> MinInt64 \<and> ci_end i < h) then 0
      else \<Sum>g\<leftarrow>rollupGranularities. if in_loop i g (loop_first i h g) (loop_last i g) k then compute_inc i h g (ck_start k) else 0)"

definition compute_part :: "ComputeInterval \<Rightarrow> computeRollupKey \<Rightarrow> tally" where
  "compute_part i k = clipped_part MinInt64 i k"

definition compute_part_from :: "int \<Rightarrow> ComputeInterval \<Rightarrow> computeRollupKey \<Rightarrow> tally" where
  "compute_part_from h i k =
     (if ci_end i \<noteq> 0 \<and> h \<le> BucketStart GranularityDay (ci_end i) then clipped_part h i k else 0)"

definition interval_valid :: "ComputeInterval \<Rightarrow> bool" where
  "interval_valid i \<longleftrightarrow> 0 < ci_start i \<and> (ci_end i = 0 \<or> ci_start i \<le> ci_end i)"

lemma validate_interval: "validateComputeInterval i = None \<Longrightarrow> interval_valid i"
  by (auto simp: validateComputeInterval_def interval_valid_def split: if_splits)

lemma int_dvd_step: "0 < w \<Longrightarrow> s \<le> k \<Longrightarrow> (w :: int) dvd k - s \<Longrightarrow> k \<noteq> s \<Longrightarrow> s + w \<le> k"
  using zdvd_imp_le [of w "k - s"] by simp

lemma compute_loop_row:
  assumes "0 < widthMs g"
  shows "compute_row (compute_loop i h g s l m) k =
    compute_row m k + (if in_loop i g s l k then compute_inc i h g (ck_start k) else 0)"
  using assms
proof (induction i h g s l m rule: compute_loop.induct)
  case (1 i h g s l m)
  let ?w = "widthMs g"
  let ?key = "\<lparr>ck_granularity = g, ck_start = s, ck_owner = ci_owner i, ck_agent = ci_agent i\<rparr>"
  show ?case
  proof (cases "s \<le> l \<and> 0 < ?w")
    case False
    then show ?thesis using 1 by (subst compute_loop.simps) (auto simp: in_loop_def)
  next
    case True
    define m' where "m' = gm_put ?key \<lparr>cb_start = s,
      cb_active = cb_active (gm_getz zeroComputeBucket m ?key)
        + word_of_int (max 0 (min (ci_end i) (s + ?w) - max (ci_start i) s)),
      cb_intervals = cb_intervals (gm_getz zeroComputeBucket m ?key)
        + (if h \<le> ci_start i \<and> BucketStart g (ci_start i) = s then 1 else 0)\<rparr> m"
    have step: "compute_loop i h g s l m = compute_loop i h g (s + ?w) l m'"
      using True by (subst compute_loop.simps) (simp add: m'_def Let_def)
    have row: "compute_row m' k = compute_row m k + (if k = ?key then compute_inc i h g s else 0)"
      by (simp add: m'_def compute_row_def cbucket_tally_def compute_inc_def gm_getz_def zeroComputeBucket_def zero_tally_def
          split: option.splits)
    have ih: "compute_row (compute_loop i h g (s + ?w) l m') k =
      compute_row m' k + (if in_loop i g (s + ?w) l k then compute_inc i h g (ck_start k) else 0)"
      using 1 True by (simp add: m'_def Let_def)
    have eq: "in_loop i g s l k \<longleftrightarrow> k = ?key \<or> in_loop i g (s + ?w) l k"
    proof
      assume a: "in_loop i g s l k"
      show "k = ?key \<or> in_loop i g (s + ?w) l k"
      proof (cases "ck_start k = s")
        case True
        then show ?thesis using a by (cases k) (simp add: in_loop_def)
      next
        case False
        have "s + ?w \<le> ck_start k" using a False True int_dvd_step by (simp add: in_loop_def)
        moreover have "?w dvd ck_start k - (s + ?w)" using a by (simp add: in_loop_def flip: diff_diff_eq)
        ultimately show ?thesis using a by (simp add: in_loop_def)
      qed
    next
      assume "k = ?key \<or> in_loop i g (s + ?w) l k"
      then show "in_loop i g s l k"
      proof
        assume a: "in_loop i g (s + ?w) l k"
        then have "?w dvd (ck_start k - (s + ?w)) + ?w" by (simp only: in_loop_def dvd_add_triv_right_iff)
        then show ?thesis using a True by (simp add: in_loop_def)
      qed (use True in \<open>simp add: in_loop_def\<close>)
    qed
    have "\<not> in_loop i g (s + ?w) l ?key" using True by (simp add: in_loop_def)
    then have "\<not> (k = ?key \<and> in_loop i g (s + ?w) l k)" by blast
    then show ?thesis unfolding step ih row eq by auto
  qed
qed

lemma dvd_diff_multiple: "(w :: int) dvd a \<Longrightarrow> w dvd k - a \<longleftrightarrow> w dvd k"
  by (metis diff_add_cancel dvd_add_left_iff)

lemma loop_last_le:
  assumes "g \<in> set rollupGranularities" and "interval_valid i" and "ci_end i \<noteq> 0"
  shows "loop_last i g \<le> ci_end i"
  using BucketStart_le [OF assms(1), of "ci_start i"] BucketStart_le [OF assms(1), of "ci_end i - 1"] assms(2,3)
  by (simp add: loop_last_def interval_valid_def)

lemma loop_first_nonneg: "g \<in> set rollupGranularities \<Longrightarrow> interval_valid i \<Longrightarrow> 0 \<le> loop_first i h g"
  using BucketStart_le [of g "ci_start i"] by (auto simp: loop_first_def interval_valid_def)

lemma clipped_part_0:
  "(\<And>g. g \<in> set rollupGranularities \<Longrightarrow> \<not> in_loop i g (loop_first i h g) (loop_last i g) k) \<Longrightarrow> clipped_part h i k = 0"
  by (simp add: clipped_part_def rollupGranularities_def)

lemma compute_part_after_end:
  assumes "interval_valid i" and "ci_end i < ck_start k"
  shows "compute_part i k = 0"
proof (cases "ci_end i = 0")
  case False
  then show ?thesis unfolding compute_part_def
    using loop_last_le [OF _ assms(1) False] assms(2) by (intro clipped_part_0) (force simp: in_loop_def)
qed (simp add: compute_part_def clipped_part_def)

lemma compute_part_negative: "interval_valid i \<Longrightarrow> ck_start k < 0 \<Longrightarrow> compute_part i k = 0"
  unfolding compute_part_def using loop_first_nonneg [of _ i MinInt64]
  by (intro clipped_part_0) (force simp: in_loop_def)

lemma end_before: "day_aligned h \<Longrightarrow> interval_valid i \<Longrightarrow> ci_end i \<noteq> 0 \<Longrightarrow> \<not> h \<le> BucketStart GranularityDay (ci_end i) \<Longrightarrow> ci_end i < h"
  using BucketStart_ge [OF day_in, of h "ci_end i"] by (force simp: interval_valid_def)

lemma clipped_part_new:
  assumes h: "day_aligned h" and v: "interval_valid i" and k: "h \<le> ck_start k" and e: "ci_end i \<noteq> 0" "h \<le> ci_end i"
  shows "clipped_part h i k = compute_part i k"
proof (cases "h = MinInt64")
  case False
  then have d: "dayMs dvd h" using h by (simp add: day_aligned_def)
  have "in_loop i g (loop_first i h g) (loop_last i g) k = in_loop i g (loop_first i MinInt64 g) (loop_last i g) k"
    and "compute_inc i h g (ck_start k) = compute_inc i MinInt64 g (ck_start k)" if g: "g \<in> set rollupGranularities" for g
  proof -
    let ?b = "BucketStart g (ci_start i)"
    have b: "0 \<le> ?b" "?b \<le> ci_start i" using BucketStart_le [OF g, of "ci_start i"] v by (simp_all add: interval_valid_def)
    have f: "loop_first i h g = max ?b h" using False BucketStart_id [OF g d] by (simp add: loop_first_def)
    have f0: "loop_first i MinInt64 g = ?b" using b by (simp add: loop_first_def MinInt64_def)
    have w: "widthMs g dvd ?b" "widthMs g dvd h" using BucketStart_dvd [OF g] BucketStart_dvd [OF g, of h] BucketStart_id [OF g d] by simp_all
    then have "widthMs g dvd ck_start k - max ?b h \<longleftrightarrow> widthMs g dvd ck_start k - ?b"
      by (simp add: dvd_diff_multiple max_def)
    then show "in_loop i g (loop_first i h g) (loop_last i g) k = in_loop i g (loop_first i MinInt64 g) (loop_last i g) k"
      using k by (auto simp: in_loop_def f f0)
    show "compute_inc i h g (ck_start k) = compute_inc i MinInt64 g (ck_start k)"
      using b k by (auto simp: compute_inc_def MinInt64_def)
  qed
  then show ?thesis using e by (simp add: compute_part_def clipped_part_def rollupGranularities_def)
qed (simp add: compute_part_def)

interpretation comp: incremental_rollup compute_part compute_part_from ck_start compute_prunable day_aligned interval_valid
proof
  fix h i k assume h: "day_aligned h" and v: "interval_valid i"
  show "compute_part_from h i k = compute_part i k" if k: "h \<le> ck_start k"
  proof (cases "ci_end i \<noteq> 0 \<and> h \<le> BucketStart GranularityDay (ci_end i)")
    case True
    then have "h \<le> ci_end i" using BucketStart_le [OF day_in, of "ci_end i"] v by (auto simp: interval_valid_def)
    then show ?thesis using clipped_part_new [OF h v k] True by (simp add: compute_part_from_def)
  next
    case False
    then have "compute_part i k = 0"
      using compute_part_after_end [OF v, of k] end_before [OF h v] k
      by (cases "ci_end i = 0") (auto simp: compute_part_def clipped_part_def)
    then show ?thesis using False by (auto simp: compute_part_from_def)
  qed
  show "compute_part_from h i k = 0" if k: "ck_start k < h"
  proof -
    have "ck_start k < loop_first i h g" if g: "g \<in> set rollupGranularities" for g
    proof (cases "h = MinInt64")
      case True
      then show ?thesis using loop_first_nonneg [OF g v, of h] k by (simp add: MinInt64_def)
    next
      case False
      then show ?thesis using h k BucketStart_id [OF g] by (simp add: loop_first_def day_aligned_def)
    qed
    then have "clipped_part h i k = 0" by (intro clipped_part_0) (force simp: in_loop_def)
    then show ?thesis by (simp add: compute_part_from_def)
  qed
  show "compute_part i k = 0" if "compute_prunable h i" "h \<le> ck_start k"
    using that end_before [OF h v] compute_part_after_end [OF v, of k] by (force simp: compute_prunable_def)
qed

lemma rollUpCompute_row: "compute_row (rollUpCompute i h m) k = compute_row m k + clipped_part h i k"
proof -
  have w: "0 < widthMs GranularityHour" "0 < widthMs GranularityDay" by (simp_all add: hourMs_def dayMs_def)
  show ?thesis
    by (simp add: rollUpCompute_def clipped_part_def rollupGranularities_def Let_def compute_loop_row [OF w(1)]
        compute_loop_row [OF w(2)] loop_first_def loop_last_def ac_simps)
qed

section \<open>The store's invariant\<close>

definition tenant_ok :: "int \<Rightarrow> int \<Rightarrow> memoryTenant \<Rightarrow> bool" where
  "tenant_ok hz chz t \<longleftrightarrow>
     gm_wf (mt_events t) \<and> gm_wf (mt_rollups t) \<and> gm_wf (mt_compute_events t) \<and> gm_wf (mt_compute_rollups t) \<and>
     list_all token_valid (map snd (mt_events t)) \<and> list_all interval_valid (map snd (mt_compute_events t)) \<and>
     tok.exact hz (map snd (mt_events t)) (token_row (mt_rollups t)) \<and>
     comp.exact chz (map snd (mt_compute_events t)) (compute_row (mt_compute_rollups t))"

definition mem_ok :: "Memory \<Rightarrow> bool" where
  "mem_ok m \<longleftrightarrow> day_aligned (mem_horizon m) \<and> day_aligned (mem_compute_horizon m) \<and> gm_wf (mem_tenants m) \<and>
     (\<forall>tid t. gm_get (mem_tenants m) tid = Some t \<longrightarrow> tenant_ok (mem_horizon m) (mem_compute_horizon m) t)"

lemma tenant_ok_empty: "tenant_ok hz chz emptyTenant"
  by (simp add: tenant_ok_def emptyTenant_def tok.exact_def comp.exact_def tok.total_def comp.total_def token_row_def
      compute_row_def bucket_tally_def cbucket_tally_def)

lemma mem_ok_tenant: "mem_ok m \<Longrightarrow> tenant_ok (mem_horizon m) (mem_compute_horizon m) (tenant_of tid m)"
  by (auto simp: mem_ok_def tenant_of_def gm_getz_def tenant_ok_empty split: option.splits)

lemma mem_ok_update:
  "mem_ok m \<Longrightarrow> tenant_ok (mem_horizon m) (mem_compute_horizon m) (f (tenant_of tid m)) \<Longrightarrow> mem_ok (update_tenant tid f m)"
  by (auto simp: mem_ok_def update_tenant_def)

lemma update_new: "gm_get m k = None \<Longrightarrow> gm_put k v m = m @ [(k, v)]"
  by (induction m) auto

lemma update_old: "gm_get m k = Some w \<Longrightarrow> \<exists>xs ys. m = xs @ (k, w) # ys \<and> gm_put k v m = xs @ (k, v) # ys"
proof (induction m)
  case (Cons p m)
  show ?case
  proof (cases "fst p = k")
    case True
    then show ?thesis using Cons.prems by (intro exI [of _ "[]"] exI [of _ m]) (cases p, simp)
  next
    case False
    then obtain xs ys where "m = xs @ (k, w) # ys" "gm_put k v m = xs @ (k, v) # ys"
      using Cons by (cases p) auto
    then show ?thesis using False by (intro exI [of _ "p # xs"] exI [of _ ys]) (cases p, simp)
  qed
qed simp

lemma tenant_ok_append:
  assumes "tenant_ok hz chz t" and "token_valid e"
  shows "tenant_ok hz chz (append_event e t)"
proof (cases "gm_get (mt_events t) (ev_id e)")
  case None
  let ?t = "append_event e t"
  have ev: "mt_events ?t = mt_events t @ [(ev_id e, e)]" using None by (simp add: append_event_def update_new)
  have row: "token_row (mt_rollups ?t) k = token_row (mt_rollups t) k + token_part e k" for k
    using None by (simp add: append_event_def rollUp_row)
  have "tok.exact hz (map snd (mt_events t) @ [e]) (token_row (mt_rollups ?t))"
    by (rule tok.exact_append [OF _ row]) (use assms(1) in \<open>simp add: tenant_ok_def\<close>)
  moreover have "gm_wf (mt_events ?t)" using assms(1) None by (simp add: append_event_def tenant_ok_def)
  moreover have "gm_wf (mt_rollups ?t)" using assms(1) None by (simp add: append_event_def tenant_ok_def rollUp_wf)
  moreover have "mt_compute_events ?t = mt_compute_events t" "mt_compute_rollups ?t = mt_compute_rollups t"
    using None by (simp_all add: append_event_def)
  ultimately show ?thesis using assms by (simp add: tenant_ok_def ev)
qed (use assms in \<open>simp add: append_event_def\<close>)

lemma validate_from_ok: "validate_from i es = None \<Longrightarrow> e \<in> set es \<Longrightarrow> token_valid e"
  by (induction es arbitrary: i) (auto simp: token_valid_def problem_def split: if_splits)

lemma tenant_ok_appends: "tenant_ok hz chz t \<Longrightarrow> list_all token_valid es \<Longrightarrow> tenant_ok hz chz (fold append_event es t)"
  by (induction es arbitrary: t) (simp_all add: tenant_ok_append)

lemma mem_ok_AppendTokenUsage: "mem_ok m \<Longrightarrow> mem_ok (fst (AppendTokenUsage tid es m))"
  using validate_from_ok [of 0 es]
  by (auto simp: AppendTokenUsage_def ValidateEvents_def list_all_iff split: option.splits
      intro!: mem_ok_update tenant_ok_appends mem_ok_tenant)

lemma rebuild_fold:
  "token_row (mt_rollups (fold (\<lambda>(_, e) t. if h \<le> ev_occurred e then rollUp e t else t) evs t)) k
     = token_row (mt_rollups t) k + (\<Sum>e\<leftarrow>map snd evs. token_part_from h e k)"
  "mt_events (fold (\<lambda>(_, e) t. if h \<le> ev_occurred e then rollUp e t else t) evs t) = mt_events t"
  "mt_compute_events (fold (\<lambda>(_, e) t. if h \<le> ev_occurred e then rollUp e t else t) evs t) = mt_compute_events t"
  "mt_compute_rollups (fold (\<lambda>(_, e) t. if h \<le> ev_occurred e then rollUp e t else t) evs t) = mt_compute_rollups t"
  "gm_wf (mt_rollups t) \<Longrightarrow> gm_wf (mt_rollups (fold (\<lambda>(_, e) t. if h \<le> ev_occurred e then rollUp e t else t) evs t))"
  by (induction evs arbitrary: t) (auto simp: rollUp_row token_part_from_def ac_simps rollUp_wf)

lemma token_row_filter:
  "gm_wf m \<Longrightarrow> token_row (filter (\<lambda>(k, _). \<not> P k) m) k = (if P k then 0 else token_row m k)"
  by (simp add: token_row_def bucket_tally_def gm_get_filter split: option.splits)

lemma compute_row_filter:
  "gm_wf m \<Longrightarrow> compute_row (filter (\<lambda>(k, _). \<not> P k) m) k = (if P k then 0 else compute_row m k)"
  by (simp add: compute_row_def cbucket_tally_def gm_get_filter split: option.splits)

lemma rebuild_tokens_rows:
  assumes t: "tenant_ok hz chz t" and h: "day_aligned hz"
  shows "token_row (mt_rollups (rebuild_tokens hz t)) = token_row (mt_rollups t)"
proof (rule tok.rebuild_same [where h = hz and log = "map snd (mt_events t)"])
  show "tok.exact hz (map snd (mt_events t)) (token_row (mt_rollups t))" "list_all token_valid (map snd (mt_events t))"
    using t by (simp_all add: tenant_ok_def)
  show "token_row (mt_rollups (rebuild_tokens hz t)) k =
      (if hz \<le> rk_start k then 0 else token_row (mt_rollups t) k) + (\<Sum>e\<leftarrow>map snd (mt_events t). token_part_from hz e k)" for k
    using t token_row_filter [of "mt_rollups t" "\<lambda>k. hz \<le> rk_start k"]
    by (simp add: rebuild_tokens_def rebuild_fold tenant_ok_def)
qed (rule h)

lemma tenant_ok_rebuild_tokens: "tenant_ok hz chz t \<Longrightarrow> day_aligned hz \<Longrightarrow> tenant_ok hz chz (rebuild_tokens hz t)"
  using rebuild_tokens_rows [of hz chz t] by (simp add: tenant_ok_def) (simp add: rebuild_tokens_def rebuild_fold)

lemma compute_loop_wf: "gm_wf m \<Longrightarrow> gm_wf (compute_loop i h g s l m)"
proof (induction i h g s l m rule: compute_loop.induct)
  case (1 i h g s l m)
  then show ?case by (subst compute_loop.simps) (simp add: Let_def)
qed

lemma rollUpCompute_wf: "gm_wf m \<Longrightarrow> gm_wf (rollUpCompute i h m)"
  by (simp add: rollUpCompute_def rollupGranularities_def Let_def compute_loop_wf)

lemma rebuild_compute_fold:
  "compute_row (fold (\<lambda>(_, i) r. if ci_end i \<noteq> 0 \<and> h \<le> BucketStart GranularityDay (ci_end i) then rollUpCompute i h r else r) evs m) k
     = compute_row m k + (\<Sum>i\<leftarrow>map snd evs. compute_part_from h i k)"
  "gm_wf m \<Longrightarrow> gm_wf (fold (\<lambda>(_, i) r. if ci_end i \<noteq> 0 \<and> h \<le> BucketStart GranularityDay (ci_end i) then rollUpCompute i h r else r) evs m)"
  by (induction evs arbitrary: m) (auto simp: rollUpCompute_row compute_part_from_def ac_simps rollUpCompute_wf)

lemma sum_list_map_zero: "(\<And>x. x \<in> set xs \<Longrightarrow> f x = 0) \<Longrightarrow> (\<Sum>x\<leftarrow>xs. f x) = (0 :: 'a :: comm_monoid_add)"
  by (induction xs) auto

lemma horizon_filter:
  assumes t: "tenant_ok hz chz t" and h: "day_aligned chz"
  shows "(if BucketStart GranularityDay chz \<le> ck_start k then 0 else compute_row (mt_compute_rollups t) k)
    = (if chz \<le> ck_start k then 0 else compute_row (mt_compute_rollups t) k)"
proof (cases "chz = MinInt64")
  case True
  have b: "MinInt64 \<le> BucketStart GranularityDay MinInt64" "BucketStart GranularityDay MinInt64 \<le> 0"
    by (simp_all add: BucketStart_def MinInt64_def dayMs_def hourMs_def smod_int_alt_def)
  have "compute_row (mt_compute_rollups t) k = 0" if n: "MinInt64 \<le> ck_start k" "ck_start k < 0"
  proof -
    have "compute_row (mt_compute_rollups t) k = comp.total (map snd (mt_compute_events t)) k"
      using t n True by (simp add: tenant_ok_def comp.exact_def)
    also have "\<dots> = 0" using t n(2) unfolding comp.total_def
      by (intro sum_list_map_zero) (auto simp: tenant_ok_def list_all_iff compute_part_negative)
    finally show ?thesis .
  qed
  then show ?thesis using True b by auto
next
  case False
  then show ?thesis using h BucketStart_id [OF day_in, of chz] by (simp add: day_aligned_def)
qed

lemma rebuild_compute_rows:
  assumes t: "tenant_ok hz chz t" and h: "day_aligned chz"
  shows "compute_row (mt_compute_rollups (rebuild_compute chz t)) = compute_row (mt_compute_rollups t)"
proof (rule comp.rebuild_same [where h = chz and log = "map snd (mt_compute_events t)"])
  show "comp.exact chz (map snd (mt_compute_events t)) (compute_row (mt_compute_rollups t))"
    "list_all interval_valid (map snd (mt_compute_events t))"
    using t by (simp_all add: tenant_ok_def)
  show "compute_row (mt_compute_rollups (rebuild_compute chz t)) k =
      (if chz \<le> ck_start k then 0 else compute_row (mt_compute_rollups t) k)
        + (\<Sum>i\<leftarrow>map snd (mt_compute_events t). compute_part_from chz i k)" for k
    using t compute_row_filter [of "mt_compute_rollups t" "\<lambda>k. BucketStart GranularityDay chz \<le> ck_start k"]
      horizon_filter [OF t h]
    by (simp add: rebuild_compute_def rebuild_compute_fold tenant_ok_def)
qed (rule h)

lemma tenant_ok_rebuild_compute: "tenant_ok hz chz t \<Longrightarrow> day_aligned chz \<Longrightarrow> tenant_ok hz chz (rebuild_compute chz t)"
  using rebuild_compute_rows [of hz chz t] by (simp add: tenant_ok_def) (simp add: rebuild_compute_def rebuild_compute_fold)

lemma open_part: "ci_end i = 0 \<Longrightarrow> compute_part i k = 0"
  by (simp add: compute_part_def clipped_part_def)

definition roll_closed :: "ComputeInterval \<Rightarrow> memoryTenant \<Rightarrow> memoryTenant" where
  "roll_closed i t = (if ci_end i \<noteq> 0 then t\<lparr>mt_compute_rollups := rollUpCompute i MinInt64 (mt_compute_rollups t)\<rparr> else t)"

lemma roll_closed_facts:
  "compute_row (mt_compute_rollups (roll_closed i t)) k = compute_row (mt_compute_rollups t) k + compute_part i k"
  "mt_events (roll_closed i t) = mt_events t" "mt_rollups (roll_closed i t) = mt_rollups t"
  "mt_compute_events (roll_closed i t) = mt_compute_events t"
  "gm_wf (mt_compute_rollups t) \<Longrightarrow> gm_wf (mt_compute_rollups (roll_closed i t))"
  by (simp_all add: roll_closed_def rollUpCompute_row compute_part_def rollUpCompute_wf)
     (simp add: clipped_part_def)

lemma tenant_ok_interval:
  assumes t: "tenant_ok hz chz t" and v: "interval_valid i"
    and old: "gm_get (mt_compute_events t) kid = None \<or> (\<exists>ex. gm_get (mt_compute_events t) kid = Some ex \<and> ci_end ex = 0)"
  shows "tenant_ok hz chz (roll_closed i (t\<lparr>mt_compute_events := gm_put kid i (mt_compute_events t)\<rparr>))"
proof -
  let ?l = "mt_compute_events t"
  define l' where "l' = gm_put kid i ?l"
  let ?t = "roll_closed i (t\<lparr>mt_compute_events := l'\<rparr>)"
  have row: "compute_row (mt_compute_rollups ?t) k = compute_row (mt_compute_rollups t) k + compute_part i k" for k
    by (simp add: roll_closed_facts)
  have ex: "comp.exact chz (map snd ?l) (compute_row (mt_compute_rollups t))"
    and va: "list_all interval_valid (map snd ?l)" and wf: "gm_wf l'" using t by (simp_all add: tenant_ok_def l'_def)
  have "comp.exact chz (map snd l') (compute_row (mt_compute_rollups ?t)) \<and> list_all interval_valid (map snd l')"
    using old
  proof (elim disjE exE conjE)
    assume "gm_get ?l kid = None"
    then have "l' = ?l @ [(kid, i)]" by (simp add: l'_def update_new)
    then have "map snd l' = map snd ?l @ [i]" by simp
    then show ?thesis using comp.exact_append [OF ex row] va v by simp
  next
    fix x assume x: "gm_get ?l kid = Some x" "ci_end x = 0"
    obtain xs ys where s: "?l = xs @ (kid, x) # ys" "l' = xs @ (kid, i) # ys"
      using update_old [OF x(1)] unfolding l'_def by blast
    have m: "map snd l' = map snd xs @ i # map snd ys" by (simp add: s(2))
    have "comp.exact chz (map snd xs @ x # map snd ys) (compute_row (mt_compute_rollups t))" using ex s(1) by simp
    from comp.exact_replace [OF this open_part [OF x(2)] row]
    show ?thesis using va v s(1) by (simp add: m)
  qed
  then show ?thesis using t wf by (simp add: tenant_ok_def roll_closed_facts l'_def)
qed

lemma mem_ok_AppendComputeInterval:
  assumes m: "mem_ok m"
  shows "mem_ok (fst (AppendComputeInterval tid i m))"
proof (cases "validateComputeInterval i")
  case None
  let ?t = "tenant_of tid m"
  have t: "tenant_ok (mem_horizon m) (mem_compute_horizon m) ?t" using m by (rule mem_ok_tenant)
  have same: "mem_ok (update_tenant tid (\<lambda>t. t) m)" using m t by (intro mem_ok_update)
  show ?thesis
  proof (cases "gm_get (mt_compute_events ?t) (ci_id i)")
    case n: None
    have "fst (AppendComputeInterval tid i m)
      = update_tenant tid (\<lambda>t. roll_closed i (t\<lparr>mt_compute_events := gm_put (ci_id i) i (mt_compute_events t)\<rparr>)) m"
      using None n by (simp add: AppendComputeInterval_def Let_def roll_closed_def)
    then show ?thesis using tenant_ok_interval [OF t validate_interval [OF None]] n m by (simp add: mem_ok_update)
  next
    case x: (Some ex)
    let ?e = "ex\<lparr>ci_end := ci_end i\<rparr>"
    show ?thesis
    proof (cases "ci_end ex \<noteq> 0 \<or> ci_end i = 0 \<or> validateComputeInterval ?e \<noteq> None")
      case True
      then have "fst (AppendComputeInterval tid i m) = update_tenant tid (\<lambda>t. t) m"
        using None x by (auto simp: AppendComputeInterval_def Let_def)
      then show ?thesis using same by simp
    next
      case False
      then have v: "interval_valid ?e" using validate_interval by simp
      have eq: "fst (AppendComputeInterval tid i m)
        = update_tenant tid (\<lambda>t. roll_closed ?e (t\<lparr>mt_compute_events := gm_put (ci_id i) ?e (mt_compute_events t)\<rparr>)) m"
        using None x False by (simp add: AppendComputeInterval_def Let_def roll_closed_def)
      show ?thesis using tenant_ok_interval [OF t v, of "ci_id i"] x False m by (simp add: eq mem_ok_update)
    qed
  qed
qed (use m in \<open>simp add: AppendComputeInterval_def\<close>)

lemma map_tenants:
  "gm_wf (map (\<lambda>(i, t). (i, f t)) ts) = gm_wf ts"
  "gm_get (map (\<lambda>(i, t). (i, f t)) ts) k = map_option f (gm_get ts k)"
proof -
  have "map fst (map (\<lambda>(i, t). (i, f t)) ts) = map fst ts" by (induction ts) auto
  then show "gm_wf (map (\<lambda>(i, t). (i, f t)) ts) = gm_wf ts" by (simp only: gm_wf_def)
  show "gm_get (map (\<lambda>(i, t). (i, f t)) ts) k = map_option f (gm_get ts k)" by (simp add: map_of_map)
qed

lemma snd_filter: "map snd (filter (\<lambda>(_, e). P e) xs) = filter P (map snd xs)"
  by (induction xs) auto

lemma list_all_filter: "list_all P xs \<Longrightarrow> list_all P (filter Q xs)"
  by (simp add: list_all_iff)

lemma mem_ok_PruneToken: "mem_ok m \<Longrightarrow> mem_ok (fst (PruneTokenUsageBefore t m))"
proof -
  assume m: "mem_ok m"
  let ?c = "BucketStart GranularityDay t"
  let ?f = "\<lambda>t. t\<lparr>mt_events := filter (\<lambda>(_, e). \<not> ev_occurred e < ?c) (mt_events t)\<rparr>"
  have "tenant_ok (max (mem_horizon m) ?c) (mem_compute_horizon m) (?f x)"
    if "tenant_ok (mem_horizon m) (mem_compute_horizon m) x" for x
    using that tok.exact_prune [OF _ BucketStart_day_aligned, of "mem_horizon m" "map snd (mt_events x)"]
    by (simp add: tenant_ok_def snd_filter list_all_filter)
  then show ?thesis using m
    by (auto simp: mem_ok_def PruneTokenUsageBefore_def Let_def map_tenants day_aligned_max BucketStart_day_aligned)
qed

lemma mem_ok_PruneCompute: "mem_ok m \<Longrightarrow> mem_ok (fst (PruneComputeUsageBefore t m))"
proof -
  assume m: "mem_ok m"
  let ?c = "BucketStart GranularityDay t"
  let ?f = "\<lambda>t. t\<lparr>mt_compute_events := filter (\<lambda>(_, c). \<not> compute_prunable ?c c) (mt_compute_events t)\<rparr>"
  have "tenant_ok (mem_horizon m) (max (mem_compute_horizon m) ?c) (?f x)"
    if "tenant_ok (mem_horizon m) (mem_compute_horizon m) x" for x
    using that comp.exact_prune [OF _ BucketStart_day_aligned, of "mem_compute_horizon m" "map snd (mt_compute_events x)"]
    by (simp add: tenant_ok_def snd_filter list_all_filter)
  then show ?thesis using m
    by (auto simp: mem_ok_def PruneComputeUsageBefore_def Let_def map_tenants day_aligned_max BucketStart_day_aligned)
qed

text \<open>The operations of the store as steps, and the states they reach.\<close>

datatype usage_op =
    AppendTokens TenantID "TokenUsageEvent list"
  | AppendInterval TenantID ComputeInterval
  | RebuildTokens TenantID
  | RebuildCompute TenantID
  | PruneTokens int
  | PruneCompute int

fun usage_exec :: "usage_op \<Rightarrow> Memory \<Rightarrow> Memory" where
  "usage_exec (AppendTokens tid es) m = fst (AppendTokenUsage tid es m)"
| "usage_exec (AppendInterval tid i) m = fst (AppendComputeInterval tid i m)"
| "usage_exec (RebuildTokens tid) m = RebuildTokenUsageRollups tid m"
| "usage_exec (RebuildCompute tid) m = RebuildComputeUsageRollups tid m"
| "usage_exec (PruneTokens t) m = fst (PruneTokenUsageBefore t m)"
| "usage_exec (PruneCompute t) m = fst (PruneComputeUsageBefore t m)"

inductive usage_reachable :: "Memory \<Rightarrow> bool" where
  init: "usage_reachable NewMemory"
| step: "usage_reachable m \<Longrightarrow> usage_reachable (usage_exec op m)"

lemma mem_ok_rebuild:
  assumes m: "mem_ok m"
  shows "mem_ok (RebuildTokenUsageRollups tid m)" and "mem_ok (RebuildComputeUsageRollups tid m)"
proof -
  have h: "day_aligned (mem_horizon m)" "day_aligned (mem_compute_horizon m)" using m by (simp_all add: mem_ok_def)
  show "mem_ok (RebuildTokenUsageRollups tid m)" unfolding RebuildTokenUsageRollups_def
    by (intro mem_ok_update m tenant_ok_rebuild_tokens mem_ok_tenant h)
  show "mem_ok (RebuildComputeUsageRollups tid m)" unfolding RebuildComputeUsageRollups_def
    by (intro mem_ok_update m tenant_ok_rebuild_compute mem_ok_tenant h)
qed

lemma mem_ok_exec: "mem_ok m \<Longrightarrow> mem_ok (usage_exec op m)"
  by (cases op) (simp_all add: mem_ok_AppendTokenUsage mem_ok_AppendComputeInterval mem_ok_PruneToken mem_ok_PruneCompute
      mem_ok_rebuild)

lemma mem_ok_reachable: "usage_reachable m \<Longrightarrow> mem_ok m"
  by (induction rule: usage_reachable.induct) (simp_all add: mem_ok_exec, simp add: mem_ok_def NewMemory_def day_aligned_def)

section \<open>The series read\<close>

text \<open>An event belongs to the bucket that starts at \<open>s\<close> of the series a query asks for.\<close>

definition event_in :: "SeriesQuery \<Rightarrow> int \<Rightarrow> TokenUsageEvent \<Rightarrow> bool" where
  "event_in q s e \<longleftrightarrow> BucketStart (q_granularity q) (ev_occurred e) = s \<and> q_start q \<le> s \<and> s < q_end q
     \<and> (q_agents q = [] \<or> ev_agent e \<in> set (q_agents q)) \<and> (q_provider q = [] \<or> ev_provider e = q_provider q)"

lemma event_in_key: "series_matches q (key_of e (q_granularity q)) \<and> rk_start (key_of e (q_granularity q)) = s \<longleftrightarrow> event_in q s e"
  by (auto simp: event_in_def series_matches_def key_of_def)

lemma series_sums_at:
  "bucket_tally (gm_get (series_sums q rolls) s)
     = (\<Sum>(k, b)\<leftarrow>rolls. if series_matches q k \<and> rk_start k = s then bucket_tally (Some b) else 0)"
  and series_sums_wf: "gm_wf (series_sums q rolls)"
proof -
  let ?f = "\<lambda>(k, b) sums. if series_matches q k
      then gm_put (rk_start k) (bplus (gm_getz zeroBucket sums (rk_start k)) b) sums else sums"
  have step: "bucket_tally (gm_get (gm_put x (bplus (gm_getz zeroBucket sums x) b) sums) s)
      = bucket_tally (gm_get sums s) + (if s = x then bucket_tally (Some b) else 0)" for x b and sums :: "(int, Bucket) gomap"
    by (simp add: bucket_tally_def gm_getz_def bplus_def zeroBucket_def zero_tally_def split: option.splits)
  have "bucket_tally (gm_get (fold ?f rolls sums) s) = bucket_tally (gm_get sums s)
      + (\<Sum>(k, b)\<leftarrow>rolls. if series_matches q k \<and> rk_start k = s then bucket_tally (Some b) else 0)" for sums
  proof (induction rolls arbitrary: sums)
    case (Cons kb rolls)
    then show ?case by (cases kb) (auto simp: step ac_simps simp del: gm_get_put)
  qed simp
  from this [of "[]"] show "bucket_tally (gm_get (series_sums q rolls) s)
     = (\<Sum>(k, b)\<leftarrow>rolls. if series_matches q k \<and> rk_start k = s then bucket_tally (Some b) else 0)"
    by (simp add: series_sums_def bucket_tally_def)
  have "gm_wf sums \<Longrightarrow> gm_wf (fold ?f rolls sums)" for sums
  proof (induction rolls arbitrary: sums)
    case (Cons kb rolls)
    have "gm_wf (?f kb sums)" using Cons.prems by (cases kb) simp
    then show ?case using Cons.IH by simp
  qed simp
  then show "gm_wf (series_sums q rolls)" by (simp add: series_sums_def)
qed

lemma sum_list_swap: "(\<Sum>x\<leftarrow>xs. \<Sum>y\<leftarrow>ys. f x y) = (\<Sum>y\<leftarrow>ys. \<Sum>x\<leftarrow>xs. (f x y :: 'a :: comm_monoid_add))"
  by (induction xs) (simp_all add: sum_list_addf)

lemma sum_list_single: "distinct ks \<Longrightarrow> (\<Sum>k\<leftarrow>ks. if k = k0 then v else 0) = (if k0 \<in> set ks then v else (0 :: 'a :: comm_monoid_add))"
  by (induction ks) auto

lemma sum_list_keys: "(\<Sum>(k, b)\<leftarrow>r. f k) = (\<Sum>k\<leftarrow>map fst r. (f k :: 'a :: comm_monoid_add))"
  by (induction r) auto

lemma present_filtered: "present (\<Sum>e\<leftarrow>log. if P e then usage_tally e else 0) \<longleftrightarrow> (\<exists>e \<in> set log. P e)"
  by (induction log) (auto simp: present_add usage_tally_def)

lemma token_part_at: "q_granularity q \<in> set rollupGranularities \<Longrightarrow> series_matches q k \<Longrightarrow>
    token_part e k = (if k = key_of e (q_granularity q) then usage_tally e else 0)"
proof -
  assume g: "q_granularity q \<in> set rollupGranularities" and m: "series_matches q k"
  have ne: "k \<noteq> key_of e g'" if "g' \<noteq> q_granularity q" for g'
  proof
    assume "k = key_of e g'"
    then have "rk_granularity k = g'" by (simp add: key_of_def)
    then show False using m that by (simp add: series_matches_def)
  qed
  from g consider "q_granularity q = GranularityHour" | "q_granularity q = GranularityDay"
    by (auto simp: rollupGranularities_def)
  then show ?thesis using ne [of GranularityHour] ne [of GranularityDay]
    by cases (simp_all add: token_part_def rollupGranularities_def)
qed

lemma series_sums_log:
  assumes t: "tenant_ok hz chz t" and g: "q_granularity q \<in> set rollupGranularities" and q: "hz \<le> q_start q"
  shows "bucket_tally (gm_get (series_sums q (mt_rollups t)) s)
    = (\<Sum>e\<leftarrow>map snd (mt_events t). if event_in q s e then usage_tally e else 0)"
proof -
  let ?r = "mt_rollups t" and ?log = "map snd (mt_events t)" and ?g = "q_granularity q"
  have wf: "gm_wf ?r" "distinct (map fst ?r)" and ex: "tok.exact hz ?log (token_row ?r)"
    using t by (simp_all add: tenant_ok_def gm_wf_def)
  have row: "token_row ?r k = tok.total ?log k" if "series_matches q k" for k
    using ex q that by (auto simp: tok.exact_def series_matches_def)
  let ?c = "\<lambda>k. series_matches q k \<and> rk_start k = s"
  have "bucket_tally (gm_get (series_sums q ?r) s) = (\<Sum>(k, b)\<leftarrow>?r. if ?c k then bucket_tally (Some b) else 0)"
    by (rule series_sums_at)
  also have "\<dots> = (\<Sum>(k, b)\<leftarrow>?r. \<Sum>e\<leftarrow>?log. if ?c k then token_part e k else 0)"
  proof (intro arg_cong [where f = sum_list] map_cong refl, clarify)
    fix k b assume "(k, b) \<in> set ?r"
    then have "bucket_tally (Some b) = token_row ?r k" using wf(1) by (simp add: gm_entry_iff token_row_def)
    then show "(if ?c k then bucket_tally (Some b) else 0) = (\<Sum>e\<leftarrow>?log. if ?c k then token_part e k else 0)"
    proof (cases "?c k")
      case True
      then show ?thesis using row [of k] \<open>bucket_tally (Some b) = token_row ?r k\<close> by (simp add: tok.total_def)
    next
      case False
      then have z: "(\<Sum>e\<leftarrow>?log. if ?c k then token_part e k else 0) = 0" by (intro sum_list_map_zero) auto
      show ?thesis unfolding z using False by auto
    qed
  qed
  also have "\<dots> = (\<Sum>k\<leftarrow>map fst ?r. \<Sum>e\<leftarrow>?log. if ?c k then token_part e k else 0)"
    by (rule sum_list_keys)
  also have "\<dots> = (\<Sum>e\<leftarrow>?log. \<Sum>k\<leftarrow>map fst ?r. if ?c k then token_part e k else 0)"
    by (rule sum_list_swap)
  also have "\<dots> = (\<Sum>e\<leftarrow>?log. if event_in q s e then usage_tally e else 0)"
  proof (intro arg_cong [where f = sum_list] map_cong refl)
    fix e assume e: "e \<in> set ?log"
    let ?k = "key_of e ?g"
    have "(\<Sum>k\<leftarrow>map fst ?r. if ?c k then token_part e k else 0) = (\<Sum>k\<leftarrow>map fst ?r. if k = ?k then (if ?c ?k then usage_tally e else 0) else 0)"
      by (intro arg_cong [where f = sum_list] map_cong refl) (auto simp: token_part_at [OF g])
    also have "\<dots> = (if ?k \<in> set (map fst ?r) then (if ?c ?k then usage_tally e else 0) else 0)"
      by (rule sum_list_single [OF wf(2)])
    also have "\<dots> = (if event_in q s e then usage_tally e else 0)"
    proof -
      have "?k \<in> set (map fst ?r)" if c: "series_matches q ?k"
      proof -
        have "present (token_part e ?k)" by (simp add: token_part_at [OF g c] usage_tally_def)
        then have "present (token_row ?r ?k)"
          unfolding row [OF c] tok.total_def present_sum_list using e by force
        then show ?thesis by (auto simp: token_row_def bucket_tally_def gm_keys_iff split: option.splits)
      qed
      then show ?thesis using event_in_key [of q e s] by auto
    qed
    finally show "(\<Sum>k\<leftarrow>map fst ?r. if ?c k then token_part e k else 0) = (if event_in q s e then usage_tally e else 0)" .
  qed
  finally show ?thesis .
qed

section \<open>Properties\<close>

text \<open>Rebuilding is harmless. In every state the store can reach, recomputing a tenant's
  rollups from its raw log gives exactly the rows it already had, token and compute, the
  ones frozen by earlier prunes included.\<close>

theorem rebuild_keeps_rows:
  assumes "usage_reachable m"
  shows "token_row (mt_rollups (tenant_of tid (RebuildTokenUsageRollups tid m))) = token_row (mt_rollups (tenant_of tid m))
    \<and> compute_row (mt_compute_rollups (tenant_of tid (RebuildComputeUsageRollups tid m)))
        = compute_row (mt_compute_rollups (tenant_of tid m))"
proof -
  have m: "mem_ok m" by (rule mem_ok_reachable [OF assms])
  have t: "tenant_ok (mem_horizon m) (mem_compute_horizon m) (tenant_of tid m)" using m by (rule mem_ok_tenant)
  have "tenant_of tid (update_tenant tid f m) = f (tenant_of tid m)" for f
    by (simp add: tenant_of_def update_tenant_def)
  then show ?thesis
    using rebuild_tokens_rows [OF t] rebuild_compute_rows [OF t] m
    by (simp add: RebuildTokenUsageRollups_def RebuildComputeUsageRollups_def mem_ok_def)
qed

definition demo_event :: TokenUsageEvent where
  "demo_event = \<lparr>ev_id = ''e1'', ev_occurred = 3600001, ev_agent = ''ada'', ev_owner = ''u'', ev_session = [], ev_request = [],
     ev_provider = ''p'', ev_model = ''m'', ev_credential = [], ev_input = 3, ev_output = 4, ev_cache_read = 0, ev_cache_write = 0,
     ev_total = 7, ev_cost = 1, ev_rate_version = [], ev_outcome = OutcomeOK\<rparr>"

definition demo_memory :: Memory where
  "demo_memory = usage_exec (AppendTokens ''t'' [demo_event]) NewMemory"

lemma demo_reachable: "usage_reachable demo_memory"
  unfolding demo_memory_def by (intro usage_reachable.intros)

lemma demo_log: "mt_events (tenant_of ''t'' demo_memory) = [(''e1'', demo_event)]"
proof -
  have "problem demo_event = []" by (simp add: problem_def demo_event_def maxTimestamptzMs_def OutcomeOK_def)
  then show ?thesis
    by (simp add: demo_memory_def AppendTokenUsage_def ValidateEvents_def tenant_of_def update_tenant_def NewMemory_def
        append_event_def emptyTenant_def gm_getz_def) (simp add: demo_event_def)
qed

theorem rebuild_keeps_rows_witness:
  "token_row (mt_rollups (tenant_of ''t'' (RebuildTokenUsageRollups ''t'' demo_memory)))
     = token_row (mt_rollups (tenant_of ''t'' demo_memory))"
  using rebuild_keeps_rows [OF demo_reachable, of "''t''"] by blast

text \<open>C15: a series is what the log says. In every reachable state, a token series asked for from
  the prune horizon on succeeds and lists, in order of time, exactly the buckets that hold a
  matching event of the tenant's raw log, each with the sums of the counters of those
  events.\<close>

theorem series_sums_events:
  assumes "usage_reachable m" and "Validate q = None" and "mem_horizon m \<le> q_start q"
  shows "\<exists>bs. TokenUsageSeries tid q m = Inr bs
    \<and> sorted_wrt (<) (map b_start bs)
    \<and> set (map b_start bs) = {s. \<exists>e \<in> set (map snd (mt_events (tenant_of tid m))). event_in q s e}
    \<and> list_all (\<lambda>b. bucket_tally (Some b)
        = (\<Sum>e\<leftarrow>filter (event_in q (b_start b)) (map snd (mt_events (tenant_of tid m))). usage_tally e)) bs"
proof -
  have m: "mem_ok m" by (rule mem_ok_reachable [OF assms(1)])
  let ?t = "tenant_of tid m"
  let ?log = "map snd (mt_events ?t)" and ?sums = "series_sums q (mt_rollups ?t)"
  have g: "q_granularity q \<in> set rollupGranularities"
    using assms(2) by (cases "q_granularity q") (auto simp: Validate_def rollupGranularities_def)
  have at: "bucket_tally (gm_get ?sums s) = (\<Sum>e\<leftarrow>?log. if event_in q s e then usage_tally e else 0)" for s
    using series_sums_log [OF mem_ok_tenant [OF m] g assms(3)] .
  define l where "l = map (\<lambda>(start, b). b\<lparr>b_start := start\<rparr>) ?sums"
  have st: "map b_start l = map fst ?sums" by (auto simp: l_def)
  have d: "distinct (map b_start l)" using series_sums_wf by (simp add: st gm_wf_def)
  have "b_start b = s \<Longrightarrow> b \<in> set l \<Longrightarrow> bucket_tally (Some b) = bucket_tally (gm_get ?sums s)" for b s
    using gm_entry_iff [OF series_sums_wf] by (auto simp: l_def bucket_tally_def)
  then have val: "list_all (\<lambda>b. bucket_tally (Some b) = (\<Sum>e\<leftarrow>filter (event_in q (b_start b)) ?log. usage_tally e)) l"
    unfolding list_all_iff using at by (simp add: sum_list_map_filter')
  have "s \<in> set (map b_start l) \<longleftrightarrow> present (bucket_tally (gm_get ?sums s))" for s
    unfolding st by (simp add: gm_keys_iff bucket_tally_def split: option.splits)
  also have "\<dots> s \<longleftrightarrow> (\<exists>e \<in> set ?log. event_in q s e)" for s
    unfolding at by (rule present_filtered)
  finally have starts: "set (map b_start l) = {s. \<exists>e \<in> set ?log. event_in q s e}" by blast
  have ser: "TokenUsageSeries tid q m = Inr (sort_key b_start l)" using assms(2) by (simp add: TokenUsageSeries_def l_def)
  have "sorted_wrt (<) (map b_start (sort_key b_start l))"
    using d by (simp add: strict_sorted_iff distinct_map)
  then show ?thesis using ser val starts by (intro exI [of _ "sort_key b_start l"]) (simp add: list_all_iff)
qed

definition demo_query :: SeriesQuery where
  "demo_query = \<lparr>q_granularity = GranularityHour, q_start = 0, q_end = 7200000, q_agents = [], q_provider = []\<rparr>"

theorem series_sums_events_witness:
  "\<exists>bs. TokenUsageSeries ''t'' demo_query demo_memory = Inr bs \<and> set (map b_start bs) = {3600000}"
proof -
  have "mem_horizon demo_memory \<le> q_start demo_query"
    by (simp add: demo_memory_def demo_query_def AppendTokenUsage_def update_tenant_def NewMemory_def MinInt64_def split: option.splits)
  moreover have "Validate demo_query = None" by (simp add: Validate_def demo_query_def hourMs_def)
  moreover have "event_in demo_query s demo_event \<longleftrightarrow> s = 3600000" for s
    by (auto simp: event_in_def demo_query_def demo_event_def BucketStart_def hourMs_def smod_int_alt_def)
  ultimately show ?thesis
    using series_sums_events [OF demo_reachable, of demo_query "''t''"] by (auto simp: demo_log)
qed

text \<open>Appending. A batch with a malformed event is refused and leaves no trace; re-sending a
  batch changes nothing, as its event ids are already in the log; and no append ever touches
  another tenant.\<close>

theorem append_idempotent:
  "(case ValidateEvents es of
      Some err \<Rightarrow> AppendTokenUsage tid es m = (m, Some err)
    | None \<Rightarrow> snd (AppendTokenUsage tid es m) = None
        \<and> tenant_of tid (fst (AppendTokenUsage tid es (fst (AppendTokenUsage tid es m)))) = tenant_of tid (fst (AppendTokenUsage tid es m)))
   \<and> (other \<noteq> tid \<longrightarrow> tenant_of other (fst (AppendTokenUsage tid es m)) = tenant_of other m)"
proof -
  have keep: "gm_get (mt_events (append_event e t)) i = Some x" if "gm_get (mt_events t) i = Some x" for e i x t
    using that by (auto simp: append_event_def)
  have keeps: "gm_get (mt_events (fold append_event es t)) i = Some x" if "gm_get (mt_events t) i = Some x" for es i x t
    using that keep by (induction es arbitrary: t) auto
  have seen: "gm_get (mt_events (append_event e t)) (ev_id e) \<noteq> None" for e t by (simp add: append_event_def)
  have has: "e \<in> set es \<Longrightarrow> gm_get (mt_events (fold append_event es t)) (ev_id e) \<noteq> None" for e es t
  proof (induction es arbitrary: t)
    case (Cons a es)
    then show ?case using keeps seen [of a t] by (cases "e \<in> set es") auto
  qed simp
  have noop: "(\<And>e. e \<in> set es \<Longrightarrow> gm_get (mt_events t) (ev_id e) \<noteq> None) \<Longrightarrow> fold append_event es t = t" for es t
    by (induction es) (simp_all add: append_event_def)
  have "fold append_event es (fold append_event es t) = fold append_event es t" for t using noop has by blast
  then show ?thesis
    by (simp add: AppendTokenUsage_def update_tenant_def tenant_of_def split: option.splits)
qed

theorem append_idempotent_witness:
  "tenant_of ''other'' (fst (AppendTokenUsage ''t'' [demo_event] NewMemory)) = tenant_of ''other'' NewMemory"
  using append_idempotent [where es = "[demo_event]" and tid = "''t''" and m = NewMemory and other = "''other''"] by simp

end
