(* ===== verification/Gateway_Credentials.thy ===== *)
theory Gateway_Credentials
  imports Comms_Types "HOL-Library.Product_Lexorder"
begin

text \<open>
  The credential store of the LLM gateway, \<open>src/go/internal/gatewaycred/gatewaycred.go\<close>
  and its in-memory implementation \<open>memory.go\<close>: credentials with a version for
  compare-and-set writes, and the own-before-shared pool an agent's requests draw on.

  A Go \<open>time.Time\<close> that may be zero is an option, \<open>None\<close> the zero time; the clock reading
  \<open>time.Now()\<close> and the random id of \<open>credentialID\<close> are arguments of the operations that take
  them. A version is a 64-bit word and wraps; the creation counter, whose 64 bits no run
  exhausts, is a natural number. The mutex makes each operation atomic, so
  an execution is a sequence of operations.
\<close>

section \<open>Data\<close>

datatype gc_error = GCInvalidArgument | GCNotFound | GCFailedPrecondition | GCVersionConflict | GCCreateID

datatype Scope = ScopeOwn | ScopeShared | ScopeOther "16 word"

record OAuthToken =
  tok_access :: string
  tok_refresh :: string
  tok_expires :: "64 word"
  tok_enterprise_url :: string
  tok_project_id :: string
  tok_email :: string
  tok_account_id :: string
  tok_api_endpoint :: string
  tok_org_id :: string
  tok_org_name :: string
  tok_authorized_at :: "64 word"
  tok_region :: string
  tok_inference_region :: string
  tok_active_organization_id :: string

record Credential =
  cred_id :: string
  cred_provider :: string
  cred_scope :: Scope
  cred_owner :: AccountID
  cred_version :: "64 word"
  cred_api_key :: string
  cred_oauth :: "OAuthToken option"

definition NewAPIKeyCredential :: "Credential \<Rightarrow> string \<Rightarrow> Credential" where
  "NewAPIKeyCredential c key = c\<lparr>cred_api_key := key, cred_oauth := None\<rparr>"

definition NewOAuthCredential :: "Credential \<Rightarrow> OAuthToken \<Rightarrow> Credential" where
  "NewOAuthCredential c tok = c\<lparr>cred_api_key := [], cred_oauth := Some tok\<rparr>"

definition APIKey :: "Credential \<Rightarrow> string \<times> bool" where
  "APIKey c = (cred_api_key c, cred_oauth c = None \<and> cred_api_key c \<noteq> [])"

definition zeroToken :: OAuthToken where
  "zeroToken = \<lparr>tok_access = [], tok_refresh = [], tok_expires = 0, tok_enterprise_url = [], tok_project_id = [],
     tok_email = [], tok_account_id = [], tok_api_endpoint = [], tok_org_id = [], tok_org_name = [], tok_authorized_at = 0,
     tok_region = [], tok_inference_region = [], tok_active_organization_id = []\<rparr>"

definition OAuth :: "Credential \<Rightarrow> OAuthToken \<times> bool" where
  "OAuth c = (case cred_oauth c of None \<Rightarrow> (zeroToken, False) | Some t \<Rightarrow> (t, True))"

text \<open>The table \<open>oauthClearable\<close> from the name of a metadata field to its zeroing.\<close>

definition oauthClearable :: "(string, OAuthToken \<Rightarrow> OAuthToken) gomap" where
  "oauthClearable =
    [(''enterprise_url'', tok_enterprise_url_update (\<lambda>_. [])),
     (''project_id'', tok_project_id_update (\<lambda>_. [])),
     (''email'', tok_email_update (\<lambda>_. [])),
     (''account_id'', tok_account_id_update (\<lambda>_. [])),
     (''api_endpoint'', tok_api_endpoint_update (\<lambda>_. [])),
     (''org_id'', tok_org_id_update (\<lambda>_. [])),
     (''org_name'', tok_org_name_update (\<lambda>_. [])),
     (''authorized_at_unix_ms'', tok_authorized_at_update (\<lambda>_. 0)),
     (''region'', tok_region_update (\<lambda>_. [])),
     (''inference_region'', tok_inference_region_update (\<lambda>_. [])),
     (''active_organization_id'', tok_active_organization_id_update (\<lambda>_. []))]"

fun ValidOAuthClearFields :: "string list \<Rightarrow> bool" where
  "ValidOAuthClearFields [] = True"
| "ValidOAuthClearFields (name # names) =
    (case gm_get oauthClearable name of None \<Rightarrow> False | Some _ \<Rightarrow> ValidOAuthClearFields names)"

section \<open>Validation and merging\<close>

definition validateCredential :: "Credential \<Rightarrow> gc_error option" where
  "validateCredential c =
    (if cred_provider c = [] then Some GCInvalidArgument
     else if (cred_scope c = ScopeOwn \<and> cred_owner c = []) \<or> (cred_scope c = ScopeShared \<and> cred_owner c \<noteq> [])
       \<or> (cred_scope c \<noteq> ScopeOwn \<and> cred_scope c \<noteq> ScopeShared) then Some GCInvalidArgument
     else let apiKey = (cred_api_key c \<noteq> [] \<and> cred_oauth c = None);
              oauth = (case cred_oauth c of None \<Rightarrow> False | Some t \<Rightarrow> tok_access t \<noteq> [] \<and> cred_api_key c = [])
       in if apiKey = oauth then Some GCInvalidArgument else None)"

definition keep_str :: "string \<Rightarrow> string \<Rightarrow> string" where
  "keep_str old next = (if next = [] then old else next)"

definition keep_int :: "64 word \<Rightarrow> 64 word \<Rightarrow> 64 word" where
  "keep_int old next = (if next = 0 then old else next)"

text \<open>The sequence of \<open>if next.X is zero then next.X = old.X\<close> statements of \<open>mergeOAuth\<close>.\<close>

definition mergeFields :: "OAuthToken \<Rightarrow> OAuthToken \<Rightarrow> OAuthToken" where
  "mergeFields old next =
    \<lparr>tok_access = keep_str (tok_access old) (tok_access next),
     tok_refresh = keep_str (tok_refresh old) (tok_refresh next),
     tok_expires = keep_int (tok_expires old) (tok_expires next),
     tok_enterprise_url = keep_str (tok_enterprise_url old) (tok_enterprise_url next),
     tok_project_id = keep_str (tok_project_id old) (tok_project_id next),
     tok_email = keep_str (tok_email old) (tok_email next),
     tok_account_id = keep_str (tok_account_id old) (tok_account_id next),
     tok_api_endpoint = keep_str (tok_api_endpoint old) (tok_api_endpoint next),
     tok_org_id = keep_str (tok_org_id old) (tok_org_id next),
     tok_org_name = keep_str (tok_org_name old) (tok_org_name next),
     tok_authorized_at = keep_int (tok_authorized_at old) (tok_authorized_at next),
     tok_region = keep_str (tok_region old) (tok_region next),
     tok_inference_region = keep_str (tok_inference_region old) (tok_inference_region next),
     tok_active_organization_id = keep_str (tok_active_organization_id old) (tok_active_organization_id next)\<rparr>"

text \<open>The loop over \<open>clearFields\<close>. An unknown name is a nil function and its call would panic
  (\<open>None\<close>); the callers check \<^const>\<open>ValidOAuthClearFields\<close> first.\<close>

fun clear_all :: "string list \<Rightarrow> OAuthToken \<Rightarrow> OAuthToken option" where
  "clear_all [] t = Some t"
| "clear_all (name # names) t = (case gm_get oauthClearable name of None \<Rightarrow> None | Some f \<Rightarrow> clear_all names (f t))"

definition mergeOAuth :: "OAuthToken \<Rightarrow> OAuthToken \<Rightarrow> string list \<Rightarrow> OAuthToken option" where
  "mergeOAuth old next clearFields = clear_all clearFields (mergeFields old next)"

section \<open>The store\<close>

record memoryCredential =
  mc_credential :: Credential
  mc_created :: nat
  mc_disabled_at :: "int option"
  mc_cause :: string

type_synonym cred_rows = "(string, memoryCredential) gomap"

record CredMemory =
  cm_tenants :: "(TenantID, cred_rows) gomap"
  cm_agent_owner :: "(AccountID, AccountID) gomap"
  cm_created :: nat

definition NewCredMemory :: CredMemory where
  "NewCredMemory = \<lparr>cm_tenants = [], cm_agent_owner = [], cm_created = 0\<rparr>"

text \<open>\<open>(*Memory).tenant\<close> makes the row map of a tenant on first use.\<close>

definition tenant :: "TenantID \<Rightarrow> CredMemory \<Rightarrow> cred_rows \<times> CredMemory" where
  "tenant tid m = (case gm_get (cm_tenants m) tid of
      Some rows \<Rightarrow> (rows, m)
    | None \<Rightarrow> ([], m\<lparr>cm_tenants := gm_put tid [] (cm_tenants m)\<rparr>))"

definition put_row :: "TenantID \<Rightarrow> string \<Rightarrow> memoryCredential \<Rightarrow> CredMemory \<Rightarrow> CredMemory" where
  "put_row tid i row m = m\<lparr>cm_tenants := gm_put tid (gm_put i row (gm_getz [] (cm_tenants m) tid)) (cm_tenants m)\<rparr>"

definition SetAgentOwner :: "AccountID \<Rightarrow> AccountID \<Rightarrow> CredMemory \<Rightarrow> CredMemory" where
  "SetAgentOwner agent owner m = m\<lparr>cm_agent_owner := gm_put agent owner (cm_agent_owner m)\<rparr>"

definition enabled :: "memoryCredential \<Rightarrow> bool" where
  "enabled row \<longleftrightarrow> mc_disabled_at row = None"

definition hasEnabledOwn :: "cred_rows \<Rightarrow> AccountID \<Rightarrow> string \<Rightarrow> bool" where
  "hasEnabledOwn rows owner provider = list_ex (\<lambda>(_, row). enabled row \<and> cred_scope (mc_credential row) = ScopeOwn
     \<and> cred_owner (mc_credential row) = owner \<and> cred_provider (mc_credential row) = provider) rows"

definition inPool :: "cred_rows \<Rightarrow> memoryCredential \<Rightarrow> AccountID \<Rightarrow> bool" where
  "inPool rows candidate owner =
    (let c = mc_credential candidate in
     if cred_scope c = ScopeOwn then cred_owner c = owner
     else cred_scope c = ScopeShared \<and> \<not> hasEnabledOwn rows owner (cred_provider c))"

text \<open>\<open>rid\<close> is the outcome of \<open>credentialID()\<close>: \<open>None\<close> when the random source fails.\<close>

definition Create :: "string option \<Rightarrow> TenantID \<Rightarrow> Credential \<Rightarrow> CredMemory \<Rightarrow> CredMemory \<times> (gc_error + Credential)" where
  "Create rid tid c m =
    (case validateCredential c of Some err \<Rightarrow> (m, Inl err)
     | None \<Rightarrow> (case rid of None \<Rightarrow> (m, Inl GCCreateID)
     | Some i \<Rightarrow>
        let c' = c\<lparr>cred_id := i, cred_version := 1\<rparr>;
            m1 = snd (tenant tid m);
            m2 = m1\<lparr>cm_created := cm_created m1 + 1\<rparr>
        in (put_row tid i \<lparr>mc_credential = c', mc_created = cm_created m2, mc_disabled_at = None, mc_cause = []\<rparr> m2, Inr c')))"

text \<open>The comparison both sorts use: provider, then creation, then id.\<close>

definition row_key :: "memoryCredential \<Rightarrow> string \<times> nat \<times> string" where
  "row_key row = (cred_provider (mc_credential row), mc_created row, cred_id (mc_credential row))"

definition List_creds :: "TenantID \<Rightarrow> AccountID \<Rightarrow> string \<Rightarrow> CredMemory \<Rightarrow> CredMemory \<times> Credential list" where
  "List_creds tid owner provider m =
    (let (rows, m1) = tenant tid m;
         out = filter (\<lambda>row. \<not> (\<not> enabled row \<or> (cred_scope (mc_credential row) = ScopeOwn \<and> cred_owner (mc_credential row) \<noteq> owner)
                 \<or> (provider \<noteq> [] \<and> cred_provider (mc_credential row) \<noteq> provider))) (map snd rows)
     in (m1, map mc_credential (sort_key row_key out)))"

text \<open>The lookup \<open>UpdateOAuth\<close> and \<open>Disable\<close> share: the row, when the agent may touch it.\<close>

definition writable :: "cred_rows \<Rightarrow> AccountID option \<Rightarrow> string \<Rightarrow> memoryCredential option" where
  "writable rows owner i =
    (case (gm_get rows i, owner) of
       (Some row, Some o') \<Rightarrow> if enabled row \<and> inPool rows row o' then Some row else None
     | _ \<Rightarrow> None)"

text \<open>The branch where \<^const>\<open>mergeOAuth\<close> has no result is never taken: see \<open>mergeOAuth_total\<close>.\<close>

definition UpdateOAuth :: "TenantID \<Rightarrow> AccountID \<Rightarrow> string \<Rightarrow> OAuthToken \<Rightarrow> 64 word \<Rightarrow> string list \<Rightarrow> CredMemory
    \<Rightarrow> CredMemory \<times> (gc_error + 64 word)" where
  "UpdateOAuth tid agent i tok expected clearFields m =
    (if i = [] \<or> agent = [] \<or> expected = 0 \<or> tok_access tok = [] then (m, Inl GCInvalidArgument)
     else if \<not> ValidOAuthClearFields clearFields then (m, Inl GCInvalidArgument)
     else let (rows, m1) = tenant tid m in
       case writable rows (gm_get (cm_agent_owner m1) agent) i of None \<Rightarrow> (m1, Inl GCNotFound)
       | Some row \<Rightarrow>
          (case cred_oauth (mc_credential row) of None \<Rightarrow> (m1, Inl GCFailedPrecondition)
           | Some old \<Rightarrow>
              if cred_version (mc_credential row) \<noteq> expected then (m1, Inl GCVersionConflict)
              else (case mergeOAuth old tok clearFields of None \<Rightarrow> (m1, Inl GCInvalidArgument)
                | Some merged \<Rightarrow>
                   let c = NewOAuthCredential (mc_credential row) merged;
                       c' = c\<lparr>cred_version := cred_version c + 1\<rparr>
                   in (put_row tid i (row\<lparr>mc_credential := c'\<rparr>) m1, Inr (cred_version c')))))"

definition Disable :: "int \<Rightarrow> TenantID \<Rightarrow> AccountID \<Rightarrow> string \<Rightarrow> string \<Rightarrow> 64 word \<Rightarrow> CredMemory \<Rightarrow> CredMemory \<times> gc_error option" where
  "Disable now tid agent i cause expected m =
    (if i = [] \<or> agent = [] \<or> expected = 0 then (m, Some GCInvalidArgument)
     else let (rows, m1) = tenant tid m in
       case writable rows (gm_get (cm_agent_owner m1) agent) i of None \<Rightarrow> (m1, Some GCNotFound)
       | Some row \<Rightarrow>
          if cred_version (mc_credential row) \<noteq> expected then (m1, Some GCVersionConflict)
          else (put_row tid i (row\<lparr>mc_disabled_at := Some now, mc_cause := cause,
                 mc_credential := (mc_credential row)\<lparr>cred_version := cred_version (mc_credential row) + 1\<rparr>\<rparr>) m1, None))"

definition Pool :: "TenantID \<Rightarrow> AccountID \<Rightarrow> CredMemory \<Rightarrow> CredMemory \<times> (gc_error + Credential list)" where
  "Pool tid agent m =
    (case gm_get (cm_agent_owner m) agent of None \<Rightarrow> (m, Inl GCNotFound)
     | Some owner \<Rightarrow>
       if agent = [] then (m, Inl GCNotFound)
       else let (rows, m1) = tenant tid m;
                selected = filter (\<lambda>row. enabled row \<and>
                    ((cred_scope (mc_credential row) = ScopeOwn \<and> cred_owner (mc_credential row) = owner)
                     \<or> (cred_scope (mc_credential row) = ScopeShared \<and> \<not> hasEnabledOwn rows owner (cred_provider (mc_credential row)))))
                  (map snd rows)
            in (m1, Inr (map mc_credential (sort_key row_key selected))))"

section \<open>Executions\<close>

datatype cred_op =
    OpOwner AccountID AccountID
  | OpCreate "string option" TenantID Credential
  | OpList TenantID AccountID string
  | OpUpdate TenantID AccountID string OAuthToken "64 word" "string list"
  | OpDisable int TenantID AccountID string string "64 word"
  | OpPool TenantID AccountID

fun cred_exec :: "cred_op \<Rightarrow> CredMemory \<Rightarrow> CredMemory" where
  "cred_exec (OpOwner a u) m = SetAgentOwner a u m"
| "cred_exec (OpCreate rid tid c) m = fst (Create rid tid c m)"
| "cred_exec (OpList tid u p) m = fst (List_creds tid u p m)"
| "cred_exec (OpUpdate tid a i tok v cl) m = fst (UpdateOAuth tid a i tok v cl m)"
| "cred_exec (OpDisable now tid a i cause v) m = fst (Disable now tid a i cause v m)"
| "cred_exec (OpPool tid a) m = fst (Pool tid a m)"

text \<open>The rows of a tenant, an untouched tenant having none.\<close>

abbreviation rows_of :: "TenantID \<Rightarrow> CredMemory \<Rightarrow> cred_rows" where
  "rows_of tid m \<equiv> gm_getz [] (cm_tenants m) tid"

text \<open>A step with its environment assumption: 128 random bits do not repeat an id of the tenant.\<close>

fun op_fresh :: "cred_op \<Rightarrow> CredMemory \<Rightarrow> bool" where
  "op_fresh (OpCreate (Some i) tid c) m \<longleftrightarrow> gm_get (rows_of tid m) i = None \<and> i \<noteq> []"
| "op_fresh _ m \<longleftrightarrow> True"

inductive cred_run :: "CredMemory \<Rightarrow> cred_op list \<Rightarrow> CredMemory \<Rightarrow> bool" where
  run_nil: "cred_run m [] m"
| run_step: "op_fresh op m \<Longrightarrow> cred_run (cred_exec op m) ops m' \<Longrightarrow> cred_run m (op # ops) m'"

inductive_cases cred_run_NilE [elim!]: "cred_run m [] m'"
inductive_cases cred_run_ConsE [elim!]: "cred_run m (op # ops) m'"

section \<open>The contract of a compare-and-set store\<close>

text \<open>What the clients of the store rely on: a cell, once there, stays; a step either leaves it
  alone or, when it is live, advances its version by one. From that alone a stale version
  loses for the next \<open>2^64 - 1\<close> steps, and a dead cell never comes back.\<close>

locale cas_store =
  fixes exec :: "'op \<Rightarrow> 's \<Rightarrow> 's"
    and ok :: "'op \<Rightarrow> 's \<Rightarrow> bool"
    and cell :: "'s \<Rightarrow> 'k \<Rightarrow> (64 word \<times> bool) option"
  assumes cell_step: "ok op s \<Longrightarrow> cell s k = Some (v, live) \<Longrightarrow>
      cell (exec op s) k = Some (v, live) \<or> (live \<and> (\<exists>live'. cell (exec op s) k = Some (v + 1, live')))"
begin

inductive run :: "'s \<Rightarrow> 'op list \<Rightarrow> 's \<Rightarrow> bool" where
  nil: "run s [] s"
| step: "ok op s \<Longrightarrow> run (exec op s) ops s' \<Longrightarrow> run s (op # ops) s'"

lemma run_cell:
  assumes "run s ops s'" and "cell s k = Some (v, live)"
  shows "\<exists>n live'. n \<le> length ops \<and> cell s' k = Some (v + of_nat n, live') \<and> (live \<or> (n = 0 \<and> \<not> live'))"
  using assms
proof (induction arbitrary: v live rule: run.induct)
  case (nil s)
  then show ?case by (intro exI [of _ 0] exI [of _ live]) auto
next
  case (step op s ops s')
  from cell_step [OF step.hyps(1) step.prems] show ?case
  proof (elim disjE conjE exE)
    assume "cell (exec op s) k = Some (v, live)"
    from step.IH [OF this] show ?thesis by (auto intro: le_SucI)
  next
    fix live' assume live and "cell (exec op s) k = Some (v + 1, live')"
    from step.IH [OF this(2)] obtain n l where n: "n \<le> length ops" "cell s' k = Some (v + 1 + of_nat n, l)" by auto
    have "v + 1 + of_nat n = v + of_nat (Suc n)" by (simp add: ac_simps)
    then show ?thesis using n \<open>live\<close> by (intro exI [of _ "Suc n"] exI [of _ l]) auto
  qed
qed

lemma dead_stays:
  assumes "run s ops s'" and "cell s k = Some (v, False)"
  shows "cell s' k = Some (v, False)"
  using run_cell [OF assms] by auto

lemma stale_version:
  assumes "run s ops s'" and "cell s k = Some (v + 1, live)" and "Suc (length ops) < 2 ^ 64"
  shows "\<exists>w live'. cell s' k = Some (w, live') \<and> w \<noteq> v"
proof -
  obtain n l where n: "n \<le> length ops" "cell s' k = Some (v + 1 + of_nat n, l)"
    using run_cell [OF assms(1,2)] by blast
  have lt: "Suc n < 2 ^ 64" using n(1) assms(3) by linarith
  have "unat (of_nat (Suc n) :: 64 word) = Suc n" using lt by (subst unat_of_nat) (simp add: take_bit_nat_eq_self)
  then have "(of_nat (Suc n) :: 64 word) \<noteq> 0" by (metis nat.distinct(1) unat_0)
  then have "v + 1 + of_nat n \<noteq> v" by (simp add: ac_simps)
  then show ?thesis using n(2) by blast
qed

end

section \<open>Rows under the operations\<close>

lemma tenant_fst [simp]: "fst (tenant tid m) = rows_of tid m"
  by (simp add: tenant_def gm_getz_def split: option.split)

lemma tenant_rows [simp]: "rows_of t (snd (tenant tid m)) = rows_of t m"
  by (simp add: tenant_def gm_getz_def split: option.split)

lemma tenant_fields [simp]: "cm_agent_owner (snd (tenant tid m)) = cm_agent_owner m" "cm_created (snd (tenant tid m)) = cm_created m"
  by (simp_all add: tenant_def split: option.split)

lemma rows_put [simp]: "rows_of t (put_row tid i row m) = (if t = tid then gm_put i row (rows_of tid m) else rows_of t m)"
  by (simp add: put_row_def)

lemma put_fields [simp]: "cm_agent_owner (put_row tid i row m) = cm_agent_owner m" "cm_created (put_row tid i row m) = cm_created m"
  by (simp_all add: put_row_def)

lemma rows_created [simp]: "rows_of t (m\<lparr>cm_created := n\<rparr>) = rows_of t m"
  by simp

lemma writable_Some: "writable rows ow i = Some row \<longleftrightarrow>
    gm_get rows i = Some row \<and> enabled row \<and> (\<exists>o'. ow = Some o' \<and> inPool rows row o')"
  by (auto simp: writable_def split: option.splits)

lemma clear_all_total: "ValidOAuthClearFields cl \<Longrightarrow> \<exists>t'. clear_all cl t = Some t'"
  by (induction cl arbitrary: t) (auto split: option.splits)

lemma mergeOAuth_total: "ValidOAuthClearFields cl \<Longrightarrow> \<exists>t'. mergeOAuth old tok cl = Some t'"
  by (simp add: mergeOAuth_def clear_all_total)

lemma oauthClearable_keeps_grant:
  "gm_get oauthClearable n = Some f \<Longrightarrow> tok_access (f t) = tok_access t \<and> tok_refresh (f t) = tok_refresh t \<and> tok_expires (f t) = tok_expires t"
  by (auto simp: oauthClearable_def split: if_splits)

lemma clear_all_keeps_grant:
  "clear_all cl t = Some t' \<Longrightarrow> tok_access t' = tok_access t \<and> tok_refresh t' = tok_refresh t \<and> tok_expires t' = tok_expires t"
  by (induction cl arbitrary: t) (auto split: option.splits dest: oauthClearable_keeps_grant)

text \<open>The two ways a write can succeed, with the row it leaves.\<close>

lemma UpdateOAuth_cases:
  obtains (refused) err where "UpdateOAuth tid agent i tok v cl m = (m, Inl err) \<or> UpdateOAuth tid agent i tok v cl m = (snd (tenant tid m), Inl err)"
  | (written) row merged old where "writable (rows_of tid m) (gm_get (cm_agent_owner m) agent) i = Some row"
      "cred_version (mc_credential row) = v" "cred_oauth (mc_credential row) = Some old" "mergeOAuth old tok cl = Some merged"
      "tok_access tok \<noteq> []" "ValidOAuthClearFields cl" "i \<noteq> []" "agent \<noteq> []" "v \<noteq> 0"
      "UpdateOAuth tid agent i tok v cl m = (put_row tid i (row\<lparr>mc_credential :=
          (NewOAuthCredential (mc_credential row) merged)\<lparr>cred_version := v + 1\<rparr>\<rparr>) (snd (tenant tid m)), Inr (v + 1))"
proof (cases "i = [] \<or> agent = [] \<or> v = 0 \<or> tok_access tok = [] \<or> \<not> ValidOAuthClearFields cl")
  case True
  then show ?thesis by (intro refused [of GCInvalidArgument]) (auto simp: UpdateOAuth_def)
next
  case False
  note args = this
  show ?thesis
  proof (cases "writable (rows_of tid m) (gm_get (cm_agent_owner m) agent) i")
    case None
    then show ?thesis using args by (intro refused [of GCNotFound]) (simp add: UpdateOAuth_def case_prod_beta)
  next
    case (Some row)
    note w = this
    show ?thesis
    proof (cases "cred_oauth (mc_credential row)")
      case None
      then show ?thesis using args w by (intro refused [of GCFailedPrecondition]) (simp add: UpdateOAuth_def case_prod_beta)
    next
      case (Some old)
      obtain merged where mg: "mergeOAuth old tok cl = Some merged" using mergeOAuth_total args by blast
      show ?thesis
      proof (cases "cred_version (mc_credential row) = v")
        case True
        then show ?thesis using args w Some mg
          by (intro written [OF w _ Some mg]) (simp_all add: UpdateOAuth_def case_prod_beta NewOAuthCredential_def Let_def)
      next
        case False
        then show ?thesis using args w Some by (intro refused [of GCVersionConflict]) (simp add: UpdateOAuth_def case_prod_beta)
      qed
    qed
  qed
qed

lemma Disable_cases:
  obtains (refused) err where "Disable now tid agent i cause v m = (m, Some err) \<or> Disable now tid agent i cause v m = (snd (tenant tid m), Some err)"
  | (written) row where "writable (rows_of tid m) (gm_get (cm_agent_owner m) agent) i = Some row"
      "cred_version (mc_credential row) = v" "i \<noteq> []" "agent \<noteq> []" "v \<noteq> 0"
      "Disable now tid agent i cause v m = (put_row tid i (row\<lparr>mc_disabled_at := Some now, mc_cause := cause,
          mc_credential := (mc_credential row)\<lparr>cred_version := v + 1\<rparr>\<rparr>) (snd (tenant tid m)), None)"
proof (cases "i = [] \<or> agent = [] \<or> v = 0")
  case True
  then show ?thesis by (intro refused [of GCInvalidArgument]) (auto simp: Disable_def)
next
  case False
  note args = this
  show ?thesis
  proof (cases "writable (rows_of tid m) (gm_get (cm_agent_owner m) agent) i")
    case None
    then show ?thesis using args by (intro refused [of GCNotFound]) (simp add: Disable_def case_prod_beta)
  next
    case (Some row)
    show ?thesis
    proof (cases "cred_version (mc_credential row) = v")
      case True
      then show ?thesis using args Some by (intro written [OF Some]) (simp_all add: Disable_def case_prod_beta)
    next
      case False
      then show ?thesis using args Some by (intro refused [of GCVersionConflict]) (simp add: Disable_def case_prod_beta)
    qed
  qed
qed

lemma Create_cases:
  obtains (refused) err where "Create rid tid c m = (m, Inl err)"
  | (written) i where "rid = Some i" "validateCredential c = None"
      "Create rid tid c m = (put_row tid i \<lparr>mc_credential = c\<lparr>cred_id := i, cred_version := 1\<rparr>, mc_created = cm_created m + 1,
          mc_disabled_at = None, mc_cause = []\<rparr> ((snd (tenant tid m))\<lparr>cm_created := cm_created m + 1\<rparr>), Inr (c\<lparr>cred_id := i, cred_version := 1\<rparr>))"
  by (cases "validateCredential c"; cases rid) (simp_all add: Create_def Let_def)

text \<open>The cell of a row: its version and whether it is enabled.\<close>

definition cred_cell :: "CredMemory \<Rightarrow> TenantID \<times> string \<Rightarrow> (64 word \<times> bool) option" where
  "cred_cell m k = map_option (\<lambda>row. (cred_version (mc_credential row), enabled row)) (gm_get (rows_of (fst k) m) (snd k))"

lemma cred_cell_step:
  assumes "op_fresh op m" and "cred_cell m k = Some (v, live)"
  shows "cred_cell (cred_exec op m) k = Some (v, live) \<or> (live \<and> (\<exists>live'. cred_cell (cred_exec op m) k = Some (v + 1, live')))"
proof (cases op)
  case (OpCreate rid tid c)
  then show ?thesis using assms by (cases rule: Create_cases [of rid tid c m]) (auto simp: cred_cell_def)
next
  case (OpUpdate tid a i tok v' cl)
  then show ?thesis using assms
    by (cases rule: UpdateOAuth_cases [of tid a i tok v' cl m]) (auto simp: cred_cell_def writable_Some)
next
  case (OpDisable now tid a i cause v')
  then show ?thesis using assms
    by (cases rule: Disable_cases [of now tid a i cause v' m]) (auto simp: cred_cell_def writable_Some)
next
  case (OpPool tid a)
  then show ?thesis using assms by (auto simp: cred_cell_def Pool_def case_prod_beta Let_def split: option.splits)
qed (use assms in \<open>auto simp: cred_cell_def SetAgentOwner_def List_creds_def case_prod_beta Let_def\<close>)

interpretation cas: cas_store cred_exec op_fresh cred_cell
  by unfold_locales (rule cred_cell_step)

lemma cred_run_cas: "cred_run m ops m' \<Longrightarrow> cas.run m ops m'"
  by (induction rule: cred_run.induct) (auto intro: cas.run.intros)

section \<open>The invariant of the store\<close>

definition row_ok :: "string \<Rightarrow> memoryCredential \<Rightarrow> bool" where
  "row_ok i row \<longleftrightarrow> cred_id (mc_credential row) = i \<and> i \<noteq> [] \<and> validateCredential (mc_credential row) = None"

definition store_ok :: "CredMemory \<Rightarrow> bool" where
  "store_ok m \<longleftrightarrow> (\<forall>tid. gm_wf (rows_of tid m) \<and> (\<forall>i row. gm_get (rows_of tid m) i = Some row \<longrightarrow> row_ok i row))"

lemma store_okI: "(\<And>tid. gm_wf (rows_of tid m)) \<Longrightarrow> (\<And>tid i row. gm_get (rows_of tid m) i = Some row \<Longrightarrow> row_ok i row) \<Longrightarrow> store_ok m"
  by (simp add: store_ok_def)

lemma store_okD: "store_ok m \<Longrightarrow> gm_wf (rows_of tid m)" "store_ok m \<Longrightarrow> gm_get (rows_of tid m) i = Some row \<Longrightarrow> row_ok i row"
  by (auto simp: store_ok_def)

lemma store_ok_put: "store_ok m \<Longrightarrow> row_ok i row \<Longrightarrow> store_ok (put_row tid i row m)"
  by (rule store_okI) (auto dest: store_okD split: if_splits)

lemma store_ok_tenant [simp]: "store_ok (snd (tenant tid m)) \<longleftrightarrow> store_ok m"
  by (simp add: store_ok_def)

lemma store_ok_created [simp]: "store_ok (m\<lparr>cm_created := n\<rparr>) \<longleftrightarrow> store_ok m"
  by (simp add: store_ok_def)

lemma validate_public [simp]:
  "validateCredential (c\<lparr>cred_id := i\<rparr>) = validateCredential c"
  "validateCredential (c\<lparr>cred_version := v\<rparr>) = validateCredential c"
  by (simp_all add: validateCredential_def Let_def cong: option.case_cong)

lemma store_ok_step:
  assumes "op_fresh op m" and ok: "store_ok m"
  shows "store_ok (cred_exec op m)"
proof (cases op)
  case (OpCreate rid tid c)
  then show ?thesis using assms
    by (cases rule: Create_cases [of rid tid c m])
       (auto intro!: store_ok_put simp: row_ok_def)
next
  case (OpUpdate tid a i tok v cl)
  show ?thesis
  proof (cases rule: UpdateOAuth_cases [of tid a i tok v cl m])
    case (written row merged old)
    have "row_ok i row" using written(1) ok by (auto simp: writable_Some dest: store_okD)
    moreover have "tok_access merged \<noteq> []"
      using written(4,5) by (auto simp: mergeOAuth_def mergeFields_def keep_str_def dest!: clear_all_keeps_grant)
    ultimately have "row_ok i (row\<lparr>mc_credential := (NewOAuthCredential (mc_credential row) merged)\<lparr>cred_version := v + 1\<rparr>\<rparr>)"
      by (auto simp: row_ok_def validateCredential_def NewOAuthCredential_def Let_def split: if_splits)
    then show ?thesis using written OpUpdate ok by (simp add: store_ok_put)
  qed (use OpUpdate ok in auto)
next
  case (OpDisable now tid a i cause v)
  show ?thesis
  proof (cases rule: Disable_cases [of now tid a i cause v m])
    case (written row)
    have "row_ok i row" using written(1) ok by (auto simp: writable_Some dest: store_okD)
    then have "row_ok i (row\<lparr>mc_disabled_at := Some now, mc_cause := cause, mc_credential := (mc_credential row)\<lparr>cred_version := v + 1\<rparr>\<rparr>)"
      by (simp add: row_ok_def)
    then show ?thesis using written OpDisable ok by (simp add: store_ok_put)
  qed (use OpDisable ok in auto)
next
  case (OpPool tid a)
  then show ?thesis using ok by (auto simp: Pool_def case_prod_beta Let_def split: option.splits)
qed (use ok in \<open>auto simp: store_ok_def SetAgentOwner_def List_creds_def case_prod_beta Let_def\<close>)

lemma store_ok_run: "cred_run m ops m' \<Longrightarrow> store_ok m \<Longrightarrow> store_ok m'"
  by (induction rule: cred_run.induct) (auto intro: store_ok_step)

lemma store_ok_New: "store_ok NewCredMemory"
  by (simp add: store_ok_def NewCredMemory_def)

lemma store_ok_reachable: "cred_run NewCredMemory ops m \<Longrightarrow> store_ok m"
  by (rule store_ok_run [OF _ store_ok_New])

section \<open>Pools\<close>

text \<open>What the comment of \<open>Pool\<close> promises: the enabled credentials of the owner and, for a provider
  the owner brought none for, the shared ones.\<close>

definition pool_member :: "cred_rows \<Rightarrow> AccountID \<Rightarrow> Credential \<Rightarrow> bool" where
  "pool_member rows owner c \<longleftrightarrow> (\<exists>row. gm_get rows (cred_id c) = Some row \<and> mc_credential row = c \<and> enabled row \<and>
     (cred_scope c = ScopeOwn \<and> cred_owner c = owner
      \<or> cred_scope c = ScopeShared \<and> (\<nexists>j own. gm_get rows j = Some own \<and> enabled own
           \<and> cred_scope (mc_credential own) = ScopeOwn \<and> cred_owner (mc_credential own) = owner
           \<and> cred_provider (mc_credential own) = cred_provider c)))"

lemma hasEnabledOwn_iff: "gm_wf rows \<Longrightarrow> hasEnabledOwn rows owner p \<longleftrightarrow>
    (\<exists>j own. gm_get rows j = Some own \<and> enabled own \<and> cred_scope (mc_credential own) = ScopeOwn
       \<and> cred_owner (mc_credential own) = owner \<and> cred_provider (mc_credential own) = p)"
  unfolding hasEnabledOwn_def list_ex_iff by (fastforce simp: gm_entry_iff)

lemma inPool_iff: "inPool rows row owner \<longleftrightarrow>
    (cred_scope (mc_credential row) = ScopeOwn \<and> cred_owner (mc_credential row) = owner)
    \<or> (cred_scope (mc_credential row) = ScopeShared \<and> \<not> hasEnabledOwn rows owner (cred_provider (mc_credential row)))"
  by (auto simp: inPool_def Let_def)

lemma pool_member_row: "store_ok m \<Longrightarrow> gm_get (rows_of tid m) i = Some row \<Longrightarrow>
    pool_member (rows_of tid m) owner (mc_credential row) \<longleftrightarrow> enabled row \<and> inPool (rows_of tid m) row owner"
  using hasEnabledOwn_iff [OF store_okD(1), of m tid owner "cred_provider (mc_credential row)"]
  by (auto simp: pool_member_def inPool_iff row_ok_def dest: store_okD(2))

lemma Pool_known: "gm_get (cm_agent_owner m) agent = Some owner \<Longrightarrow> agent \<noteq> [] \<Longrightarrow>
    snd (Pool tid agent m) = Inr (map mc_credential (sort_key row_key
      (filter (\<lambda>row. enabled row \<and> inPool (rows_of tid m) row owner) (map snd (rows_of tid m)))))"
  by (simp add: Pool_def case_prod_beta Let_def inPool_iff)

lemma pool_set:
  assumes ok: "store_ok m"
  shows "mc_credential ` set (filter (\<lambda>row. enabled row \<and> inPool (rows_of tid m) row owner) (map snd (rows_of tid m)))
    = Collect (pool_member (rows_of tid m) owner)"
proof -
  have ent: "(i, row) \<in> set (rows_of tid m) \<longleftrightarrow> gm_get (rows_of tid m) i = Some row" for i row
    by (rule gm_entry_iff [OF store_okD(1) [OF ok]])
  show ?thesis
  proof (intro set_eqI iffI)
    fix c assume "c \<in> mc_credential ` set (filter (\<lambda>row. enabled row \<and> inPool (rows_of tid m) row owner) (map snd (rows_of tid m)))"
    then obtain i row where "gm_get (rows_of tid m) i = Some row" "enabled row" "inPool (rows_of tid m) row owner" "c = mc_credential row"
      using ent by auto
    then show "c \<in> Collect (pool_member (rows_of tid m) owner)" using pool_member_row [OF ok] by simp
  next
    fix c assume c: "c \<in> Collect (pool_member (rows_of tid m) owner)"
    then obtain row where row: "gm_get (rows_of tid m) (cred_id c) = Some row" "mc_credential row = c" by (auto simp: pool_member_def)
    then have "enabled row \<and> inPool (rows_of tid m) row owner" using c pool_member_row [OF ok row(1)] by auto
    moreover have "row \<in> snd ` set (rows_of tid m)" using row(1) ent by force
    ultimately show "c \<in> mc_credential ` set (filter (\<lambda>row. enabled row \<and> inPool (rows_of tid m) row owner) (map snd (rows_of tid m)))"
      using row(2) by auto
  qed
qed

lemma ids_distinct:
  assumes ok: "store_ok m"
  shows "distinct (map (\<lambda>row. cred_id (mc_credential row)) (map snd (rows_of tid m)))"
proof -
  have "map (\<lambda>row. cred_id (mc_credential row)) (map snd (rows_of tid m)) = map fst (rows_of tid m)"
    using store_okD [OF ok, of tid] by (auto simp: row_ok_def gm_entry_iff dest!: gm_entry_iff [THEN iffD1, rotated])
  then show ?thesis using store_okD(1) [OF ok, of tid] by (simp only: gm_wf_def)
qed

lemma sort_key_distinct: "distinct (map f xs) \<Longrightarrow> distinct (map f (sort_key k xs))"
  by (simp add: distinct_map)

lemma row_key_sorted: "sorted (map (\<lambda>row. cred_provider (mc_credential row)) (sort_key row_key rows))"
proof -
  have "sorted (map row_key (sort_key row_key rows))" by (rule sorted_sort_key)
  then show ?thesis
    unfolding sorted_map by (rule sorted_wrt_mono_rel [rotated]) (auto simp: row_key_def less_eq_prod_def)
qed

text \<open>The pool a write consults, empty when the agent is unknown.\<close>

definition pool_list :: "TenantID \<Rightarrow> AccountID \<Rightarrow> CredMemory \<Rightarrow> Credential list" where
  "pool_list tid agent m = (case snd (Pool tid agent m) of Inl _ \<Rightarrow> [] | Inr cs \<Rightarrow> cs)"

lemma find_id:
  assumes "distinct (map f cs)" and "c \<in> set cs" and "f c = i"
  shows "find (\<lambda>c. f c = i) cs = Some c"
  using assms by (induction cs) auto

lemma pool_find:
  assumes ok: "store_ok m" and "agent \<noteq> []"
  shows "find (\<lambda>c. cred_id c = i) (pool_list tid agent m)
    = map_option mc_credential (writable (rows_of tid m) (gm_get (cm_agent_owner m) agent) i)"
proof (cases "gm_get (cm_agent_owner m) agent")
  case None
  then show ?thesis by (simp add: pool_list_def Pool_def writable_def split: option.splits)
next
  case (Some owner)
  let ?rows = "rows_of tid m" and ?cs = "pool_list tid agent m"
  have cs: "?cs = map mc_credential (sort_key row_key (filter (\<lambda>row. enabled row \<and> inPool ?rows row owner) (map snd ?rows)))"
    by (simp add: pool_list_def Pool_known [OF Some assms(2)])
  have mem: "c \<in> set ?cs \<longleftrightarrow> pool_member ?rows owner c" for c
    using pool_set [OF ok, of tid owner] by (auto simp: cs)
  have d: "distinct (map cred_id ?cs)"
    unfolding cs map_map comp_def using ids_distinct [OF ok, of tid] by (intro sort_key_distinct) (simp add: distinct_map_filter comp_def)
  show ?thesis
  proof (cases "writable ?rows (Some owner) i")
    case None
    have "cred_id c \<noteq> i" if "c \<in> set ?cs" for c
    proof
      assume i: "cred_id c = i"
      from that obtain row where "gm_get ?rows i = Some row" "mc_credential row = c" using i by (auto simp: mem pool_member_def)
      then show False using None that pool_member_row [OF ok] by (auto simp: mem writable_def split: if_splits)
    qed
    then show ?thesis using None Some by (auto simp: find_None_iff)
  next
    case (Some row)
    then have r: "gm_get ?rows i = Some row" "enabled row" "inPool ?rows row owner" by (auto simp: writable_Some)
    then have "mc_credential row \<in> set ?cs" using pool_member_row [OF ok r(1)] by (simp add: mem)
    moreover have "cred_id (mc_credential row) = i" using store_okD(2) [OF ok r(1)] by (simp add: row_ok_def)
    ultimately show ?thesis using find_id [OF d] Some \<open>gm_get (cm_agent_owner m) agent = Some owner\<close> by simp
  qed
qed

section \<open>Clearing\<close>

definition string_fields :: "(string \<times> (OAuthToken \<Rightarrow> string)) list" where
  "string_fields =
    [(''enterprise_url'', tok_enterprise_url), (''project_id'', tok_project_id), (''email'', tok_email),
     (''account_id'', tok_account_id), (''api_endpoint'', tok_api_endpoint), (''org_id'', tok_org_id),
     (''org_name'', tok_org_name), (''region'', tok_region), (''inference_region'', tok_inference_region),
     (''active_organization_id'', tok_active_organization_id)]"

lemma clear_one: "gm_get oauthClearable n = Some f \<Longrightarrow>
    list_all (\<lambda>(n', get). get (f t) = (if n' = n then [] else get t)) string_fields
    \<and> tok_authorized_at (f t) = (if n = ''authorized_at_unix_ms'' then 0 else tok_authorized_at t)"
  by (drule map_of_SomeD, simp only: oauthClearable_def list.set insert_iff empty_iff prod.inject simp_thms, elim disjE; clarify;
      simp add: string_fields_def)

lemma clear_all_fields:
  "clear_all cl u = Some t \<Longrightarrow>
    list_all (\<lambda>(n, get). get t = (if n \<in> set cl then [] else get u)) string_fields
    \<and> tok_authorized_at t = (if ''authorized_at_unix_ms'' \<in> set cl then 0 else tok_authorized_at u)"
proof (induction cl arbitrary: u)
  case Nil
  then show ?case by (simp add: string_fields_def)
next
  case (Cons n cl)
  then obtain f where f: "gm_get oauthClearable n = Some f" "clear_all cl (f u) = Some t" by (auto split: option.splits)
  show ?case using Cons.IH [OF f(2)] clear_one [OF f(1), of u] by (fastforce simp: list_all_iff)
qed

section \<open>Properties\<close>

text \<open>C7: own before shared. In every state the store can reach, the pool of a known agent
  holds, once each and in order of provider, exactly the enabled credentials of the agent's
  owner and, for a provider for which the owner has no enabled one, the enabled shared ones;
  so the credentials of one provider are never a mix of both scopes, and each member
  carries exactly one value, a key or a grant.\<close>

theorem pool_own_before_shared:
  assumes "cred_run NewCredMemory ops m" and "gm_get (cm_agent_owner m) agent = Some owner" and "agent \<noteq> []"
  shows "\<exists>cs. snd (Pool tid agent m) = Inr cs \<and> distinct (map cred_id cs) \<and> sorted (map cred_provider cs)
    \<and> set cs = Collect (pool_member (rows_of tid m) owner)
    \<and> (\<forall>c \<in> set cs. \<forall>d \<in> set cs. cred_provider c = cred_provider d \<longrightarrow> cred_scope c = cred_scope d)
    \<and> (\<forall>c \<in> set cs. snd (APIKey c) = (\<not> snd (OAuth c)))"
proof -
  have ok: "store_ok m" by (rule store_ok_reachable [OF assms(1)])
  let ?rows = "rows_of tid m"
  let ?sel = "filter (\<lambda>row. enabled row \<and> inPool ?rows row owner) (map snd ?rows)"
  let ?cs = "map mc_credential (sort_key row_key ?sel)"
  have mem: "set ?cs = Collect (pool_member ?rows owner)" using pool_set [OF ok, of tid owner] by simp
  have d: "distinct (map cred_id ?cs)"
    unfolding map_map comp_def using ids_distinct [OF ok, of tid] by (intro sort_key_distinct) (simp add: distinct_map_filter comp_def)
  have s: "sorted (map cred_provider ?cs)" using row_key_sorted [of ?sel] by (simp add: comp_def)
  have unmixed: "cred_scope c = cred_scope d"
    if c: "pool_member ?rows owner c" and d: "pool_member ?rows owner d" and p: "cred_provider c = cred_provider d" for c d
  proof -
    have "\<not> (cred_scope c = ScopeShared \<and> cred_scope d = ScopeOwn)" if "pool_member ?rows owner c" "pool_member ?rows owner d" "cred_provider c = cred_provider d" for c d
      using that unfolding pool_member_def by fastforce
    then show ?thesis using c d p by (metis pool_member_def)
  qed
  have one: "snd (APIKey c) = (\<not> snd (OAuth c))" if "pool_member ?rows owner c" for c
  proof -
    from that obtain row where "gm_get ?rows (cred_id c) = Some row" "mc_credential row = c" by (auto simp: pool_member_def)
    then have "validateCredential c = None" using store_okD(2) [OF ok] by (auto simp: row_ok_def)
    then show ?thesis by (cases "cred_oauth c") (auto simp: validateCredential_def APIKey_def OAuth_def Let_def split: if_splits)
  qed
  have "\<forall>c \<in> set ?cs. \<forall>d \<in> set ?cs. cred_provider c = cred_provider d \<longrightarrow> cred_scope c = cred_scope d"
    unfolding mem using unmixed by blast
  moreover have "\<forall>c \<in> set ?cs. snd (APIKey c) = (\<not> snd (OAuth c))" unfolding mem using one by blast
  moreover have "snd (Pool tid agent m) = Inr ?cs" by (rule Pool_known [OF assms(2,3)])
  ultimately show ?thesis using d s mem by blast
qed

definition demo_credential :: Credential where
  "demo_credential = \<lparr>cred_id = [], cred_provider = ''p'', cred_scope = ScopeOwn, cred_owner = ''u'', cred_version = 0,
     cred_api_key = [], cred_oauth = Some (zeroToken\<lparr>tok_access := ''a''\<rparr>)\<rparr>"

definition demo_ops :: "cred_op list" where
  "demo_ops = [OpOwner ''ada'' ''u'', OpCreate (Some ''c1'') ''t'' demo_credential]"

definition demo_store :: CredMemory where
  "demo_store = cred_exec (OpCreate (Some ''c1'') ''t'' demo_credential) (cred_exec (OpOwner ''ada'' ''u'') NewCredMemory)"

lemma demo_run: "cred_run NewCredMemory demo_ops demo_store"
  unfolding demo_ops_def demo_store_def
  by (intro cred_run.intros) (simp_all add: SetAgentOwner_def NewCredMemory_def)

lemma demo_valid: "validateCredential demo_credential = None"
  by (simp add: validateCredential_def demo_credential_def)

lemma demo_owner: "gm_get (cm_agent_owner demo_store) ''ada'' = Some ''u''"
  by (simp add: demo_store_def SetAgentOwner_def NewCredMemory_def Create_def demo_valid Let_def)

lemma demo_rows: "rows_of ''t'' demo_store = [(''c1'', \<lparr>mc_credential = demo_credential\<lparr>cred_id := ''c1'', cred_version := 1\<rparr>,
    mc_created = 1, mc_disabled_at = None, mc_cause = []\<rparr>)]"
  by (simp add: demo_store_def SetAgentOwner_def NewCredMemory_def Create_def demo_valid Let_def)

theorem pool_own_before_shared_witness:
  "\<exists>cs. snd (Pool ''t'' ''ada'' demo_store) = Inr cs \<and> distinct (map cred_id cs)
     \<and> set cs = Collect (pool_member (rows_of ''t'' demo_store) ''u'')"
  using pool_own_before_shared [OF demo_run demo_owner, of "''t''"] by blast



text \<open>Compare-and-set. Once a grant has been replaced against version \<open>v\<close>, no later write
  against that same version succeeds, by any agent, after any interleaving of fewer than
  \<open>2^64 - 1\<close> other operations.\<close>

theorem stale_version_loses:
  assumes "cred_run NewCredMemory ops m" and "UpdateOAuth tid agent i tok v cl m = (m1, Inr v')"
    and "cred_run m1 later m2" and "Suc (length later) < 2 ^ 64"
  shows "\<not> isOK (snd (UpdateOAuth tid agent2 i tok2 v cl2 m2)) \<and> snd (Disable now tid agent2 i cause v m2) \<noteq> None"
proof -
  have "cred_cell m1 (tid, i) = Some (v + 1, True)"
    using assms(2) by (cases rule: UpdateOAuth_cases [of tid agent i tok v cl m]) (auto simp: cred_cell_def writable_Some enabled_def)
  then obtain w live where c: "cred_cell m2 (tid, i) = Some (w, live)" "w \<noteq> v"
    using cas.stale_version [OF cred_run_cas [OF assms(3)] _ assms(4)] by blast
  then obtain row where row: "gm_get (rows_of tid m2) i = Some row" "cred_version (mc_credential row) \<noteq> v"
    by (auto simp: cred_cell_def)
  have "\<not> isOK (snd (UpdateOAuth tid agent2 i tok2 v cl2 m2))"
    using row by (cases rule: UpdateOAuth_cases [of tid agent2 i tok2 v cl2 m2]) (auto simp: writable_Some isOK_iff)
  moreover have "snd (Disable now tid agent2 i cause v m2) \<noteq> None"
    using row by (cases rule: Disable_cases [of now tid agent2 i cause v m2]) (auto simp: writable_Some)
  ultimately show ?thesis by blast
qed

theorem stale_version_loses_witness:
  "\<exists>m1. UpdateOAuth ''t'' ''ada'' ''c1'' (zeroToken\<lparr>tok_access := ''b''\<rparr>) 1 [] demo_store = (m1, Inr 2)
     \<and> snd (Disable 5 ''t'' ''ada'' ''c1'' [] 1 m1) \<noteq> None"
proof -
  obtain m1 where u: "UpdateOAuth ''t'' ''ada'' ''c1'' (zeroToken\<lparr>tok_access := ''b''\<rparr>) 1 [] demo_store = (m1, Inr 2)"
    by (simp add: UpdateOAuth_def case_prod_beta demo_rows demo_owner writable_def enabled_def inPool_def demo_credential_def
        mergeOAuth_def NewOAuthCredential_def)
  then show ?thesis using stale_version_loses [OF demo_run u run_nil] by auto
qed

text \<open>A disabled credential is gone for good. After a successful \<open>Disable\<close>, whatever happens
  next, no pool and no listing of the tenant shows the credential again and every write
  to it is refused.\<close>

theorem disabled_for_good:
  assumes "cred_run NewCredMemory ops m" and "Disable now tid agent i cause v m = (m1, None)" and "cred_run m1 later m2"
  shows "i \<notin> cred_id ` set (pool_list tid agent2 m2) \<and> i \<notin> cred_id ` set (snd (List_creds tid owner p m2))
    \<and> \<not> isOK (snd (UpdateOAuth tid agent2 i tok2 v2 cl2 m2)) \<and> snd (Disable now2 tid agent2 i cause2 v2 m2) \<noteq> None"
proof -
  have st: "store_ok m1" "cred_cell m1 (tid, i) = Some (v + 1, False)"
    using assms(2) store_ok_step [of "OpDisable now tid agent i cause v" m] store_ok_reachable [OF assms(1)]
    by (cases rule: Disable_cases [of now tid agent i cause v m]; auto simp: cred_cell_def enabled_def)+
  have ok: "store_ok m2" by (rule store_ok_run [OF assms(3) st(1)])
  have "cred_cell m2 (tid, i) = Some (v + 1, False)" by (rule cas.dead_stays [OF cred_run_cas [OF assms(3)] st(2)])
  then obtain row where row: "gm_get (rows_of tid m2) i = Some row" "\<not> enabled row" by (auto simp: cred_cell_def)
  have only: "row' = row" if "(j, row') \<in> set (rows_of tid m2)" "cred_id (mc_credential row') = i" for j row'
    using that row(1) store_okD [OF ok] by (auto simp: gm_entry_iff row_ok_def)
  have "i \<notin> cred_id ` set (pool_list tid agent2 m2)"
    using only row(2) by (auto simp: pool_list_def Pool_def case_prod_beta Let_def split: option.splits)
  moreover have "i \<notin> cred_id ` set (snd (List_creds tid owner p m2))"
    using only row(2) by (auto simp: List_creds_def case_prod_beta Let_def)
  moreover have "\<not> isOK (snd (UpdateOAuth tid agent2 i tok2 v2 cl2 m2))"
    using row by (cases rule: UpdateOAuth_cases [of tid agent2 i tok2 v2 cl2 m2]) (auto simp: writable_Some isOK_iff)
  moreover have "snd (Disable now2 tid agent2 i cause2 v2 m2) \<noteq> None"
    using row by (cases rule: Disable_cases [of now2 tid agent2 i cause2 v2 m2]) (auto simp: writable_Some)
  ultimately show ?thesis by blast
qed

theorem disabled_for_good_witness:
  "\<exists>m1. Disable 5 ''t'' ''ada'' ''c1'' [] 1 demo_store = (m1, None) \<and> ''c1'' \<notin> cred_id ` set (pool_list ''t'' ''ada'' m1)"
proof -
  obtain m1 where d: "Disable 5 ''t'' ''ada'' ''c1'' [] 1 demo_store = (m1, None)"
    by (simp add: Disable_def case_prod_beta demo_rows demo_owner writable_def enabled_def inPool_def demo_credential_def)
  then show ?thesis using disabled_for_good [OF demo_run d run_nil] by blast
qed

text \<open>Refreshing a grant. A write whose clear list is valid always merges. Each metadata
  field is emptied when it is named, takes the new value when there is one, and keeps the
  stored value otherwise; the grant itself is never cleared.\<close>

theorem merge_keeps_unless_cleared:
  assumes "ValidOAuthClearFields cl"
  shows "\<exists>t. mergeOAuth old tok cl = Some t
    \<and> tok_access t = keep_str (tok_access old) (tok_access tok)
    \<and> tok_refresh t = keep_str (tok_refresh old) (tok_refresh tok)
    \<and> tok_expires t = keep_int (tok_expires old) (tok_expires tok)
    \<and> list_all (\<lambda>(n, get). get t = (if n \<in> set cl then [] else keep_str (get old) (get tok)))
        [(''enterprise_url'', tok_enterprise_url), (''project_id'', tok_project_id), (''email'', tok_email),
         (''account_id'', tok_account_id), (''api_endpoint'', tok_api_endpoint), (''org_id'', tok_org_id),
         (''org_name'', tok_org_name), (''region'', tok_region), (''inference_region'', tok_inference_region),
         (''active_organization_id'', tok_active_organization_id)]
    \<and> tok_authorized_at t = (if ''authorized_at_unix_ms'' \<in> set cl then 0 else keep_int (tok_authorized_at old) (tok_authorized_at tok))"
proof -
  obtain t where t: "clear_all cl (mergeFields old tok) = Some t" using clear_all_total [OF assms] by blast
  note g = clear_all_keeps_grant [OF t]
  have "mergeOAuth old tok cl = Some t" by (simp add: mergeOAuth_def t)
  then show ?thesis using clear_all_fields [OF t] g unfolding string_fields_def
    by (intro exI [of _ t]) (simp add: mergeFields_def)
qed

theorem merge_keeps_unless_cleared_witness:
  "\<exists>t. mergeOAuth (zeroToken\<lparr>tok_email := ''e'', tok_access := ''a''\<rparr>) zeroToken [''email''] = Some t \<and> tok_access t = ''a'' \<and> tok_email t = []"
proof -
  have "ValidOAuthClearFields [''email'']" by (simp add: oauthClearable_def)
  from merge_keeps_unless_cleared [OF this, of "zeroToken\<lparr>tok_email := ''e'', tok_access := ''a''\<rparr>" zeroToken]
  show ?thesis by (auto simp: keep_str_def zeroToken_def)
qed

end
