(* ===== verification/Delivery_Hold.thy ===== *)
theory Delivery_Hold
  imports Comms_Types "HOL-Library.Multiset"
begin

text \<open>
  The settle gate of message delivery, \<open>src/go/internal/delivery/settle.go\<close> with the state of
  \<open>consumer.go\<close> and \<open>hold\<close> of \<open>dispatch.go\<close>: a post of an agent with a live session is held until the
  author's turn settles, a settle edge is queued by the hub's goroutine and fires the held
  posts from the consumer's loop, and a restart of the agent begins a new generation of turn
  sequences.

  Every critical section under \<open>mu\<close> is one operation, so the goroutines' interleavings are
  the sequences of operations. The wall clock, the tenant and the trace of the context are
  arguments. Times and turn sequences are numbers; that they fit 64 bits is used only for
  the commit times, which are at most \<open>MaxInt64\<close>. The channel \<open>notify\<close> is buffered with one
  slot: a flag.
\<close>

section \<open>Data\<close>

definition MaxInt64 :: int where
  "MaxInt64 = 9223372036854775807"

record heldEntry =
  he_message_id :: string
  he_traceparent :: string
  he_tenant :: TenantID
  he_at :: int
  he_turn :: nat
  he_gen :: nat

record settleEvent =
  sv_session :: string
  sv_state :: agent_session_state
  sv_turn :: nat
  sv_up_to :: int
  sv_gen :: nat

record startEvent =
  sa_session :: string
  sa_account :: AccountID

record lostEvent =
  lo_account :: AccountID
  lo_errored :: bool
  lo_deferred :: bool

record erroredBackoff =
  eb_strikes :: nat
  eb_last :: int
  eb_pending :: bool

record Consumer =
  cn_held :: "(string, heldEntry list) gomap"
  cn_last_settle :: "(string, int) gomap"
  cn_last_settle_sequence :: "(string, nat) gomap"
  cn_last_settle_legacy :: "(string, bool) gomap"
  cn_generation :: "(string, nat) gomap"
  cn_generation_start :: "(string, int) gomap"
  cn_fallback_logged :: "string list"
  cn_settle_queue :: "settleEvent list"
  cn_start_queue :: "startEvent list"
  cn_lost_queue :: "lostEvent list"
  cn_owed_rewake :: bool
  cn_recovery_pending :: bool
  cn_notify :: bool
  cn_errored_wakes :: "(AccountID, erroredBackoff) gomap"

definition NewConsumer :: Consumer where
  "NewConsumer = \<lparr>cn_held = [], cn_last_settle = [], cn_last_settle_sequence = [], cn_last_settle_legacy = [],
     cn_generation = [], cn_generation_start = [], cn_fallback_logged = [], cn_settle_queue = [], cn_start_queue = [],
     cn_lost_queue = [], cn_owed_rewake = False, cn_recovery_pending = False, cn_notify = False, cn_errored_wakes = []\<rparr>"

text \<open>What the code reads of the maps: a missing key is the zero value.\<close>

abbreviation held_of :: "Consumer \<Rightarrow> string \<Rightarrow> heldEntry list" where
  "held_of c s \<equiv> gm_getz [] (cn_held c) s"

abbreviation gen_of :: "Consumer \<Rightarrow> string \<Rightarrow> nat" where
  "gen_of c s \<equiv> gm_getz 0 (cn_generation c) s"

abbreviation seq_of :: "Consumer \<Rightarrow> string \<Rightarrow> nat" where
  "seq_of c s \<equiv> gm_getz 0 (cn_last_settle_sequence c) s"

abbreviation legacy_of :: "Consumer \<Rightarrow> string \<Rightarrow> bool" where
  "legacy_of c s \<equiv> gm_getz False (cn_last_settle_legacy c) s"

text \<open>The non-blocking send on \<open>notify\<close>.\<close>

definition wakeup :: "Consumer \<Rightarrow> Consumer" where
  "wakeup c = c\<lparr>cn_notify := True\<rparr>"

section \<open>Holding a post\<close>

text \<open>\<open>slices.BinarySearchFunc\<close> with the comparison of \<open>hold\<close>: the loop on the bounds \<open>i\<close> and \<open>j\<close>.\<close>

function search_after :: "heldEntry list \<Rightarrow> int \<Rightarrow> nat \<Rightarrow> nat \<Rightarrow> nat" where
  "search_after entries at i j =
     (if i < j then (let h = (i + j) div 2 in
        if he_at (entries ! h) \<le> at then search_after entries at (h + 1) j else search_after entries at i h)
      else i)"
  by pat_completeness auto
termination by (relation "measure (\<lambda>(_, _, i, j). j - i)") auto

declare search_after.simps [simp del]

definition insert_at :: "nat \<Rightarrow> 'a \<Rightarrow> 'a list \<Rightarrow> 'a list" where
  "insert_at i x xs = take i xs @ x # drop i xs"

text \<open>A post committed before the restart is the old identity's: it drops its turn sequence.\<close>

definition old_identity :: "Consumer \<Rightarrow> string \<Rightarrow> int \<Rightarrow> bool" where
  "old_identity c sess at = (case gm_get (cn_generation_start c) sess of None \<Rightarrow> False | Some start \<Rightarrow> at < start)"

definition hold_entry :: "string \<Rightarrow> TenantID option \<Rightarrow> string \<Rightarrow> string \<Rightarrow> int \<Rightarrow> nat \<Rightarrow> Consumer \<Rightarrow> heldEntry" where
  "hold_entry tp tenant sess msg at turn c =
     \<lparr>he_message_id = msg, he_traceparent = tp, he_tenant = (case tenant of None \<Rightarrow> [] | Some t \<Rightarrow> t),
      he_at = at, he_turn = (if old_identity c sess at then 0 else turn), he_gen = gen_of c sess\<rparr>"

text \<open>The replayed settle edge of a late hold, if the hold is eligible for one.\<close>

definition hold_replay :: "string \<Rightarrow> heldEntry \<Rightarrow> Consumer \<Rightarrow> settleEvent option" where
  "hold_replay sess entry c =
    (case gm_get (cn_last_settle c) sess of None \<Rightarrow> None
     | Some settled \<Rightarrow>
        (let oldIdentity = old_identity c sess (he_at entry);
             legacySettle = legacy_of c sess;
             sequenceObserved = (0 < he_turn entry \<and> he_turn entry \<le> seq_of c sess)
         in if sequenceObserved \<or> oldIdentity \<or> (legacySettle \<and> he_at entry \<le> settled)
            then (let (upTo, replay) =
                    (if oldIdentity then (gm_getz 0 (cn_generation_start c) sess - 1, 0)
                     else if he_turn entry = 0 \<or> legacySettle then (settled, 0)
                     else (MaxInt64, he_turn entry))
                  in Some \<lparr>sv_session = sess, sv_state = AGENT_SESSION_STATE_READY, sv_turn = replay, sv_up_to = upTo,
                           sv_gen = he_gen entry\<rparr>)
            else None))"

definition hold :: "string \<Rightarrow> TenantID option \<Rightarrow> string \<Rightarrow> string \<Rightarrow> int \<Rightarrow> nat \<Rightarrow> Consumer \<Rightarrow> Consumer" where
  "hold tp tenant sess msg at turn c =
    (let entry = hold_entry tp tenant sess msg at turn c;
         entries = held_of c sess;
         i = search_after entries at 0 (length entries);
         c1 = c\<lparr>cn_held := gm_put sess (insert_at i entry entries) (cn_held c)\<rparr>
     in case hold_replay sess entry c of
          None \<Rightarrow> c1
        | Some ev \<Rightarrow> wakeup (c1\<lparr>cn_settle_queue := cn_settle_queue c1 @ [ev]\<rparr>))"

section \<open>Settle edges\<close>

fun firesHeldDelivers :: "agent_session_state \<Rightarrow> bool" where
  "firesHeldDelivers AGENT_SESSION_STATE_READY = True"
| "firesHeldDelivers AGENT_SESSION_STATE_STOPPED = True"
| "firesHeldDelivers AGENT_SESSION_STATE_ERRORED = True"
| "firesHeldDelivers _ = False"

definition startGeneration :: "int \<Rightarrow> string \<Rightarrow> Consumer \<Rightarrow> Consumer" where
  "startGeneration now sess c =
    (let gen = gen_of c sess + 1;
         c1 = c\<lparr>cn_generation := gm_put sess gen (cn_generation c),
                cn_generation_start := gm_put sess now (cn_generation_start c),
                cn_last_settle := gm_del sess (cn_last_settle c),
                cn_last_settle_sequence := gm_del sess (cn_last_settle_sequence c),
                cn_last_settle_legacy := gm_del sess (cn_last_settle_legacy c)\<rparr>
     in case gm_get (cn_held c1) sess of None \<Rightarrow> c1
        | Some es \<Rightarrow> c1\<lparr>cn_held := gm_put sess (map (\<lambda>e. e\<lparr>he_turn := 0, he_gen := gen\<rparr>) es) (cn_held c1)\<rparr>)"

definition OnSessionSettled :: "int \<Rightarrow> string \<Rightarrow> agent_session_state \<Rightarrow> nat \<Rightarrow> Consumer \<Rightarrow> Consumer" where
  "OnSessionSettled now sess state turn c =
    (if state = AGENT_SESSION_STATE_STARTING then startGeneration now sess c
     else if \<not> firesHeldDelivers state then c
     else (let c1 = c\<lparr>cn_settle_queue := cn_settle_queue c @
                [\<lparr>sv_session = sess, sv_state = state, sv_turn = turn, sv_up_to = MaxInt64, sv_gen = gen_of c sess\<rparr>],
                cn_last_settle := gm_put sess now (cn_last_settle c)\<rparr>;
               c2 = (if seq_of c1 sess < turn
                     then c1\<lparr>cn_last_settle_sequence := gm_put sess turn (cn_last_settle_sequence c1),
                             cn_last_settle_legacy := gm_put sess False (cn_last_settle_legacy c1)\<rparr>
                     else c1);
               c3 = (if turn = 0 then c2\<lparr>cn_last_settle_legacy := gm_put sess True (cn_last_settle_legacy c2)\<rparr> else c2)
           in wakeup c3))"

text \<open>The test \<open>withinTime && withinTurn\<close> of \<open>fireHeld\<close>.\<close>

definition fires :: "int \<Rightarrow> nat \<Rightarrow> nat \<Rightarrow> heldEntry \<Rightarrow> bool" where
  "fires upTo turn gen e \<longleftrightarrow>
     he_at e \<le> upTo \<and> he_gen e \<le> gen \<and> (turn = 0 \<or> he_turn e = 0 \<or> he_turn e \<le> turn)"

text \<open>The critical section of \<open>fireHeld\<close>: the entries to dispatch, in order, and the registry without them.\<close>

definition fireHeld :: "string \<Rightarrow> int \<Rightarrow> nat \<Rightarrow> nat \<Rightarrow> Consumer \<Rightarrow> Consumer \<times> heldEntry list" where
  "fireHeld sess upTo turn gen c =
    (let es = held_of c sess;
         fire = filter (fires upTo turn gen) es;
         keep = filter (\<lambda>e. \<not> fires upTo turn gen e) es
     in (if keep = [] then c\<lparr>cn_held := gm_del sess (cn_held c)\<rparr>
         else c\<lparr>cn_held := gm_put sess keep (cn_held c)\<rparr>, fire))"

text \<open>One round of \<open>drainSettles\<close>, and the loop.\<close>

definition drain_settle :: "Consumer \<Rightarrow> Consumer \<times> heldEntry list" where
  "drain_settle c =
    (case cn_settle_queue c of
       [] \<Rightarrow> (c, [])
     | ev # rest \<Rightarrow>
         (let c1 = c\<lparr>cn_settle_queue := rest,
                cn_fallback_logged := (if sv_turn ev = 0 then List.insert (sv_session ev) (cn_fallback_logged c)
                                       else cn_fallback_logged c)\<rparr>
          in fireHeld (sv_session ev) (sv_up_to ev) (sv_turn ev) (sv_gen ev) c1))"

lemma fireHeld_queue [simp]: "cn_settle_queue (fst (fireHeld s u t g c)) = cn_settle_queue c"
  by (simp add: fireHeld_def Let_def)

function drainSettles :: "Consumer \<Rightarrow> Consumer \<times> heldEntry list" where
  "drainSettles c =
    (if cn_settle_queue c = [] then (c, [])
     else let (c1, fired) = drain_settle c; (c2, more) = drainSettles c1 in (c2, fired @ more))"
  by pat_completeness auto
termination
proof (relation "measure (\<lambda>c. length (cn_settle_queue c))", goal_cases)
  case (2 c p c1 fired)
  have "cn_settle_queue (fst (drain_settle c)) = tl (cn_settle_queue c)"
    by (cases "cn_settle_queue c") (simp_all add: drain_settle_def)
  then show ?case using 2 by (metis fst_conv in_measure length_tl diff_less length_greater_0_conv zero_less_one)
qed simp

declare drainSettles.simps [simp del]

lemma drainSettles_done: "cn_settle_queue c = [] \<Longrightarrow> drainSettles c = (c, [])"
  by (subst drainSettles.simps) simp

lemma drainSettles_step: "cn_settle_queue c \<noteq> [] \<Longrightarrow> drainSettles c =
    (fst (drainSettles (fst (drain_settle c))), snd (drain_settle c) @ snd (drainSettles (fst (drain_settle c))))"
  by (subst drainSettles.simps) (simp add: case_prod_beta)

lemma drainSettles_induct [case_names round]:
  assumes "\<And>c. (cn_settle_queue c \<noteq> [] \<Longrightarrow> P (fst (drain_settle c))) \<Longrightarrow> P c"
  shows "P c"
proof (induction c rule: drainSettles.induct)
  case (1 c)
  then show ?case using assms [of c] by (metis prod.collapse)
qed

section \<open>Teardown and recovery\<close>

definition reap_one :: "string \<Rightarrow> Consumer \<Rightarrow> Consumer" where
  "reap_one sid c = c\<lparr>cn_held := gm_del sid (cn_held c), cn_last_settle := gm_del sid (cn_last_settle c),
     cn_last_settle_sequence := gm_del sid (cn_last_settle_sequence c),
     cn_last_settle_legacy := gm_del sid (cn_last_settle_legacy c),
     cn_generation := gm_del sid (cn_generation c), cn_generation_start := gm_del sid (cn_generation_start c),
     cn_fallback_logged := removeAll sid (cn_fallback_logged c)\<rparr>"

definition OnSessionsReaped :: "string list \<Rightarrow> Consumer \<Rightarrow> Consumer" where
  "OnSessionsReaped sids c = fold reap_one sids c"

definition forget_settles :: "string \<Rightarrow> Consumer \<Rightarrow> Consumer" where
  "forget_settles sid c = c\<lparr>cn_last_settle := gm_del sid (cn_last_settle c),
     cn_last_settle_sequence := gm_del sid (cn_last_settle_sequence c),
     cn_last_settle_legacy := gm_del sid (cn_last_settle_legacy c),
     cn_generation := gm_del sid (cn_generation c), cn_generation_start := gm_del sid (cn_generation_start c),
     cn_fallback_logged := removeAll sid (cn_fallback_logged c)\<rparr>"

definition forget_generation :: "string \<Rightarrow> Consumer \<Rightarrow> Consumer" where
  "forget_generation sid c = c\<lparr>cn_generation := gm_del sid (cn_generation c),
     cn_generation_start := gm_del sid (cn_generation_start c)\<rparr>"

definition requestRecovery :: "Consumer \<Rightarrow> Consumer" where
  "requestRecovery c = wakeup (c\<lparr>cn_recovery_pending := True\<rparr>)"

text \<open>The two loops of \<open>drainRecovery\<close> that drop the state of sessions with no live binding.\<close>

definition prune_dead :: "string list \<Rightarrow> Consumer \<Rightarrow> Consumer" where
  "prune_dead live c =
    (let c1 = fold (\<lambda>sid c. if sid \<in> set live then c else forget_settles sid c) (map fst (cn_last_settle c)) c
     in fold (\<lambda>sid c. if sid \<in> set live then c else forget_generation sid c) (map fst (cn_generation c1)) c1)"

text \<open>The ids the sweeps leave to \<open>fireHeld\<close>, and the check the mention scan makes.\<close>

definition heldIDs :: "string list \<Rightarrow> Consumer \<Rightarrow> string list" where
  "heldIDs live c = concat (map (\<lambda>(sid, es). if sid \<in> set live then map he_message_id es else []) (cn_held c))"

definition messageHeld :: "string \<Rightarrow> Consumer \<Rightarrow> bool" where
  "messageHeld msg c = list_ex (\<lambda>(_, es). list_ex (\<lambda>e. he_message_id e = msg) es) (cn_held c)"

section \<open>Executions\<close>

datatype gate_op =
    GHold string "TenantID option" string string int nat
  | GSettled int string agent_session_state nat
  | GDrain
  | GReaped "string list"
  | GPrune "string list"

fun gate_exec :: "gate_op \<Rightarrow> Consumer \<Rightarrow> Consumer" where
  "gate_exec (GHold tp ten s msg at turn) c = hold tp ten s msg at turn c"
| "gate_exec (GSettled now s st turn) c = OnSessionSettled now s st turn c"
| "gate_exec GDrain c = fst (drain_settle c)"
| "gate_exec (GReaped sids) c = OnSessionsReaped sids c"
| "gate_exec (GPrune live) c = prune_dead live c"

text \<open>A run whose every step meets a condition on the environment.\<close>

inductive gate_run :: "(gate_op \<Rightarrow> Consumer \<Rightarrow> bool) \<Rightarrow> Consumer \<Rightarrow> gate_op list \<Rightarrow> Consumer \<Rightarrow> bool"
  for ok :: "gate_op \<Rightarrow> Consumer \<Rightarrow> bool" where
  gate_nil: "gate_run ok c [] c"
| gate_snoc: "gate_run ok c ops c' \<Longrightarrow> ok op c' \<Longrightarrow> gate_run ok c (ops @ [op]) (gate_exec op c')"

lemma gate_run_inv:
  assumes "gate_run ok c ops c'" and "I [] c"
    and "\<And>ops op c. I ops c \<Longrightarrow> ok op c \<Longrightarrow> I (ops @ [op]) (gate_exec op c)"
  shows "I ops c'"
  using assms by (induction rule: gate_run.induct) auto

section \<open>The operations, map by map\<close>

lemma hold_fields [simp]:
  "cn_last_settle (hold tp ten s msg at turn c) = cn_last_settle c"
  "cn_last_settle_sequence (hold tp ten s msg at turn c) = cn_last_settle_sequence c"
  "cn_last_settle_legacy (hold tp ten s msg at turn c) = cn_last_settle_legacy c"
  "cn_generation (hold tp ten s msg at turn c) = cn_generation c"
  "cn_generation_start (hold tp ten s msg at turn c) = cn_generation_start c"
  by (simp_all add: hold_def Let_def wakeup_def split: option.splits)

lemma hold_queue: "cn_settle_queue (hold tp ten s msg at turn c)
    = cn_settle_queue c @ (case hold_replay s (hold_entry tp ten s msg at turn c) c of None \<Rightarrow> [] | Some ev \<Rightarrow> [ev])"
  by (simp add: hold_def Let_def wakeup_def split: option.splits)

lemma hold_held: "held_of (hold tp ten s msg at turn c) s' =
    (if s' = s then insert_at (search_after (held_of c s) at 0 (length (held_of c s))) (hold_entry tp ten s msg at turn c) (held_of c s)
     else held_of c s')"
  by (simp add: hold_def Let_def wakeup_def split: option.splits)

lemma set_insert_at [simp]: "set (insert_at i x xs) = insert x (set xs)"
  by (metis append_take_drop_id insert_at_def list.simps(15) set_append Un_insert_right)

lemma settled_ignored: "state \<noteq> AGENT_SESSION_STATE_STARTING \<Longrightarrow> \<not> firesHeldDelivers state \<Longrightarrow> OnSessionSettled now s state turn c = c"
  by (simp add: OnSessionSettled_def)

lemma settled_start: "OnSessionSettled now s AGENT_SESSION_STATE_STARTING turn c = startGeneration now s c"
  by (simp add: OnSessionSettled_def)

lemma settled_edge:
  assumes "firesHeldDelivers state"
  shows "cn_held (OnSessionSettled now s state turn c) = cn_held c"
    and "cn_generation (OnSessionSettled now s state turn c) = cn_generation c"
    and "cn_generation_start (OnSessionSettled now s state turn c) = cn_generation_start c"
    and "cn_settle_queue (OnSessionSettled now s state turn c) = cn_settle_queue c @
      [\<lparr>sv_session = s, sv_state = state, sv_turn = turn, sv_up_to = MaxInt64, sv_gen = gen_of c s\<rparr>]"
    and "gm_get (cn_last_settle (OnSessionSettled now s state turn c)) s' = (if s' = s then Some now else gm_get (cn_last_settle c) s')"
    and "seq_of (OnSessionSettled now s state turn c) s' = (if s' = s then max (seq_of c s) turn else seq_of c s')"
    and "legacy_of (OnSessionSettled now s state turn c) s' =
      (if s' = s then (turn = 0 \<or> (legacy_of c s \<and> turn \<le> seq_of c s)) else legacy_of c s')"
  using assms by (auto simp: OnSessionSettled_def Let_def wakeup_def)

lemma start_fields:
  "cn_settle_queue (startGeneration now s c) = cn_settle_queue c"
  "gen_of (startGeneration now s c) s' = (if s' = s then gen_of c s + 1 else gen_of c s')"
  "gm_get (cn_generation_start (startGeneration now s c)) s' = (if s' = s then Some now else gm_get (cn_generation_start c) s')"
  "gm_get (cn_last_settle (startGeneration now s c)) s' = (if s' = s then None else gm_get (cn_last_settle c) s')"
  "seq_of (startGeneration now s c) s' = (if s' = s then 0 else seq_of c s')"
  "legacy_of (startGeneration now s c) s' = (if s' = s then False else legacy_of c s')"
  "held_of (startGeneration now s c) s' =
     (if s' = s then map (\<lambda>e. e\<lparr>he_turn := 0, he_gen := gen_of c s + 1\<rparr>) (held_of c s) else held_of c s')"
  by (auto simp: startGeneration_def Let_def gm_getz_def split: option.splits)

lemma fireHeld_fields [simp]:
  "cn_generation (fst (fireHeld s u t g c)) = cn_generation c"
  "cn_generation_start (fst (fireHeld s u t g c)) = cn_generation_start c"
  "cn_last_settle (fst (fireHeld s u t g c)) = cn_last_settle c"
  "cn_last_settle_sequence (fst (fireHeld s u t g c)) = cn_last_settle_sequence c"
  "cn_last_settle_legacy (fst (fireHeld s u t g c)) = cn_last_settle_legacy c"
  by (simp_all add: fireHeld_def Let_def)

lemma fireHeld_held: "held_of (fst (fireHeld s u t g c)) s' =
    (if s' = s then filter (\<lambda>e. \<not> fires u t g e) (held_of c s) else held_of c s')"
  by (simp add: fireHeld_def Let_def)

lemma drain_fields [simp]:
  "cn_generation (fst (drain_settle c)) = cn_generation c"
  "cn_generation_start (fst (drain_settle c)) = cn_generation_start c"
  "cn_last_settle (fst (drain_settle c)) = cn_last_settle c"
  "cn_last_settle_sequence (fst (drain_settle c)) = cn_last_settle_sequence c"
  "cn_last_settle_legacy (fst (drain_settle c)) = cn_last_settle_legacy c"
  "cn_settle_queue (fst (drain_settle c)) = tl (cn_settle_queue c)"
  by (simp_all add: drain_settle_def Let_def split: list.split)

lemma drain_held: "held_of (fst (drain_settle c)) s =
    (case cn_settle_queue c of [] \<Rightarrow> held_of c s
     | ev # _ \<Rightarrow> if s = sv_session ev then filter (\<lambda>e. \<not> fires (sv_up_to ev) (sv_turn ev) (sv_gen ev) e) (held_of c s) else held_of c s)"
  by (simp add: drain_settle_def Let_def fireHeld_held split: list.split)

lemma reap_fields:
  "cn_settle_queue (OnSessionsReaped sids c) = cn_settle_queue c"
  "held_of (OnSessionsReaped sids c) s = (if s \<in> set sids then [] else held_of c s)"
  "gen_of (OnSessionsReaped sids c) s = (if s \<in> set sids then 0 else gen_of c s)"
  "gm_get (cn_generation_start (OnSessionsReaped sids c)) s = (if s \<in> set sids then None else gm_get (cn_generation_start c) s)"
  "gm_get (cn_last_settle (OnSessionsReaped sids c)) s = (if s \<in> set sids then None else gm_get (cn_last_settle c) s)"
  "seq_of (OnSessionsReaped sids c) s = (if s \<in> set sids then 0 else seq_of c s)"
  "legacy_of (OnSessionsReaped sids c) s = (if s \<in> set sids then False else legacy_of c s)"
  by (induction sids arbitrary: c) (auto simp: OnSessionsReaped_def reap_one_def)

lemma forget_settles_fold:
  "cn_held (fold (\<lambda>sid c. if sid \<in> set live then c else forget_settles sid c) ks c) = cn_held c"
  "cn_settle_queue (fold (\<lambda>sid c. if sid \<in> set live then c else forget_settles sid c) ks c) = cn_settle_queue c"
  "gm_get (cn_last_settle (fold (\<lambda>sid c. if sid \<in> set live then c else forget_settles sid c) ks c)) s
     = (if s \<in> set ks - set live then None else gm_get (cn_last_settle c) s)"
  "gm_get (cn_generation (fold (\<lambda>sid c. if sid \<in> set live then c else forget_settles sid c) ks c)) s
     = (if s \<in> set ks - set live then None else gm_get (cn_generation c) s)"
  "gm_get (cn_generation_start (fold (\<lambda>sid c. if sid \<in> set live then c else forget_settles sid c) ks c)) s
     = (if s \<in> set ks - set live then None else gm_get (cn_generation_start c) s)"
  "seq_of (fold (\<lambda>sid c. if sid \<in> set live then c else forget_settles sid c) ks c) s
     = (if s \<in> set ks - set live then 0 else seq_of c s)"
  "legacy_of (fold (\<lambda>sid c. if sid \<in> set live then c else forget_settles sid c) ks c) s
     = (if s \<in> set ks - set live then False else legacy_of c s)"
  by (induction ks arbitrary: c) (auto simp: forget_settles_def)

lemma forget_generation_fold:
  "cn_held (fold (\<lambda>sid c. if sid \<in> set live then c else forget_generation sid c) ks c) = cn_held c"
  "cn_settle_queue (fold (\<lambda>sid c. if sid \<in> set live then c else forget_generation sid c) ks c) = cn_settle_queue c"
  "cn_last_settle (fold (\<lambda>sid c. if sid \<in> set live then c else forget_generation sid c) ks c) = cn_last_settle c"
  "cn_last_settle_sequence (fold (\<lambda>sid c. if sid \<in> set live then c else forget_generation sid c) ks c) = cn_last_settle_sequence c"
  "cn_last_settle_legacy (fold (\<lambda>sid c. if sid \<in> set live then c else forget_generation sid c) ks c) = cn_last_settle_legacy c"
  "gm_get (cn_generation (fold (\<lambda>sid c. if sid \<in> set live then c else forget_generation sid c) ks c)) s
     = (if s \<in> set ks - set live then None else gm_get (cn_generation c) s)"
  "gm_get (cn_generation_start (fold (\<lambda>sid c. if sid \<in> set live then c else forget_generation sid c) ks c)) s
     = (if s \<in> set ks - set live then None else gm_get (cn_generation_start c) s)"
  by (induction ks arbitrary: c) (auto simp: forget_generation_def)

lemma prune_fields:
  "cn_held (prune_dead live c) = cn_held c"
  "cn_settle_queue (prune_dead live c) = cn_settle_queue c"
  "gm_get (cn_last_settle (prune_dead live c)) s = (if s \<in> set live then gm_get (cn_last_settle c) s else None)"
  "gen_of (prune_dead live c) s = (if s \<in> set live then gen_of c s else 0)"
  by (auto simp: prune_dead_def Let_def forget_settles_fold forget_generation_fold gm_getz_def gm_keys_iff)

lemma prune_live:
  assumes "s \<in> set live"
  shows "gm_get (cn_generation_start (prune_dead live c)) s = gm_get (cn_generation_start c) s"
    and "seq_of (prune_dead live c) s = seq_of c s" and "legacy_of (prune_dead live c) s = legacy_of c s"
  using assms by (auto simp: prune_dead_def Let_def forget_settles_fold forget_generation_fold)

lemma prune_seq: "(0 < seq_of c s \<longrightarrow> gm_get (cn_last_settle c) s \<noteq> None) \<Longrightarrow>
    seq_of (prune_dead live c) s = (if s \<in> set live then seq_of c s else 0)"
  "(legacy_of c s \<longrightarrow> gm_get (cn_last_settle c) s \<noteq> None) \<Longrightarrow>
    legacy_of (prune_dead live c) s \<longleftrightarrow> s \<in> set live \<and> legacy_of c s"
  by (auto simp: prune_dead_def Let_def forget_settles_fold forget_generation_fold gm_keys_iff)

section \<open>Order of the held posts\<close>

lemma search_after_bounds: "i \<le> j \<Longrightarrow> i \<le> search_after es at i j \<and> search_after es at i j \<le> j"
proof (induction es at i j rule: search_after.induct)
  case (1 es at i j)
  let ?h = "(i + j) div 2"
  show ?case
  proof (cases "i < j")
    case True
    then have h: "i \<le> ?h" "?h < j" by auto
    show ?thesis using 1 True h by (subst (1 2) search_after.simps) (auto simp: Let_def intro: le_trans)
  next
    case False
    then show ?thesis using 1(3) by (subst (1 2) search_after.simps) auto
  qed
qed

lemma search_after_split:
  assumes "sorted (map he_at es)" and "i \<le> j" and "j \<le> length es"
    and "\<forall>k < i. he_at (es ! k) \<le> at" and "\<forall>k. j \<le> k \<and> k < length es \<longrightarrow> at < he_at (es ! k)"
  shows "(\<forall>k < search_after es at i j. he_at (es ! k) \<le> at)
    \<and> (\<forall>k. search_after es at i j \<le> k \<and> k < length es \<longrightarrow> at < he_at (es ! k))"
  using assms
proof (induction es at i j rule: search_after.induct)
  case (1 es at i j)
  let ?h = "(i + j) div 2"
  show ?case
  proof (cases "i < j")
    case True
    then have h: "i \<le> ?h" "?h < j" "?h < length es" using 1(5) by auto
    have mono: "he_at (es ! a) \<le> he_at (es ! b)" if "a \<le> b" "b < length es" for a b
      using sorted_nth_mono [OF 1(3) that(1)] that by simp
    show ?thesis
    proof (cases "he_at (es ! ?h) \<le> at")
      case le: True
      have low: "\<forall>k < ?h + 1. he_at (es ! k) \<le> at"
      proof (intro allI impI)
        fix k assume "k < ?h + 1"
        then have "he_at (es ! k) \<le> he_at (es ! ?h)" by (intro mono [OF _ h(3)]) simp
        then show "he_at (es ! k) \<le> at" using le by simp
      qed
      have "search_after es at i j = search_after es at (?h + 1) j"
        using True le by (subst search_after.simps) (simp add: Let_def)
      then show ?thesis using 1(1) [OF True refl le 1(3) _ 1(5) low 1(7)] h by simp
    next
      case gt: False
      have high: "\<forall>k. ?h \<le> k \<and> k < length es \<longrightarrow> at < he_at (es ! k)"
      proof (intro allI impI)
        fix k assume "?h \<le> k \<and> k < length es"
        then have "he_at (es ! ?h) \<le> he_at (es ! k)" by (intro mono) simp_all
        then show "at < he_at (es ! k)" using gt by simp
      qed
      have "search_after es at i j = search_after es at i ?h"
        using True gt by (subst search_after.simps) (simp add: Let_def)
      then show ?thesis using 1(2) [OF True refl gt 1(3) h(1) _ 1(6) high] h by simp
    qed
  next
    case False
    then show ?thesis using 1(4,6,7) by (subst (1 2) search_after.simps) auto
  qed
qed

lemma search_after_insert:
  assumes "sorted (map he_at es)"
  shows "insert_at (search_after es at 0 (length es)) e es = takeWhile (\<lambda>x. he_at x \<le> at) es @ e # dropWhile (\<lambda>x. he_at x \<le> at) es"
proof -
  let ?i = "search_after es at 0 (length es)"
  have le: "?i \<le> length es" using search_after_bounds by blast
  have sp: "(\<forall>k < ?i. he_at (es ! k) \<le> at) \<and> (\<forall>k. ?i \<le> k \<and> k < length es \<longrightarrow> at < he_at (es ! k))"
    using search_after_split [OF assms, of 0 "length es" at] by auto
  have "takeWhile (\<lambda>x. he_at x \<le> at) es = take ?i es"
    using sp le by (intro takeWhile_eq_take_P_nth) auto
  moreover then have "dropWhile (\<lambda>x. he_at x \<le> at) es = drop ?i es"
    by (metis append_eq_conv_conj length_take min.absorb2 le takeWhile_dropWhile_id)
  ultimately show ?thesis by (simp add: insert_at_def)
qed

lemma sorted_insert_at:
  assumes "sorted (map he_at es)" and "he_at e = at"
  shows "sorted (map he_at (takeWhile (\<lambda>x. he_at x \<le> at) es @ e # dropWhile (\<lambda>x. he_at x \<le> at) es))"
  using assms by (induction es) (auto simp: dest: set_takeWhileD set_dropWhileD)

lemma hold_sorted:
  assumes "sorted (map he_at (held_of c s))"
  shows "held_of (hold tp ten s msg at turn c) s = takeWhile (\<lambda>x. he_at x \<le> at) (held_of c s)
      @ hold_entry tp ten s msg at turn c # dropWhile (\<lambda>x. he_at x \<le> at) (held_of c s)"
    and "sorted (map he_at (held_of (hold tp ten s msg at turn c) s))"
  using assms sorted_insert_at [OF assms, of "hold_entry tp ten s msg at turn c" at]
  by (simp_all add: hold_held search_after_insert hold_entry_def)

lemma held_sorted_step:
  assumes "\<And>s. sorted (map he_at (held_of c s))"
  shows "sorted (map he_at (held_of (gate_exec op c) s))"
proof (cases op)
  case (GHold tp ten s' msg at turn)
  then show ?thesis using assms hold_sorted(2) [OF assms] by (cases "s' = s") (simp_all add: hold_held)
next
  case (GSettled now s' st turn)
  consider "st = AGENT_SESSION_STATE_STARTING" | "firesHeldDelivers st" | "st \<noteq> AGENT_SESSION_STATE_STARTING" "\<not> firesHeldDelivers st" by blast
  then show ?thesis
  proof cases
    case 1
    then show ?thesis using GSettled assms by (simp add: settled_start start_fields comp_def)
  qed (use GSettled assms in \<open>simp_all add: settled_edge settled_ignored\<close>)
next
  case GDrain
  then show ?thesis using assms by (simp add: drain_held sorted_filter split: list.split)
qed (use assms in \<open>simp_all add: reap_fields prune_fields\<close>)

section \<open>Release of settled posts\<close>

text \<open>What the environment guarantees. A commit time is a 64-bit number. After a settle with no
  sequence the code falls back on times: a post of an already settled turn was committed
  before that settle, by the same clock. And a session with held posts keeps its binding
  when the recovery pass prunes.\<close>

fun gate_env :: "gate_op \<Rightarrow> Consumer \<Rightarrow> bool" where
  "gate_env (GHold tp ten s msg at turn) c \<longleftrightarrow> at \<le> MaxInt64 \<and>
     (0 < turn \<and> turn \<le> seq_of c s \<and> legacy_of c s \<longrightarrow> (case gm_get (cn_last_settle c) s of None \<Rightarrow> False | Some t \<Rightarrow> at \<le> t))"
| "gate_env (GPrune live) c \<longleftrightarrow> list_all (\<lambda>(s, es). s \<in> set live \<or> es = []) (cn_held c)"
| "gate_env _ c \<longleftrightarrow> True"

text \<open>The posts whose turn has settled: by its sequence, or as a post of the old identity when the
  new one has settled.\<close>

definition settled_post :: "Consumer \<Rightarrow> string \<Rightarrow> heldEntry \<Rightarrow> bool" where
  "settled_post c s e \<longleftrightarrow> (0 < he_turn e \<and> he_turn e \<le> seq_of c s)
     \<or> (old_identity c s (he_at e) \<and> gm_get (cn_last_settle c) s \<noteq> None)"

definition entry_ok :: "Consumer \<Rightarrow> string \<Rightarrow> heldEntry \<Rightarrow> bool" where
  "entry_ok c s e \<longleftrightarrow> he_at e \<le> MaxInt64 \<and> he_gen e = gen_of c s \<and> (old_identity c s (he_at e) \<longrightarrow> he_turn e = 0)"

definition fires_ev :: "settleEvent \<Rightarrow> string \<Rightarrow> heldEntry \<Rightarrow> bool" where
  "fires_ev ev s e \<longleftrightarrow> sv_session ev = s \<and> fires (sv_up_to ev) (sv_turn ev) (sv_gen ev) e"

definition release_inv :: "Consumer \<Rightarrow> bool" where
  "release_inv c \<longleftrightarrow> (\<forall>s. (0 < seq_of c s \<or> legacy_of c s \<longrightarrow> gm_get (cn_last_settle c) s \<noteq> None)
     \<and> (\<forall>e \<in> set (held_of c s). entry_ok c s e \<and> (settled_post c s e \<longrightarrow> (\<exists>ev \<in> set (cn_settle_queue c). fires_ev ev s e))))"

lemma release_invD:
  assumes "release_inv c"
  shows "0 < seq_of c s \<Longrightarrow> gm_get (cn_last_settle c) s \<noteq> None" "legacy_of c s \<Longrightarrow> gm_get (cn_last_settle c) s \<noteq> None"
    and "e \<in> set (held_of c s) \<Longrightarrow> entry_ok c s e"
    and "e \<in> set (held_of c s) \<Longrightarrow> settled_post c s e \<Longrightarrow> \<exists>ev \<in> set (cn_settle_queue c). fires_ev ev s e"
  using assms unfolding release_inv_def by blast+

lemma release_invI:
  assumes "\<And>s. 0 < seq_of c s \<or> legacy_of c s \<Longrightarrow> gm_get (cn_last_settle c) s \<noteq> None"
    and "\<And>s e. e \<in> set (held_of c s) \<Longrightarrow> entry_ok c s e"
    and "\<And>s e. e \<in> set (held_of c s) \<Longrightarrow> settled_post c s e \<Longrightarrow> \<exists>ev \<in> set (cn_settle_queue c). fires_ev ev s e"
  shows "release_inv c"
  using assms unfolding release_inv_def by blast

lemma old_identity_cong: "gm_get (cn_generation_start c') s = gm_get (cn_generation_start c) s \<Longrightarrow> old_identity c' s at = old_identity c s at"
  by (simp add: old_identity_def)

lemma hold_released:
  assumes "0 < seq_of c s \<or> legacy_of c s \<longrightarrow> gm_get (cn_last_settle c) s \<noteq> None"
    and env: "gate_env (GHold tp ten s msg at turn) c"
    and e: "e = hold_entry tp ten s msg at turn c" and st: "settled_post c s e"
  shows "\<exists>ev. hold_replay s e c = Some ev \<and> fires_ev ev s e"
proof -
  have at: "he_at e = at" "he_gen e = gen_of c s" "he_turn e = (if old_identity c s at then 0 else turn)"
    by (simp_all add: e hold_entry_def)
  obtain t where t: "gm_get (cn_last_settle c) s = Some t" using st assms(1) by (auto simp: settled_post_def)
  show ?thesis
  proof (cases "old_identity c s at")
    case True
    then obtain start where start: "gm_get (cn_generation_start c) s = Some start" "at < start"
      by (auto simp: old_identity_def split: option.splits)
    then show ?thesis using t True at by (simp add: hold_replay_def Let_def fires_ev_def fires_def gm_getz_def)
  next
    case False
    then have sq: "0 < turn" "turn \<le> seq_of c s" using st at by (auto simp: settled_post_def)
    then show ?thesis using t False at env by (auto simp: hold_replay_def Let_def fires_ev_def fires_def)
  qed
qed

lemma release_inv_hold:
  assumes inv: "release_inv c" and env: "gate_env (GHold tp ten s msg at turn) c"
  shows "release_inv (hold tp ten s msg at turn c)"
proof (rule release_invI)
  let ?c = "hold tp ten s msg at turn c" and ?e = "hold_entry tp ten s msg at turn c"
  show "gm_get (cn_last_settle ?c) s' \<noteq> None" if "0 < seq_of ?c s' \<or> legacy_of ?c s'" for s'
    using that release_invD(1,2) [OF inv] by auto
  have cong: "entry_ok ?c s' e = entry_ok c s' e" "settled_post ?c s' e = settled_post c s' e" for s' e
    using old_identity_cong [of ?c s' c] by (simp_all add: entry_ok_def settled_post_def)
  have mem: "e \<in> set (held_of ?c s') \<longleftrightarrow> e \<in> set (held_of c s') \<or> (s' = s \<and> e = ?e)" for s' e by (auto simp: hold_held)
  have new: "entry_ok c s ?e" using env by (auto simp: entry_ok_def hold_entry_def)
  show "entry_ok ?c s' e" if "e \<in> set (held_of ?c s')" for s' e
    using that new release_invD(3) [OF inv] unfolding cong mem by blast
  show "\<exists>ev \<in> set (cn_settle_queue ?c). fires_ev ev s' e" if e: "e \<in> set (held_of ?c s')" "settled_post ?c s' e" for s' e
  proof (cases "e \<in> set (held_of c s')")
    case True
    then show ?thesis using e(2) release_invD(4) [OF inv True] unfolding cong by (auto simp: hold_queue)
  next
    case False
    then have "s' = s" "e = ?e" using e(1) mem by auto
    moreover have "0 < seq_of c s \<or> legacy_of c s \<longrightarrow> gm_get (cn_last_settle c) s \<noteq> None" using release_invD(1,2) [OF inv] by blast
    ultimately obtain ev where "hold_replay s ?e c = Some ev" "fires_ev ev s ?e"
      using hold_released [OF _ env refl] e(2) unfolding cong by blast
    then show ?thesis using \<open>s' = s\<close> \<open>e = ?e\<close> by (simp add: hold_queue)
  qed
qed

lemma release_inv_settled:
  assumes inv: "release_inv c" and st: "firesHeldDelivers st"
  shows "release_inv (OnSessionSettled now s st turn c)"
proof (rule release_invI)
  let ?c = "OnSessionSettled now s st turn c"
  note f = settled_edge [OF st]
  show "gm_get (cn_last_settle ?c) s' \<noteq> None" if "0 < seq_of ?c s' \<or> legacy_of ?c s'" for s'
    using that release_invD(1,2) [OF inv] by (auto simp: f split: if_splits)
  have oi: "old_identity ?c s' at = old_identity c s' at" for s' at by (rule old_identity_cong) (simp add: f)
  have held: "held_of ?c s' = held_of c s'" for s' by (simp add: f)
  show "entry_ok ?c s' e" if "e \<in> set (held_of ?c s')" for s' e
    using that release_invD(3) [OF inv] by (simp add: entry_ok_def oi f)
  show "\<exists>ev \<in> set (cn_settle_queue ?c). fires_ev ev s' e" if e: "e \<in> set (held_of ?c s')" and sp: "settled_post ?c s' e" for s' e
  proof (cases "settled_post c s' e")
    case True
    then show ?thesis using release_invD(4) [OF inv] e by (auto simp: f)
  next
    case False
    have ok: "entry_ok c s' e" using release_invD(3) [OF inv] e by (simp add: held)
    have "s' = s" using sp False by (auto simp: settled_post_def oi f split: if_splits)
    then have "turn = 0 \<or> he_turn e = 0 \<or> he_turn e \<le> turn"
      using sp False ok by (auto simp: settled_post_def oi f entry_ok_def)
    then show ?thesis using ok \<open>s' = s\<close> by (auto simp: f fires_ev_def fires_def entry_ok_def)
  qed
qed

lemma release_inv_start: "release_inv c \<Longrightarrow> release_inv (startGeneration now s c)"
proof (rule release_invI)
  let ?c = "startGeneration now s c"
  assume inv: "release_inv c"
  show "gm_get (cn_last_settle ?c) s' \<noteq> None" if "0 < seq_of ?c s' \<or> legacy_of ?c s'" for s'
    using that release_invD(1,2) [OF inv] by (auto simp: start_fields split: if_splits)
  have oi: "s' \<noteq> s \<Longrightarrow> old_identity ?c s' at = old_identity c s' at" for s' at by (rule old_identity_cong) (simp add: start_fields)
  show "entry_ok ?c s' e" if "e \<in> set (held_of ?c s')" for s' e
    using that release_invD(3) [OF inv] by (cases "s' = s") (auto simp: start_fields entry_ok_def oi)
  show "\<exists>ev \<in> set (cn_settle_queue ?c). fires_ev ev s' e" if "e \<in> set (held_of ?c s')" "settled_post ?c s' e" for s' e
    using that release_invD(4) [OF inv] by (cases "s' = s") (auto simp: start_fields settled_post_def oi)
qed

lemma release_inv_drain: "release_inv c \<Longrightarrow> release_inv (fst (drain_settle c))"
proof (rule release_invI)
  let ?c = "fst (drain_settle c)"
  assume inv: "release_inv c"
  show "gm_get (cn_last_settle ?c) s \<noteq> None" if "0 < seq_of ?c s \<or> legacy_of ?c s" for s
    using that release_invD(1,2) [OF inv] by auto
  have cong: "entry_ok ?c s e = entry_ok c s e" "settled_post ?c s e = settled_post c s e" for s e
    using old_identity_cong [of ?c s c] by (simp_all add: entry_ok_def settled_post_def)
  have sub: "e \<in> set (held_of c s)" if "e \<in> set (held_of ?c s)" for s e
    using that by (auto simp: drain_held split: list.splits if_splits)
  show "entry_ok ?c s e" if "e \<in> set (held_of ?c s)" for s e using release_invD(3) [OF inv sub [OF that]] by (simp add: cong)
  show "\<exists>ev \<in> set (cn_settle_queue ?c). fires_ev ev s e" if e: "e \<in> set (held_of ?c s)" "settled_post ?c s e" for s e
  proof -
    obtain ev where ev: "ev \<in> set (cn_settle_queue c)" "fires_ev ev s e"
      using release_invD(4) [OF inv sub [OF e(1)]] e(2) by (auto simp: cong)
    moreover have "ev \<noteq> hd (cn_settle_queue c)"
      using e(1) ev by (auto simp: drain_held fires_ev_def split: list.splits if_splits)
    ultimately have "ev \<in> set (tl (cn_settle_queue c))" by (cases "cn_settle_queue c") auto
    then show ?thesis using ev(2) by auto
  qed
qed

lemma release_inv_prune:
  assumes inv: "release_inv c" and env: "gate_env (GPrune live) c"
  shows "release_inv (prune_dead live c)"
proof (rule release_invI)
  let ?c = "prune_dead live c"
  have sq: "seq_of ?c s = (if s \<in> set live then seq_of c s else 0)" "legacy_of ?c s \<longleftrightarrow> s \<in> set live \<and> legacy_of c s" for s
    using prune_seq release_invD(1,2) [OF inv] by blast+
  show "gm_get (cn_last_settle ?c) s \<noteq> None" if "0 < seq_of ?c s \<or> legacy_of ?c s" for s
    using that release_invD(1,2) [OF inv] by (auto simp: sq prune_fields split: if_splits)
  have live: "s \<in> set live" if "e \<in> set (held_of ?c s)" for s e
  proof -
    from that obtain es where "gm_get (cn_held c) s = Some es" "es \<noteq> []"
      by (cases "gm_get (cn_held c) s") (fastforce simp: prune_fields gm_getz_def)+
    then show ?thesis using env map_of_SomeD [of "cn_held c" s es] by (auto simp: list_all_iff)
  qed
  have cong: "entry_ok ?c s e = entry_ok c s e" "settled_post ?c s e = settled_post c s e" if "s \<in> set live" for s e
    using old_identity_cong [OF prune_live(1) [OF that]] that by (simp_all add: entry_ok_def settled_post_def prune_fields sq)
  show "entry_ok ?c s e" if "e \<in> set (held_of ?c s)" for s e
    using cong(1) [OF live [OF that]] release_invD(3) [OF inv] that by (simp add: prune_fields)
  show "\<exists>ev \<in> set (cn_settle_queue ?c). fires_ev ev s e" if "e \<in> set (held_of ?c s)" "settled_post ?c s e" for s e
    using cong(2) [OF live [OF that(1)]] release_invD(4) [OF inv] that by (simp add: prune_fields)
qed

lemma release_inv_reap: "release_inv c \<Longrightarrow> release_inv (OnSessionsReaped sids c)"
proof (rule release_invI)
  let ?c = "OnSessionsReaped sids c"
  assume inv: "release_inv c"
  show "gm_get (cn_last_settle ?c) s \<noteq> None" if "0 < seq_of ?c s \<or> legacy_of ?c s" for s
    using that release_invD(1,2) [OF inv] by (auto simp: reap_fields split: if_splits)
  have cong: "entry_ok ?c s e = entry_ok c s e" "settled_post ?c s e = settled_post c s e" if "s \<notin> set sids" for s e
    using old_identity_cong [of ?c s c] that by (simp_all add: entry_ok_def settled_post_def reap_fields)
  show "entry_ok ?c s e" if "e \<in> set (held_of ?c s)" for s e
    using that cong(1) [of s] release_invD(3) [OF inv] by (auto simp: reap_fields split: if_splits)
  show "\<exists>ev \<in> set (cn_settle_queue ?c). fires_ev ev s e" if "e \<in> set (held_of ?c s)" "settled_post ?c s e" for s e
    using that cong(2) [of s] release_invD(4) [OF inv] by (auto simp: reap_fields split: if_splits)
qed

lemma release_inv_step: "release_inv c \<Longrightarrow> gate_env op c \<Longrightarrow> release_inv (gate_exec op c)"
proof (cases op)
  case (GSettled now s st turn)
  assume "release_inv c"
  then show ?thesis using GSettled release_inv_settled [of c st] release_inv_start [of c]
    by (cases "firesHeldDelivers st"; cases "st = AGENT_SESSION_STATE_STARTING") (simp_all add: settled_start settled_ignored)
qed (auto intro: release_inv_hold release_inv_drain release_inv_reap release_inv_prune simp del: gate_env.simps)

lemma release_inv_run:
  assumes "gate_run gate_env NewConsumer ops c"
  shows "release_inv c"
  using gate_run_inv [where I = "\<lambda>_. release_inv", OF assms] release_inv_step
  by (simp add: release_inv_def NewConsumer_def)

text \<open>The whole loop.\<close>

lemma drainSettles_queue: "cn_settle_queue (fst (drainSettles c)) = []"
proof (induction c rule: drainSettles_induct)
  case (round c)
  then show ?case by (cases "cn_settle_queue c = []") (simp_all add: drainSettles_done drainSettles_step)
qed

lemma drainSettles_sequence: "cn_last_settle_sequence (fst (drainSettles c)) = cn_last_settle_sequence c"
proof (induction c rule: drainSettles_induct)
  case (round c)
  then show ?case by (cases "cn_settle_queue c = []") (simp_all add: drainSettles_done drainSettles_step)
qed

lemma drainSettles_inv: "release_inv c \<Longrightarrow> release_inv (fst (drainSettles c))"
proof (induction c rule: drainSettles_induct)
  case (round c)
  then show ?case using release_inv_drain [of c]
    by (cases "cn_settle_queue c = []") (simp_all add: drainSettles_done drainSettles_step)
qed

text \<open>Every held post is kept or fired, and none twice.\<close>

abbreviation all_held :: "Consumer \<Rightarrow> heldEntry list" where
  "all_held c \<equiv> concat (map snd (cn_held c))"

lemma mset_concat_put: "gm_wf m \<Longrightarrow> mset (concat (map snd (gm_put k v m))) + mset (gm_getz [] m k) = mset (concat (map snd m)) + mset v"
proof (induction m)
  case (Cons p m)
  have "k \<notin> fst ` set m \<Longrightarrow> gm_getz [] m k = []" using gm_keys_iff [of k m] by (simp add: gm_getz_def)
  then show ?case using Cons by (cases p) (auto simp: gm_wf_def gm_getz_def ac_simps)
qed simp

lemma mset_concat_del: "gm_wf m \<Longrightarrow> mset (concat (map snd (gm_del k m))) + mset (gm_getz [] m k) = mset (concat (map snd m))"
proof (induction m)
  case (Cons p m)
  have "k \<notin> fst ` set m \<Longrightarrow> gm_del k m = m \<and> gm_getz [] m k = []"
    using gm_keys_iff [of k m] by (auto simp: gm_getz_def delete_id)
  then show ?case using Cons by (cases p) (auto simp: gm_wf_def gm_getz_def ac_simps)
qed simp

lemma fireHeld_mset:
  assumes "gm_wf (cn_held c)"
  shows "mset (all_held (fst (fireHeld s u t g c))) + mset (snd (fireHeld s u t g c)) = mset (all_held c)
    \<and> gm_wf (cn_held (fst (fireHeld s u t g c)))"
proof -
  let ?keep = "filter (\<lambda>e. \<not> fires u t g e) (held_of c s)" and ?fire = "filter (fires u t g) (held_of c s)"
  have part: "mset ?fire + mset ?keep = mset (held_of c s)" by (simp add: multiset_partition [symmetric])
  show ?thesis
  proof (cases "?keep = []")
    case True
    then have "mset ?fire = mset (held_of c s)" using part by simp
    then show ?thesis using True mset_concat_del [OF assms, of s] assms by (simp add: fireHeld_def Let_def)
  next
    case False
    then have eq: "mset (all_held (fst (fireHeld s u t g c))) + mset (held_of c s) = mset (all_held c) + mset ?keep"
      using mset_concat_put [OF assms, of s ?keep] by (simp add: fireHeld_def Let_def)
    have "mset (all_held (fst (fireHeld s u t g c))) + mset ?fire + mset ?keep = mset (all_held c) + mset ?keep"
      using eq unfolding part [symmetric] by (simp only: add.assoc)
    then have "mset (all_held (fst (fireHeld s u t g c))) + mset ?fire = mset (all_held c)" by (simp only: add_right_cancel)
    then show ?thesis using False assms by (simp add: fireHeld_def Let_def)
  qed
qed

lemma drain_settle_mset:
  assumes "gm_wf (cn_held c)"
  shows "mset (all_held (fst (drain_settle c))) + mset (snd (drain_settle c)) = mset (all_held c) \<and> gm_wf (cn_held (fst (drain_settle c)))"
proof (cases "cn_settle_queue c")
  case (Cons ev rest)
  define c0 where "c0 = c\<lparr>cn_settle_queue := rest, cn_fallback_logged :=
    (if sv_turn ev = 0 then List.insert (sv_session ev) (cn_fallback_logged c) else cn_fallback_logged c)\<rparr>"
  have "drain_settle c = fireHeld (sv_session ev) (sv_up_to ev) (sv_turn ev) (sv_gen ev) c0" "cn_held c0 = cn_held c"
    using Cons by (simp_all add: drain_settle_def Let_def c0_def)
  then show ?thesis using fireHeld_mset [of c0 "sv_session ev" "sv_up_to ev" "sv_turn ev" "sv_gen ev"] assms by simp
qed (use assms in \<open>simp add: drain_settle_def\<close>)

lemma drainSettles_mset: "gm_wf (cn_held c) \<Longrightarrow>
    mset (all_held (fst (drainSettles c))) + mset (snd (drainSettles c)) = mset (all_held c)"
proof (induction c rule: drainSettles_induct)
  case (round c)
  show ?case
  proof (cases "cn_settle_queue c = []")
    case False
    let ?c1 = "fst (drain_settle c)"
    have one: "mset (all_held ?c1) + mset (snd (drain_settle c)) = mset (all_held c)" "gm_wf (cn_held ?c1)"
      using drain_settle_mset [OF round(2)] by blast+
    have "a + (f + m) = a + m + f" for a f m :: "heldEntry multiset" by (simp only: ac_simps)
    then show ?thesis using one(1) round(1) [OF False one(2)]
      by (simp only: drainSettles_step [OF False] fst_conv snd_conv mset_append)
  qed (simp add: drainSettles_done)
qed

section \<open>No early release\<close>

text \<open>The turn sequences the hub reported for a session since its last restart.\<close>

fun settle_step :: "string \<Rightarrow> gate_op \<Rightarrow> nat list \<Rightarrow> nat list" where
  "settle_step s (GSettled now s' st n) acc =
     (if s' \<noteq> s then acc else if st = AGENT_SESSION_STATE_STARTING then [] else if firesHeldDelivers st then acc @ [n] else acc)"
| "settle_step s _ acc = acc"

definition settles_since :: "string \<Rightarrow> gate_op list \<Rightarrow> nat list" where
  "settles_since s ops = fold (settle_step s) ops []"

lemma settles_since_snoc: "settles_since s (ops @ [op]) = settle_step s op (settles_since s ops)"
  by (simp add: settles_since_def)

text \<open>The session keeps its binding: it is neither reaped nor pruned.\<close>

fun bound_env :: "string \<Rightarrow> gate_op \<Rightarrow> Consumer \<Rightarrow> bool" where
  "bound_env s (GReaped sids) c \<longleftrightarrow> s \<notin> set sids"
| "bound_env s (GPrune live) c \<longleftrightarrow> s \<in> set live"
| "bound_env s _ c \<longleftrightarrow> True"

definition event_ok :: "string \<Rightarrow> nat list \<Rightarrow> Consumer \<Rightarrow> settleEvent \<Rightarrow> bool" where
  "event_ok s H c ev \<longleftrightarrow> sv_gen ev \<le> gen_of c s \<and> (sv_gen ev = gen_of c s \<longrightarrow>
     (if 0 < sv_turn ev then \<exists>n \<in> set H. sv_turn ev \<le> n
      else 0 \<in> set H \<or> (\<exists>start. gm_get (cn_generation_start c) s = Some start \<and> sv_up_to ev = start - 1)))"

definition early_inv :: "string \<Rightarrow> nat list \<Rightarrow> Consumer \<Rightarrow> bool" where
  "early_inv s H c \<longleftrightarrow> (0 < seq_of c s \<longrightarrow> seq_of c s \<in> set H) \<and> (legacy_of c s \<longrightarrow> 0 \<in> set H)
     \<and> (\<forall>e \<in> set (held_of c s). he_gen e = gen_of c s \<and> (old_identity c s (he_at e) \<longrightarrow> he_turn e = 0))
     \<and> (\<forall>ev \<in> set (cn_settle_queue c). sv_session ev = s \<longrightarrow> event_ok s H c ev)"

lemma hold_replay_cases:
  assumes "hold_replay s e c = Some ev"
  shows "sv_session ev = s \<and> sv_gen ev = he_gen e \<and>
    ((old_identity c s (he_at e) \<and> sv_turn ev = 0 \<and> sv_up_to ev = gm_getz 0 (cn_generation_start c) s - 1)
     \<or> (legacy_of c s \<and> sv_turn ev = 0)
     \<or> (0 < sv_turn ev \<and> sv_turn ev \<le> seq_of c s))"
  using assms by (auto simp: hold_replay_def Let_def split: option.splits if_splits)

lemma early_inv_hold:
  assumes inv: "early_inv s H c"
  shows "early_inv s H (hold tp ten s' msg at turn c)"
proof -
  let ?c = "hold tp ten s' msg at turn c" and ?e = "hold_entry tp ten s' msg at turn c"
  have oi: "old_identity ?c s t = old_identity c s t" for t by (rule old_identity_cong) simp
  have ev: "event_ok s H ?c ev = event_ok s H c ev" for ev by (simp add: event_ok_def)
  have new: "event_ok s H c ev" if "hold_replay s' ?e c = Some ev" "sv_session ev = s" for ev
    using hold_replay_cases [OF that(1)] that(2) inv
    by (auto simp: event_ok_def early_inv_def old_identity_def gm_getz_def hold_entry_def split: option.splits)
  have mem: "he_gen e = gen_of c s \<and> (old_identity c s (he_at e) \<longrightarrow> he_turn e = 0)" if "e \<in> set (held_of ?c s)" for e
    using that inv by (auto simp: hold_held early_inv_def hold_entry_def split: if_splits)
  show ?thesis using inv mem new unfolding early_inv_def
    by (auto simp: hold_queue oi ev split: option.splits)
qed

lemma event_ok_more: "event_ok s H c ev \<Longrightarrow> set H \<subseteq> set H' \<Longrightarrow> gen_of c' s = gen_of c s \<Longrightarrow>
    gm_get (cn_generation_start c') s = gm_get (cn_generation_start c) s \<Longrightarrow> event_ok s H' c' ev"
  unfolding event_ok_def by (auto split: if_splits)

lemma early_inv_settled:
  assumes inv: "early_inv s H c" and st: "firesHeldDelivers st"
  shows "early_inv s (if s' = s then H @ [turn] else H) (OnSessionSettled now s' st turn c)"
proof -
  let ?c = "OnSessionSettled now s' st turn c" and ?H = "if s' = s then H @ [turn] else H"
  note f = settled_edge [OF st]
  have oi: "old_identity ?c s t = old_identity c s t" for t by (rule old_identity_cong) (simp add: f)
  have old: "event_ok s ?H ?c ev" if "event_ok s H c ev" for ev
    using that by (rule event_ok_more) (auto simp: f)
  have new: "s' = s \<Longrightarrow> event_ok s ?H ?c \<lparr>sv_session = s', sv_state = st, sv_turn = turn, sv_up_to = MaxInt64, sv_gen = gen_of c s'\<rparr>"
    by (auto simp: event_ok_def f)
  have sq: "0 < seq_of ?c s \<longrightarrow> seq_of ?c s \<in> set ?H" "legacy_of ?c s \<longrightarrow> 0 \<in> set ?H"
    using inv by (auto simp: early_inv_def f max_def)
  have "\<forall>ev \<in> set (cn_settle_queue ?c). sv_session ev = s \<longrightarrow> event_ok s ?H ?c ev"
    using inv old new by (auto simp: early_inv_def f(4))
  moreover have "\<forall>e \<in> set (held_of ?c s). he_gen e = gen_of ?c s \<and> (old_identity ?c s (he_at e) \<longrightarrow> he_turn e = 0)"
    using inv by (simp add: early_inv_def f oi)
  ultimately show ?thesis using sq unfolding early_inv_def by blast
qed

lemma early_inv_start:
  assumes inv: "early_inv s H c"
  shows "early_inv s (if s' = s then [] else H) (startGeneration now s' c)"
proof (cases "s' = s")
  case True
  have "event_ok s [] (startGeneration now s c) ev" if "event_ok s H c ev" for ev
    using that by (auto simp: event_ok_def start_fields)
  then show ?thesis using inv True by (auto simp: early_inv_def start_fields)
next
  case False
  let ?c = "startGeneration now s' c"
  have oi: "old_identity ?c s t = old_identity c s t" for t by (rule old_identity_cong) (simp add: start_fields False [symmetric])
  have "event_ok s H ?c ev = event_ok s H c ev" for ev using False by (simp add: event_ok_def start_fields)
  then show ?thesis using inv False by (simp add: early_inv_def start_fields oi)
qed

lemma early_inv_step:
  assumes inv: "early_inv s H c" and env: "bound_env s op c"
  shows "early_inv s (settle_step s op H) (gate_exec op c)"
proof (cases op)
  case (GHold tp ten s' msg at turn)
  then show ?thesis using early_inv_hold [OF inv] by simp
next
  case (GSettled now s' st turn)
  show ?thesis
  proof (cases "st = AGENT_SESSION_STATE_STARTING")
    case True
    then show ?thesis using GSettled early_inv_start [OF inv, of s' now] by (auto simp: settled_start)
  next
    case False
    then show ?thesis using GSettled inv early_inv_settled [OF inv, of st s' turn now]
      by (cases "firesHeldDelivers st") (auto simp: settled_ignored)
  qed
next
  case GDrain
  have "old_identity (fst (drain_settle c)) s t = old_identity c s t" for t by (rule old_identity_cong) simp
  moreover have "event_ok s H (fst (drain_settle c)) ev = event_ok s H c ev" for ev by (simp add: event_ok_def)
  moreover have "set (held_of (fst (drain_settle c)) s) \<subseteq> set (held_of c s)" by (auto simp: drain_held split: list.splits)
  moreover have "set (tl (cn_settle_queue c)) \<subseteq> set (cn_settle_queue c)" by (cases "cn_settle_queue c") auto
  ultimately show ?thesis using GDrain inv unfolding early_inv_def by (auto simp: subset_eq)
next
  case (GReaped sids)
  then have "s \<notin> set sids" using env by simp
  then have "old_identity (gate_exec op c) s t = old_identity c s t" "event_ok s H (gate_exec op c) ev = event_ok s H c ev" for t ev
    using GReaped by (simp_all add: old_identity_def event_ok_def reap_fields)
  then show ?thesis using GReaped \<open>s \<notin> set sids\<close> inv by (simp add: early_inv_def reap_fields)
next
  case (GPrune live)
  then have "s \<in> set live" using env by simp
  then have "old_identity (gate_exec op c) s t = old_identity c s t" "event_ok s H (gate_exec op c) ev = event_ok s H c ev" for t ev
    using GPrune by (simp_all add: old_identity_def event_ok_def prune_fields prune_live)
  then show ?thesis using GPrune \<open>s \<in> set live\<close> inv by (simp add: early_inv_def prune_fields prune_live)
qed

lemma early_inv_run:
  assumes "gate_run (bound_env s) NewConsumer ops c"
  shows "early_inv s (settles_since s ops) c"
proof (rule gate_run_inv [where I = "\<lambda>ops. early_inv s (settles_since s ops)", OF assms])
  show "early_inv s (settles_since s []) NewConsumer" by (simp add: settles_since_def early_inv_def NewConsumer_def)
  show "early_inv s (settles_since s (ops @ [op])) (gate_exec op c)"
    if "early_inv s (settles_since s ops) c" "bound_env s op c" for ops op c
    unfolding settles_since_snoc using that by (rule early_inv_step)
qed

lemma held_wf_step: "gm_wf (cn_held c) \<Longrightarrow> gm_wf (cn_held (gate_exec op c))"
proof (cases op)
  case (GHold tp ten s msg at turn)
  moreover assume "gm_wf (cn_held c)"
  ultimately show ?thesis by (simp add: hold_def Let_def wakeup_def split: option.split)
next
  case (GSettled now s st turn)
  moreover assume "gm_wf (cn_held c)"
  ultimately show ?thesis
    by (cases "firesHeldDelivers st"; cases "st = AGENT_SESSION_STATE_STARTING")
       (auto simp: settled_edge settled_ignored settled_start startGeneration_def Let_def split: option.split)
next
  case GDrain
  moreover assume "gm_wf (cn_held c)"
  ultimately show ?thesis by (simp add: drain_settle_def fireHeld_def Let_def split: list.split)
next
  case (GReaped sids)
  have "gm_wf (cn_held c) \<Longrightarrow> gm_wf (cn_held (OnSessionsReaped sids c))"
    by (induction sids arbitrary: c) (simp_all add: OnSessionsReaped_def reap_one_def)
  moreover assume "gm_wf (cn_held c)"
  ultimately show ?thesis using GReaped by simp
qed (simp add: prune_fields)

lemma held_wf_run:
  assumes "gate_run ok NewConsumer ops c"
  shows "gm_wf (cn_held c)"
  using gate_run_inv [where I = "\<lambda>_ c. gm_wf (cn_held c)", OF assms] held_wf_step by (simp add: NewConsumer_def)

lemma held_sorted_run:
  assumes "gate_run ok NewConsumer ops c"
  shows "sorted (map he_at (held_of c s))"
  using gate_run_inv [where I = "\<lambda>_ c. \<forall>s. sorted (map he_at (held_of c s))", OF assms] held_sorted_step
  by (simp add: NewConsumer_def)

section \<open>Properties\<close>


definition demo_gate :: "gate_op list" where
  "demo_gate = [GSettled 10 ''s'' AGENT_SESSION_STATE_STARTING 0, GHold [] None ''s'' ''m'' 20 1,
     GSettled 30 ''s'' AGENT_SESSION_STATE_READY 1]"

definition demo_gated :: Consumer where
  "demo_gated = gate_exec (GSettled 30 ''s'' AGENT_SESSION_STATE_READY 1) (gate_exec (GHold [] None ''s'' ''m'' 20 1)
     (gate_exec (GSettled 10 ''s'' AGENT_SESSION_STATE_STARTING 0) NewConsumer))"

lemma gate_run_three:
  "ok a c \<Longrightarrow> ok b (gate_exec a c) \<Longrightarrow> ok d (gate_exec b (gate_exec a c)) \<Longrightarrow> gate_run ok c [a, b, d] (gate_exec d (gate_exec b (gate_exec a c)))"
  using gate_snoc [OF gate_snoc [OF gate_snoc [OF gate_nil]], of ok a c b d] by simp

lemma demo_gate_run: "gate_run gate_env NewConsumer demo_gate demo_gated" "gate_run (bound_env ''s'') NewConsumer demo_gate demo_gated"
  unfolding demo_gate_def demo_gated_def
  by (rule gate_run_three; simp add: MaxInt64_def settled_start start_fields)+

lemma demo_gate_held: "held_of demo_gated ''s'' =
    [\<lparr>he_message_id = ''m'', he_traceparent = [], he_tenant = [], he_at = 20, he_turn = 1, he_gen = 1\<rparr>]"
  by (simp add: demo_gated_def settled_edge hold_held settled_start start_fields hold_entry_def old_identity_def insert_at_def
      search_after.simps [of "[]"] NewConsumer_def)

lemma demo_gate_seq: "seq_of demo_gated ''s'' = 1"
  by (simp add: demo_gated_def settled_edge settled_start start_fields)


text \<open>C22: no early release. As long as its author's session keeps its binding, a held post that
  carries a turn sequence leaves the registry only after the hub reported, since the last
  restart of that agent, a settle of that turn or a later one, or a settle without a
  sequence; an edge queued before a restart never releases a post of the new identity.\<close>

theorem no_early_release:
  assumes "gate_run (bound_env s) NewConsumer ops c"
    and "e \<in> set (held_of c s)" and "0 < he_turn e" and "e \<notin> set (held_of (fst (drain_settle c)) s)"
  shows "\<exists>n \<in> set (settles_since s ops). n = 0 \<or> he_turn e \<le> n"
proof -
  let ?H = "settles_since s ops"
  have inv: "early_inv s ?H c" by (rule early_inv_run [OF assms(1)])
  obtain ev rest where q: "cn_settle_queue c = ev # rest" "sv_session ev = s" "fires (sv_up_to ev) (sv_turn ev) (sv_gen ev) e"
    using assms(2,4) by (auto simp: drain_held split: list.splits if_splits)
  have e: "he_gen e = gen_of c s" "\<not> old_identity c s (he_at e)" using inv assms(2,3) by (auto simp: early_inv_def)
  have ok: "event_ok s ?H c ev" using inv q(1,2) by (simp add: early_inv_def)
  then have gen: "sv_gen ev = gen_of c s" using q(3) e(1) by (simp add: event_ok_def fires_def)
  show ?thesis
  proof (cases "0 < sv_turn ev")
    case True
    then obtain n where "n \<in> set ?H" "sv_turn ev \<le> n" using ok gen by (auto simp: event_ok_def)
    then show ?thesis using q(3) True assms(3) by (auto simp: fires_def intro: le_trans)
  next
    case False
    then have "0 \<in> set ?H" using ok gen q(3) e(2) by (auto simp: event_ok_def fires_def old_identity_def)
    then show ?thesis by blast
  qed
qed

theorem no_early_release_witness: "\<exists>n \<in> set (settles_since ''s'' demo_gate). n = 0 \<or> 1 \<le> n"
proof -
  let ?e = "\<lparr>he_message_id = ''m'', he_traceparent = [], he_tenant = [], he_at = 20, he_turn = 1, he_gen = 1\<rparr>"
  have "cn_settle_queue demo_gated = [\<lparr>sv_session = ''s'', sv_state = AGENT_SESSION_STATE_READY, sv_turn = 1, sv_up_to = MaxInt64, sv_gen = 1\<rparr>]"
    by (simp add: demo_gated_def settled_edge hold_queue hold_replay_def settled_start start_fields NewConsumer_def)
  then have "held_of (fst (drain_settle demo_gated)) ''s'' = []"
    using demo_gate_held by (simp add: drain_held fires_def MaxInt64_def)
  then show ?thesis using no_early_release [OF demo_gate_run(2), of ?e] demo_gate_held by simp
qed

text \<open>Commit order. In every reachable state the posts of a session are held in the order of
  their commit times, a new one goes after every post committed at or before it, so that
  equal stamps keep their arrival order, and every round of the drain fires in that order.\<close>

theorem held_in_commit_order:
  assumes "gate_run ok NewConsumer ops c"
  shows "sorted (map he_at (held_of c s)) \<and> sorted (map he_at (snd (drain_settle c)))
    \<and> held_of (hold tp ten s msg at turn c) s = takeWhile (\<lambda>x. he_at x \<le> at) (held_of c s)
        @ hold_entry tp ten s msg at turn c # dropWhile (\<lambda>x. he_at x \<le> at) (held_of c s)"
proof -
  have "sorted (map he_at (snd (drain_settle c)))"
    using held_sorted_run [OF assms] by (simp add: drain_settle_def fireHeld_def Let_def sorted_filter split: list.split)
  then show ?thesis using held_sorted_run [OF assms] hold_sorted(1) by blast
qed

theorem held_in_commit_order_witness:
  "held_of (hold [] None ''s'' ''late'' 5 2 demo_gated) ''s''
    = hold_entry [] None ''s'' ''late'' 5 2 demo_gated # held_of demo_gated ''s''"
  using held_in_commit_order [OF demo_gate_run(1), of "''s''" "[]" None "''late''" 5 2] by (simp add: demo_gate_held)


end
