(* ===== verification/Delivery_Route.thy ===== *)
theory Delivery_Route
  imports Comms_Mapping Delivery_Hold
begin

text \<open>
  Routing of a posted message, \<open>src/go/internal/delivery/dispatch.go\<close>, \<open>consumer.go\<close>, \<open>scan.go\<close> and the sweeps of
  \<open>settle.go\<close>: the mention grammar, the resolution of mentioned agents, the fan-out of a message
  into steers, delivers, owed rows and wakes, the entry point for a fabric ref, and the recovery
  sweeps.

  What the consumer does to the outside is a list of effects in order: control operations handed
  to a session, wakes, owed rows, markers. The store reads, the session resolver and the
  outcome of the store writes are a record of functions, the Go interfaces \<open>DeliveryReads\<close>,
  \<open>SessionResolver\<close> and \<open>AgentWaker\<close>. A read the code makes at two places of one pass has one function
  per place, since its answer may change in between. Logs, spans and metrics are left out. The text of a
  message is a byte string; the two non-ASCII letters that fold to ASCII ones under the
  case-insensitive flag of the mention pattern are not considered.
\<close>

section \<open>Mentions\<close>

definition handle_start :: "char \<Rightarrow> bool" where
  "handle_start ch \<longleftrightarrow> CHR ''a'' \<le> to_lower_byte ch \<and> to_lower_byte ch \<le> CHR ''z'' \<or> CHR ''0'' \<le> ch \<and> ch \<le> CHR ''9''"

definition handle_byte :: "char \<Rightarrow> bool" where
  "handle_byte ch \<longleftrightarrow> handle_start ch \<or> ch = CHR ''.'' \<or> ch = CHR ''_'' \<or> ch = CHR ''-''"

text \<open>What \<open>mentionRE\<close> captures after an \<open>@\<close>: a handle, with its owner when one follows.\<close>

definition match_handle :: "string \<Rightarrow> (string \<times> string) option" where
  "match_handle s =
    (if s = [] \<or> \<not> handle_start (hd s) then None
     else (let h = takeWhile handle_byte s; rest = dropWhile handle_byte s in
       if rest \<noteq> [] \<and> hd rest = CHR ''/'' \<and> tl rest \<noteq> [] \<and> handle_start (hd (tl rest))
       then Some (h @ CHR ''/'' # takeWhile handle_byte (tl rest), dropWhile handle_byte (tl rest))
       else Some (h, rest)))"

lemma match_handle_shorter:
  assumes "match_handle s = Some (h, rest)"
  shows "length rest \<le> length s"
proof -
  let ?r = "dropWhile handle_byte s"
  have "rest = ?r \<or> rest = dropWhile handle_byte (tl ?r)"
    using assms by (auto simp: match_handle_def Let_def split: if_splits)
  moreover have "length (dropWhile handle_byte (tl ?r)) \<le> length ?r"
    using length_dropWhile_le [of handle_byte "tl ?r"] by simp
  ultimately show ?thesis using length_dropWhile_le [of handle_byte s] by auto
qed

text \<open>\<open>FindAllStringSubmatch\<close>: leftmost matches that do not overlap.\<close>

function find_mentions :: "string \<Rightarrow> string list" where
  "find_mentions [] = []"
| "find_mentions (ch # cs) =
    (if ch = CHR ''@'' then
       (case match_handle cs of None \<Rightarrow> find_mentions cs | Some (h, rest) \<Rightarrow> h # find_mentions rest)
     else find_mentions cs)"
  by pat_completeness auto
termination by (relation "measure length") (auto dest: match_handle_shorter)

definition parseMentions :: "string \<Rightarrow> string list" where
  "parseMentions tx = fold snoc_new (map ToLower (find_mentions tx)) []"

definition block_text :: "wire_block \<Rightarrow> string" where
  "block_text b = (case b of WText t \<Rightarrow> t | _ \<Rightarrow> [])"

definition mentionHandles :: "wire_message \<Rightarrow> string list" where
  "mentionHandles msg = fold (\<lambda>b out. fold snoc_new (parseMentions (block_text b)) out) (wm_blocks msg) []"

definition reservedMentions :: "string list" where
  "reservedMentions = [''everyone'', ''agents'', ''users'']"

section \<open>The interfaces\<close>

datatype read_error = RowMissing | ReadFault string

record ChannelAgentMember =
  cam_id :: AccountID
  cam_owner_user_id :: AccountID
  cam_owner_handle :: string
  cam_handle :: string

record MessageWithChannel =
  mwc_message :: Message
  mwc_channel :: ChannelID
  mwc_seq :: int

record delivery_reads =
  IsAgentAccount :: "AccountID \<Rightarrow> read_error + bool"
  MessageByID :: "string \<Rightarrow> read_error + Message"
  MessageChannel :: "string \<Rightarrow> read_error + ChannelID"
  TopicChannelNames :: "string \<Rightarrow> read_error + string \<times> string"
  SubscribedAgents :: "ChannelID \<Rightarrow> AccountID \<Rightarrow> read_error + AccountID list"
  ChannelAgentMembers :: "ChannelID \<Rightarrow> AccountID \<Rightarrow> read_error + ChannelAgentMember list"
  OwnerOfAuthor :: "AccountID \<Rightarrow> read_error + AccountID"
  InSweepSet_mention :: "AccountID \<Rightarrow> ChannelID \<Rightarrow> read_error + bool"
  InSweepSet_asker :: "AccountID \<Rightarrow> ChannelID \<Rightarrow> read_error + bool"
  RecordOwedMention_mention :: "AccountID \<Rightarrow> bool"
  RecordOwedMention_asker :: "AccountID \<Rightarrow> bool"
  SweepChannels :: "AccountID \<Rightarrow> read_error + ChannelID list"
  PinnedEntries :: "ChannelID \<Rightarrow> read_error + PinnedEntry list"
  OwedMentions :: "AccountID \<Rightarrow> read_error + (ChannelID, Message list) gomap"
  UndeliveredMessages :: "AccountID \<Rightarrow> read_error + (ChannelID, Message list) gomap"
  Session_author :: "AccountID \<Rightarrow> string option"
  Session_mention :: "AccountID \<Rightarrow> string option"
  Session_recheck :: "AccountID \<Rightarrow> string option"
  Session_asker :: "AccountID \<Rightarrow> string option"
  Session_deliver :: "AccountID \<Rightarrow> string option"
  has_waker :: bool

record control_body =
  ct_message :: wire_message
  ct_from_handle :: string
  ct_channel_name :: string
  ct_topic_name :: string
  ct_traceparent :: string

datatype AgentControl = Deliver control_body | Steer control_body

datatype delivery_effect =
    EDispatch string AgentControl
  | EWake AccountID
  | ERecordOwed AccountID ChannelID string
  | EClearOwed AccountID string
  | EMarkRouted string

section \<open>Control operations\<close>

definition deliverOp :: "wire_message \<Rightarrow> string \<Rightarrow> string \<Rightarrow> string \<Rightarrow> string \<Rightarrow> AgentControl" where
  "deliverOp msg from channelName topicName tp = Deliver \<lparr>ct_message = msg, ct_from_handle = from,
     ct_channel_name = channelName, ct_topic_name = topicName, ct_traceparent = tp\<rparr>"

definition steerOp :: "wire_message \<Rightarrow> string \<Rightarrow> string \<Rightarrow> string \<Rightarrow> string \<Rightarrow> AgentControl" where
  "steerOp msg from channelName topicName tp = Steer \<lparr>ct_message = msg, ct_from_handle = from,
     ct_channel_name = channelName, ct_topic_name = topicName, ct_traceparent = tp\<rparr>"

definition sourceNames :: "delivery_reads \<Rightarrow> wire_message \<Rightarrow> string \<times> string" where
  "sourceNames rd msg =
    (if wm_topic_id msg = [] then ([], [])
     else case TopicChannelNames rd (wm_topic_id msg) of Inl _ \<Rightarrow> ([], []) | Inr (topicName, channelName) \<Rightarrow> (channelName, topicName))"

text \<open>\<open>gatedDispatch\<close>: the refusal of a dispatch is logged only.\<close>

definition gatedDispatch :: "string \<Rightarrow> AgentControl \<Rightarrow> delivery_effect list" where
  "gatedDispatch sess op = [EDispatch sess op]"

definition dispatchTo :: "delivery_reads \<Rightarrow> string \<Rightarrow> string \<Rightarrow> wire_message \<Rightarrow> string \<Rightarrow> delivery_effect list" where
  "dispatchTo rd tp sess msg from = (let (cn, tn) = sourceNames rd msg in gatedDispatch sess (deliverOp msg from cn tn tp))"

definition dispatchSteerTo :: "delivery_reads \<Rightarrow> string \<Rightarrow> string \<Rightarrow> wire_message \<Rightarrow> string \<Rightarrow> delivery_effect list" where
  "dispatchSteerTo rd tp sess msg from = (let (cn, tn) = sourceNames rd msg in gatedDispatch sess (steerOp msg from cn tn tp))"

definition wake :: "delivery_reads \<Rightarrow> AccountID \<Rightarrow> delivery_effect list" where
  "wake rd agent = (if has_waker rd then [EWake agent] else [])"

section \<open>Routing\<close>

text \<open>The agents one handle names among the members.\<close>

definition handle_targets :: "ChannelAgentMember list \<Rightarrow> AccountID \<Rightarrow> string \<Rightarrow> AccountID list" where
  "handle_targets members authorOwner handle =
    (if handle \<in> set reservedMentions
     then (if handle = ''everyone'' \<or> handle = ''agents'' then map cam_id members else [])
     else (let qh = ParseQualifiedHandle handle in
       map cam_id (filter (\<lambda>mb. cam_handle mb = qh_handle qh \<and>
         (Qualified qh \<and> cam_owner_handle mb = qh_owner qh \<or> \<not> Qualified qh \<and> cam_owner_user_id mb = authorOwner)) members)))"

definition resolveMentioned :: "delivery_reads \<Rightarrow> ChannelID \<Rightarrow> AccountID \<Rightarrow> string list \<Rightarrow> AccountID list" where
  "resolveMentioned rd channel author handles =
    (case ChannelAgentMembers rd channel author of Inl _ \<Rightarrow> []
     | Inr members \<Rightarrow>
       (case OwnerOfAuthor rd author of Inl _ \<Rightarrow> []
        | Inr authorOwner \<Rightarrow> fold (\<lambda>h out. fold snoc_new (handle_targets members authorOwner h) out) handles []))"

text \<open>One pass of the loop over the mentioned agents.\<close>

definition mention_effects :: "delivery_reads \<Rightarrow> string \<Rightarrow> ChannelID \<Rightarrow> wire_message \<Rightarrow> AccountID \<Rightarrow> delivery_effect list" where
  "mention_effects rd tp channel msg agent =
    (case Session_mention rd agent of
       Some sess \<Rightarrow> dispatchSteerTo rd tp sess msg (wm_author_handle msg)
     | None \<Rightarrow>
        (case InSweepSet_mention rd agent channel of
           Inl _ \<Rightarrow> []
         | Inr True \<Rightarrow> []
         | Inr False \<Rightarrow>
             if \<not> RecordOwedMention_mention rd agent then []
             else ERecordOwed agent channel (wm_id msg) #
               (case Session_recheck rd agent of None \<Rightarrow> [] | Some sess \<Rightarrow> dispatchSteerTo rd tp sess msg (wm_author_handle msg)))
        @ wake rd agent)"

definition routeMentionsFor :: "delivery_reads \<Rightarrow> string \<Rightarrow> ChannelID \<Rightarrow> AccountID \<Rightarrow> wire_message \<Rightarrow> AccountID list \<times> delivery_effect list" where
  "routeMentionsFor rd tp channel author msg =
    (let handles = mentionHandles msg in
     if handles = [] then ([], [])
     else (let mentioned = resolveMentioned rd channel author handles
           in (mentioned, concat (map (mention_effects rd tp channel msg) mentioned))))"

fun askAnswerTarget_in :: "wire_block list \<Rightarrow> AccountID option" where
  "askAnswerTarget_in [] = None"
| "askAnswerTarget_in (WAskAnswer aa # bs) = (if waab_asker_account_id aa \<noteq> [] then Some (waab_asker_account_id aa) else askAnswerTarget_in bs)"
| "askAnswerTarget_in (_ # bs) = askAnswerTarget_in bs"

definition askAnswerTarget :: "wire_message \<Rightarrow> AccountID option" where
  "askAnswerTarget msg = askAnswerTarget_in (wm_blocks msg)"

definition routeAskAnswerFor :: "delivery_reads \<Rightarrow> string \<Rightarrow> ChannelID \<Rightarrow> wire_message \<Rightarrow> delivery_effect list" where
  "routeAskAnswerFor rd tp channel msg =
    (case askAnswerTarget msg of None \<Rightarrow> []
     | Some asker \<Rightarrow>
        (case InSweepSet_asker rd asker channel of
           Inl _ \<Rightarrow> []
         | Inr True \<Rightarrow> []
         | Inr False \<Rightarrow>
             if \<not> RecordOwedMention_asker rd asker then []
             else ERecordOwed asker channel (wm_id msg) #
               (case Session_asker rd asker of None \<Rightarrow> [] | Some sess \<Rightarrow> dispatchSteerTo rd tp sess msg (wm_author_handle msg))))"

definition deliver_effects :: "delivery_reads \<Rightarrow> string \<Rightarrow> wire_message \<Rightarrow> AccountID \<Rightarrow> delivery_effect list" where
  "deliver_effects rd tp msg agent =
    (case Session_deliver rd agent of None \<Rightarrow> wake rd agent | Some sess \<Rightarrow> dispatchTo rd tp sess msg (wm_author_handle msg))"

definition fanOut :: "delivery_reads \<Rightarrow> string \<Rightarrow> ChannelID \<Rightarrow> AccountID \<Rightarrow> wire_message \<Rightarrow> delivery_effect list" where
  "fanOut rd tp channel author msg =
    (let (mentioned, steers) = routeMentionsFor rd tp channel author msg
     in steers @ routeAskAnswerFor rd tp channel msg @ [EMarkRouted (wm_id msg)] @
        (case SubscribedAgents rd channel author of Inl _ \<Rightarrow> []
         | Inr recipients \<Rightarrow> concat (map (\<lambda>agent. if agent \<in> set mentioned then [] else deliver_effects rd tp msg agent) recipients)))"

section \<open>Posts\<close>

definition storeMessageToWire :: "delivery_reads \<Rightarrow> string \<Rightarrow> read_error + wire_message \<times> ChannelID \<times> AccountID" where
  "storeMessageToWire rd mid =
    bindE (MessageByID rd mid) (\<lambda>m. bindE (MessageChannel rd mid) (\<lambda>channel. Inr (MessageToWire m, channel, m_author_account_id m)))"

text \<open>A missing row is acked, any other failure asks for a redelivery.\<close>

definition readFailure :: "read_error \<Rightarrow> read_error option" where
  "readFailure err = (case err of RowMissing \<Rightarrow> None | ReadFault w \<Rightarrow> Some (ReadFault w))"

definition onMessagePosted :: "delivery_reads \<Rightarrow> string \<Rightarrow> TenantID option \<Rightarrow> wire_message option \<Rightarrow> Consumer
    \<Rightarrow> Consumer \<times> delivery_effect list \<times> read_error option" where
  "onMessagePosted rd tp tenant m c =
    (case m of None \<Rightarrow> (c, [], None)
     | Some msg \<Rightarrow>
       if wm_topic_id msg = [] \<or> wm_id msg = [] then (c, [], None)
       else case IsAgentAccount rd (wm_author_account_id msg) of
         Inl err \<Rightarrow> (c, [], readFailure err)
       | Inr False \<Rightarrow>
           (case MessageChannel rd (wm_id msg) of
              Inl err \<Rightarrow> (c, [], readFailure err)
            | Inr channel \<Rightarrow> (c, fanOut rd tp channel (wm_author_account_id msg) msg, None))
       | Inr True \<Rightarrow>
           (case Session_author rd (wm_author_account_id msg) of
              None \<Rightarrow>
                (case storeMessageToWire rd (wm_id msg) of
                   Inl err \<Rightarrow> (c, [], readFailure err)
                 | Inr (wire, channel, storedAuthor) \<Rightarrow> (c, fanOut rd tp channel storedAuthor wire, None))
            | Some sess \<Rightarrow> (hold tp tenant sess (wm_id msg) (wm_at_unix_ms msg) (wm_turn_sequence msg) c, [], None)))"

text \<open>The reads are scoped to a tenant by the context; \<open>rd\<close> gives the reads of each.\<close>

definition onEventRef :: "(TenantID \<Rightarrow> delivery_reads) \<Rightarrow> string \<Rightarrow> EventRef \<Rightarrow> Consumer
    \<Rightarrow> Consumer \<times> delivery_effect list \<times> read_error option" where
  "onEventRef rd tp ref c =
    (case MessageByID (rd (er_tenant ref)) (er_row_id ref) of
       Inl err \<Rightarrow> (c, [], readFailure err)
     | Inr m \<Rightarrow> onMessagePosted (rd (er_tenant ref)) tp (Some (er_tenant ref)) (Some (MessageToWire m)) c)"

text \<open>The dispatching half of \<open>fireHeld\<close>: each fired entry is read again under its tenant.\<close>

definition fire_entry :: "(TenantID \<Rightarrow> delivery_reads) \<Rightarrow> heldEntry \<Rightarrow> delivery_effect list" where
  "fire_entry rd e =
    (case storeMessageToWire (rd (he_tenant e)) (he_message_id e) of
       Inl _ \<Rightarrow> []
     | Inr (wire, channel, author) \<Rightarrow> fanOut (rd (he_tenant e)) (he_traceparent e) channel author wire)"

definition settle_effects :: "(TenantID \<Rightarrow> delivery_reads) \<Rightarrow> Consumer \<Rightarrow> Consumer \<times> delivery_effect list" where
  "settle_effects rd c = (let (c', fired) = drainSettles c in (c', concat (map (fire_entry rd) fired)))"

section \<open>The mention grammar\<close>

text \<open>The language of the capture group of \<open>mentionRE\<close>.\<close>

definition handle_word :: "string \<Rightarrow> bool" where
  "handle_word w \<longleftrightarrow> w \<noteq> [] \<and> handle_start (hd w) \<and> list_all handle_byte w"

definition mention_form :: "string \<Rightarrow> bool" where
  "mention_form h \<longleftrightarrow> handle_word h \<or> (\<exists>ow w. handle_word ow \<and> handle_word w \<and> h = ow @ CHR ''/'' # w)"

text \<open>The longest prefix of a text that is in the language.\<close>

definition longest_mention :: "string \<Rightarrow> string \<Rightarrow> bool" where
  "longest_mention s h \<longleftrightarrow> (\<exists>rest. s = h @ rest) \<and> mention_form h
     \<and> (\<forall>h' rest'. s = h' @ rest' \<and> mention_form h' \<longrightarrow> length h' \<le> length h)"

lemma slash_not_byte [simp]: "\<not> handle_byte (CHR ''/'')"
  by (simp add: handle_byte_def handle_start_def to_lower_byte_def)

lemma at_not_byte [simp]: "\<not> handle_byte (CHR ''@'')"
  by (simp add: handle_byte_def handle_start_def to_lower_byte_def)

lemma start_is_byte: "handle_start ch \<Longrightarrow> handle_byte ch"
  by (simp add: handle_byte_def)

lemma word_prefix: "list_all P w \<Longrightarrow> s = w @ rest \<Longrightarrow> length w \<le> length (takeWhile P s)"
  by (simp add: takeWhile_append2 list_all_iff)

lemma word_slash: "handle_word w \<Longrightarrow> takeWhile handle_byte (w @ CHR ''/'' # r) = w \<and> dropWhile handle_byte (w @ CHR ''/'' # r) = CHR ''/'' # r"
  by (simp add: handle_word_def list_all_iff takeWhile_append2 dropWhile_append2)

lemma takeWhile_word: "s \<noteq> [] \<Longrightarrow> handle_start (hd s) \<Longrightarrow> handle_word (takeWhile handle_byte s)"
  by (cases s) (auto simp: handle_word_def list_all_iff start_is_byte dest: set_takeWhileD)

lemma mention_form_head: "mention_form h \<Longrightarrow> h \<noteq> [] \<and> handle_start (hd h)"
  by (auto simp: mention_form_def handle_word_def)

text \<open>The two outcomes of a match: an owner-qualified handle, or a bare one that no qualifier follows.\<close>

lemma match_handle_cases:
  assumes "s \<noteq> []" and "handle_start (hd s)"
  obtains (owned) r where "dropWhile handle_byte s = CHR ''/'' # r" "r \<noteq> []" "handle_start (hd r)"
      "match_handle s = Some (takeWhile handle_byte s @ CHR ''/'' # takeWhile handle_byte r, dropWhile handle_byte r)"
  | (bare) "match_handle s = Some (takeWhile handle_byte s, dropWhile handle_byte s)"
      "\<forall>r. dropWhile handle_byte s = CHR ''/'' # r \<longrightarrow> r = [] \<or> \<not> handle_start (hd r)"
proof (cases "dropWhile handle_byte s \<noteq> [] \<and> hd (dropWhile handle_byte s) = CHR ''/'' \<and> tl (dropWhile handle_byte s) \<noteq> []
    \<and> handle_start (hd (tl (dropWhile handle_byte s)))")
  case True
  let ?r = "tl (dropWhile handle_byte s)"
  have "match_handle s = Some (takeWhile handle_byte s @ CHR ''/'' # takeWhile handle_byte ?r, dropWhile handle_byte ?r)"
    using assms True by (simp add: match_handle_def Let_def)
  moreover have "dropWhile handle_byte s = CHR ''/'' # ?r" using True by (metis list.collapse)
  ultimately show ?thesis using True by (intro owned [of ?r]) auto
next
  case False
  then have "match_handle s = Some (takeWhile handle_byte s, dropWhile handle_byte s)"
    using assms by (simp add: match_handle_def Let_def)
  moreover have "r = [] \<or> \<not> handle_start (hd r)" if "dropWhile handle_byte s = CHR ''/'' # r" for r
    using False unfolding that by simp
  ultimately show ?thesis by (intro bare) blast+
qed

lemma match_handle_form:
  assumes "match_handle s = Some (h, rest)"
  shows "s = h @ rest \<and> mention_form h \<and> CHR ''@'' \<notin> set h"
proof -
  have s: "s \<noteq> []" "handle_start (hd s)" using assms by (auto simp: match_handle_def split: if_splits)
  have no_at: "CHR ''@'' \<notin> set (takeWhile handle_byte t)" for t using set_takeWhileD [of "CHR ''@''" handle_byte t] by auto
  show ?thesis
  proof (cases rule: match_handle_cases [OF s])
    case (1 r)
    have "s = takeWhile handle_byte s @ CHR ''/'' # takeWhile handle_byte r @ dropWhile handle_byte r"
      using 1(1) by (metis takeWhile_dropWhile_id)
    then show ?thesis using 1 assms takeWhile_word [OF s] takeWhile_word [of r] no_at
      by (auto simp: mention_form_def)
  next
    case 2
    then show ?thesis using assms takeWhile_word [OF s] no_at by (auto simp: mention_form_def)
  qed
qed

lemma match_handle_longest:
  assumes m: "match_handle s = Some (h, rest)" and p: "s = h' @ rest'" and f: "mention_form h'"
  shows "length h' \<le> length h"
proof -
  have s: "s \<noteq> []" "handle_start (hd s)" using p mention_form_head [OF f] by auto
  from f consider "handle_word h'" | ow w where "handle_word ow" "handle_word w" "h' = ow @ CHR ''/'' # w"
    by (auto simp: mention_form_def)
  then show ?thesis
  proof cases
    case 1
    then have "length h' \<le> length (takeWhile handle_byte s)" using p by (intro word_prefix) (auto simp: handle_word_def)
    then show ?thesis using m by (cases rule: match_handle_cases [OF s]) auto
  next
    case 2
    have eq: "s = ow @ CHR ''/'' # (w @ rest')" using p 2(3) by simp
    have tw: "takeWhile handle_byte s = ow" "dropWhile handle_byte s = CHR ''/'' # (w @ rest')"
      using word_slash [OF 2(1), of "w @ rest'"] eq by simp_all
    have "length w \<le> length (takeWhile handle_byte (w @ rest'))" using 2(2) by (intro word_prefix) (auto simp: handle_word_def)
    moreover have "w @ rest' \<noteq> []" "handle_start (hd (w @ rest'))" using 2(2) by (auto simp: handle_word_def)
    ultimately show ?thesis using m tw 2(3)
    proof (cases rule: match_handle_cases [OF s])
      case 2
      then show ?thesis using tw(2) \<open>w @ rest' \<noteq> []\<close> \<open>handle_start (hd (w @ rest'))\<close> by blast
    qed auto
  qed
qed

lemma match_handle_iff: "(\<exists>rest. match_handle s = Some (h, rest)) \<longleftrightarrow> longest_mention s h"
proof
  assume "\<exists>rest. match_handle s = Some (h, rest)"
  then show "longest_mention s h"
    unfolding longest_mention_def using match_handle_form match_handle_longest by blast
next
  assume l: "longest_mention s h"
  then obtain rest where s: "s = h @ rest" "mention_form h" by (auto simp: longest_mention_def)
  then have "s \<noteq> []" "handle_start (hd s)" using mention_form_head by auto
  then obtain h2 r2 where m: "match_handle s = Some (h2, r2)" by (cases rule: match_handle_cases) auto
  have "length h = length h2"
    using match_handle_longest [OF m s(1,2)] l match_handle_form [OF m] unfolding longest_mention_def by (metis le_antisym)
  then show "\<exists>rest. match_handle s = Some (h, rest)" using m s(1) match_handle_form [OF m] by (metis append_eq_append_conv)
qed

text \<open>A handle holds no \<open>@\<close>, so a match never hides the start of another.\<close>

lemma at_Cons: "(\<exists>pre post. ch # cs = pre @ CHR ''@'' # post \<and> Q post) \<longleftrightarrow>
    (ch = CHR ''@'' \<and> Q cs) \<or> (\<exists>pre post. cs = pre @ CHR ''@'' # post \<and> Q post)" (is "?L \<longleftrightarrow> ?R")
proof
  assume ?L
  then obtain pre post where "ch # cs = pre @ CHR ''@'' # post" "Q post" by blast
  then show ?R by (cases pre) auto
next
  assume ?R
  then consider "ch = CHR ''@''" "Q cs" | pre post where "cs = pre @ CHR ''@'' # post" "Q post" by blast
  then show ?L
  proof cases
    case 1
    then show ?thesis by (intro exI [of _ "[]"] exI [of _ cs]) simp
  next
    case 2
    then show ?thesis by (intro exI [of _ "ch # pre"] exI [of _ post]) simp
  qed
qed

lemma at_split: "CHR ''@'' \<notin> set p \<Longrightarrow>
    (\<exists>pre post. p @ r = pre @ CHR ''@'' # post \<and> Q post) \<longleftrightarrow> (\<exists>pre post. r = pre @ CHR ''@'' # post \<and> Q post)"
proof (induction p)
  case (Cons a p)
  then show ?case using at_Cons [of a "p @ r" Q] by auto
qed simp

lemma find_mentions_set: "h \<in> set (find_mentions tx) \<longleftrightarrow> (\<exists>pre post. tx = pre @ CHR ''@'' # post \<and> longest_mention post h)"
proof (induction tx rule: find_mentions.induct)
  case (2 ch cs)
  show ?case
  proof (cases "ch = CHR ''@''")
    case False
    then show ?thesis using 2(3) [OF False] by (simp add: at_Cons)
  next
    case True
    show ?thesis
    proof (cases "match_handle cs")
      case None
      then have "\<not> longest_mention cs h" using match_handle_iff [of cs h] by simp
      then show ?thesis using True None 2(1) [OF True None] by (simp add: at_Cons)
    next
      case (Some hr)
      obtain h2 rest where hr: "hr = (h2, rest)" by fastforce
      have f: "cs = h2 @ rest" "CHR ''@'' \<notin> set h2" using match_handle_form Some hr by auto
      have "longest_mention cs h \<longleftrightarrow> h = h2" using match_handle_iff [of cs h] Some hr by auto
      moreover have "(\<exists>pre post. cs = pre @ CHR ''@'' # post \<and> longest_mention post h)
          \<longleftrightarrow> (\<exists>pre post. rest = pre @ CHR ''@'' # post \<and> longest_mention post h)"
        unfolding f(1) by (rule at_split [OF f(2)])
      ultimately show ?thesis using True Some hr 2(2) [OF True Some hr [symmetric]] by (simp add: at_Cons)
    qed
  qed
qed simp

text \<open>Lower-casing keeps the grammar, so a mention is never a malformed handle.\<close>

lemma lower_byte_class [simp]:
  "handle_byte (to_lower_byte ch) = handle_byte ch" "handle_start (to_lower_byte ch) = handle_start ch"
  by (cases "65 \<le> (of_char ch :: nat) \<and> (of_char ch :: nat) \<le> 90";
      auto simp: handle_byte_def handle_start_def less_eq_char_def of_to_lower_byte to_lower_byte_def [of ch])+

lemma lower_word: "handle_word w \<Longrightarrow> handle_word (ToLower w)"
  by (cases w) (auto simp: handle_word_def ToLower_def list_all_iff)

lemma word_no_slash: "handle_word w \<Longrightarrow> CHR ''/'' \<notin> set w"
  by (auto simp: handle_word_def list_all_iff)

lemma contains_slash: "CHR ''/'' \<notin> set w \<Longrightarrow> \<not> Contains w ''/''"
proof (induction w)
  case Nil
  show ?case by (subst Contains.simps) simp
next
  case (Cons a w)
  then show ?case by (subst Contains.simps) auto
qed

lemma cut_at_slash: "CHR ''/'' \<notin> set ow \<Longrightarrow> Cut_slash (ow @ CHR ''/'' # w) = Some (ow, w)"
proof -
  assume "CHR ''/'' \<notin> set ow"
  then have "dropWhile (\<lambda>ch. ch \<noteq> CHR ''/'') (ow @ CHR ''/'' # w) = CHR ''/'' # w \<and> takeWhile (\<lambda>ch. ch \<noteq> CHR ''/'') (ow @ CHR ''/'' # w) = ow"
    by (induction ow) auto
  then show ?thesis by (simp add: Cut_slash_def)
qed

lemma lower_mention_wellformed:
  assumes "mention_form h"
  shows "\<not> Malformed (ParseQualifiedHandle (ToLower h))"
proof -
  have cut: "Cut_slash w = None" if "CHR ''/'' \<notin> set w" for w
  proof -
    have "dropWhile (\<lambda>ch. ch \<noteq> CHR ''/'') w = []" using that by auto
    then show ?thesis unfolding Cut_slash_def by (simp only: list.case)
  qed
  from assms consider "handle_word h" | ow w where "handle_word ow" "handle_word w" "h = ow @ CHR ''/'' # w"
    by (auto simp: mention_form_def)
  then show ?thesis
  proof cases
    case 1
    then have "Cut_slash (ToLower h) = None" using cut word_no_slash lower_word by blast
    then show ?thesis by (simp add: ParseQualifiedHandle_def Malformed_def Qualified_def)
  next
    case 2
    let ?ow = "ToLower ow" and ?w = "ToLower w"
    have h: "ToLower h = ?ow @ CHR ''/'' # ?w" using 2(3) by (simp add: ToLower_def to_lower_byte_def)
    have ns: "CHR ''/'' \<notin> set ?ow" "CHR ''/'' \<notin> set ?w" "?ow \<noteq> []" "?w \<noteq> []"
      using word_no_slash [OF lower_word [OF 2(1)]] word_no_slash [OF lower_word [OF 2(2)]] 2(1,2)
      by (simp_all add: handle_word_def ToLower_def)
    have "Cut_slash (ToLower h) = Some (?ow, ?w)"
      unfolding h by (rule cut_at_slash [OF ns(1)])
    moreover have "\<not> Contains ?w ''/''" using ns(2) by (rule contains_slash)
    ultimately show ?thesis using ns by (simp add: ParseQualifiedHandle_def Malformed_def)
  qed
qed

section \<open>The fan-out\<close>

fun delivers_to :: "string \<Rightarrow> delivery_effect \<Rightarrow> bool" where
  "delivers_to s (EDispatch s' (Deliver _)) \<longleftrightarrow> s' = s"
| "delivers_to s _ \<longleftrightarrow> False"

text \<open>The number of plain delivers handed to a session.\<close>

definition deliver_count :: "string \<Rightarrow> delivery_effect list \<Rightarrow> nat" where
  "deliver_count s log = length (filter (delivers_to s) log)"

lemma deliver_count_append [simp]: "deliver_count s (xs @ ys) = deliver_count s xs + deliver_count s ys"
  by (simp add: deliver_count_def)

lemma deliver_count_Nil [simp]: "deliver_count s [] = 0"
  by (simp add: deliver_count_def)

lemma deliver_count_Cons: "deliver_count s (x # xs) = (if delivers_to s x then 1 else 0) + deliver_count s xs"
  by (simp add: deliver_count_def)

lemma deliver_count_steer [simp]: "deliver_count s (dispatchSteerTo rd tp sess msg from) = 0"
  by (simp add: dispatchSteerTo_def gatedDispatch_def steerOp_def deliver_count_Cons case_prod_beta)

lemma deliver_count_to [simp]: "deliver_count s (dispatchTo rd tp sess msg from) = (if sess = s then 1 else 0)"
  by (simp add: dispatchTo_def gatedDispatch_def deliverOp_def deliver_count_Cons case_prod_beta)

lemma deliver_count_wake [simp]: "deliver_count s (wake rd a) = 0"
  by (simp add: wake_def deliver_count_Cons)

lemma deliver_count_mention [simp]: "deliver_count s (mention_effects rd tp ch msg a) = 0"
  by (auto simp: mention_effects_def deliver_count_Cons split: option.split sum.split bool.split)

lemma deliver_count_asker [simp]: "deliver_count s (routeAskAnswerFor rd tp ch msg) = 0"
  by (auto simp: routeAskAnswerFor_def deliver_count_Cons split: option.split sum.split bool.split)

lemma deliver_count_mark [simp]: "deliver_count s (EMarkRouted i # xs) = deliver_count s xs"
  by (simp add: deliver_count_Cons)

lemma deliver_count_concat: "deliver_count s (concat xss) = (\<Sum>xs\<leftarrow>xss. deliver_count s xs)"
  by (induction xss) simp_all

lemma deliver_count_routed [simp]: "deliver_count s (snd (routeMentionsFor rd tp ch author msg)) = 0"
  by (simp add: routeMentionsFor_def Let_def deliver_count_concat comp_def)

lemma deliver_count_deliver: "deliver_count s (deliver_effects rd tp msg a) = (if Session_deliver rd a = Some s then 1 else 0)"
  by (simp add: deliver_effects_def split: option.split)

lemma sum_list_one: "distinct xs \<Longrightarrow> (\<Sum>b\<leftarrow>xs. if b = a \<and> P then 1 else 0) = (if a \<in> set xs \<and> P then (1 :: nat) else 0)"
  by (induction xs) auto

lemma deliver_count_fanOut:
  assumes "SubscribedAgents rd ch author = Inr recipients" and "distinct recipients"
    and inj: "\<And>b. Session_deliver rd b = Some s \<Longrightarrow> b = a" and a: "Session_deliver rd a = Some s"
  shows "deliver_count s (fanOut rd tp ch author msg)
    = (if a \<in> set recipients \<and> a \<notin> set (fst (routeMentionsFor rd tp ch author msg)) then 1 else 0)"
proof -
  let ?m = "set (fst (routeMentionsFor rd tp ch author msg))"
  have one: "deliver_count s (if b \<in> ?m then [] else deliver_effects rd tp msg b) = (if b = a \<and> a \<notin> ?m then 1 else 0)" for b
  proof (cases "b = a")
    case False
    then have "Session_deliver rd b \<noteq> Some s" using inj by blast
    then show ?thesis using False by (simp add: deliver_count_deliver)
  qed (simp add: deliver_count_deliver a)
  show ?thesis
    by (simp add: fanOut_def case_prod_beta assms(1) deliver_count_concat comp_def one sum_list_one [OF assms(2)])
qed

lemma mention_in_fanOut:
  assumes "a \<in> set (fst (routeMentionsFor rd tp ch author msg))"
  shows "\<exists>l1 l2. fanOut rd tp ch author msg = l1 @ mention_effects rd tp ch msg a @ l2"
proof -
  obtain ms1 ms2 where ms: "resolveMentioned rd ch author (mentionHandles msg) = ms1 @ a # ms2"
      "mentionHandles msg \<noteq> []"
    using assms by (auto simp: routeMentionsFor_def Let_def split: if_splits dest: split_list)
  then have "\<exists>l2. fanOut rd tp ch author msg = concat (map (mention_effects rd tp ch msg) ms1) @ mention_effects rd tp ch msg a @ l2"
    by (simp add: fanOut_def routeMentionsFor_def Let_def)
  then show ?thesis by blast
qed

section \<open>From settle to fan-out\<close>

lemma drain_held_or_fired:
  assumes "e \<in> set (held_of c s)"
  shows "e \<in> set (held_of (fst (drain_settle c)) s) \<or> e \<in> set (snd (drain_settle c))"
proof (cases "cn_settle_queue c")
  case (Cons ev rest)
  then have "snd (drain_settle c) = filter (fires (sv_up_to ev) (sv_turn ev) (sv_gen ev)) (held_of c (sv_session ev))"
    by (simp add: drain_settle_def fireHeld_def Let_def)
  then show ?thesis using assms Cons by (auto simp: drain_held)
qed (use assms in \<open>simp add: drain_held\<close>)

lemma drainSettles_held_or_fired:
  "e \<in> set (held_of c s) \<Longrightarrow> e \<in> set (held_of (fst (drainSettles c)) s) \<or> e \<in> set (snd (drainSettles c))"
proof (induction c rule: drainSettles_induct)
  case (round c)
  then show ?case using drain_held_or_fired [OF round(2)]
    by (cases "cn_settle_queue c = []") (auto simp: drainSettles_done drainSettles_step)
qed

section \<open>Properties\<close>


definition demo_post :: Message where
  "demo_post = \<lparr>m_id = ''m'', m_topic_id = ''t'', m_channel_id = ''c'', m_author_account_id = ''ada'', m_author_handle = ''ada'',
     m_at = 20000000, m_blocks = [\<lparr>mb_text = Some ''hi @bob'', mb_ask = None, mb_ask_answer = None\<rparr>], m_turn_sequence = 1\<rparr>"

text \<open>A channel with two subscribed agents of one owner: Cleo with a live session, Bob mentioned and offline.\<close>

definition demo_delivery :: delivery_reads where
  "demo_delivery = \<lparr>IsAgentAccount = (\<lambda>_. Inr True), MessageByID = (\<lambda>_. Inr demo_post), MessageChannel = (\<lambda>_. Inr ''c''),
     TopicChannelNames = (\<lambda>_. Inr (''t'', ''c'')), SubscribedAgents = (\<lambda>_ _. Inr [''cleo'', ''bob'']),
     ChannelAgentMembers = (\<lambda>_ _. Inr [\<lparr>cam_id = ''bob'', cam_owner_user_id = ''u'', cam_owner_handle = ''u'', cam_handle = ''bob''\<rparr>]),
     OwnerOfAuthor = (\<lambda>_. Inr ''u''), InSweepSet_mention = (\<lambda>_ _. Inr False), InSweepSet_asker = (\<lambda>_ _. Inr False),
     RecordOwedMention_mention = (\<lambda>_. True), RecordOwedMention_asker = (\<lambda>_. True), SweepChannels = (\<lambda>_. Inr []),
     PinnedEntries = (\<lambda>_. Inr []), OwedMentions = (\<lambda>_. Inr []), UndeliveredMessages = (\<lambda>_. Inr []),
     Session_author = (\<lambda>_. Some ''s''), Session_mention = (\<lambda>_. None), Session_recheck = (\<lambda>_. None), Session_asker = (\<lambda>_. None),
     Session_deliver = (\<lambda>a. if a = ''cleo'' then Some ''sc'' else None), has_waker = True\<rparr>"

lemma demo_mentioned: "fst (routeMentionsFor demo_delivery [] ''c'' ''ada'' (MessageToWire demo_post)) = [''bob'']"
proof -
  have "find_mentions ''hi @bob'' = [''bob'']"
    by (simp add: match_handle_def handle_start_def handle_byte_def to_lower_byte_def Let_def less_eq_char_def)
  then have "mentionHandles (MessageToWire demo_post) = [''bob'']"
    by (simp add: mentionHandles_def MessageToWire_def demo_post_def blocksToWire_def block_text_def parseMentions_def snoc_new_def ToLower_def to_lower_byte_def)
  then show ?thesis
    by (simp add: routeMentionsFor_def resolveMentioned_def demo_delivery_def handle_targets_def reservedMentions_def
        ParseQualifiedHandle_def Cut_slash_def Qualified_def snoc_new_def Let_def)
qed

text \<open>Steer-only precedence. In the fan-out of a message, the session of a subscribed agent is
  handed exactly one plain deliver if the agent is not mentioned and none if it is; a
  mentioned agent with a live session is handed a steer with the message.\<close>

theorem steer_only_precedence:
  assumes "SubscribedAgents rd ch author = Inr recipients" and "distinct recipients" and "a \<in> set recipients"
    and "Session_deliver rd a = Some s" and "\<And>b. Session_deliver rd b = Some s \<Longrightarrow> b = a"
    and "mentioned = fst (routeMentionsFor rd tp ch author msg)"
  shows "deliver_count s (fanOut rd tp ch author msg) = (if a \<in> set mentioned then 0 else 1)
    \<and> (a \<in> set mentioned \<and> Session_mention rd a = Some s' \<longrightarrow>
        (\<exists>body. ct_message body = msg \<and> EDispatch s' (Steer body) \<in> set (fanOut rd tp ch author msg)))"
proof -
  have "\<exists>body. ct_message body = msg \<and> EDispatch s' (Steer body) \<in> set (fanOut rd tp ch author msg)"
    if m: "a \<in> set mentioned" "Session_mention rd a = Some s'"
  proof -
    obtain l1 l2 where "fanOut rd tp ch author msg = l1 @ mention_effects rd tp ch msg a @ l2"
      using mention_in_fanOut [of a rd tp ch author msg] m(1) assms(6) by blast
    moreover have "\<exists>body. ct_message body = msg \<and> EDispatch s' (Steer body) \<in> set (mention_effects rd tp ch msg a)"
      using m(2) by (auto simp: mention_effects_def dispatchSteerTo_def gatedDispatch_def steerOp_def case_prod_beta)
    ultimately show ?thesis by auto
  qed
  then show ?thesis using deliver_count_fanOut [OF assms(1,2,5,4)] assms(3,6) by auto
qed

theorem steer_only_precedence_witness:
  "deliver_count ''sc'' (fanOut demo_delivery [] ''c'' ''ada'' (MessageToWire demo_post)) = 1"
proof -
  have sub: "SubscribedAgents demo_delivery ''c'' ''ada'' = Inr [''cleo'', ''bob'']" and sess: "Session_deliver demo_delivery ''cleo'' = Some ''sc''"
    and inj: "\<And>b. Session_deliver demo_delivery b = Some ''sc'' \<Longrightarrow> b = ''cleo''"
    by (simp_all add: demo_delivery_def split: if_splits)
  show ?thesis
    using steer_only_precedence [OF sub _ _ sess inj refl, of "[]" "MessageToWire demo_post"] demo_mentioned by simp
qed



text \<open>C13: a post is handled at once or not at all. When the handler of a fabric ref asks for a
  redelivery it has sent nothing and held nothing; a post of an agent with a live session
  sends nothing and is held; every other post leaves the registry alone.\<close>

theorem post_all_or_nothing:
  "case onEventRef rd tp ref c of (c', effects, err) \<Rightarrow>
     (err \<noteq> None \<longrightarrow> c' = c \<and> effects = []) \<and>
     (case MessageByID (rd (er_tenant ref)) (er_row_id ref) of
        Inl _ \<Rightarrow> c' = c \<and> effects = []
      | Inr m \<Rightarrow>
          if m_topic_id m \<noteq> [] \<and> m_id m \<noteq> [] \<and> IsAgentAccount (rd (er_tenant ref)) (m_author_account_id m) = Inr True
             \<and> Session_author (rd (er_tenant ref)) (m_author_account_id m) \<noteq> None
          then effects = [] \<and> err = None \<and>
            (\<exists>s. Session_author (rd (er_tenant ref)) (m_author_account_id m) = Some s
              \<and> c' = hold tp (Some (er_tenant ref)) s (m_id m) (UnixMilli (m_at m)) (m_turn_sequence m) c)
          else c' = c)"
  by (auto simp: onEventRef_def onMessagePosted_def MessageToWire_def split: sum.splits option.splits bool.splits if_splits)

theorem post_all_or_nothing_witness:
  "fst (snd (onEventRef (\<lambda>_. demo_delivery) [] \<lparr>er_tenant = ''T'', er_kind = KindMessagePosted, er_row_id = ''m''\<rparr> NewConsumer)) = []"
  using post_all_or_nothing [where rd = "\<lambda>_. demo_delivery" and tp = "[]" and c = NewConsumer
      and ref = "\<lparr>er_tenant = ''T'', er_kind = KindMessagePosted, er_row_id = ''m''\<rparr>"]
  by (auto simp: demo_delivery_def demo_post_def split: prod.splits)

text \<open>From settle to fan-out. A post held for a live author that carries a turn sequence is fanned out,
  from the blocks the store holds and under its own tenant and trace, by the drain that
  follows the hub's report that this turn, or a later one, settled.\<close>

theorem held_post_fans_out:
  assumes "gate_run gate_env NewConsumer ops c" and "e \<in> set (held_of c s)" and "0 < he_turn e" and "he_turn e \<le> turn"
    and "firesHeldDelivers st" and "storeMessageToWire (rd (he_tenant e)) (he_message_id e) = Inr (wire, ch, author)"
  shows "\<exists>l1 l2. snd (settle_effects rd (OnSessionSettled now s st turn c))
    = l1 @ fanOut (rd (he_tenant e)) (he_traceparent e) ch author wire @ l2"
proof -
  let ?c = "OnSessionSettled now s st turn c"
  have run: "gate_run gate_env NewConsumer (ops @ [GSettled now s st turn]) ?c"
    using gate_snoc [OF assms(1), of "GSettled now s st turn"] by simp
  have held: "e \<in> set (held_of ?c s)" using assms(2) by (simp add: settled_edge [OF assms(5)])
  have inv: "release_inv ?c" by (rule release_inv_run [OF run])
  have settled: "settled_post (fst (drainSettles ?c)) s e"
    using assms(3,4) by (auto simp: settled_post_def drainSettles_sequence settled_edge [OF assms(5)])
  have "e \<notin> set (held_of (fst (drainSettles ?c)) s)"
    using release_invD(4) [OF drainSettles_inv [OF inv], of e s] settled drainSettles_queue [of ?c] by fastforce
  then have "e \<in> set (snd (drainSettles ?c))" using drainSettles_held_or_fired [OF held] by blast
  then obtain f1 f2 where "snd (drainSettles ?c) = f1 @ e # f2" by (auto dest: split_list)
  then have "snd (settle_effects rd ?c) = concat (map (fire_entry rd) f1) @ fire_entry rd e @ concat (map (fire_entry rd) f2)"
    by (simp add: settle_effects_def case_prod_beta)
  then show ?thesis using assms(6) by (auto simp: fire_entry_def)
qed

theorem held_post_fans_out_witness:
  "\<exists>l1 l2. snd (settle_effects (\<lambda>_. demo_delivery) (OnSessionSettled 40 ''s'' AGENT_SESSION_STATE_READY 2 demo_gated))
     = l1 @ fanOut demo_delivery [] ''c'' ''ada'' (MessageToWire demo_post) @ l2"
proof -
  have "storeMessageToWire demo_delivery ''m'' = Inr (MessageToWire demo_post, ''c'', ''ada'')"
    by (simp add: storeMessageToWire_def demo_delivery_def demo_post_def)
  then show ?thesis
    using held_post_fans_out [OF demo_gate_run(1), where s = "''s''" and rd = "\<lambda>_. demo_delivery" and st = AGENT_SESSION_STATE_READY
        and turn = 2 and now = 40 and wire = "MessageToWire demo_post" and ch = "''c''" and author = "''ada''"] demo_gate_held
    by auto
qed

end
