(* ===== verification/Delivery_Sweep.thy ===== *)
theory Delivery_Sweep
  imports Delivery_Route
begin

text \<open>
  The recovery side of message delivery: the sweeps of a starting or live session and the
  wakes of lost ones (\<open>src/go/internal/delivery/settle.go\<close>), the scan for missed mentions (\<open>scan.go\<close>) and the
  body of the consumer's loop (\<open>consumer.go\<close>).

  Durations are signed 64-bit nanoseconds. A timer the code starts with \<open>afterFunc\<close> is an
  outstanding entry of the lost-session state machine until it fires. The loop of the mention scan
  takes the answers of its successive batch reads as a list; it is still running when the list
  ends before it does.
\<close>

section \<open>Sweeps\<close>

definition sweep_message :: "delivery_reads \<Rightarrow> string \<Rightarrow> string \<Rightarrow> Message \<Rightarrow> delivery_effect" where
  "sweep_message rd tp sess m =
    (let wire = MessageToWire m; (cn, tn) = sourceNames rd wire
     in EDispatch sess (deliverOp wire (wm_author_handle wire) cn tn tp))"

text \<open>\<open>live\<close> is the snapshot of the live sessions \<open>heldIDs\<close> takes.\<close>

definition sweepSession :: "delivery_reads \<Rightarrow> string \<Rightarrow> string list \<Rightarrow> AccountID \<Rightarrow> string \<Rightarrow> bool \<Rightarrow> Consumer \<Rightarrow> delivery_effect list" where
  "sweepSession rd tp live account sess skipHeld c =
    (case UndeliveredMessages rd account of Inl _ \<Rightarrow> []
     | Inr owed \<Rightarrow>
        (let skip = (if skipHeld then heldIDs live c else [])
         in concat (map (\<lambda>(_, msgs). map (sweep_message rd tp sess) (filter (\<lambda>m. m_id m \<notin> set skip) msgs)) owed)))"

definition sweepAllLive :: "delivery_reads \<Rightarrow> string \<Rightarrow> (AccountID, string) gomap \<Rightarrow> Consumer \<Rightarrow> delivery_effect list" where
  "sweepAllLive rd tp bound c = concat (map (\<lambda>(account, sess). sweepSession rd tp (map snd bound) account sess True c) bound)"

definition pin_op :: "delivery_reads \<Rightarrow> string \<Rightarrow> string \<Rightarrow> PinnedEntry \<Rightarrow> delivery_effect list" where
  "pin_op rd tp sess entry =
    (case storeMessageToWire rd (pi_message_id entry) of Inl _ \<Rightarrow> []
     | Inr (wire, _, _) \<Rightarrow> (let (cn, tn) = sourceNames rd wire in [EDispatch sess (deliverOp wire (wm_author_handle wire) cn tn tp)]))"

definition sweepPins :: "delivery_reads \<Rightarrow> string \<Rightarrow> AccountID \<Rightarrow> string \<Rightarrow> read_error + delivery_effect list" where
  "sweepPins rd tp agent sess =
    bindE (SweepChannels rd agent) (\<lambda>channels. Inr (concat (map (\<lambda>channel.
      case PinnedEntries rd channel of Inl _ \<Rightarrow> [] | Inr entries \<Rightarrow> concat (map (pin_op rd tp sess) entries)) channels)))"

text \<open>The reading half of \<open>sweepOwedMentions\<close>: an unreadable message clears its row, a readable one becomes a steer.\<close>

definition owed_op :: "delivery_reads \<Rightarrow> string \<Rightarrow> AccountID \<Rightarrow> string \<Rightarrow> Message \<Rightarrow> delivery_effect + delivery_effect" where
  "owed_op rd tp agent sess m =
    (case storeMessageToWire rd (m_id m) of
       Inl _ \<Rightarrow> Inl (EClearOwed agent (m_id m))
     | Inr (wire, _, _) \<Rightarrow> (let (cn, tn) = sourceNames rd wire in Inr (EDispatch sess (steerOp wire (wm_author_handle wire) cn tn tp))))"

definition sweepOwedMentions :: "delivery_reads \<Rightarrow> string \<Rightarrow> AccountID \<Rightarrow> string \<Rightarrow> read_error + delivery_effect list" where
  "sweepOwedMentions rd tp agent sess =
    bindE (OwedMentions rd agent) (\<lambda>owed.
      let ops = map (owed_op rd tp agent sess) (concat (map snd owed))
      in Inr (List.map_filter (\<lambda>o'. case o' of Inl e \<Rightarrow> Some e | Inr _ \<Rightarrow> None) ops
              @ List.map_filter (\<lambda>o'. case o' of Inl _ \<Rightarrow> None | Inr e \<Rightarrow> Some e) ops))"

section \<open>Session starts\<close>

definition OnSessionStarted :: "string \<Rightarrow> AccountID \<Rightarrow> Consumer \<Rightarrow> Consumer" where
  "OnSessionStarted sess account c =
    (if sess = [] \<or> account = [] then c
     else wakeup (c\<lparr>cn_start_queue := cn_start_queue c @ [\<lparr>sa_session = sess, sa_account = account\<rparr>]\<rparr>))"

definition okE :: "'e + 'a list \<Rightarrow> 'a list" where
  "okE r = (case r of Inl _ \<Rightarrow> [] | Inr xs \<Rightarrow> xs)"

definition start_effects :: "delivery_reads \<Rightarrow> string \<Rightarrow> string list \<Rightarrow> Consumer \<Rightarrow> startEvent \<Rightarrow> delivery_effect list" where
  "start_effects rd tp live c ev =
     sweepSession rd tp live (sa_account ev) (sa_session ev) True c
     @ okE (sweepPins rd tp (sa_account ev) (sa_session ev))
     @ okE (sweepOwedMentions rd tp (sa_account ev) (sa_session ev))"

text \<open>The loop pops one event per round and sends nothing back to the queue.\<close>

definition drainStarts :: "delivery_reads \<Rightarrow> string \<Rightarrow> string list \<Rightarrow> Consumer \<Rightarrow> Consumer \<times> delivery_effect list" where
  "drainStarts rd tp live c = (c\<lparr>cn_start_queue := []\<rparr>, concat (map (start_effects rd tp live c) (cn_start_queue c)))"

section \<open>Lost sessions\<close>

type_synonym duration = "64 word"

definition erroredWakeBaseDelay :: duration where
  "erroredWakeBaseDelay = 30000000000"

definition erroredWakeMaxDelay :: duration where
  "erroredWakeMaxDelay = 900000000000"

definition erroredWakeResetAfter :: duration where
  "erroredWakeResetAfter = 1800000000000"

definition erroredWakeDelay :: "nat \<Rightarrow> duration" where
  "erroredWakeDelay strikes =
    (if strikes = 0 then 0
     else if 10 < strikes then erroredWakeMaxDelay
     else (let d = push_bit (strikes - 1) erroredWakeBaseDelay
           in if sint d \<le> sint erroredWakeMaxDelay then d else erroredWakeMaxDelay))"

definition enqueueLost :: "lostEvent \<Rightarrow> Consumer \<Rightarrow> Consumer" where
  "enqueueLost ev c = wakeup (c\<lparr>cn_lost_queue := cn_lost_queue c @ [ev]\<rparr>)"

definition OnSessionLost :: "string \<Rightarrow> AccountID \<Rightarrow> bool \<Rightarrow> Consumer \<Rightarrow> Consumer" where
  "OnSessionLost sess account errored c =
    (if sess = [] \<or> account = [] then c
     else enqueueLost \<lparr>lo_account = account, lo_errored = errored, lo_deferred = False\<rparr> c)"

definition erroredWakePending :: "AccountID \<Rightarrow> Consumer \<Rightarrow> bool" where
  "erroredWakePending a c = (case gm_get (cn_errored_wakes c) a of None \<Rightarrow> False | Some b \<Rightarrow> eb_pending b)"

text \<open>Clock readings are nanoseconds; \<open>now.Sub\<close> is their difference.\<close>

definition nextErroredWakeDelay :: "int \<Rightarrow> AccountID \<Rightarrow> Consumer \<Rightarrow> Consumer \<times> duration" where
  "nextErroredWakeDelay now a c =
    (let fresh = \<lparr>eb_strikes = 0, eb_last = 0, eb_pending = False\<rparr>;
         b = (case gm_get (cn_errored_wakes c) a of
                None \<Rightarrow> fresh
              | Some b \<Rightarrow> if sint erroredWakeResetAfter \<le> now - eb_last b then fresh else b);
         delay = erroredWakeDelay (eb_strikes b)
     in (c\<lparr>cn_errored_wakes := gm_put a \<lparr>eb_strikes = eb_strikes b + 1, eb_last = now, eb_pending = 0 <s delay\<rparr> (cn_errored_wakes c)\<rparr>, delay))"

definition clearPendingErroredWake :: "AccountID \<Rightarrow> Consumer \<Rightarrow> Consumer" where
  "clearPendingErroredWake a c =
    (case gm_get (cn_errored_wakes c) a of None \<Rightarrow> c
     | Some b \<Rightarrow> c\<lparr>cn_errored_wakes := gm_put a (b\<lparr>eb_pending := False\<rparr>) (cn_errored_wakes c)\<rparr>)"

definition pruneErroredWakes :: "int \<Rightarrow> Consumer \<Rightarrow> Consumer" where
  "pruneErroredWakes now c = c\<lparr>cn_errored_wakes :=
     filter (\<lambda>(_, b). \<not> (\<not> eb_pending b \<and> sint erroredWakeResetAfter \<le> now - eb_last b)) (cn_errored_wakes c)\<rparr>"

definition hasOwedWork :: "delivery_reads \<Rightarrow> AccountID \<Rightarrow> bool" where
  "hasOwedWork rd a =
    (case UndeliveredMessages rd a of Inl _ \<Rightarrow> True
     | Inr u \<Rightarrow> u \<noteq> [] \<or> (case OwedMentions rd a of Inl _ \<Rightarrow> True | Inr ms \<Rightarrow> ms \<noteq> []))"

datatype lost_outcome = LostIdle | LostCovered | LostNothingOwed | LostDelayed AccountID duration | LostWoken AccountID

text \<open>One round of \<open>drainLost\<close>; \<open>owed\<close> is the answer of \<open>hasOwedWork\<close> and \<open>now\<close> the clock, when they are asked.\<close>

definition drain_lost :: "int \<Rightarrow> (AccountID \<Rightarrow> bool) \<Rightarrow> Consumer \<Rightarrow> Consumer \<times> lost_outcome" where
  "drain_lost now owed c =
    (case cn_lost_queue c of [] \<Rightarrow> (c, LostIdle)
     | ev # rest \<Rightarrow>
        (let c1 = c\<lparr>cn_lost_queue := rest\<rparr>; a = lo_account ev
         in if lo_errored ev \<and> \<not> lo_deferred ev \<and> erroredWakePending a c1 then (c1, LostCovered)
            else if lo_errored ev \<and> \<not> owed a then (if lo_deferred ev then clearPendingErroredWake a c1 else c1, LostNothingOwed)
            else (let (c2, delay) = (if lo_errored ev \<and> \<not> lo_deferred ev then nextErroredWakeDelay now a c1 else (c1, 0))
                  in if 0 <s delay then (c2, LostDelayed a delay)
                     else (if lo_deferred ev then clearPendingErroredWake a c2 else c2, LostWoken a))))"

section \<open>Runner ready and recovery\<close>

definition OnRunnerReady :: "Consumer \<Rightarrow> Consumer" where
  "OnRunnerReady c = wakeup (c\<lparr>cn_owed_rewake := True\<rparr>)"

text \<open>\<open>accounts\<close> is the answer of \<open>OwedMentionAccounts\<close>; the wakes run off the loop while the context lives.\<close>

definition drainOwedRewake :: "delivery_reads \<Rightarrow> read_error + AccountID list \<Rightarrow> Consumer \<Rightarrow> Consumer \<times> delivery_effect list" where
  "drainOwedRewake rd accounts c =
    (c\<lparr>cn_owed_rewake := False\<rparr>,
     if \<not> cn_owed_rewake c then [] else concat (map (wake rd) (okE accounts)))"

section \<open>The scan for missed mentions\<close>

definition scanBatchLimit :: nat where
  "scanBatchLimit = 256"

definition markUnlessHeld :: "(string \<Rightarrow> bool) \<Rightarrow> string \<Rightarrow> delivery_effect list" where
  "markUnlessHeld held i = (if held i then [] else [EMarkRouted i])"

text \<open>\<open>held1\<close> and \<open>held2\<close> are the registry at the first check and at the mark.\<close>

definition scan_row :: "delivery_reads \<Rightarrow> string \<Rightarrow> (string \<Rightarrow> bool) \<Rightarrow> (string \<Rightarrow> bool) \<Rightarrow> MessageWithChannel \<Rightarrow> delivery_effect list" where
  "scan_row rd tp held1 held2 row =
    (let i = m_id (mwc_message row) in
     if held1 i then []
     else case storeMessageToWire rd i of Inl _ \<Rightarrow> []
       | Inr (wire, channel, author) \<Rightarrow>
           snd (routeMentionsFor rd tp channel author wire) @ routeAskAnswerFor rd tp channel wire @ markUnlessHeld held2 i)"

fun scanMissedMentions :: "delivery_reads \<Rightarrow> string \<Rightarrow> (string \<Rightarrow> bool) \<Rightarrow> (string \<Rightarrow> bool) \<Rightarrow> (read_error + MessageWithChannel list) list \<Rightarrow> int
    \<Rightarrow> delivery_effect list \<times> bool" where
  "scanMissedMentions rd tp held1 held2 [] afterSeq = ([], False)"
| "scanMissedMentions rd tp held1 held2 (Inl _ # answers) afterSeq = ([], True)"
| "scanMissedMentions rd tp held1 held2 (Inr batch # answers) afterSeq =
    (let effects = concat (map (scan_row rd tp held1 held2) batch)
     in if length batch < scanBatchLimit then (effects, True)
        else (let (more, ended) = scanMissedMentions rd tp held1 held2 answers (mwc_seq (last batch))
              in (effects @ more, ended)))"

text \<open>\<open>drainRecovery\<close>, with the binding snapshot of the resolver and the answers of the scan's reads.\<close>

definition drainRecovery :: "delivery_reads \<Rightarrow> string \<Rightarrow> int \<Rightarrow> (AccountID, string) gomap \<Rightarrow> (read_error + MessageWithChannel list) list \<Rightarrow> Consumer
    \<Rightarrow> Consumer \<times> delivery_effect list" where
  "drainRecovery rd tp now bound answers c =
    (let c0 = c\<lparr>cn_recovery_pending := False\<rparr> in
     if \<not> cn_recovery_pending c then (c0, [])
     else (let c1 = pruneErroredWakes now (prune_dead (map snd bound) c0);
               held = (\<lambda>i. messageHeld i c1)
           in (c1, sweepAllLive rd tp bound c1 @ fst (scanMissedMentions rd tp held held answers 0))))"

section \<open>The loop\<close>

text \<open>\<open>drainLost\<close> pops one event per round until the queue is empty; a round never appends (a timer's event
  comes later), so the length of the queue is the number of rounds.\<close>

fun drain_lost_rounds :: "nat \<Rightarrow> int \<Rightarrow> (AccountID \<Rightarrow> bool) \<Rightarrow> Consumer \<Rightarrow> Consumer \<times> lost_outcome list" where
  "drain_lost_rounds 0 now owed c = (c, [])"
| "drain_lost_rounds (Suc n) now owed c =
    (let (c1, out) = drain_lost now owed c; (c2, outs) = drain_lost_rounds n now owed c1 in (c2, out # outs))"

definition drainLost :: "delivery_reads \<Rightarrow> int \<Rightarrow> Consumer \<Rightarrow> Consumer \<times> lost_outcome list" where
  "drainLost rd now c = drain_lost_rounds (length (cn_lost_queue c)) now (hasOwedWork rd) c"

definition lost_effects :: "delivery_reads \<Rightarrow> lost_outcome list \<Rightarrow> delivery_effect list" where
  "lost_effects rd outs = concat (map (\<lambda>out. case out of LostWoken a \<Rightarrow> wake rd a | _ \<Rightarrow> []) outs)"

text \<open>The \<open>notify\<close> arm of \<open>Run\<close>'s select. \<open>rd\<close> are the reads under each tenant, \<open>sys\<close> those of the system
  role; the sinks do not append during the pass.\<close>

definition run_notify :: "(TenantID \<Rightarrow> delivery_reads) \<Rightarrow> delivery_reads \<Rightarrow> string \<Rightarrow> int \<Rightarrow> (AccountID, string) gomap
    \<Rightarrow> read_error + AccountID list \<Rightarrow> (read_error + MessageWithChannel list) list \<Rightarrow> Consumer \<Rightarrow> Consumer \<times> delivery_effect list" where
  "run_notify rd sys tp now bound accounts answers c =
    (let (c1, e1) = settle_effects rd c;
         (c2, e2) = drainStarts sys tp (map snd bound) c1;
         (c3, outs) = drainLost sys now c2;
         (c4, e4) = drainOwedRewake sys accounts c3;
         (c5, e5) = drainRecovery sys tp now bound answers c4
     in (c5, e1 @ e2 @ lost_effects sys outs @ e4 @ e5))"

section \<open>The lost-session state machine\<close>

text \<open>The consumer with the timers that have not fired.\<close>

record lost_sys =
  ls_c :: Consumer
  ls_timers :: "AccountID list"

datatype lost_op =
    LLost string AccountID bool
  | LRound int "AccountID \<Rightarrow> bool"
  | LFire AccountID
  | LPrune int

fun lost_exec :: "lost_op \<Rightarrow> lost_sys \<Rightarrow> lost_sys" where
  "lost_exec (LLost sess a errored) y = y\<lparr>ls_c := OnSessionLost sess a errored (ls_c y)\<rparr>"
| "lost_exec (LRound now owed) y = (case drain_lost now owed (ls_c y) of (c', out) \<Rightarrow>
     y\<lparr>ls_c := c', ls_timers := ls_timers y @ (case out of LostDelayed a _ \<Rightarrow> [a] | _ \<Rightarrow> [])\<rparr>)"
| "lost_exec (LFire a) y = (if a \<in> set (ls_timers y)
     then y\<lparr>ls_c := enqueueLost \<lparr>lo_account = a, lo_errored = True, lo_deferred = True\<rparr> (ls_c y), ls_timers := remove1 a (ls_timers y)\<rparr>
     else y)"
| "lost_exec (LPrune now) y = y\<lparr>ls_c := pruneErroredWakes now (ls_c y)\<rparr>"

inductive lost_reachable :: "lost_sys \<Rightarrow> bool" where
  lost_init: "lost_reachable \<lparr>ls_c = NewConsumer, ls_timers = []\<rparr>"
| lost_step: "lost_reachable y \<Longrightarrow> lost_reachable (lost_exec op y)"

definition deferred_for :: "AccountID \<Rightarrow> lostEvent \<Rightarrow> bool" where
  "deferred_for a ev \<longleftrightarrow> lo_deferred ev \<and> lo_account ev = a"

text \<open>The deferred wakes of an account on their way: timers that run and fired ones still queued.\<close>

definition outstanding :: "lost_sys \<Rightarrow> AccountID \<Rightarrow> nat" where
  "outstanding y a = length (filter (\<lambda>b. b = a) (ls_timers y)) + length (filter (deferred_for a) (cn_lost_queue (ls_c y)))"

definition lost_inv :: "lost_sys \<Rightarrow> bool" where
  "lost_inv y \<longleftrightarrow> gm_wf (cn_errored_wakes (ls_c y))
     \<and> (\<forall>ev \<in> set (cn_lost_queue (ls_c y)). lo_deferred ev \<longrightarrow> lo_errored ev)
     \<and> (\<forall>a. outstanding y a = (if erroredWakePending a (ls_c y) then 1 else 0))"

lemma pending_next:
  "erroredWakePending b (fst (nextErroredWakeDelay now a c)) = (if b = a then 0 <s snd (nextErroredWakeDelay now a c) else erroredWakePending b c)"
  by (simp add: nextErroredWakeDelay_def erroredWakePending_def Let_def)

lemma pending_clear: "erroredWakePending b (clearPendingErroredWake a c) \<longleftrightarrow> b \<noteq> a \<and> erroredWakePending b c"
  by (auto simp: clearPendingErroredWake_def erroredWakePending_def split: option.splits)

lemma pending_prune: "gm_wf (cn_errored_wakes c) \<Longrightarrow> erroredWakePending b (pruneErroredWakes now c) = erroredWakePending b c"
  unfolding pruneErroredWakes_def erroredWakePending_def by (auto simp: gm_get_filter split: option.splits)

lemma pending_queue [simp]: "erroredWakePending b (c\<lparr>cn_lost_queue := q\<rparr>) = erroredWakePending b c"
  by (simp add: erroredWakePending_def)

lemma next_frame [simp]: "cn_lost_queue (fst (nextErroredWakeDelay now a c)) = cn_lost_queue c"
  "gm_wf (cn_errored_wakes c) \<Longrightarrow> gm_wf (cn_errored_wakes (fst (nextErroredWakeDelay now a c)))"
  by (simp_all add: nextErroredWakeDelay_def Let_def)

lemma clear_frame [simp]: "cn_lost_queue (clearPendingErroredWake a c) = cn_lost_queue c"
  "gm_wf (cn_errored_wakes c) \<Longrightarrow> gm_wf (cn_errored_wakes (clearPendingErroredWake a c))"
  by (simp_all add: clearPendingErroredWake_def split: option.split)

text \<open>The ways a round can go, with the state it leaves.\<close>

lemma drain_lost_cases:
  assumes q: "cn_lost_queue c = ev # rest" and err: "lo_deferred ev \<longrightarrow> lo_errored ev"
  defines "c1 \<equiv> c\<lparr>cn_lost_queue := rest\<rparr>" and "a \<equiv> lo_account ev"
  obtains (covered) "lo_errored ev" "\<not> lo_deferred ev" "erroredWakePending a c" "drain_lost now owed c = (c1, LostCovered)"
  | (nothing_owed) "lo_errored ev" "\<not> owed a" "\<not> lo_deferred ev" "drain_lost now owed c = (c1, LostNothingOwed)"
  | (deferred_nothing) "\<not> owed a" "lo_deferred ev" "drain_lost now owed c = (clearPendingErroredWake a c1, LostNothingOwed)"
  | (deferred_wake) "lo_deferred ev" "drain_lost now owed c = (clearPendingErroredWake a c1, LostWoken a)"
  | (plain) "\<not> lo_errored ev" "\<not> lo_deferred ev" "drain_lost now owed c = (c1, LostWoken a)"
  | (struck) "lo_errored ev" "\<not> lo_deferred ev" "\<not> erroredWakePending a c"
      "drain_lost now owed c = (fst (nextErroredWakeDelay now a c1),
         if 0 <s snd (nextErroredWakeDelay now a c1) then LostDelayed a (snd (nextErroredWakeDelay now a c1)) else LostWoken a)"
proof -
  note d = drain_lost_def [of now owed c, unfolded q, simplified, folded c1_def a_def]
  have p: "erroredWakePending a c1 = erroredWakePending a c" by (simp add: c1_def)
  show ?thesis
  proof (cases "lo_deferred ev")
    case True
    then show ?thesis using err d deferred_nothing deferred_wake by (cases "owed a") (auto simp: Let_def)
  next
    case False
    consider "\<not> lo_errored ev" | "lo_errored ev" "erroredWakePending a c" | "lo_errored ev" "\<not> erroredWakePending a c" "\<not> owed a"
      | "lo_errored ev" "\<not> erroredWakePending a c" "owed a" by blast
    then show ?thesis
    proof cases
      case 1
      then show ?thesis using False d p by (intro plain) (auto simp: Let_def)
    next
      case 2
      then show ?thesis using False d p by (intro covered) (auto simp: Let_def)
    next
      case 3
      have "drain_lost now owed c = (c1, LostNothingOwed)" using 3 False d by (simp add: Let_def)
      with 3 False show ?thesis by (blast intro: nothing_owed)
    next
      case 4
      then show ?thesis using False d p by (intro struck) (auto simp: Let_def case_prod_beta)
    qed
  qed
qed

lemma outstanding_simps:
  "outstanding \<lparr>ls_c = c, ls_timers = ts @ [b]\<rparr> a = outstanding \<lparr>ls_c = c, ls_timers = ts\<rparr> a + (if b = a then 1 else 0)"
  "cn_lost_queue c = ev # rest \<Longrightarrow> outstanding \<lparr>ls_c = c, ls_timers = ts\<rparr> a =
     outstanding \<lparr>ls_c = c\<lparr>cn_lost_queue := rest\<rparr>, ls_timers = ts\<rparr> a + (if lo_deferred ev \<and> lo_account ev = a then 1 else 0)"
  by (simp_all add: outstanding_def deferred_for_def)

lemma outstanding_cong: "cn_lost_queue c = cn_lost_queue c' \<Longrightarrow> outstanding \<lparr>ls_c = c, ls_timers = ts\<rparr> a = outstanding \<lparr>ls_c = c', ls_timers = ts\<rparr> a"
  by (simp add: outstanding_def)

lemma lost_inv_round:
  assumes inv: "lost_inv \<lparr>ls_c = c, ls_timers = ts\<rparr>" and q: "cn_lost_queue c = ev # rest"
    and d: "drain_lost now owed c = (c', out)"
  shows "lost_inv \<lparr>ls_c = c', ls_timers = ts @ (case out of LostDelayed a _ \<Rightarrow> [a] | _ \<Rightarrow> [])\<rparr>"
proof -
  let ?c1 = "c\<lparr>cn_lost_queue := rest\<rparr>" and ?a = "lo_account ev"
  have wf: "gm_wf (cn_errored_wakes ?c1)" and de: "\<forall>ev \<in> set rest. lo_deferred ev \<longrightarrow> lo_errored ev" and e: "lo_deferred ev \<longrightarrow> lo_errored ev"
    using inv q by (auto simp: lost_inv_def)
  have out: "outstanding \<lparr>ls_c = ?c1, ls_timers = ts\<rparr> a + (if lo_deferred ev \<and> ?a = a then 1 else 0) = (if erroredWakePending a c then 1 else 0)" for a
    using inv outstanding_simps(2) [OF q, of ts a] by (simp add: lost_inv_def)
  have ok: "lost_inv \<lparr>ls_c = c2, ls_timers = ts2\<rparr>"
    if "gm_wf (cn_errored_wakes c2)" "cn_lost_queue c2 = rest" "\<And>a. outstanding \<lparr>ls_c = c2, ls_timers = ts2\<rparr> a = (if erroredWakePending a c2 then 1 else 0)" for c2 ts2
    using that de by (simp add: lost_inv_def)
  have cl: "outstanding \<lparr>ls_c = clearPendingErroredWake ?a ?c1, ls_timers = ts\<rparr> a = outstanding \<lparr>ls_c = ?c1, ls_timers = ts\<rparr> a" for a
    by (rule outstanding_cong) simp
  show ?thesis
  proof (cases rule: drain_lost_cases [OF q e, of now owed])
    case 1
    then show ?thesis using d out wf by (intro ok) auto
  next
    case 2
    then show ?thesis using d out wf by (intro ok) auto
  next
    case 3
    have "outstanding \<lparr>ls_c = ?c1, ls_timers = ts\<rparr> a = (if a \<noteq> ?a \<and> erroredWakePending a c then 1 else 0)" for a
      using out [of a] 3 by (auto split: if_splits)
    with 3 d wf show ?thesis by (intro ok) (auto simp: cl pending_clear)
  next
    case 4
    have "outstanding \<lparr>ls_c = ?c1, ls_timers = ts\<rparr> a = (if a \<noteq> ?a \<and> erroredWakePending a c then 1 else 0)" for a
      using out [of a] 4 by (auto split: if_splits)
    with 4 d wf show ?thesis by (intro ok) (auto simp: cl pending_clear)
  next
    case 5
    then show ?thesis using d out wf by (intro ok) auto
  next
    case 6
    let ?n = "nextErroredWakeDelay now ?a ?c1"
    have cong: "outstanding \<lparr>ls_c = fst ?n, ls_timers = ts\<rparr> a = outstanding \<lparr>ls_c = ?c1, ls_timers = ts\<rparr> a" for a
      by (rule outstanding_cong) simp
    show ?thesis using 6 d wf out
      by (intro ok) (auto simp: outstanding_simps(1) cong pending_next)
  qed
qed

lemma filter_remove1_count:
  "a \<in> set ts \<Longrightarrow> length (filter (\<lambda>b. b = c) ts) = length (filter (\<lambda>b. b = c) (remove1 a ts)) + (if a = c then 1 else 0)"
  by (induction ts) auto

lemma lost_inv_step:
  assumes "lost_inv y"
  shows "lost_inv (lost_exec op y)"
proof (cases op)
  case (LLost sess a errored)
  then show ?thesis using assms
    by (auto simp: lost_inv_def outstanding_def deferred_for_def OnSessionLost_def enqueueLost_def wakeup_def erroredWakePending_def)
next
  case (LRound now owed)
  obtain c ts where y: "y = \<lparr>ls_c = c, ls_timers = ts\<rparr>" by (cases y) auto
  show ?thesis
  proof (cases "cn_lost_queue c")
    case Nil
    then show ?thesis using assms LRound y by (simp add: drain_lost_def)
  next
    case (Cons ev rest)
    obtain c' out where d: "drain_lost now owed c = (c', out)" by fastforce
    then show ?thesis using lost_inv_round [OF assms [unfolded y] Cons d] LRound y by simp
  qed
next
  case (LFire a)
  show ?thesis
  proof (cases "a \<in> set (ls_timers y)")
    case True
    have "outstanding (lost_exec op y) b = outstanding y b" for b
      using True LFire filter_remove1_count [OF True, of b] by (simp add: outstanding_def enqueueLost_def wakeup_def deferred_for_def)
    then show ?thesis using assms LFire True
      by (auto simp: lost_inv_def enqueueLost_def wakeup_def erroredWakePending_def)
  next
    case False
    then show ?thesis using assms LFire by simp
  qed
next
  case (LPrune now)
  have "outstanding (lost_exec op y) a = outstanding y a" for a
    using LPrune by (simp add: outstanding_def pruneErroredWakes_def)
  then show ?thesis using assms LPrune pending_prune [of "ls_c y"]
    by (simp add: lost_inv_def) (simp add: pruneErroredWakes_def)
qed

lemma lost_inv_reachable: "lost_reachable y \<Longrightarrow> lost_inv y"
proof (induction rule: lost_reachable.induct)
  case lost_init
  show ?case by (simp add: lost_inv_def outstanding_def NewConsumer_def erroredWakePending_def)
next
  case (lost_step y op)
  from lost_step.IH show ?case by (rule lost_inv_step)
qed


lemmas lost_inv_facts = lost_inv_reachable [unfolded lost_inv_def]

section \<open>The scan as a pass over a table\<close>

text \<open>The batch read: the unrouted rows past a sequence, in sequence order, up to the limit. \<open>rows\<close> is the table of
  unrouted rows in that order; \<open>scan_answers\<close> are the first \<open>n\<close> answers the loop gets from it.\<close>

definition UnroutedMentionMessages :: "MessageWithChannel list \<Rightarrow> int \<Rightarrow> nat \<Rightarrow> MessageWithChannel list" where
  "UnroutedMentionMessages rows afterSeq limit = take limit (filter (\<lambda>r. afterSeq < mwc_seq r) rows)"

fun scan_answers :: "nat \<Rightarrow> MessageWithChannel list \<Rightarrow> int \<Rightarrow> (read_error + MessageWithChannel list) list" where
  "scan_answers 0 rows afterSeq = []"
| "scan_answers (Suc n) rows afterSeq =
    (let batch = UnroutedMentionMessages rows afterSeq scanBatchLimit
     in Inr batch # (if batch = [] then [] else scan_answers n rows (mwc_seq (last batch))))"

lemma sorted_past_take:
  fixes f :: "'a \<Rightarrow> int"
  assumes "sorted_wrt (<) (map f xs)" and "0 < k" "k \<le> length xs"
  shows "filter (\<lambda>x. f (last (take k xs)) < f x) xs = drop k xs"
proof -
  have l: "last (take k xs) = xs ! (k - 1)" using assms(2,3) by (subst last_conv_nth) (auto simp: min_absorb2)
  have nth: "f (xs ! i) < f (xs ! j)" if "i < j" "j < length xs" for i j
    using assms(1) that by (simp add: sorted_wrt_iff_nth_less)
  have le: "f x \<le> f (xs ! (k - 1))" if "x \<in> set (take k xs)" for x
  proof -
    from that obtain i where i: "i < k" "i < length xs" "x = xs ! i" by (auto simp: in_set_conv_nth)
    then consider "i = k - 1" | "i < k - 1" by linarith
    then show ?thesis using i assms(2,3) nth [of i "k - 1"] by cases (simp_all add: less_imp_le)
  qed
  have gt: "f (xs ! (k - 1)) < f x" if "x \<in> set (drop k xs)" for x
  proof -
    from that obtain i where i: "i < length xs - k" "x = xs ! (k + i)" by (auto simp: in_set_conv_nth)
    show ?thesis using i assms(2,3) nth [of "k - 1" "k + i"] by auto
  qed
  have "filter (\<lambda>x. f (xs ! (k - 1)) < f x) (take k xs @ drop k xs) = drop k xs"
    unfolding filter_append by (subst filter_False, blast dest: le leD, subst filter_True, blast dest: gt, simp)
  then show ?thesis by (simp add: l)
qed

lemma filter_past_past:
  assumes "sorted_wrt (<) (map f xs)" and ys: "ys = filter (\<lambda>x. (a::int) < f x) xs" and "0 < k" "k \<le> length ys"
  shows "filter (\<lambda>x. f (last (take k ys)) < f x) xs = drop k ys"
proof -
  have s: "sorted_wrt (<) (map f ys)" using assms(1) by (simp add: ys sorted_wrt_map sorted_wrt_filter)
  have "last (take k ys) \<in> set (take k ys)" using assms(3,4) by (intro last_in_set) auto
  then have "last (take k ys) \<in> set ys" by (rule in_set_takeD)
  then have "a < f (last (take k ys))" by (simp add: ys)
  then have "filter (\<lambda>x. f (last (take k ys)) < f x) xs = filter (\<lambda>x. f (last (take k ys)) < f x) ys"
    by (auto simp: ys intro!: filter_cong)
  then show ?thesis using sorted_past_take [OF s assms(3,4)] by simp
qed

lemma scan_past:
  assumes "sorted_wrt (<) (map mwc_seq rows)" and "length (filter (\<lambda>r. a < mwc_seq r) rows) div scanBatchLimit < n"
  shows "scanMissedMentions rd tp h1 h2 (scan_answers n rows a) a
    = (concat (map (scan_row rd tp h1 h2) (filter (\<lambda>r. a < mwc_seq r) rows)), True)"
  using assms(2)
proof (induction n arbitrary: a)
  case (Suc n)
  define ys where "ys = filter (\<lambda>r. a < mwc_seq r) rows"
  show ?case
  proof (cases "length ys < scanBatchLimit")
    case True
    then show ?thesis by (simp add: UnroutedMentionMessages_def Let_def flip: ys_def)
  next
    case False
    then have k: "0 < scanBatchLimit" "scanBatchLimit \<le> length ys" by (simp_all add: scanBatchLimit_def)
    let ?b = "take scanBatchLimit ys"
    have ne: "?b \<noteq> []" and len: "\<not> length ?b < scanBatchLimit" using k by auto
    have rest: "filter (\<lambda>r. mwc_seq (last ?b) < mwc_seq r) rows = drop scanBatchLimit ys"
      by (rule filter_past_past [OF assms(1) ys_def k])
    have "length (drop scanBatchLimit ys) div scanBatchLimit < n"
      using Suc.prems k by (simp add: ys_def le_div_geq)
    then have "scanMissedMentions rd tp h1 h2 (scan_answers n rows (mwc_seq (last ?b))) (mwc_seq (last ?b))
        = (concat (map (scan_row rd tp h1 h2) (drop scanBatchLimit ys)), True)"
      using Suc.IH [of "mwc_seq (last ?b)"] by (simp add: rest)
    moreover have "concat (map (scan_row rd tp h1 h2) ?b) @ concat (map (scan_row rd tp h1 h2) (drop scanBatchLimit ys))
        = concat (map (scan_row rd tp h1 h2) ys)"
      by (metis append_take_drop_id concat_append map_append)
    ultimately show ?thesis using ne len by (simp add: UnroutedMentionMessages_def Let_def flip: ys_def)
  qed
qed simp

section \<open>Sweeps of a starting session\<close>

lemma start_effects_drained: "ev \<in> set (cn_start_queue c) \<Longrightarrow> set (start_effects rd tp live c ev) \<subseteq> set (snd (drainStarts rd tp live c))"
  by (auto simp: drainStarts_def)

lemma set_map_filter: "y \<in> set (List.map_filter f xs) \<longleftrightarrow> (\<exists>x \<in> set xs. f x = Some y)"
  by (induction xs) (auto simp: map_filter_simps split: option.splits)

lemma owed_swept:
  assumes "OwedMentions rd a = Inr mentions" and "m \<in> set (concat (map snd mentions))"
  shows "(case owed_op rd tp a sess m of Inl e \<Rightarrow> e | Inr e \<Rightarrow> e) \<in> set (okE (sweepOwedMentions rd tp a sess))"
proof -
  define ops where "ops = map (owed_op rd tp a sess) (concat (map snd mentions))"
  have m: "owed_op rd tp a sess m \<in> set ops" using assms(2) by (simp only: ops_def set_map imageI)
  have eq: "okE (sweepOwedMentions rd tp a sess) = List.map_filter (\<lambda>o'. case o' of Inl e \<Rightarrow> Some e | Inr _ \<Rightarrow> None) ops
      @ List.map_filter (\<lambda>o'. case o' of Inl _ \<Rightarrow> None | Inr e \<Rightarrow> Some e) ops"
    by (simp add: sweepOwedMentions_def assms(1) okE_def ops_def Let_def)
  show ?thesis
  proof (cases "owed_op rd tp a sess m")
    case (Inl e)
    then show ?thesis unfolding eq set_append Un_iff set_map_filter by (intro disjI1 bexI [OF _ m]) simp
  next
    case (Inr e)
    then show ?thesis unfolding eq set_append Un_iff set_map_filter by (intro disjI2 bexI [OF _ m]) simp
  qed
qed

lemma owed_op_eq: "(case owed_op rd tp a sess m of Inl e \<Rightarrow> e | Inr e \<Rightarrow> e) =
    (case storeMessageToWire rd (m_id m) of
       Inl _ \<Rightarrow> EClearOwed a (m_id m)
     | Inr (wire, _, _) \<Rightarrow> EDispatch sess (steerOp wire (wm_author_handle wire) (fst (sourceNames rd wire)) (snd (sourceNames rd wire)) tp))"
  by (simp add: owed_op_def case_prod_beta split: sum.split)

section \<open>One pass of the loop\<close>

text \<open>The queues and flags the sinks fill.\<close>

definition pending_work :: "Consumer \<Rightarrow> bool" where
  "pending_work c \<longleftrightarrow> cn_settle_queue c \<noteq> [] \<or> cn_start_queue c \<noteq> [] \<or> cn_lost_queue c \<noteq> [] \<or> cn_owed_rewake c \<or> cn_recovery_pending c"

lemma drain_lost_frame:
  "cn_lost_queue (fst (drain_lost now owed c)) = tl (cn_lost_queue c)"
  "cn_settle_queue (fst (drain_lost now owed c)) = cn_settle_queue c"
  "cn_start_queue (fst (drain_lost now owed c)) = cn_start_queue c"
  by (auto simp: drain_lost_def Let_def nextErroredWakeDelay_def clearPendingErroredWake_def split: list.splits option.splits)

lemma drain_lost_rounds_frame:
  "cn_lost_queue (fst (drain_lost_rounds n now owed c)) = drop n (cn_lost_queue c)"
  "cn_settle_queue (fst (drain_lost_rounds n now owed c)) = cn_settle_queue c"
  "cn_start_queue (fst (drain_lost_rounds n now owed c)) = cn_start_queue c"
  by (induction n arbitrary: c) (simp_all add: case_prod_beta Let_def drain_lost_frame drop_Suc)

lemma fold_keeps: "(\<And>x c. P (f x c) = P c) \<Longrightarrow> P (fold f xs c) = P c"
  by (induction xs arbitrary: c) auto

lemma prune_dead_frame:
  "cn_settle_queue (prune_dead live c) = cn_settle_queue c" "cn_start_queue (prune_dead live c) = cn_start_queue c"
  "cn_lost_queue (prune_dead live c) = cn_lost_queue c" "cn_owed_rewake (prune_dead live c) = cn_owed_rewake c"
  "cn_recovery_pending (prune_dead live c) = cn_recovery_pending c"
  unfolding prune_dead_def Let_def
  by (simp_all add: fold_keeps [of cn_settle_queue] fold_keeps [of cn_start_queue] fold_keeps [of cn_lost_queue]
      fold_keeps [of cn_owed_rewake] fold_keeps [of cn_recovery_pending] forget_settles_def forget_generation_def)

lemma drainRecovery_frame:
  "cn_settle_queue (fst (drainRecovery rd tp now bound answers c)) = cn_settle_queue c"
  "cn_start_queue (fst (drainRecovery rd tp now bound answers c)) = cn_start_queue c"
  "cn_lost_queue (fst (drainRecovery rd tp now bound answers c)) = cn_lost_queue c"
  "cn_owed_rewake (fst (drainRecovery rd tp now bound answers c)) = cn_owed_rewake c"
  "cn_recovery_pending (fst (drainRecovery rd tp now bound answers c)) = False"
  by (simp_all add: drainRecovery_def Let_def pruneErroredWakes_def prune_dead_frame)

section \<open>Properties\<close>

text \<open>The wait before the wake of an agent whose sessions keep erroring doubles from thirty seconds and
  is capped at fifteen minutes, whatever the number of strikes: the shift never overflows, and the wait
  stays below the quiet period that resets the strikes.\<close>

theorem errored_backoff:
  "sint (erroredWakeDelay k) = (if k = 0 then 0 else min (30000000000 * 2 ^ (k - 1)) 900000000000)
   \<and> sint (erroredWakeDelay k) < sint erroredWakeResetAfter"
proof -
  have "sint (erroredWakeDelay k) = (if k = 0 then 0 else min (30000000000 * 2 ^ (k - 1)) 900000000000)"
  proof (cases "k \<le> 10")
    case True
    then have "k \<in> set [0, 1, 2, 3, 4, 5, 6, 7, 8, 9, 10]" by (simp only: list.set insert_iff empty_iff simp_thms) arith
    then show ?thesis by (simp only: list.set insert_iff empty_iff simp_thms) (elim disjE; simp add: erroredWakeDelay_def erroredWakeBaseDelay_def erroredWakeMaxDelay_def Let_def push_bit_eq_mult)
  next
    case False
    then have "(2::int) ^ 10 \<le> 2 ^ (k - 1)" by (intro power_increasing) auto
    with False show ?thesis by (simp add: erroredWakeDelay_def erroredWakeMaxDelay_def)
  qed
  then show ?thesis by (simp add: erroredWakeResetAfter_def min_less_iff_disj)
qed

text \<open>C24: the wake of a lost session is not forgotten and not multiplied. In every reachable state an account
  has at most one deferred wake on its way, running or fired; and a round of \<open>drainLost\<close> that takes an event of
  an account that owes work either wakes it or leaves exactly one deferred wake for it, a deferred event being
  woken at once.\<close>

theorem lost_wake_kept:
  assumes "lost_reachable y"
  shows "outstanding y a \<le> 1 \<and>
    (case cn_lost_queue (ls_c y) of [] \<Rightarrow> drain_lost now owed (ls_c y) = (ls_c y, LostIdle)
     | ev # _ \<Rightarrow> lo_errored ev \<and> \<not> owed (lo_account ev)
       \<or> snd (drain_lost now owed (ls_c y)) = LostWoken (lo_account ev)
       \<or> \<not> lo_deferred ev \<and> outstanding (lost_exec (LRound now owed) y) (lo_account ev) = 1)"
proof (cases "cn_lost_queue (ls_c y)")
  case Nil
  then show ?thesis using lost_inv_facts [OF assms] by (simp add: drain_lost_def)
next
  case (Cons ev rest)
  have e: "lo_deferred ev \<longrightarrow> lo_errored ev" and one: "outstanding y a \<le> 1" using lost_inv_facts [OF assms] Cons by simp_all
  have inv: "outstanding (lost_exec (LRound now owed) y) b = (if erroredWakePending b (ls_c (lost_exec (LRound now owed) y)) then 1 else 0)" for b
    using lost_inv_facts [OF lost_step [OF assms]] by blast
  have "lo_errored ev \<and> \<not> owed (lo_account ev) \<or> snd (drain_lost now owed (ls_c y)) = LostWoken (lo_account ev)
      \<or> \<not> lo_deferred ev \<and> outstanding (lost_exec (LRound now owed) y) (lo_account ev) = 1"
    unfolding inv
    by (cases rule: drain_lost_cases [OF Cons e, of now owed]) (use e in \<open>auto simp: pending_next\<close>)
  with one Cons show ?thesis by simp
qed

text \<open>An agent whose session errors twice: the second wake is delayed, its timer fires, and the round that
  follows wakes it.\<close>

definition demo_lost :: lost_sys where
  "demo_lost = fold lost_exec [LLost ''s'' ''bob'' True, LRound 0 (\<lambda>_. True), LLost ''t'' ''bob'' True, LRound 5 (\<lambda>_. True), LFire ''bob'']
     \<lparr>ls_c = NewConsumer, ls_timers = []\<rparr>"

lemma lost_reachable_fold: "lost_reachable y \<Longrightarrow> lost_reachable (fold lost_exec ops y)"
  by (induction ops arbitrary: y) (auto intro: lost_step)

lemma demo_lost_reachable: "lost_reachable demo_lost"
  unfolding demo_lost_def by (intro lost_reachable_fold lost_init)

theorem lost_wake_kept_witness:
  "outstanding demo_lost ''bob'' \<le> 1 \<and> snd (drain_lost 9 (\<lambda>_. True) (ls_c demo_lost)) = LostWoken ''bob''"
proof -
  have "cn_lost_queue (ls_c demo_lost) = [\<lparr>lo_account = ''bob'', lo_errored = True, lo_deferred = True\<rparr>]"
    by code_simp
  then show ?thesis
    using lost_wake_kept [OF demo_lost_reachable, of "''bob''" 9 "\<lambda>_. True"] by simp
qed



text \<open>A starting session is brought up to date. Every undelivered message of its account is sent to it,
  unless it is held for an author with a live session, and every owed mention is steered to it or, when its
  message cannot be read, cleared.\<close>

theorem start_sweep_complete:
  assumes ev: "ev \<in> set (cn_start_queue c)" and owed: "UndeliveredMessages rd (sa_account ev) = Inr owed"
    and mentions: "OwedMentions rd (sa_account ev) = Inr mentions"
  shows "(\<forall>m \<in> set (concat (map snd owed)). sweep_message rd tp (sa_session ev) m \<in> set (snd (drainStarts rd tp live c))
      \<or> (\<exists>sid es e. sid \<in> set live \<and> (sid, es) \<in> set (cn_held c) \<and> e \<in> set es \<and> he_message_id e = m_id m))
    \<and> (\<forall>m \<in> set (concat (map snd mentions)).
        (case storeMessageToWire rd (m_id m) of
           Inl _ \<Rightarrow> EClearOwed (sa_account ev) (m_id m)
         | Inr (wire, _, _) \<Rightarrow> EDispatch (sa_session ev) (steerOp wire (wm_author_handle wire) (fst (sourceNames rd wire)) (snd (sourceNames rd wire)) tp))
        \<in> set (snd (drainStarts rd tp live c)))"
proof (intro conjI ballI)
  fix m assume "m \<in> set (concat (map snd owed))"
  then obtain ch msgs where m: "(ch, msgs) \<in> set owed" "m \<in> set msgs" by auto
  show "sweep_message rd tp (sa_session ev) m \<in> set (snd (drainStarts rd tp live c))
      \<or> (\<exists>sid es e. sid \<in> set live \<and> (sid, es) \<in> set (cn_held c) \<and> e \<in> set es \<and> he_message_id e = m_id m)"
  proof (cases "m_id m \<in> set (heldIDs live c)")
    case True
    then show ?thesis by (fastforce simp: heldIDs_def split: if_splits)
  next
    case False
    with m have "sweep_message rd tp (sa_session ev) m \<in> set (start_effects rd tp live c ev)"
      unfolding start_effects_def sweepSession_def by (force simp: owed Let_def)
    with start_effects_drained [OF ev] show ?thesis by blast
  qed
next
  fix m assume m: "m \<in> set (concat (map snd mentions))"
  have "set (okE (sweepOwedMentions rd tp (sa_account ev) (sa_session ev))) \<subseteq> set (snd (drainStarts rd tp live c))"
    using start_effects_drained [OF ev, of rd tp live] by (simp add: start_effects_def)
  then show "(case storeMessageToWire rd (m_id m) of
           Inl _ \<Rightarrow> EClearOwed (sa_account ev) (m_id m)
         | Inr (wire, _, _) \<Rightarrow> EDispatch (sa_session ev) (steerOp wire (wm_author_handle wire) (fst (sourceNames rd wire)) (snd (sourceNames rd wire)) tp))
        \<in> set (snd (drainStarts rd tp live c))"
    by (rule subsetD) (rule owed_swept [OF mentions m, unfolded owed_op_eq])
qed

text \<open>One pass of the loop leaves no work behind. Whatever the sinks queued before it, after the
  \<open>notify\<close> arm ran every queue is empty and every request flag is down, so a single slot of
  notification is enough.\<close>

theorem pass_drains_all:
  "\<not> pending_work (fst (run_notify rd sys tp now bound accounts answers c))"
  by (simp add: run_notify_def pending_work_def case_prod_beta Let_def drainRecovery_frame drainOwedRewake_def drainLost_def
      drain_lost_rounds_frame drainStarts_def settle_effects_def drainSettles_queue)

definition demo_starting :: Consumer where
  "demo_starting = OnSessionStarted ''sb'' ''bob'' NewConsumer"

definition demo_owing :: delivery_reads where
  "demo_owing = demo_delivery\<lparr>UndeliveredMessages := (\<lambda>_. Inr [(''c'', [demo_post])]), OwedMentions := (\<lambda>_. Inr [])\<rparr>"

theorem start_sweep_complete_witness:
  "sweep_message demo_owing [] ''sb'' demo_post \<in> set (snd (drainStarts demo_owing [] [''sb''] demo_starting))"
  using start_sweep_complete [of "\<lparr>sa_session = ''sb'', sa_account = ''bob''\<rparr>" demo_starting demo_owing "[(''c'', [demo_post])]" "[]" "[]" "[''sb'']"]
  by (simp add: demo_starting_def demo_owing_def OnSessionStarted_def wakeup_def NewConsumer_def)

end
