(* ===== verification/Utf8.thy ===== *)
theory Utf8
  imports Go_Prelude
begin

text \<open>
  Runes of a byte string, as Go's \<open>unicode/utf8\<close> reads them: \<open>RuneCountInString\<close> counts a well-formed
  sequence as one rune and every other byte as one rune of its own. Signed decimal numbers, as
  \<open>strconv.ParseInt\<close> reads them, clamp to the range of the type when they do not fit.
\<close>

definition byte_in :: "nat \<Rightarrow> nat \<Rightarrow> char \<Rightarrow> bool" where
  "byte_in lo hi c \<longleftrightarrow> lo \<le> (of_char c :: nat) \<and> (of_char c :: nat) \<le> hi"

text \<open>The ranges of the continuation bytes that the first byte of a sequence asks for; none for a byte
  that stands alone or starts no sequence.\<close>

definition utf8_follow :: "char \<Rightarrow> (nat \<times> nat) list" where
  "utf8_follow c =
    (let b = (of_char c :: nat); any = (0x80, 0xBF) in
     if 0xC2 \<le> b \<and> b \<le> 0xDF then [any]
     else if b = 0xE0 then [(0xA0, 0xBF), any]
     else if b = 0xED then [(0x80, 0x9F), any]
     else if 0xE1 \<le> b \<and> b \<le> 0xEF then [any, any]
     else if b = 0xF0 then [(0x90, 0xBF), any, any]
     else if 0xF1 \<le> b \<and> b \<le> 0xF3 then [any, any, any]
     else if b = 0xF4 then [(0x80, 0x8F), any, any]
     else [])"

fun follows :: "(nat \<times> nat) list \<Rightarrow> string \<Rightarrow> bool" where
  "follows [] s = True"
| "follows ((lo, hi) # rs) [] = False"
| "follows ((lo, hi) # rs) (c # s) = (byte_in lo hi c \<and> follows rs s)"

definition rune_width :: "char \<Rightarrow> string \<Rightarrow> nat" where
  "rune_width c s = (if follows (utf8_follow c) s then 1 + length (utf8_follow c) else 1)"

function RuneCountInString :: "string \<Rightarrow> nat" where
  "RuneCountInString [] = 0"
| "RuneCountInString (c # s) = 1 + RuneCountInString (drop (rune_width c s) (c # s))"
  by pat_completeness auto
termination by (relation "measure length") (auto simp: rune_width_def)

declare RuneCountInString.simps(2) [simp del]

lemma RuneCount_le: "RuneCountInString s \<le> length s"
proof (induction s rule: RuneCountInString.induct)
  case (2 c s)
  have "length (drop (rune_width c s) (c # s)) \<le> length s" by (simp add: rune_width_def)
  with 2 have "RuneCountInString (drop (rune_width c s) (c # s)) \<le> length s" by linarith
  then show ?case by (simp only: RuneCountInString.simps(2) length_Cons)
qed simp

lemma RuneCount_ascii: "list_all (byte_in 0 0x7F) s \<Longrightarrow> RuneCountInString s = length s"
  by (induction s) (auto simp: RuneCountInString.simps(2) rune_width_def utf8_follow_def byte_in_def Let_def)

section \<open>Signed numbers\<close>

definition MaxInt64_int :: int where
  "MaxInt64_int = 2 ^ 63 - 1"

text \<open>\<open>strconv.ParseInt(s, 10, 64)\<close>: the value, and whether the error is nil.\<close>

definition ParseInt64 :: "string \<Rightarrow> int \<times> bool" where
  "ParseInt64 s =
    (let neg = (s \<noteq> [] \<and> hd s = CHR ''-''); ds = (if s \<noteq> [] \<and> (hd s = CHR ''-'' \<or> hd s = CHR ''+'') then tl s else s)
     in if ds = [] \<or> \<not> list_all is_digit_byte ds then (0, False)
        else (let n = int (digits_value 0 ds) in
          if \<not> neg \<and> 2 ^ 63 \<le> n then (MaxInt64_int, False)
          else if neg \<and> 2 ^ 63 < n then (- (2 ^ 63), False)
          else (if neg then - n else n, True)))"

lemma ParseInt64_range: "- (2 ^ 63) \<le> fst (ParseInt64 s) \<and> fst (ParseInt64 s) < 2 ^ 63"
  by (auto simp: ParseInt64_def MaxInt64_int_def Let_def)

end
