(* ===== verification/Board_Patch.thy ===== *)
theory Board_Patch
  imports Comms_Types Json Utf8 "HOL-Library.Product_Lexorder" "HOL-Library.Multiset"
begin

text \<open>
  The status board of an agent, \<open>src/go/internal/store/agent_boards.go\<close>: a presence-aware patch is
  validated, merged into the stored board and written back, and a later read returns the merged
  board.

  The waiting entries and the subagents of a task are JSON columns; raw bytes are an optional JSON
  tree, \<open>None\<close> for bytes that are no JSON text. Numbers are integers. The tables of one agent are its
  metadata row and its task rows with their positions; the statements of the transaction
  (\<open>UpsertAgentBoard\<close>, \<open>DeleteAgentBoardTasks\<close>, \<open>UpsertAgentBoardTask\<close>, \<open>GetAgentBoardTasks\<close>, which reads in
  the order of position and key) are functions on them, taken to succeed.
\<close>

section \<open>Data\<close>

type_synonym raw_json = "json option"

definition MaxBoardTasks :: nat where "MaxBoardTasks = 30"
definition MaxBoardRefs :: nat where "MaxBoardRefs = 10"
definition MaxBoardWaiting :: nat where "MaxBoardWaiting = 5"
definition MaxBoardSubagents :: nat where "MaxBoardSubagents = 20"
definition MaxBoardTaskKeyChars :: nat where "MaxBoardTaskKeyChars = 64"
definition MaxBoardHandleChars :: nat where "MaxBoardHandleChars = 64"
definition MaxBoardSubagentIDChars :: nat where "MaxBoardSubagentIDChars = 64"
definition MaxBoardSubagentAgentChars :: nat where "MaxBoardSubagentAgentChars = 64"
definition MaxBoardSubagentDescriptionChars :: nat where "MaxBoardSubagentDescriptionChars = 200"
definition MaxBoardSubagentStatusChars :: nat where "MaxBoardSubagentStatusChars = 64"
definition MaxBoardTitleChars :: nat where "MaxBoardTitleChars = 120"
definition MaxBoardNoteChars :: nat where "MaxBoardNoteChars = 500"
definition MaxBoardHaltReasonChars :: nat where "MaxBoardHaltReasonChars = 200"
definition MaxBoardWhatChars :: nat where "MaxBoardWhatChars = 200"

lemmas board_limits = MaxBoardTasks_def MaxBoardRefs_def MaxBoardWaiting_def MaxBoardSubagents_def MaxBoardTaskKeyChars_def
  MaxBoardHandleChars_def MaxBoardSubagentIDChars_def MaxBoardSubagentAgentChars_def MaxBoardSubagentDescriptionChars_def
  MaxBoardSubagentStatusChars_def MaxBoardTitleChars_def MaxBoardNoteChars_def MaxBoardHaltReasonChars_def MaxBoardWhatChars_def

record BoardTaskPatch =
  tp_key :: string
  tp_title :: "string option"
  tp_primary_ref :: "string option"
  tp_note :: "string option"
  tp_state :: "int option"
  tp_refs :: "string list option"
  tp_waiting :: "raw_json option"
  tp_upsert_subagents :: "raw_json option"

record BoardHalt =
  ha_kind :: int
  ha_ref :: string
  ha_reason :: string

record BoardPatch =
  bp_upsert :: "BoardTaskPatch list"
  bp_remove :: "string list"
  bp_focus :: "string option"
  bp_halt :: "BoardHalt option"
  bp_clear_halt :: bool
  bp_turn :: nat
  bp_automatic :: bool
  bp_now :: int

record BoardTaskRow =
  bt_key :: string
  bt_title :: string
  bt_primary_ref :: string
  bt_note :: string
  bt_refs :: "string list"
  bt_state :: int
  bt_waiting :: raw_json
  bt_subagents :: raw_json
  bt_written_at :: int

record BoardRow =
  br_agent :: AccountID
  br_focus :: string
  br_halt :: BoardHalt
  br_written_turn :: nat
  br_written_at :: int
  br_tasks :: "BoardTaskRow list"

text \<open>The faults the code names, and whether the error wraps \<open>ErrInvalidArgument\<close>.\<close>

datatype board_fault =
    NoAgent | TurnRange | UnknownAgent | HaltKind int | Nul string | TooLong string
  | NoTitle string | TooManyRefs string | BadState string | WaitingArray | TooManyWaiting | WaitingObject
  | NotString string | WaitingOn | WaitingOnValue | WaitingBlocks | SubagentsArray | SubagentObject | SubagentNoID
  | DuplicateSubagent string | TooManySubagents string | Unsettled | NoTaskKey | NoRemovedKey | NewTaskTitle string
  | BoardFull | PositionRange | TooManyTasks | FocusMissing string

datatype board_error = EInvalid board_fault | EInternal board_fault

definition ensure :: "bool \<Rightarrow> board_error \<Rightarrow> board_error + unit" where
  "ensure ok e = (if ok then Inr () else Inl e)"

definition andThen :: "board_error + unit \<Rightarrow> board_error + 'a \<Rightarrow> board_error + 'a" where
  "andThen a b = (case a of Inl e \<Rightarrow> Inl e | Inr _ \<Rightarrow> b)"

definition eachE :: "('a \<Rightarrow> board_error + unit) \<Rightarrow> 'a list \<Rightarrow> board_error + unit" where
  "eachE f xs = bindE (mapE f xs) (\<lambda>_. Inr ())"

section \<open>Validation\<close>

definition validateBoardNoNUL :: "string \<Rightarrow> string \<Rightarrow> (board_fault \<Rightarrow> board_error) \<Rightarrow> board_error + unit" where
  "validateBoardNoNUL field value sentinel = ensure (CHR 0x00 \<notin> set value) (sentinel (Nul field))"

definition validateBoardString :: "string \<Rightarrow> string \<Rightarrow> nat \<Rightarrow> (board_fault \<Rightarrow> board_error) \<Rightarrow> board_error + unit" where
  "validateBoardString field value maxChars sentinel =
    andThen (validateBoardNoNUL field value sentinel) (ensure (RuneCountInString value \<le> maxChars) (sentinel (TooLong field)))"

definition validateBoardTaskKey :: "string \<Rightarrow> board_error + unit" where
  "validateBoardTaskKey key = validateBoardString ''board task key'' key MaxBoardTaskKeyChars EInvalid"

definition validateHalt :: "BoardHalt \<Rightarrow> board_error + unit" where
  "validateHalt h =
    andThen (ensure (\<not> (ha_kind h < 0 \<or> 3 < ha_kind h)) (EInvalid (HaltKind (ha_kind h))))
    (andThen (validateBoardNoNUL ''board halt ref'' (ha_ref h) EInvalid)
      (validateBoardString ''board halt reason'' (ha_reason h) MaxBoardHaltReasonChars EInvalid))"

text \<open>\<open>json.Unmarshal\<close> into a slice and into a map, with the nil checks that follow; a map keeps the last
  of equal keys.\<close>

fun unmarshal_slice :: "raw_json \<Rightarrow> json list option" where
  "unmarshal_slice (Some (JArr es)) = Some es"
| "unmarshal_slice _ = None"

fun unmarshal_map :: "json \<Rightarrow> (string \<times> json) list option" where
  "unmarshal_map (JObj kvs) = Some kvs"
| "unmarshal_map _ = None"

definition map_value :: "(string \<times> json) list \<Rightarrow> string \<Rightarrow> json option" where
  "map_value kvs k = map_of (rev kvs) k"

definition validateOptionalWaitingString :: "(string \<times> json) list \<Rightarrow> string \<Rightarrow> string \<Rightarrow> nat \<Rightarrow> bool \<Rightarrow> board_error + unit" where
  "validateOptionalWaitingString value key label maxChars bounded =
    (case map_value value key of None \<Rightarrow> Inr ()
     | Some raw \<Rightarrow>
        (case dec_str raw of Inl _ \<Rightarrow> Inl (EInvalid (NotString key))
         | Inr s \<Rightarrow> if bounded then validateBoardString label s maxChars EInvalid else validateBoardNoNUL label s EInvalid))"

definition validateWaitingOn :: "(string \<times> json) list \<Rightarrow> board_error + unit" where
  "validateWaitingOn value =
    (case map_value value ''on'' of None \<Rightarrow> Inl (EInvalid WaitingOn)
     | Some raw \<Rightarrow>
        (case dec_str raw of Inl _ \<Rightarrow> Inl (EInvalid WaitingOn)
         | Inr on \<Rightarrow> ensure (on \<in> set [''BOARD_WAITING_ON_OPERATOR'', ''BOARD_WAITING_ON_AGENT'', ''BOARD_WAITING_ON_EXTERNAL''])
             (EInvalid WaitingOnValue)))"

definition validateWaitingBlocks :: "json option \<Rightarrow> board_error + unit" where
  "validateWaitingBlocks raw =
    (case raw of None \<Rightarrow> Inr ()
     | Some j \<Rightarrow>
        (case dec_list dec_str j of Inl _ \<Rightarrow> Inl (EInvalid WaitingBlocks)
         | Inr blocks \<Rightarrow> eachE (\<lambda>ref. validateBoardNoNUL ''waiting block ref'' ref EInvalid) blocks))"

definition validateWaitingEntry :: "json \<Rightarrow> board_error + unit" where
  "validateWaitingEntry entry =
    (case unmarshal_map entry of None \<Rightarrow> Inl (EInvalid WaitingObject)
     | Some value \<Rightarrow>
        andThen (validateOptionalWaitingString value ''agent_handle'' ''waiting agent_handle'' MaxBoardHandleChars True)
        (andThen (validateWaitingOn value)
        (andThen (validateOptionalWaitingString value ''what'' ''waiting what'' MaxBoardWhatChars True)
        (andThen (validateOptionalWaitingString value ''ref'' ''waiting ref'' 0 False)
          (validateWaitingBlocks (map_value value ''blocks''))))))"

definition validateWaiting :: "raw_json \<Rightarrow> board_error + raw_json" where
  "validateWaiting raw =
    (case unmarshal_slice raw of None \<Rightarrow> Inl (EInvalid WaitingArray)
     | Some entries \<Rightarrow>
        andThen (ensure (length entries \<le> MaxBoardWaiting) (EInvalid TooManyWaiting))
        (andThen (eachE validateWaitingEntry entries) (if entries = [] then Inr (Some (JArr [])) else Inr raw)))"

section \<open>Subagents\<close>

text \<open>Decoding into a struct matches the keys of an object by case-insensitive name, in order; a null leaves
  a string field as it is.\<close>

definition struct_values :: "string \<Rightarrow> (string \<times> json) list \<Rightarrow> json list" where
  "struct_values name kvs = map snd (filter (\<lambda>(k, _). EqualFold k name) kvs)"

definition struct_str :: "string \<Rightarrow> (string \<times> json) list \<Rightarrow> json_error + string" where
  "struct_str name kvs = bindE (mapE dec_str (filter (\<lambda>v. v \<noteq> JNull) (struct_values name kvs))) (\<lambda>ss. Inr (if ss = [] then [] else last ss))"

definition struct_raw :: "string \<Rightarrow> (string \<times> json) list \<Rightarrow> raw_json" where
  "struct_raw name kvs = (let vs = struct_values name kvs in if vs = [] then None else Some (last vs))"

definition subagentID :: "json \<Rightarrow> json_error + string" where
  "subagentID raw = dec_obj (struct_str ''id'') raw"

definition jsonInt64 :: "raw_json \<Rightarrow> int" where
  "jsonInt64 raw =
    (case raw of None \<Rightarrow> 0
     | Some (JInt i) \<Rightarrow> if - (2 ^ 63) \<le> i \<and> i < 2 ^ 63 then i else 0
     | Some (JStr s) \<Rightarrow> fst (ParseInt64 s)
     | Some _ \<Rightarrow> 0)"

definition subagentSettled :: "json \<Rightarrow> bool \<times> int" where
  "subagentSettled raw =
    (case (case raw of JNull \<Rightarrow> Some [] | JObj kvs \<Rightarrow> Some kvs | _ \<Rightarrow> None) of None \<Rightarrow> (False, 0)
     | Some kvs \<Rightarrow>
        (case struct_str ''status'' kvs of Inl _ \<Rightarrow> (False, 0)
         | Inr status \<Rightarrow>
            (let s1 = jsonInt64 (struct_raw ''startedAtUnixMs'' kvs);
                 started = (if s1 = 0 then jsonInt64 (struct_raw ''started_at_unix_ms'' kvs) else s1);
                 e1 = jsonInt64 (struct_raw ''endedAtUnixMs'' kvs);
                 ended = (if e1 = 0 then jsonInt64 (struct_raw ''ended_at_unix_ms'' kvs) else e1)
             in if status \<in> set [''completed'', ''failed'', ''aborted''] then (True, started) else (ended \<noteq> 0, started))))"

definition subagent_fields :: "(string \<times> nat) list" where
  "subagent_fields = [(''id'', MaxBoardSubagentIDChars), (''agent'', MaxBoardSubagentAgentChars),
     (''description'', MaxBoardSubagentDescriptionChars), (''status'', MaxBoardSubagentStatusChars)]"

definition sentinel_for :: "bool \<Rightarrow> board_fault \<Rightarrow> board_error" where
  "sentinel_for callerInput = (if callerInput then EInvalid else EInternal)"

definition validateSubagentStrings :: "(string \<times> json) list \<Rightarrow> bool \<Rightarrow> board_error + unit" where
  "validateSubagentStrings value callerInput = eachE (\<lambda>(name, limit).
     case map_value value name of None \<Rightarrow> Inr ()
     | Some raw \<Rightarrow>
        (case dec_str raw of Inl _ \<Rightarrow> Inl (sentinel_for callerInput (NotString name))
         | Inr s \<Rightarrow> validateBoardString (''subagent '' @ name) s limit (sentinel_for callerInput))) subagent_fields"

fun validate_entries :: "bool \<Rightarrow> string list \<Rightarrow> json list \<Rightarrow> board_error + unit" where
  "validate_entries callerInput seen [] = Inr ()"
| "validate_entries callerInput seen (entry # rest) =
    (case unmarshal_map entry of None \<Rightarrow> Inl (sentinel_for callerInput SubagentObject)
     | Some value \<Rightarrow>
        andThen (validateSubagentStrings value callerInput)
        (case subagentID entry of Inl _ \<Rightarrow> Inl (sentinel_for callerInput SubagentNoID)
         | Inr i \<Rightarrow>
            if i = [] then Inl (sentinel_for callerInput SubagentNoID)
            else if callerInput \<and> i \<in> set seen then Inl (EInvalid (DuplicateSubagent i))
            else validate_entries callerInput (if callerInput then i # seen else seen) rest))"

definition validateSubagents :: "raw_json \<Rightarrow> bool \<Rightarrow> board_error + json list" where
  "validateSubagents raw callerInput =
    (case unmarshal_slice raw of None \<Rightarrow> Inl (sentinel_for callerInput SubagentsArray)
     | Some entries \<Rightarrow> andThen (validate_entries callerInput [] entries) (Inr entries))"

text \<open>The index of every id of the stored list, the last one when ids repeat.\<close>

fun index_ids :: "nat \<Rightarrow> json list \<Rightarrow> (string, nat) gomap \<Rightarrow> board_error + (string, nat) gomap" where
  "index_ids i [] m = Inr m"
| "index_ids i (item # rest) m =
    (case subagentID item of Inl _ \<Rightarrow> Inl (EInternal SubagentNoID) | Inr d \<Rightarrow> index_ids (i + 1) rest (gm_put d i m))"

fun merge_incoming :: "json list \<Rightarrow> (string, nat) gomap \<Rightarrow> json list \<Rightarrow> board_error + json list" where
  "merge_incoming current m [] = Inr current"
| "merge_incoming current m (item # rest) =
    (case subagentID item of Inl _ \<Rightarrow> Inl (EInvalid SubagentNoID)
     | Inr d \<Rightarrow>
        (case gm_get m d of
           Some index \<Rightarrow> merge_incoming (current[index := item]) m rest
         | None \<Rightarrow> merge_incoming (current @ [item]) (gm_put d (length current) m) rest))"

fun oldest_settled :: "nat \<Rightarrow> (nat \<times> int) option \<Rightarrow> json list \<Rightarrow> (nat \<times> int) option" where
  "oldest_settled i oldest [] = oldest"
| "oldest_settled i oldest (item # rest) =
    (let (settled, startedAt) = subagentSettled item
     in oldest_settled (i + 1)
          (if settled \<and> (case oldest of None \<Rightarrow> True | Some (_, oldestAt) \<Rightarrow> startedAt < oldestAt) then Some (i, startedAt) else oldest) rest)"

definition remove_at :: "nat \<Rightarrow> 'a list \<Rightarrow> 'a list" where
  "remove_at i xs = take i xs @ drop (i + 1) xs"

lemma oldest_settled_bound: "oldest_settled i oldest items = Some (k, at) \<Longrightarrow>
    (case oldest of None \<Rightarrow> i \<le> k \<and> k < i + length items | Some (j, _) \<Rightarrow> k = j \<or> i \<le> k \<and> k < i + length items)"
proof (induction items arbitrary: i oldest)
  case (Cons item items)
  then show ?case by (fastforce simp: case_prod_beta Let_def split: option.splits if_splits prod.splits)
qed (auto split: option.splits)

function trim_subagents :: "json list \<Rightarrow> board_error + json list" where
  "trim_subagents current =
    (if length current \<le> MaxBoardSubagents then Inr current
     else case oldest_settled 0 None current of None \<Rightarrow> Inl (EInvalid Unsettled)
       | Some (oldest, _) \<Rightarrow> trim_subagents (remove_at oldest current))"
  by pat_completeness auto
termination
  by (relation "measure length") (auto simp: remove_at_def dest!: oldest_settled_bound)

declare trim_subagents.simps [simp del]

definition mergeSubagents :: "raw_json \<Rightarrow> raw_json \<Rightarrow> board_error + raw_json" where
  "mergeSubagents existing updates =
    bindE (validateSubagents existing False) (\<lambda>current.
    bindE (validateSubagents updates True) (\<lambda>incoming.
    bindE (index_ids 0 current []) (\<lambda>m.
    bindE (merge_incoming current m incoming) (\<lambda>merged.
    bindE (trim_subagents merged) (\<lambda>out. Inr (Some (JArr out)))))))"

section \<open>Tasks\<close>

definition validateTask :: "BoardTaskRow \<Rightarrow> board_error + unit" where
  "validateTask row =
    andThen (validateBoardTaskKey (bt_key row))
    (andThen (ensure (bt_title row \<noteq> []) (EInvalid (NoTitle (bt_key row))))
    (andThen (validateBoardString ''board task title'' (bt_title row) MaxBoardTitleChars EInvalid)
    (andThen (validateBoardString ''board task note'' (bt_note row) MaxBoardNoteChars EInvalid)
    (andThen (ensure (length (bt_refs row) \<le> MaxBoardRefs) (EInvalid (TooManyRefs (bt_key row))))
    (andThen (ensure (\<not> (bt_state row < 1 \<or> 5 < bt_state row)) (EInvalid (BadState (bt_key row))))
    (bindE (validateWaiting (bt_waiting row)) (\<lambda>_.
    bindE (validateSubagents (bt_subagents row) False) (\<lambda>subagents.
      ensure (length subagents \<le> MaxBoardSubagents) (EInvalid (TooManySubagents (bt_key row)))))))))))"

definition opt_set :: "'a option \<Rightarrow> 'a \<Rightarrow> 'a" where
  "opt_set new old = (case new of None \<Rightarrow> old | Some v \<Rightarrow> v)"

definition applyTaskPatch :: "BoardTaskRow \<Rightarrow> BoardTaskPatch \<Rightarrow> board_error + BoardTaskRow" where
  "applyTaskPatch row0 patch =
    (let row = row0\<lparr>bt_title := opt_set (tp_title patch) (bt_title row0),
                    bt_primary_ref := opt_set (tp_primary_ref patch) (bt_primary_ref row0),
                    bt_note := opt_set (tp_note patch) (bt_note row0),
                    bt_state := opt_set (tp_state patch) (bt_state row0),
                    bt_refs := opt_set (tp_refs patch) (bt_refs row0)\<rparr>
     in andThen (validateBoardNoNUL ''board task primary ref'' (bt_primary_ref row) EInvalid)
        (andThen (eachE (\<lambda>ref. validateBoardNoNUL ''board task ref'' ref EInvalid) (bt_refs row))
        (bindE (case tp_waiting patch of None \<Rightarrow> Inr (bt_waiting row) | Some w \<Rightarrow> validateWaiting w) (\<lambda>waiting.
         bindE (case tp_upsert_subagents patch of None \<Rightarrow> Inr (bt_subagents row) | Some u \<Rightarrow> mergeSubagents (bt_subagents row) u) (\<lambda>subagents.
         let row' = row\<lparr>bt_waiting := waiting, bt_subagents := subagents\<rparr>
         in andThen (validateTask row') (Inr row'))))))"

definition MaxInt32 :: int where
  "MaxInt32 = 2 ^ 31 - 1"

definition nextBoardPosition :: "(string, int) gomap \<Rightarrow> board_error + int" where
  "nextBoardPosition positions =
    (let highest = fold (\<lambda>(_, position) highest. if highest < position then position else highest) positions (- 1)
     in if highest = MaxInt32 then Inl (EInvalid PositionRange) else Inr (highest + 1))"

fun boardTaskIndex :: "BoardTaskRow list \<Rightarrow> string \<Rightarrow> nat option" where
  "boardTaskIndex [] key = None"
| "boardTaskIndex (t # ts) key = (if bt_key t = key then Some 0 else map_option Suc (boardTaskIndex ts key))"

definition boardHasTask :: "BoardTaskRow list \<Rightarrow> string \<Rightarrow> bool" where
  "boardHasTask tasks key = list_ex (\<lambda>t. bt_key t = key) tasks"

definition new_task :: "string \<Rightarrow> BoardTaskRow" where
  "new_task key = \<lparr>bt_key = key, bt_title = [], bt_primary_ref = [], bt_note = [], bt_refs = [], bt_state = 1,
     bt_waiting = Some (JArr []), bt_subagents = Some (JArr []), bt_written_at = 0\<rparr>"

text \<open>One round of \<open>applyBoardTaskUpserts\<close>: the tasks and the positions.\<close>

definition upsert_task :: "BoardPatch \<Rightarrow> BoardTaskPatch \<Rightarrow> BoardTaskRow list \<times> (string, int) gomap
    \<Rightarrow> board_error + BoardTaskRow list \<times> (string, int) gomap" where
  "upsert_task p patch st =
    (let (tasks, positions) = st; key = tp_key patch in
     andThen (ensure (key \<noteq> []) (EInvalid NoTaskKey))
     (andThen (validateBoardTaskKey key)
     (bindE (case boardTaskIndex tasks key of Some i \<Rightarrow> Inr (tasks, positions, i)
        | None \<Rightarrow>
            andThen (ensure (tp_title patch \<noteq> None) (EInvalid (NewTaskTitle key)))
            (andThen (ensure (length tasks \<noteq> MaxBoardTasks) (EInvalid BoardFull))
            (bindE (nextBoardPosition positions) (\<lambda>position.
               Inr (tasks @ [new_task key], gm_put key position positions, length tasks)))))
      (\<lambda>(tasks1, positions1, index).
        bindE (applyTaskPatch (tasks1 ! index) patch) (\<lambda>updated.
          let updated1 = (if bp_automatic p then updated else updated\<lparr>bt_written_at := bp_now p\<rparr>)
          in Inr (tasks1[index := updated1], positions1))))))"

fun applyBoardTaskUpserts :: "BoardPatch \<Rightarrow> BoardTaskPatch list \<Rightarrow> BoardTaskRow list \<times> (string, int) gomap
    \<Rightarrow> board_error + BoardTaskRow list \<times> (string, int) gomap" where
  "applyBoardTaskUpserts p [] st = Inr st"
| "applyBoardTaskUpserts p (patch # rest) st = bindE (upsert_task p patch st) (applyBoardTaskUpserts p rest)"

definition removeBoardTasks :: "string list \<Rightarrow> BoardRow \<Rightarrow> (string, int) gomap \<Rightarrow> board_error + BoardRow \<times> (string, int) gomap" where
  "removeBoardTasks keys next positions =
    andThen (eachE (\<lambda>key. andThen (ensure (key \<noteq> []) (EInvalid NoRemovedKey)) (validateBoardTaskKey key)) keys)
    (Inr (next\<lparr>br_focus := (if br_focus next \<in> set keys then [] else br_focus next),
               br_tasks := filter (\<lambda>t. bt_key t \<notin> set keys) (br_tasks next)\<rparr>, fold gm_del keys positions))"

definition no_halt :: BoardHalt where
  "no_halt = \<lparr>ha_kind = 0, ha_ref = [], ha_reason = []\<rparr>"

definition applyBoardHalt :: "BoardPatch \<Rightarrow> BoardRow \<Rightarrow> board_error + BoardRow" where
  "applyBoardHalt p next =
    bindE (case bp_halt p of None \<Rightarrow> Inr next | Some h \<Rightarrow> andThen (validateHalt h) (Inr (next\<lparr>br_halt := h\<rparr>)))
    (\<lambda>next1. Inr (if bp_clear_halt p then next1\<lparr>br_halt := no_halt\<rparr> else next1))"

definition mergeBoardPatch :: "BoardRow \<Rightarrow> (string, int) gomap \<Rightarrow> BoardPatch \<Rightarrow> board_error + BoardRow \<times> (string, int) gomap" where
  "mergeBoardPatch current positions p =
    andThen (validateHalt (br_halt current))
    (andThen (eachE validateTask (br_tasks current))
    (bindE (removeBoardTasks (bp_remove p) current positions) (\<lambda>(next1, positions1).
     bindE (applyBoardTaskUpserts p (bp_upsert p) (br_tasks next1, positions1)) (\<lambda>(tasks2, positions2).
     bindE (case bp_focus p of None \<Rightarrow> Inr (next1\<lparr>br_tasks := tasks2\<rparr>)
            | Some focus \<Rightarrow> andThen (validateBoardTaskKey focus) (Inr (next1\<lparr>br_tasks := tasks2, br_focus := focus\<rparr>))) (\<lambda>next3.
     bindE (applyBoardHalt p next3) (\<lambda>next4.
       Inr (if bp_automatic p then next4 else next4\<lparr>br_written_turn := bp_turn p, br_written_at := bp_now p\<rparr>, positions2)))))))"

section \<open>The tables\<close>

record board_meta =
  bm_focus :: string
  bm_halt :: BoardHalt
  bm_written_turn :: nat
  bm_written_at :: int

record board_table =
  tb_meta :: "board_meta option"
  tb_tasks :: "(int \<times> BoardTaskRow) list"

definition no_board :: board_table where
  "no_board = \<lparr>tb_meta = None, tb_tasks = []\<rparr>"

definition task_order :: "int \<times> BoardTaskRow \<Rightarrow> int \<times> string" where
  "task_order pt = (fst pt, bt_key (snd pt))"

definition boardForAgent :: "AccountID \<Rightarrow> board_table \<Rightarrow> BoardRow \<times> (string, int) gomap" where
  "boardForAgent agent tb =
    (let rows = sort_key task_order (tb_tasks tb);
         meta = (case tb_meta tb of None \<Rightarrow> \<lparr>bm_focus = [], bm_halt = no_halt, bm_written_turn = 0, bm_written_at = 0\<rparr> | Some m \<Rightarrow> m)
     in (\<lparr>br_agent = agent, br_focus = bm_focus meta, br_halt = bm_halt meta, br_written_turn = bm_written_turn meta,
          br_written_at = bm_written_at meta, br_tasks = map snd rows\<rparr>,
         map (\<lambda>(position, t). (bt_key t, position)) rows))"

definition upsertBoardMetadata :: "string \<Rightarrow> BoardRow \<Rightarrow> BoardPatch \<Rightarrow> board_table \<Rightarrow> board_table" where
  "upsertBoardMetadata currentFocus next p tb =
    (let setFocus = (bp_focus p \<noteq> None \<or> br_focus next \<noteq> currentFocus); setHalt = (bp_halt p \<noteq> None)
     in tb\<lparr>tb_meta := Some (case tb_meta tb of
          None \<Rightarrow> \<lparr>bm_focus = (if setFocus then br_focus next else []), bm_halt = (if setHalt then br_halt next else no_halt),
                   bm_written_turn = (if bp_automatic p then 0 else bp_turn p), bm_written_at = (if bp_automatic p then 0 else bp_now p)\<rparr>
        | Some m \<Rightarrow> \<lparr>bm_focus = (if setFocus then br_focus next else bm_focus m),
                     bm_halt = (if bp_clear_halt p then no_halt else if setHalt then br_halt next else bm_halt m),
                     bm_written_turn = (if bp_automatic p then bm_written_turn m else bp_turn p),
                     bm_written_at = (if bp_automatic p then bm_written_at m else bp_now p)\<rparr>)\<rparr>)"

text \<open>\<open>INSERT ... ON CONFLICT (task_key) DO UPDATE\<close>.\<close>

definition upsert_row :: "int \<Rightarrow> BoardTaskRow \<Rightarrow> (int \<times> BoardTaskRow) list \<Rightarrow> (int \<times> BoardTaskRow) list" where
  "upsert_row position task rows =
    (if list_ex (\<lambda>(_, t). bt_key t = bt_key task) rows
     then map (\<lambda>(q, t). if bt_key t = bt_key task then (position, task) else (q, t)) rows
     else rows @ [(position, task)])"

definition persistBoardTasks :: "BoardRow \<Rightarrow> (string, int) gomap \<Rightarrow> BoardPatch \<Rightarrow> board_table \<Rightarrow> board_table" where
  "persistBoardTasks next positions p tb =
    (let kept = filter (\<lambda>(_, t). bt_key t \<notin> set (bp_remove p)) (tb_tasks tb);
         rows = map (\<lambda>t. (bt_key t, t)) (br_tasks next)
     in tb\<lparr>tb_tasks := fold (\<lambda>patch out.
          case map_of (rev rows) (tp_key patch) of None \<Rightarrow> out
          | Some task \<Rightarrow> upsert_row (gm_getz 0 positions (bt_key task)) task out) (bp_upsert p) kept\<rparr>)"

definition emptyBoardPatch :: "BoardPatch \<Rightarrow> bool" where
  "emptyBoardPatch p \<longleftrightarrow> bp_upsert p = [] \<and> bp_remove p = [] \<and> bp_focus p = None \<and> bp_halt p = None \<and> \<not> bp_clear_halt p"

text \<open>\<open>known\<close> is the answer of \<open>LockBoardAgent\<close>: the agent's account exists. The transaction holds its lock, so the
  tables of the agent change only here; an error rolls back.\<close>

definition ApplyBoardPatch :: "bool \<Rightarrow> AccountID \<Rightarrow> BoardPatch \<Rightarrow> board_table \<Rightarrow> board_table \<times> (board_error + BoardRow)" where
  "ApplyBoardPatch known agent p tb =
    (if agent = [] then (tb, Inl (EInvalid NoAgent))
     else if \<not> bp_automatic p \<and> 2 ^ 63 - 1 < bp_turn p then (tb, Inl (EInvalid TurnRange))
     else if \<not> known then (tb, Inl (EInvalid UnknownAgent))
     else (let (current, positions) = boardForAgent agent tb in
       if bp_automatic p \<and> emptyBoardPatch p then (tb, Inr current)
       else case mergeBoardPatch current positions p of
         Inl e \<Rightarrow> (tb, Inl e)
       | Inr (next, positions') \<Rightarrow>
           if MaxBoardTasks < length (br_tasks next) then (tb, Inl (EInvalid TooManyTasks))
           else if br_focus next \<noteq> [] \<and> \<not> boardHasTask (br_tasks next) (br_focus next) then (tb, Inl (EInvalid (FocusMissing (br_focus next))))
           else (persistBoardTasks next positions' p (upsertBoardMetadata (br_focus current) next p tb), Inr next)))"

section \<open>Library of the merge\<close>

lemma andThen_Inr [simp]: "andThen a b = Inr x \<longleftrightarrow> a = Inr () \<and> b = Inr x"
  by (cases a) (simp_all add: andThen_def)

lemma ensure_Inr [simp]: "ensure ok e = Inr u \<longleftrightarrow> ok"
  by (simp add: ensure_def)

lemma eachE_Inr [simp]: "eachE f xs = Inr u \<longleftrightarrow> (\<forall>x \<in> set xs. f x = Inr ())"
  by (induction xs) (auto simp: eachE_def)

definition task_get :: "BoardTaskRow list \<Rightarrow> string \<Rightarrow> BoardTaskRow option" where
  "task_get tasks k = map_of (map (\<lambda>t. (bt_key t, t)) tasks) k"

definition row_get :: "(int \<times> BoardTaskRow) list \<Rightarrow> string \<Rightarrow> (int \<times> BoardTaskRow) option" where
  "row_get rows k = map_of (map (\<lambda>r. (bt_key (snd r), r)) rows) k"

lemma task_get_key: "task_get tasks k = Some t \<Longrightarrow> bt_key t = k \<and> t \<in> set tasks"
  unfolding task_get_def by (drule map_of_SomeD) auto

lemma task_get_mem: "distinct (map bt_key tasks) \<Longrightarrow> t \<in> set tasks \<Longrightarrow> task_get tasks (bt_key t) = Some t"
  by (simp add: task_get_def comp_def)

lemma task_get_None: "task_get tasks k = None \<longleftrightarrow> k \<notin> bt_key ` set tasks"
  by (simp add: task_get_def map_of_eq_None_iff image_image)

lemma task_get_append: "task_get (xs @ ys) k = (case task_get xs k of None \<Rightarrow> task_get ys k | Some t \<Rightarrow> Some t)"
  by (simp add: task_get_def map_add_def split: option.split)

lemma task_get_update:
  assumes "i < length tasks" and "distinct (map bt_key tasks)" and "bt_key t = bt_key (tasks ! i)"
  shows "task_get (tasks[i := t]) k = (if k = bt_key t then Some t else task_get tasks k)"
  using assms
proof (induction tasks arbitrary: i)
  case (Cons a tasks)
  then show ?case by (cases i) (auto simp: task_get_def, metis imageI nth_mem)
qed simp

lemma keys_update: "i < length tasks \<Longrightarrow> bt_key t = bt_key (tasks ! i) \<Longrightarrow> map bt_key (tasks[i := t]) = map bt_key tasks"
  by (metis list_update_id map_update nth_map)

lemma boardTaskIndex_Some: "boardTaskIndex tasks k = Some i \<Longrightarrow> i < length tasks \<and> bt_key (tasks ! i) = k"
  by (induction tasks arbitrary: i) (auto split: if_splits)

lemma boardTaskIndex_None: "boardTaskIndex tasks k = None \<longleftrightarrow> k \<notin> bt_key ` set tasks"
  by (induction tasks) auto

lemma boardHasTask_iff: "boardHasTask tasks k \<longleftrightarrow> k \<in> bt_key ` set tasks"
  by (auto simp: boardHasTask_def list_ex_iff)

lemma fold_highest:
  "fold (\<lambda>(_, q) h. if h < q then q else h) ps (h::int) = Max (insert h (snd ` set ps))"
proof (induction ps arbitrary: h)
  case (Cons x ps)
  obtain k q where x: "x = (k, q)" by fastforce
  have "Max (insert h (insert q (snd ` set ps))) = Max (insert (if h < q then q else h) (snd ` set ps))"
    by (cases "snd ` set ps = {}") (auto simp: Max_insert max_def)
  with Cons show ?case by (simp add: x)
qed simp

lemma nextBoardPosition_Inr:
  assumes "nextBoardPosition ps = Inr q" and "snd ` set ps \<subseteq> {0..MaxInt32}"
  shows "0 \<le> q \<and> q \<le> MaxInt32 \<and> (\<forall>r \<in> snd ` set ps. r < q)"
proof -
  let ?m = "Max (insert (- 1) (snd ` set ps))"
  have q: "q = ?m + 1" "?m \<noteq> MaxInt32"
    using assms(1) by (auto simp: nextBoardPosition_def fold_highest Let_def split: if_splits)
  have "?m \<in> insert (- 1) (snd ` set ps)" by (rule Max_in) auto
  then have "?m \<le> MaxInt32" using assms(2) by (auto simp: MaxInt32_def)
  moreover have "r \<le> ?m" if "r \<in> snd ` set ps" for r using that by (intro Max_ge) auto
  moreover have "- 1 \<le> ?m" by (intro Max_ge) auto
  ultimately have "0 \<le> q" "q \<le> MaxInt32" "\<And>r. r \<in> snd ` set ps \<Longrightarrow> r < q"
    unfolding q(1) using q(2) by (linarith, linarith, metis zle_add1_eq_le)
  then show ?thesis by blast
qed

section \<open>The merge keeps the board in order\<close>

text \<open>A stored task: what \<open>validateTask\<close> accepts, with a key, and references without NUL.\<close>

definition task_ok :: "BoardTaskRow \<Rightarrow> bool" where
  "task_ok t \<longleftrightarrow> validateTask t = Inr () \<and> bt_key t \<noteq> [] \<and> CHR 0x00 \<notin> set (bt_primary_ref t) \<and> (\<forall>r \<in> set (bt_refs t). CHR 0x00 \<notin> set r)"

definition pos_of :: "(string, int) gomap \<Rightarrow> BoardTaskRow \<Rightarrow> int" where
  "pos_of positions t = gm_getz 0 positions (bt_key t)"

definition merge_inv :: "BoardTaskRow list \<times> (string, int) gomap \<Rightarrow> bool" where
  "merge_inv st \<longleftrightarrow> (case st of (tasks, positions) \<Rightarrow>
     distinct (map bt_key tasks) \<and> length tasks \<le> MaxBoardTasks \<and> (\<forall>t \<in> set tasks. task_ok t)
     \<and> gm_wf positions \<and> fst ` set positions = bt_key ` set tasks \<and> snd ` set positions \<subseteq> {0..MaxInt32}
     \<and> sorted_wrt (<) (map (pos_of positions) tasks))"

lemma validateTask_written [simp]: "validateTask (t\<lparr>bt_written_at := n\<rparr>) = validateTask t"
  by (simp add: validateTask_def)

lemma applyTaskPatch_Inr:
  assumes "applyTaskPatch row patch = Inr row'" and "bt_key row \<noteq> []"
  shows "bt_key row' = bt_key row \<and> task_ok row'"
  using assms by (auto simp: applyTaskPatch_def Let_def task_ok_def validateBoardNoNUL_def)

lemma task_ok_written [simp]: "task_ok (t\<lparr>bt_written_at := n\<rparr>) = task_ok t"
  by (simp add: task_ok_def)

text \<open>A round either changes the task at an index or appends one at a position past all others.\<close>

lemma upsert_task_cases:
  assumes "upsert_task p patch (tasks, positions) = Inr st'"
  obtains (known) i t where "i < length tasks" "bt_key (tasks ! i) = tp_key patch" "bt_key t = tp_key patch" "task_ok t"
      "st' = (tasks[i := t], positions)"
  | (fresh) t q where "tp_key patch \<notin> bt_key ` set tasks" "length tasks \<noteq> MaxBoardTasks" "nextBoardPosition positions = Inr q"
      "bt_key t = tp_key patch" "task_ok t" "st' = (tasks @ [t], gm_put (tp_key patch) q positions)"
proof (cases "boardTaskIndex tasks (tp_key patch)")
  case (Some i)
  note i = boardTaskIndex_Some [OF Some]
  obtain u where u: "applyTaskPatch (tasks ! i) patch = Inr u" and k: "tp_key patch \<noteq> []"
    and st: "st' = (tasks[i := if bp_automatic p then u else u\<lparr>bt_written_at := bp_now p\<rparr>], positions)"
    using assms Some by (auto simp: upsert_task_def Let_def)
  have "bt_key u = tp_key patch" "task_ok u" using applyTaskPatch_Inr [OF u] i k by simp_all
  then show ?thesis using i st by (intro known [of i "if bp_automatic p then u else u\<lparr>bt_written_at := bp_now p\<rparr>"]) simp_all
next
  case None
  then have "tp_key patch \<notin> bt_key ` set tasks" by (simp add: boardTaskIndex_None)
  moreover obtain u q where u: "applyTaskPatch (new_task (tp_key patch)) patch = Inr u" and k: "tp_key patch \<noteq> []"
    and q: "length tasks \<noteq> MaxBoardTasks" "nextBoardPosition positions = Inr q"
    and st: "st' = (tasks @ [if bp_automatic p then u else u\<lparr>bt_written_at := bp_now p\<rparr>], gm_put (tp_key patch) q positions)"
    using assms None by (auto simp: upsert_task_def Let_def nth_append)
  moreover have "bt_key u = tp_key patch" "task_ok u" using applyTaskPatch_Inr [OF u] k by (simp_all add: new_task_def)
  ultimately show ?thesis by (intro fresh [of q "if bp_automatic p then u else u\<lparr>bt_written_at := bp_now p\<rparr>"]) simp_all
qed

lemma pos_of_put: "pos_of (gm_put k q ps) t = (if bt_key t = k then q else pos_of ps t)"
  by (simp add: pos_of_def)

lemma pos_of_mem: "fst ` set ps = bt_key ` set tasks \<Longrightarrow> t \<in> set tasks \<Longrightarrow> pos_of ps t \<in> snd ` set ps"
  unfolding pos_of_def gm_getz_def
  by (metis (no_types, lifting) gm_keys_iff image_eqI map_of_SomeD not_None_eq option.simps(5) snd_conv)

lemma upsert_task_inv:
  assumes st: "upsert_task p patch (tasks, positions) = Inr st'" and inv: "merge_inv (tasks, positions)"
  shows "merge_inv st'"
  using st
proof (cases rule: upsert_task_cases)
  case (known i t)
  have keys: "map bt_key (tasks[i := t]) = map bt_key tasks" using known by (simp add: keys_update)
  have "map (pos_of positions) (tasks[i := t]) = map (\<lambda>k. gm_getz 0 positions k) (map bt_key (tasks[i := t]))"
    by (simp add: pos_of_def comp_def)
  also have "\<dots> = map (pos_of positions) tasks" unfolding keys by (simp add: pos_of_def comp_def)
  finally have pos: "map (pos_of positions) (tasks[i := t]) = map (pos_of positions) tasks" .
  have "bt_key ` set (tasks[i := t]) = bt_key ` set tasks" using keys by (metis set_map)
  with keys pos show ?thesis using inv known by (auto simp: merge_inv_def dest: set_update_subset_insert [THEN subsetD])
next
  case (fresh t q)
  have q: "0 \<le> q" "q \<le> MaxInt32" "\<And>r. r \<in> snd ` set positions \<Longrightarrow> r < q"
    using nextBoardPosition_Inr [OF fresh(3)] inv by (auto simp: merge_inv_def)
  have new: "tp_key patch \<notin> fst ` set positions" using fresh(1) inv by (auto simp: merge_inv_def)
  then have put: "gm_put (tp_key patch) q positions = positions @ [(tp_key patch, q)]"
    by (induction positions) auto
  have old: "map (pos_of (gm_put (tp_key patch) q positions)) tasks = map (pos_of positions) tasks"
    using fresh(1) by (auto simp: pos_of_put image_iff)
  have lt: "pos_of positions u < q" if "u \<in> set tasks" for u
    using q(3) [OF pos_of_mem] inv that by (auto simp: merge_inv_def)
  have "sorted_wrt (<) (map (pos_of (gm_put (tp_key patch) q positions)) (tasks @ [t]))"
    using inv lt fresh(4) by (auto simp: merge_inv_def sorted_wrt_append old pos_of_put)
  moreover have "fst ` set (gm_put (tp_key patch) q positions) = bt_key ` set (tasks @ [t])"
    "snd ` set (gm_put (tp_key patch) q positions) \<subseteq> {0..MaxInt32}"
    using inv fresh(4) q put by (auto simp: merge_inv_def)
  moreover have "gm_wf (gm_put (tp_key patch) q positions)" using inv by (simp add: merge_inv_def)
  moreover have "distinct (map bt_key (tasks @ [t]))" "length (tasks @ [t]) \<le> MaxBoardTasks" "\<forall>u \<in> set (tasks @ [t]). task_ok u"
    using inv fresh by (auto simp: merge_inv_def)
  ultimately show ?thesis unfolding fresh(6) merge_inv_def by simp
qed

text \<open>What a round leaves of the task and the position of each key.\<close>

lemma upsert_task_frame:
  assumes st: "upsert_task p patch (tasks, positions) = Inr (tasks', positions')" and inv: "merge_inv (tasks, positions)"
  shows "task_get tasks' (tp_key patch) \<noteq> None"
    and "k \<noteq> tp_key patch \<Longrightarrow> task_get tasks' k = task_get tasks k"
    and "k \<noteq> tp_key patch \<Longrightarrow> gm_get positions' k = gm_get positions k"
proof -
  have d: "distinct (map bt_key tasks)" using inv by (simp add: merge_inv_def)
  show "task_get tasks' (tp_key patch) \<noteq> None" using st
    by (cases rule: upsert_task_cases) (use d in \<open>auto simp: task_get_update task_get_append task_get_None, simp add: task_get_def split: option.split\<close>)
  show "k \<noteq> tp_key patch \<Longrightarrow> task_get tasks' k = task_get tasks k" using st
    by (cases rule: upsert_task_cases) (use d in \<open>auto simp: task_get_update task_get_append, simp add: task_get_def split: option.split\<close>)
  show "k \<noteq> tp_key patch \<Longrightarrow> gm_get positions' k = gm_get positions k" using st
    by (cases rule: upsert_task_cases) auto
qed

lemma upserts_frame:
  assumes "applyBoardTaskUpserts p patches (tasks, positions) = Inr (tasks', positions')" and "merge_inv (tasks, positions)"
  shows "merge_inv (tasks', positions')
    \<and> (\<forall>k. (if k \<in> tp_key ` set patches then task_get tasks' k \<noteq> None
           else task_get tasks' k = task_get tasks k \<and> gm_get positions' k = gm_get positions k))"
  using assms
proof (induction patches arbitrary: tasks positions)
  case (Cons patch patches)
  obtain tasks1 positions1 where u: "upsert_task p patch (tasks, positions) = Inr (tasks1, positions1)"
    and r: "applyBoardTaskUpserts p patches (tasks1, positions1) = Inr (tasks', positions')" using Cons.prems(1) by auto
  have inv: "merge_inv (tasks1, positions1)" by (rule upsert_task_inv [OF u Cons.prems(2)])
  note f = upsert_task_frame [OF u Cons.prems(2)] and IH = Cons.IH [OF r inv]
  have "if k \<in> tp_key ` set (patch # patches) then task_get tasks' k \<noteq> None
        else task_get tasks' k = task_get tasks k \<and> gm_get positions' k = gm_get positions k" for k
    using IH f(1) f(2,3) [of k] by (cases "k = tp_key patch"; cases "k \<in> tp_key ` set patches") fastforce+
  with IH show ?case by blast
qed simp

section \<open>The tables after a patch\<close>

definition rows_of :: "BoardTaskRow list \<Rightarrow> (string, int) gomap \<Rightarrow> (int \<times> BoardTaskRow) list" where
  "rows_of tasks positions = map (\<lambda>t. (pos_of positions t, t)) tasks"

definition row_keys :: "(int \<times> BoardTaskRow) list \<Rightarrow> string list" where
  "row_keys rows = map (\<lambda>r. bt_key (snd r)) rows"

lemma row_get_Some: "distinct (row_keys rows) \<Longrightarrow> row_get rows k = Some (q, t) \<longleftrightarrow> (q, t) \<in> set rows \<and> bt_key t = k"
  unfolding row_get_def row_keys_def
  by (subst map_of_eq_Some_iff) (auto simp: comp_def image_iff)

lemma row_get_append: "row_get (xs @ ys) k = (case row_get xs k of None \<Rightarrow> row_get ys k | Some r \<Rightarrow> Some r)"
  by (simp add: row_get_def map_add_def split: option.split)

lemma row_get_rows_of: "row_get (rows_of tasks positions) k = map_option (\<lambda>t. (pos_of positions t, t)) (task_get tasks k)"
  by (induction tasks) (auto simp: row_get_def rows_of_def task_get_def)

lemma row_get_None: "row_get rows k = None \<longleftrightarrow> k \<notin> set (row_keys rows)"
  by (simp add: row_get_def row_keys_def map_of_eq_None_iff image_image)

lemma upsert_row_unfold:
  "upsert_row q t rows = (if bt_key t \<in> set (row_keys rows) then map (\<lambda>r. if bt_key (snd r) = bt_key t then (q, t) else r) rows
     else rows @ [(q, t)])"
  by (auto simp: upsert_row_def row_keys_def list_ex_iff case_prod_beta image_iff eq_commute)

lemma row_simps [simp]:
  "row_get [] k = None" "row_get (r # rows) k = (if bt_key (snd r) = k then Some r else row_get rows k)"
  "row_keys [] = []" "row_keys (r # rows) = bt_key (snd r) # row_keys rows"
  by (auto simp: row_get_def row_keys_def)

lemma row_get_replace:
  "row_get (map (\<lambda>r. if bt_key (snd r) = bt_key t then (q, t) else r) rows) k =
    (if k = bt_key t then if k \<in> set (row_keys rows) then Some (q, t) else None else row_get rows k)"
  by (induction rows) auto

lemma row_get_filter: "row_get (filter (\<lambda>(_, t). bt_key t \<notin> K) rows) k = (if k \<in> K then None else row_get rows k)"
  by (induction rows) auto

lemma upsert_row_get:
  "row_get (upsert_row q t rows) k = (if k = bt_key t then Some (q, t) else row_get rows k)"
  using row_get_None [of rows k]
  by (auto simp: upsert_row_unfold row_get_replace row_get_append split: option.split)

lemma upsert_row_distinct: "distinct (row_keys rows) \<Longrightarrow> distinct (row_keys (upsert_row q t rows))"
proof -
  have "row_keys (map (\<lambda>r. if bt_key (snd r) = bt_key t then (q, t) else r) rows) = row_keys rows"
    by (simp add: row_keys_def)
  then show "distinct (row_keys rows) \<Longrightarrow> ?thesis" by (simp add: upsert_row_unfold) (simp add: row_keys_def)
qed

lemma sorted_rows_unique:
  assumes L: "distinct (row_keys L)" and R: "distinct (row_keys R)" and eq: "\<And>k. row_get L k = row_get R k" and s: "sorted_wrt (<) (map fst R)"
  shows "sort_key task_order L = R"
proof (rule map_sorted_distinct_set_unique)
  have "(q, t) \<in> set L \<longleftrightarrow> (q, t) \<in> set R" for q t
    using row_get_Some [OF L, of "bt_key t" q t] row_get_Some [OF R, of "bt_key t" q t] eq [of "bt_key t"] by simp
  then have "set L = set R" by (simp add: set_eq_iff split_paired_all)
  then show set: "set (sort_key task_order L) = set R" by simp
  have inj: "inj_on task_order (set R)"
    using R by (auto simp: inj_on_def task_order_def row_keys_def distinct_map)
  then show "inj_on task_order (set (sort_key task_order L) \<union> set R)" using set by simp
  have dL: "distinct L" and dR: "distinct R" using L R by (simp_all add: row_keys_def distinct_map)
  show "sorted (map task_order (sort_key task_order L))" by simp
  show "distinct (map task_order (sort_key task_order L))" using inj set dL by (simp add: distinct_map)
  show "distinct (map task_order R)" using inj dR by (simp add: distinct_map)
  have "sorted_wrt (\<le>) (map task_order R)"
    using s by (auto simp: sorted_wrt_map task_order_def less_eq_prod_def elim!: sorted_wrt_mono_rel [rotated])
  then show "sorted (map task_order R)" by simp
qed

lemma map_of_rev_tasks: "distinct (map bt_key tasks) \<Longrightarrow> map_of (rev (map (\<lambda>t. (bt_key t, t)) tasks)) = task_get tasks"
  unfolding task_get_def by (subst map_of_inject_set) (simp_all add: comp_def flip: rev_map)

lemma persist_get:
  fixes positions :: "(string, int) gomap"
  assumes "\<And>patch. patch \<in> set patches \<Longrightarrow> task_get tasks (tp_key patch) \<noteq> None" and d: "distinct (map bt_key tasks)"
    and "distinct (row_keys rows)"
  defines "step \<equiv> \<lambda>patch out. case map_of (rev (map (\<lambda>t. (bt_key t, t)) tasks)) (tp_key patch) of None \<Rightarrow> out
          | Some task \<Rightarrow> upsert_row (gm_getz 0 positions (bt_key task)) task out"
  shows "distinct (row_keys (fold step patches rows))"
    and "row_get (fold step patches rows) k =
      (if k \<in> tp_key ` set patches then row_get (rows_of tasks positions) k else row_get rows k)"
proof -
  have rev: "map_of (rev (map (\<lambda>t. (bt_key t, t)) tasks)) = task_get tasks"
    by (rule map_of_rev_tasks [OF d])
  have step: "distinct (row_keys (step patch out)) \<and> row_get (step patch out) k =
      (if k = tp_key patch then row_get (rows_of tasks positions) k else row_get out k)"
    if "task_get tasks (tp_key patch) \<noteq> None" "distinct (row_keys out)" for patch out k
  proof -
    from that(1) obtain t where t: "task_get tasks (tp_key patch) = Some t" by blast
    show ?thesis using that(2) t task_get_key [OF t]
      by (simp add: step_def rev upsert_row_get upsert_row_distinct row_get_rows_of pos_of_def)
  qed
  have "distinct (row_keys (fold step patches rows)) \<and> row_get (fold step patches rows) k =
      (if k \<in> tp_key ` set patches then row_get (rows_of tasks positions) k else row_get rows k)" for k
    using assms(1,3)
  proof (induction patches arbitrary: rows)
    case (Cons patch patches)
    have h: "distinct (row_keys (step patch rows))" "row_get (step patch rows) k = (if k = tp_key patch then row_get (rows_of tasks positions) k else row_get rows k)"
      using step [of patch rows] Cons.prems by simp_all
    have "task_get tasks (tp_key pt) \<noteq> None" if "pt \<in> set patches" for pt using Cons.prems(1) that by simp
    from Cons.IH [OF this h(1)] h(2) show ?case by auto
  qed simp
  then show "distinct (row_keys (fold step patches rows))"
    and "row_get (fold step patches rows) k =
      (if k \<in> tp_key ` set patches then row_get (rows_of tasks positions) k else row_get rows k)" by blast+
qed

section \<open>Patches of a stored board\<close>

definition board_ok :: "board_table \<Rightarrow> bool" where
  "board_ok tb \<longleftrightarrow> distinct (row_keys (tb_tasks tb)) \<and> distinct (map fst (tb_tasks tb)) \<and> fst ` set (tb_tasks tb) \<subseteq> {0..MaxInt32}
     \<and> length (tb_tasks tb) \<le> MaxBoardTasks \<and> (\<forall>r \<in> set (tb_tasks tb). task_ok (snd r))
     \<and> (case tb_meta tb of None \<Rightarrow> tb_tasks tb = []
        | Some m \<Rightarrow> validateHalt (bm_halt m) = Inr () \<and> (bm_focus m = [] \<or> bm_focus m \<in> set (row_keys (tb_tasks tb))) \<and> bm_written_turn m \<le> 2 ^ 63 - 1)"

definition sorted_rows :: "board_table \<Rightarrow> (int \<times> BoardTaskRow) list" where
  "sorted_rows tb = sort_key task_order (tb_tasks tb)"

definition row_positions :: "(int \<times> BoardTaskRow) list \<Rightarrow> (string, int) gomap" where
  "row_positions rows = map (\<lambda>(position, t). (bt_key t, position)) rows"

lemma row_positions_get: "gm_get (row_positions rows) k = map_option fst (row_get rows k)"
  by (induction rows) (auto simp: row_positions_def)

lemma row_positions_set: "fst ` set (row_positions rows) = set (row_keys rows)" "snd ` set (row_positions rows) = fst ` set rows"
    "map fst (row_positions rows) = row_keys rows"
  by (force simp: row_positions_def row_keys_def)+

lemma rows_of_positions: "distinct (row_keys rows) \<Longrightarrow> rows_of (map snd rows) (row_positions rows) = rows"
proof -
  assume d: "distinct (row_keys rows)"
  have "pos_of (row_positions rows) (snd r) = fst r" if "r \<in> set rows" for r
    using row_get_Some [OF d, of "bt_key (snd r)" "fst r" "snd r"] that by (simp add: pos_of_def gm_getz_def row_positions_get)
  then show ?thesis by (simp add: rows_of_def map_idI)
qed

lemma sorted_rows_facts:
  assumes "board_ok tb"
  shows "distinct (row_keys (sorted_rows tb))" and "sorted_wrt (<) (map fst (sorted_rows tb))"
    and "row_get (sorted_rows tb) k = row_get (tb_tasks tb) k"
proof -
  let ?S = "sorted_rows tb"
  have m: "mset ?S = mset (tb_tasks tb)" by (simp add: sorted_rows_def)
  show d: "distinct (row_keys ?S)" using assms m unfolding row_keys_def board_ok_def by (metis mset_map mset_eq_imp_distinct_iff)
  have dq: "distinct (map fst ?S)" using assms m unfolding board_ok_def by (metis mset_map mset_eq_imp_distinct_iff)
  have "sorted (map task_order ?S)" by (simp add: sorted_rows_def)
  then have "sorted (map fst ?S)" by (auto simp: sorted_wrt_map task_order_def less_eq_prod_def elim!: sorted_wrt_mono_rel [rotated])
  with dq show "sorted_wrt (<) (map fst ?S)" by (simp add: strict_sorted_iff)
  have "row_get ?S k = Some (q, t) \<longleftrightarrow> row_get (tb_tasks tb) k = Some (q, t)" for q t
    using row_get_Some [OF d, of k q t] row_get_Some [of "tb_tasks tb" k q t] assms mset_eq_setD [OF m] by (simp add: board_ok_def)
  then show "row_get ?S k = row_get (tb_tasks tb) k"
    by (metis option.exhaust surj_pair)
qed

lemma read_inv:
  assumes "board_ok tb"
  shows "merge_inv (map snd (sorted_rows tb), row_positions (sorted_rows tb))"
proof -
  let ?S = "sorted_rows tb"
  note f = sorted_rows_facts [OF assms]
  have set: "set ?S = set (tb_tasks tb)" "length ?S = length (tb_tasks tb)" by (simp_all add: sorted_rows_def)
  have "map (pos_of (row_positions ?S)) (map snd ?S) = map fst (rows_of (map snd ?S) (row_positions ?S))"
    by (simp add: rows_of_def comp_def)
  then have "map (pos_of (row_positions ?S)) (map snd ?S) = map fst ?S" by (simp add: rows_of_positions [OF f(1)])
  with f(2) have "sorted_wrt (<) (map (pos_of (row_positions ?S)) (map snd ?S))" by (simp only:)
  moreover have "distinct (map bt_key (map snd ?S))" using f(1) by (simp add: row_keys_def comp_def)
  moreover have "bt_key ` set (map snd ?S) = set (row_keys ?S)" by (simp add: row_keys_def image_image)
  ultimately show ?thesis using assms set
    by (simp add: merge_inv_def row_positions_set gm_wf_def f(1) board_ok_def)
qed

lemma fold_del_get: "gm_get (fold gm_del ks ps) k = (if k \<in> set ks then None else gm_get ps k)"
  by (induction ks arbitrary: ps) auto

lemma fold_del_wf: "gm_wf ps \<Longrightarrow> gm_wf (fold gm_del ks ps)"
  by (induction ks arbitrary: ps) auto

lemma fold_del_sub: "set (fold gm_del ks ps) \<subseteq> set ps"
proof (induction ks arbitrary: ps)
  case (Cons k ks)
  have "set (gm_del k ps) \<subseteq> set ps" by (auto simp: AList.delete_eq)
  with Cons [of "gm_del k ps"] show ?case by auto
qed simp

lemma remove_inv:
  assumes "merge_inv (tasks, positions)"
  shows "merge_inv (filter (\<lambda>t. bt_key t \<notin> set ks) tasks, fold gm_del ks positions)"
proof -
  let ?ts = "filter (\<lambda>t. bt_key t \<notin> set ks) tasks" and ?ps = "fold gm_del ks positions"
  have "k \<in> fst ` set ?ps \<longleftrightarrow> k \<in> bt_key ` set ?ts" for k
    using assms by (auto simp: merge_inv_def gm_keys_iff fold_del_get set_eq_iff)
  then have "fst ` set ?ps = bt_key ` set ?ts" by blast
  moreover have "map (pos_of ?ps) ?ts = map (pos_of positions) ?ts" by (auto simp: pos_of_def gm_getz_def fold_del_get)
  moreover have "sorted_wrt (<) (map (pos_of positions) ?ts)" using assms by (simp add: merge_inv_def sorted_wrt_map sorted_wrt_filter)
  moreover have "snd ` set ?ps \<subseteq> {0..MaxInt32}" using assms fold_del_sub [of ks positions] unfolding merge_inv_def by blast
  moreover have "gm_wf ?ps" "distinct (map bt_key ?ts)" "\<forall>t \<in> set ?ts. task_ok t"
    using assms fold_del_wf [of positions ks] by (simp_all add: merge_inv_def distinct_map_filter)
  moreover have "length ?ts \<le> MaxBoardTasks" using assms by (auto simp: merge_inv_def intro: le_trans [OF length_filter_le])
  ultimately show ?thesis by (simp only: merge_inv_def split_conv simp_thms)
qed

lemma task_get_filter: "task_get (filter (\<lambda>t. bt_key t \<notin> K) tasks) k = (if k \<in> K then None else task_get tasks k)"
  by (induction tasks) (auto simp: task_get_def)

text \<open>What a successful merge does to every key and to the metadata.\<close>

lemma merge_frame:
  assumes m: "mergeBoardPatch current positions p = Inr (next, positions')" and inv: "merge_inv (br_tasks current, positions)"
  shows "merge_inv (br_tasks next, positions')"
    and "if k \<in> tp_key ` set (bp_upsert p) then task_get (br_tasks next) k \<noteq> None
         else if k \<in> set (bp_remove p) then task_get (br_tasks next) k = None
         else task_get (br_tasks next) k = task_get (br_tasks current) k \<and> gm_get positions' k = gm_get positions k"
    and "br_agent next = br_agent current"
    and "br_focus next = (case bp_focus p of Some f \<Rightarrow> f | None \<Rightarrow> if br_focus current \<in> set (bp_remove p) then [] else br_focus current)"
    and "br_halt next = (if bp_clear_halt p then no_halt else case bp_halt p of Some h \<Rightarrow> h | None \<Rightarrow> br_halt current)"
    and "validateHalt (br_halt next) = Inr ()"
    and "br_written_turn next = (if bp_automatic p then br_written_turn current else bp_turn p)"
    and "br_written_at next = (if bp_automatic p then br_written_at current else bp_now p)"
proof -
  let ?t1 = "filter (\<lambda>t. bt_key t \<notin> set (bp_remove p)) (br_tasks current)" and ?p1 = "fold gm_del (bp_remove p) positions"
  obtain tasks2 next3 next4 where u: "applyBoardTaskUpserts p (bp_upsert p) (?t1, ?p1) = Inr (tasks2, positions')"
    and h0: "validateHalt (br_halt current) = Inr ()"
    and r3: "(let next1 = current\<lparr>br_focus := (if br_focus current \<in> set (bp_remove p) then [] else br_focus current), br_tasks := ?t1\<rparr> in
        case bp_focus p of None \<Rightarrow> Inr (next1\<lparr>br_tasks := tasks2\<rparr>)
        | Some focus \<Rightarrow> andThen (validateBoardTaskKey focus) (Inr (next1\<lparr>br_tasks := tasks2, br_focus := focus\<rparr>))) = Inr next3"
    and n4: "applyBoardHalt p next3 = Inr next4"
    and n: "next = (if bp_automatic p then next4 else next4\<lparr>br_written_turn := bp_turn p, br_written_at := bp_now p\<rparr>)"
    using m by (auto simp: mergeBoardPatch_def removeBoardTasks_def)
  have n3: "next3 = current\<lparr>br_focus := (case bp_focus p of Some f \<Rightarrow> f | None \<Rightarrow> if br_focus current \<in> set (bp_remove p) then [] else br_focus current), br_tasks := tasks2\<rparr>"
    using r3 by (auto simp: Let_def split: option.splits)
  have h: "next4 = next3\<lparr>br_halt := (if bp_clear_halt p then no_halt else case bp_halt p of Some h \<Rightarrow> h | None \<Rightarrow> br_halt next3)\<rparr>"
    using n4 by (auto simp: applyBoardHalt_def split: option.splits if_splits)
  have hv: "validateHalt h = Inr ()" if "bp_halt p = Some h" for h using n4 that by (auto simp: applyBoardHalt_def)
  have t: "br_tasks next = tasks2" by (simp add: n h n3)
  have inv1: "merge_inv (?t1, ?p1)" by (rule remove_inv [OF inv])
  note f = upserts_frame [OF u inv1]
  show "merge_inv (br_tasks next, positions')" using f t by simp
  show "if k \<in> tp_key ` set (bp_upsert p) then task_get (br_tasks next) k \<noteq> None
         else if k \<in> set (bp_remove p) then task_get (br_tasks next) k = None
         else task_get (br_tasks next) k = task_get (br_tasks current) k \<and> gm_get positions' k = gm_get positions k"
    using conjunct2 [OF f, rule_format, of k] by (simp add: t task_get_filter fold_del_get)
  show "br_agent next = br_agent current"
    and "br_focus next = (case bp_focus p of Some f \<Rightarrow> f | None \<Rightarrow> if br_focus current \<in> set (bp_remove p) then [] else br_focus current)"
    and "br_written_turn next = (if bp_automatic p then br_written_turn current else bp_turn p)"
    and "br_written_at next = (if bp_automatic p then br_written_at current else bp_now p)"
    and hn: "br_halt next = (if bp_clear_halt p then no_halt else case bp_halt p of Some h \<Rightarrow> h | None \<Rightarrow> br_halt current)"
    by (simp_all add: n h n3 split: option.split)
  have "validateHalt no_halt = Inr ()" by (simp add: validateHalt_def no_halt_def validateBoardNoNUL_def validateBoardString_def)
  then show "validateHalt (br_halt next) = Inr ()" using h0 hv by (simp add: hn split: option.split)
qed

lemma persisted_rows:
  fixes f :: string
  assumes ok: "board_ok tb" and m: "mergeBoardPatch (fst (boardForAgent agent tb)) (snd (boardForAgent agent tb)) p = Inr (next, positions')"
  defines "tb' \<equiv> persistBoardTasks next positions' p (upsertBoardMetadata f next p tb)"
  shows "sort_key task_order (tb_tasks tb') = rows_of (br_tasks next) positions'" and "distinct (row_keys (tb_tasks tb'))"
proof -
  let ?S = "sorted_rows tb" and ?R = "rows_of (br_tasks next) positions'"
  have read: "boardForAgent agent tb = ((fst (boardForAgent agent tb))\<lparr>br_tasks := map snd ?S\<rparr>, row_positions ?S)"
    by (simp add: boardForAgent_def Let_def sorted_rows_def row_positions_def)
  then have tasks: "br_tasks (fst (boardForAgent agent tb)) = map snd ?S" and pos: "snd (boardForAgent agent tb) = row_positions ?S"
    by (metis BoardRow.select_convs(6) BoardRow.surjective BoardRow.update_convs(6) fst_conv, metis snd_conv)
  have inv: "merge_inv (br_tasks (fst (boardForAgent agent tb)), snd (boardForAgent agent tb))"
    unfolding tasks pos by (rule read_inv [OF ok])
  note mf = merge_frame [OF m inv]
  have dn: "distinct (map bt_key (br_tasks next))" and sn: "sorted_wrt (<) (map (pos_of positions') (br_tasks next))"
    using mf(1) by (simp_all add: merge_inv_def)
  define kept where "kept = filter (\<lambda>(_, t). bt_key t \<notin> set (bp_remove p)) (tb_tasks tb)"
  have dk: "distinct (row_keys kept)" using ok unfolding board_ok_def kept_def row_keys_def by (simp add: distinct_map_filter)
  have up: "task_get (br_tasks next) (tp_key patch) \<noteq> None" if "patch \<in> set (bp_upsert p)" for patch
    using mf(2) [of "tp_key patch"] that by simp
  have tb': "tb_tasks tb' = fold (\<lambda>patch out. case map_of (rev (map (\<lambda>t. (bt_key t, t)) (br_tasks next))) (tp_key patch) of None \<Rightarrow> out
          | Some task \<Rightarrow> upsert_row (gm_getz 0 positions' (bt_key task)) task out) (bp_upsert p) kept"
    by (simp add: tb'_def persistBoardTasks_def upsertBoardMetadata_def Let_def kept_def)
  have d0: "distinct (row_keys (tb_tasks tb'))" unfolding tb' using up dn dk by (rule persist_get(1))
  have pg: "row_get (tb_tasks tb') k = (if k \<in> tp_key ` set (bp_upsert p) then row_get ?R k else row_get kept k)" for k
    unfolding tb' using up dn dk by (rule persist_get(2))
  show d': "distinct (row_keys (tb_tasks tb'))" by (rule d0)
  have old: "row_get (tb_tasks tb) k = map_option (\<lambda>t. (pos_of (row_positions ?S) t, t)) (task_get (map snd ?S) k)" for k
    by (metis row_get_rows_of rows_of_positions sorted_rows_facts(1,3) [OF ok])
  have kg: "row_get kept k = (if k \<in> set (bp_remove p) then None else row_get (tb_tasks tb) k)" for k
    unfolding kept_def by (rule row_get_filter)
  have "row_get (tb_tasks tb') k = row_get ?R k" for k
  proof (cases "k \<in> tp_key ` set (bp_upsert p)")
    case False
    show ?thesis
    proof (cases "k \<in> set (bp_remove p)")
      case True
      with False show ?thesis using mf(2) [of k] by (simp add: pg kg row_get_rows_of)
    next
      case r: False
      have same: "task_get (br_tasks next) k = task_get (map snd ?S) k" "gm_get positions' k = gm_get (row_positions ?S) k"
        using mf(2) [of k] False r by (simp_all add: tasks pos)
      have "pos_of positions' t = pos_of (row_positions ?S) t" if "task_get (map snd ?S) k = Some t" for t
        using task_get_key [OF that] same(2) by (simp add: pos_of_def gm_getz_def)
      then show ?thesis using False r same(1)
        by (cases "task_get (map snd ?S) k") (simp_all add: pg kg old row_get_rows_of)
    qed
  qed (simp add: pg)
  moreover have "distinct (row_keys ?R)" "sorted_wrt (<) (map fst ?R)" using dn sn by (simp_all add: row_keys_def rows_of_def comp_def)
  ultimately show "sort_key task_order (tb_tasks tb') = ?R" by (intro sorted_rows_unique [OF d'])
qed

lemma ApplyBoardPatch_Inr:
  assumes a: "ApplyBoardPatch known agent p tb = (tb', Inr row)" and ne: "\<not> (bp_automatic p \<and> emptyBoardPatch p)"
  obtains positions' where "mergeBoardPatch (fst (boardForAgent agent tb)) (snd (boardForAgent agent tb)) p = Inr (row, positions')"
    "\<not> bp_automatic p \<longrightarrow> bp_turn p \<le> 2 ^ 63 - 1" "br_focus row = [] \<or> boardHasTask (br_tasks row) (br_focus row)"
    "tb' = persistBoardTasks row positions' p (upsertBoardMetadata (br_focus (fst (boardForAgent agent tb))) row p tb)"
proof -
  let ?cur = "fst (boardForAgent agent tb)" and ?ps = "snd (boardForAgent agent tb)"
  have g: "agent \<noteq> []" using a by (auto simp: ApplyBoardPatch_def)
  have t: "\<not> (\<not> bp_automatic p \<and> 2 ^ 63 - 1 < bp_turn p)" using a g by (metis ApplyBoardPatch_def Pair_inject sum.distinct(1))
  have k: "known" using a g t by (metis ApplyBoardPatch_def Pair_inject sum.distinct(1))
  obtain nx positions' where m: "mergeBoardPatch ?cur ?ps p = Inr (nx, positions')"
    using a g t k ne by (cases "mergeBoardPatch ?cur ?ps p") (auto simp: ApplyBoardPatch_def case_prod_beta)
  have "(if MaxBoardTasks < length (br_tasks nx) then (tb, Inl (EInvalid TooManyTasks))
      else if br_focus nx \<noteq> [] \<and> \<not> boardHasTask (br_tasks nx) (br_focus nx) then (tb, Inl (EInvalid (FocusMissing (br_focus nx))))
      else (persistBoardTasks nx positions' p (upsertBoardMetadata (br_focus ?cur) nx p tb), Inr nx)) = (tb', Inr row)"
    using a by (simp only: ApplyBoardPatch_def g t k ne m if_False if_True not_True_eq_False case_prod_beta Let_def sum.case prod.sel)
  then have "nx = row" "br_focus nx = [] \<or> boardHasTask (br_tasks nx) (br_focus nx)"
    "tb' = persistBoardTasks nx positions' p (upsertBoardMetadata (br_focus ?cur) nx p tb)" by (auto split: if_splits)
  with m t show thesis by (intro that [of positions']) auto
qed

text \<open>The possible outcomes of \<open>ApplyBoardPatch\<close> on a well-formed board.\<close>

lemma apply_board_patch_ok:
  assumes ok: "board_ok tb" and a: "ApplyBoardPatch known agent p tb = (tb', Inr row)"
  shows "board_ok tb' \<and> fst (boardForAgent agent tb') = row"
proof (cases "bp_automatic p \<and> emptyBoardPatch p")
  case True
  with a ok show ?thesis by (auto simp: ApplyBoardPatch_def case_prod_beta Let_def split: if_splits)
next
  case False
  let ?cur = "fst (boardForAgent agent tb)" and ?ps = "snd (boardForAgent agent tb)"
  obtain positions' where m: "mergeBoardPatch ?cur ?ps p = Inr (row, positions')"
    and turn: "\<not> bp_automatic p \<longrightarrow> bp_turn p \<le> 2 ^ 63 - 1"
    and foc: "br_focus row = [] \<or> boardHasTask (br_tasks row) (br_focus row)"
    and tb': "tb' = persistBoardTasks row positions' p (upsertBoardMetadata (br_focus ?cur) row p tb)"
    using ApplyBoardPatch_Inr [OF a False] by blast
  have inv: "merge_inv (br_tasks ?cur, ?ps)"
    using read_inv [OF ok] by (simp add: boardForAgent_def Let_def sorted_rows_def row_positions_def)
  note mf = merge_frame [OF m inv] and pr = persisted_rows [OF ok m, of "br_focus ?cur", folded tb']
  define meta where "meta = \<lparr>bm_focus = br_focus row, bm_halt = br_halt row, bm_written_turn = br_written_turn row, bm_written_at = br_written_at row\<rparr>"
  have meta: "tb_meta tb' = Some meta"
  proof (cases "tb_meta tb")
    case None
    then have "br_focus ?cur = []" "br_halt ?cur = no_halt" "br_written_turn ?cur = 0" "br_written_at ?cur = 0"
      by (simp_all add: boardForAgent_def Let_def)
    then show ?thesis using mf(4,5,7,8) None
      by (simp add: tb' persistBoardTasks_def upsertBoardMetadata_def Let_def meta_def split: option.splits)
  next
    case (Some m0)
    then have "br_focus ?cur = bm_focus m0" "br_halt ?cur = bm_halt m0" "br_written_turn ?cur = bm_written_turn m0" "br_written_at ?cur = bm_written_at m0"
      by (simp_all add: boardForAgent_def Let_def)
    then show ?thesis using mf(4,5,7,8) Some
      by (simp add: tb' persistBoardTasks_def upsertBoardMetadata_def Let_def meta_def split: option.splits)
  qed
  have tasks: "map snd (sort_key task_order (tb_tasks tb')) = br_tasks row" by (simp add: pr(1) rows_of_def comp_def)
  have agent: "br_agent row = agent" using mf(3) by (simp add: boardForAgent_def Let_def)
  have read: "fst (boardForAgent agent tb') = row"
    by (cases row) (use agent tasks in \<open>simp add: boardForAgent_def Let_def meta meta_def\<close>)
  have rows: "set (tb_tasks tb') = set (rows_of (br_tasks row) positions')" "length (tb_tasks tb') = length (br_tasks row)"
    using pr(1) by (metis set_sort, metis tasks length_map length_sort)
  have q: "fst ` set (tb_tasks tb') \<subseteq> {0..MaxInt32}"
    using mf(1) pos_of_mem [of positions' "br_tasks row"] by (auto simp: rows rows_of_def merge_inv_def)
  have "distinct (map fst (sort_key task_order (tb_tasks tb')))"
    using mf(1) by (simp add: pr(1) rows_of_def comp_def merge_inv_def strict_sorted_iff)
  then have dq: "distinct (map fst (tb_tasks tb'))" by (metis mset_map mset_sort mset_eq_imp_distinct_iff)
  have keys: "set (row_keys (tb_tasks tb')) = bt_key ` set (br_tasks row)"
    using rows(1) by (simp add: row_keys_def image_image rows_of_def)
  have "br_written_turn row \<le> 2 ^ 63 - 1"
    using turn ok mf(7) by (auto simp: boardForAgent_def Let_def board_ok_def split: option.splits)
  then have "board_ok tb'"
    using pr(2) dq q rows mf(1,6) foc keys by (auto simp: board_ok_def meta meta_def merge_inv_def rows_of_def boardHasTask_iff)
  with read show ?thesis by simp
qed

lemma filter_task_get:
  "distinct (map bt_key tasks) \<Longrightarrow> filter (\<lambda>t. bt_key t = k) tasks = (case task_get tasks k of None \<Rightarrow> [] | Some t \<Rightarrow> [t])"
proof (induction tasks)
  case (Cons t tasks)
  have "filter (\<lambda>u. bt_key u = bt_key t) tasks = []" using Cons.prems by (auto simp: filter_empty_conv image_iff)
  with Cons show ?case by (auto simp: task_get_def)
qed (simp add: task_get_def)

section \<open>Eviction of subagents\<close>

lemma oldest_settled_spec:
  assumes "oldest_settled i oldest items = res"
    and "case oldest of None \<Rightarrow> True | Some (_, at) \<Rightarrow> \<forall>x \<in> set before. fst (subagentSettled x) \<longrightarrow> at \<le> snd (subagentSettled x)"
    and "oldest = None \<longrightarrow> (\<forall>x \<in> set before. \<not> fst (subagentSettled x))"
  shows "case res of None \<Rightarrow> \<forall>x \<in> set (before @ items). \<not> fst (subagentSettled x)
    | Some (k, at) \<Rightarrow> (oldest = Some (k, at) \<or> i \<le> k \<and> k < i + length items \<and> subagentSettled (items ! (k - i)) = (True, at))
        \<and> (\<forall>x \<in> set (before @ items). fst (subagentSettled x) \<longrightarrow> at \<le> snd (subagentSettled x))"
  using assms
proof (induction items arbitrary: i oldest before)
  case Nil
  then show ?case by (auto split: option.splits)
next
  case (Cons item items)
  obtain settled at where it: "subagentSettled item = (settled, at)" by fastforce
  define old' where "old' = (if settled \<and> (case oldest of None \<Rightarrow> True | Some (_, oldestAt) \<Rightarrow> at < oldestAt) then Some (i, at) else oldest)"
  have r: "oldest_settled (i + 1) old' items = res" using Cons.prems(1) by (simp add: it old'_def)
  have p1: "case old' of None \<Rightarrow> True | Some (_, at) \<Rightarrow> \<forall>x \<in> set (before @ [item]). fst (subagentSettled x) \<longrightarrow> at \<le> snd (subagentSettled x)"
    using Cons.prems(2,3) it by (fastforce simp: old'_def split: option.splits)
  have p2: "old' = None \<longrightarrow> (\<forall>x \<in> set (before @ [item]). \<not> fst (subagentSettled x))"
    using Cons.prems(3) it by (auto simp: old'_def split: option.splits if_splits)
  show ?case
  proof (cases res)
    case None
    then show ?thesis using Cons.IH [OF r p1 p2] by simp
  next
    case (Some ka)
    obtain k a where ka: "ka = (k, a)" by fastforce
    have "old' = Some (k, a) \<or> i + 1 \<le> k \<and> k < i + 1 + length items \<and> subagentSettled (items ! (k - (i + 1))) = (True, a)"
      and all: "\<forall>x \<in> set ((before @ [item]) @ items). fst (subagentSettled x) \<longrightarrow> a \<le> snd (subagentSettled x)"
      using Cons.IH [OF r p1 p2] by (simp_all add: Some ka)
    then have "oldest = Some (k, a) \<or> i \<le> k \<and> k < i + length (item # items) \<and> subagentSettled ((item # items) ! (k - i)) = (True, a)"
    proof (elim disjE)
      assume "old' = Some (k, a)"
      then show ?thesis using it by (auto simp: old'_def split: if_splits)
    next
      assume h: "i + 1 \<le> k \<and> k < i + 1 + length items \<and> subagentSettled (items ! (k - (i + 1))) = (True, a)"
      then have "k - i = Suc (k - (i + 1))" by arith
      then show ?thesis using h by simp
    qed
    then show ?thesis using all by (simp add: Some ka)
  qed
qed

lemma oldest_settled_props:
  "oldest_settled 0 None xs = None \<Longrightarrow> \<forall>x \<in> set xs. \<not> fst (subagentSettled x)"
  "oldest_settled 0 None xs = Some (k, at) \<Longrightarrow> k < length xs \<and> subagentSettled (xs ! k) = (True, at)
     \<and> (\<forall>x \<in> set xs. fst (subagentSettled x) \<longrightarrow> at \<le> snd (subagentSettled x))"
  using oldest_settled_spec [of 0 None xs _ "[]"] by fastforce+

lemma remove_at_mset: "k < length xs \<Longrightarrow> mset xs = add_mset (xs ! k) (mset (remove_at k xs))"
  by (metis remove_at_def id_take_nth_drop mset.simps(2) mset_append union_mset_add_mset_right add.commute Suc_eq_plus1)

definition settled_count :: "json list \<Rightarrow> nat" where
  "settled_count xs = length (filter (\<lambda>x. fst (subagentSettled x)) xs)"

section \<open>Properties\<close>

inductive board_reachable :: "AccountID \<Rightarrow> board_table \<Rightarrow> bool" for agent where
  board_init: "board_reachable agent no_board"
| board_step: "board_reachable agent tb \<Longrightarrow> board_reachable agent (fst (ApplyBoardPatch known agent p tb))"

lemma ApplyBoardPatch_Inl: "ApplyBoardPatch known agent p tb = (tb', Inl e) \<Longrightarrow> tb' = tb"
  by (auto simp: ApplyBoardPatch_def case_prod_beta Let_def split: if_splits sum.splits)

lemma board_reachable_ok: "board_reachable agent tb \<Longrightarrow> board_ok tb"
proof (induction rule: board_reachable.induct)
  case board_init
  show ?case by (simp add: board_ok_def no_board_def)
next
  case (board_step tb known p)
  obtain tb' r where a: "ApplyBoardPatch known agent p tb = (tb', r)" by fastforce
  show ?case
  proof (cases r)
    case (Inl e)
    then show ?thesis using ApplyBoardPatch_Inl [of known agent p tb tb' e] a board_step.IH by simp
  next
    case (Inr row)
    then show ?thesis using apply_board_patch_ok [OF board_step.IH] a by simp
  qed
qed

lemma validateWaiting_Inr: "validateWaiting w = Inr w' \<Longrightarrow> \<exists>ws. w = Some (JArr ws) \<and> length ws \<le> MaxBoardWaiting"
  by (cases w rule: unmarshal_slice.cases) (auto simp: validateWaiting_def)

lemma validateSubagents_Inr: "validateSubagents w c = Inr ss \<Longrightarrow> w = Some (JArr ss)"
  by (cases w rule: unmarshal_slice.cases) (auto simp: validateSubagents_def)

lemma validateTask_bounds:
  assumes "validateTask t = Inr ()"
  shows "bt_title t \<noteq> [] \<and> RuneCountInString (bt_key t) \<le> 64 \<and> RuneCountInString (bt_title t) \<le> 120 \<and> RuneCountInString (bt_note t) \<le> 500
    \<and> length (bt_refs t) \<le> 10 \<and> 1 \<le> bt_state t \<and> bt_state t \<le> 5
    \<and> (\<exists>ws. bt_waiting t = Some (JArr ws) \<and> length ws \<le> 5) \<and> (\<exists>ss. bt_subagents t = Some (JArr ss) \<and> length ss \<le> 20)"
proof -
  obtain w' ss where w: "validateWaiting (bt_waiting t) = Inr w'" and ss: "validateSubagents (bt_subagents t) False = Inr ss" "length ss \<le> MaxBoardSubagents"
    and r: "bt_title t \<noteq> []" "RuneCountInString (bt_key t) \<le> 64" "RuneCountInString (bt_title t) \<le> 120" "RuneCountInString (bt_note t) \<le> 500"
      "length (bt_refs t) \<le> 10" "1 \<le> bt_state t" "bt_state t \<le> 5"
    using assms by (auto simp: validateTask_def validateBoardTaskKey_def validateBoardString_def board_limits)
  show ?thesis using validateWaiting_Inr [OF w] validateSubagents_Inr [OF ss(1)] ss(2) r by (auto simp: board_limits)
qed


definition demo_task_patch :: BoardTaskPatch where
  "demo_task_patch = \<lparr>tp_key = ''k'', tp_title = Some ''Ship it'', tp_primary_ref = None, tp_note = None, tp_state = Some 2,
     tp_refs = Some [''a/b#1''], tp_waiting = None, tp_upsert_subagents = None\<rparr>"

definition demo_patch :: BoardPatch where
  "demo_patch = \<lparr>bp_upsert = [demo_task_patch], bp_remove = [], bp_focus = Some ''k'', bp_halt = None, bp_clear_halt = False,
     bp_turn = 3, bp_automatic = False, bp_now = 50\<rparr>"

definition demo_board_row :: BoardRow where
  "demo_board_row = \<lparr>br_agent = ''bob'', br_focus = ''k'', br_halt = no_halt, br_written_turn = 3, br_written_at = 50,
     br_tasks = [\<lparr>bt_key = ''k'', bt_title = ''Ship it'', bt_primary_ref = [], bt_note = [], bt_refs = [''a/b#1''], bt_state = 2,
       bt_waiting = Some (JArr []), bt_subagents = Some (JArr []), bt_written_at = 50\<rparr>]\<rparr>"

lemma demo_board: "snd (ApplyBoardPatch True ''bob'' demo_patch no_board) = Inr demo_board_row"
  by (simp add: demo_patch_def demo_task_patch_def demo_board_row_def no_board_def ApplyBoardPatch_def boardForAgent_def Let_def emptyBoardPatch_def
      mergeBoardPatch_def andThen_def validateHalt_def no_halt_def ensure_def validateBoardNoNUL_def validateBoardString_def eachE_def
      removeBoardTasks_def upsert_task_def validateBoardTaskKey_def board_limits RuneCount_ascii byte_in_def nextBoardPosition_def MaxInt32_def
      applyTaskPatch_def new_task_def opt_set_def validateTask_def validateWaiting_def validateSubagents_def applyBoardHalt_def boardHasTask_def)


text \<open>C26: the bounds of a stored board. After any history of patches a board has at most thirty tasks with distinct
  keys, its focus names one of them, its halt kind is one of the four, and every task has a title and keeps
  within the limits on characters, references, states, waiting entries and subagents.\<close>

theorem board_bounds:
  assumes "board_reachable agent tb"
  shows "case fst (boardForAgent agent tb) of row \<Rightarrow>
    length (br_tasks row) \<le> 30 \<and> distinct (map bt_key (br_tasks row))
    \<and> (br_focus row = [] \<or> boardHasTask (br_tasks row) (br_focus row)) \<and> ha_kind (br_halt row) \<in> {0..3}
    \<and> list_all (\<lambda>t. bt_key t \<noteq> [] \<and> bt_title t \<noteq> [] \<and> RuneCountInString (bt_key t) \<le> 64 \<and> RuneCountInString (bt_title t) \<le> 120
        \<and> RuneCountInString (bt_note t) \<le> 500 \<and> length (bt_refs t) \<le> 10 \<and> 1 \<le> bt_state t \<and> bt_state t \<le> 5
        \<and> (\<exists>ws. bt_waiting t = Some (JArr ws) \<and> length ws \<le> 5) \<and> (\<exists>ss. bt_subagents t = Some (JArr ss) \<and> length ss \<le> 20)) (br_tasks row)"
proof -
  let ?row = "fst (boardForAgent agent tb)"
  have ok: "board_ok tb" by (rule board_reachable_ok [OF assms])
  have tasks: "br_tasks ?row = map snd (sorted_rows tb)" by (simp add: boardForAgent_def Let_def sorted_rows_def)
  have inv: "merge_inv (br_tasks ?row, row_positions (sorted_rows tb))" unfolding tasks by (rule read_inv [OF ok])
  have keys: "bt_key ` set (br_tasks ?row) = set (row_keys (tb_tasks tb))" by (simp add: tasks sorted_rows_def row_keys_def image_image)
  have "br_focus ?row = [] \<or> boardHasTask (br_tasks ?row) (br_focus ?row)"
    using ok keys by (auto simp: board_ok_def boardForAgent_def Let_def boardHasTask_iff split: option.splits)
  moreover have "ha_kind (br_halt ?row) \<in> {0..3}"
    using ok by (auto simp: board_ok_def boardForAgent_def Let_def validateHalt_def no_halt_def split: option.splits)
  moreover have "list_all (\<lambda>t. bt_key t \<noteq> [] \<and> validateTask t = Inr ()) (br_tasks ?row)"
    using inv by (auto simp: merge_inv_def task_ok_def list_all_iff)
  moreover have "length (br_tasks ?row) \<le> 30" "distinct (map bt_key (br_tasks ?row))" using inv by (simp_all add: merge_inv_def MaxBoardTasks_def)
  ultimately show ?thesis using validateTask_bounds by (simp add: list_all_iff)
qed

theorem board_bounds_witness:
  "length (br_tasks (fst (boardForAgent ''bob'' (fst (ApplyBoardPatch True ''bob'' demo_patch no_board))))) \<le> 30"
  using board_bounds [OF board_step [OF board_init, of "''bob''" True demo_patch]] by simp

text \<open>A patch touches only what it names. A task the patch neither upserts nor removes keeps every field; a
  removed task that is not upserted again is gone; an upserted task is on the board; focus, halt and the
  writing turn change only as the patch says, and an automatic patch keeps the turn and its time.\<close>

theorem patch_touches_only_named:
  assumes "board_reachable agent tb" and "ApplyBoardPatch known agent p tb = (tb', Inr row)"
  shows "(\<forall>k. if k \<in> tp_key ` set (bp_upsert p) then boardHasTask (br_tasks row) k
        else if k \<in> set (bp_remove p) then \<not> boardHasTask (br_tasks row) k
        else filter (\<lambda>t. bt_key t = k) (br_tasks row) = filter (\<lambda>t. bt_key t = k) (br_tasks (fst (boardForAgent agent tb))))
    \<and> br_focus row = (case bp_focus p of Some f \<Rightarrow> f
        | None \<Rightarrow> if br_focus (fst (boardForAgent agent tb)) \<in> set (bp_remove p) then [] else br_focus (fst (boardForAgent agent tb)))
    \<and> br_halt row = (if bp_clear_halt p then no_halt else case bp_halt p of Some h \<Rightarrow> h | None \<Rightarrow> br_halt (fst (boardForAgent agent tb)))
    \<and> (bp_automatic p \<longrightarrow> br_written_turn row = br_written_turn (fst (boardForAgent agent tb))
        \<and> br_written_at row = br_written_at (fst (boardForAgent agent tb)))"
proof -
  let ?cur = "fst (boardForAgent agent tb)" and ?ps = "snd (boardForAgent agent tb)"
  have inv: "merge_inv (br_tasks ?cur, ?ps)"
    using read_inv [OF board_reachable_ok [OF assms(1)]] by (simp add: boardForAgent_def Let_def sorted_rows_def row_positions_def)
  show ?thesis
  proof (cases "bp_automatic p \<and> emptyBoardPatch p")
    case True
    then have "row = ?cur" using assms(2) by (auto simp: ApplyBoardPatch_def case_prod_beta Let_def split: if_splits)
    then show ?thesis using True by (simp add: emptyBoardPatch_def)
  next
    case False
    obtain positions' where m: "mergeBoardPatch ?cur ?ps p = Inr (row, positions')"
      using ApplyBoardPatch_Inr [OF assms(2) False] by blast
    note mf = merge_frame [OF m inv]
    have d: "distinct (map bt_key (br_tasks row))" "distinct (map bt_key (br_tasks ?cur))" using mf(1) inv by (simp_all add: merge_inv_def)
    have "if k \<in> tp_key ` set (bp_upsert p) then boardHasTask (br_tasks row) k
        else if k \<in> set (bp_remove p) then \<not> boardHasTask (br_tasks row) k
        else filter (\<lambda>t. bt_key t = k) (br_tasks row) = filter (\<lambda>t. bt_key t = k) (br_tasks ?cur)" for k
      using mf(2) [of k] by (auto simp: boardHasTask_iff task_get_None filter_task_get [OF d(1)] filter_task_get [OF d(2)])
    then show ?thesis using mf(4,5,7,8) by simp
  qed
qed

theorem patch_touches_only_named_witness:
  "boardHasTask (br_tasks demo_board_row) ''k'' \<and> br_focus demo_board_row = ''k''"
proof -
  have "ApplyBoardPatch True ''bob'' demo_patch no_board = (fst (ApplyBoardPatch True ''bob'' demo_patch no_board), Inr demo_board_row)"
    using demo_board by (metis prod.collapse)
  from patch_touches_only_named [OF board_init this] show ?thesis
    by (simp add: demo_patch_def demo_task_patch_def)
qed

text \<open>What an eviction of subagents has to have done, as a predicate on its result.\<close>

definition evicted :: "json list \<Rightarrow> board_error + json list \<Rightarrow> bool" where
  "evicted xs r = (case r of
     Inl e \<Rightarrow> e = EInvalid Unsettled \<and> 20 < length xs - settled_count xs
   | Inr ys \<Rightarrow> length xs - settled_count xs \<le> 20 \<and> length ys = min (length xs) 20
       \<and> (\<exists>dropped. mset xs = mset ys + mset dropped \<and> (\<forall>d \<in> set dropped. fst (subagentSettled d)
            \<and> (\<forall>y \<in> set ys. fst (subagentSettled y) \<longrightarrow> snd (subagentSettled d) \<le> snd (subagentSettled y)))))"

lemma evicted_round:
  assumes o: "oldest_settled 0 None xs = Some (k, at)" and big: "20 < length xs" and IH: "evicted (remove_at k xs) r"
  shows "evicted xs r"
proof -
  let ?zs = "remove_at k xs"
  note o' = oldest_settled_props(2) [OF o]
  have m: "mset xs = add_mset (xs ! k) (mset ?zs)" using o' by (simp add: remove_at_mset)
  have len: "length xs = Suc (length ?zs)" using arg_cong [OF m, of size] by simp
  have cnt: "settled_count xs = Suc (settled_count ?zs)"
    using arg_cong [OF m, of "\<lambda>M. size (filter_mset (\<lambda>x. fst (subagentSettled x)) M)"] o'
    by (simp add: settled_count_def flip: mset_filter)
  show ?thesis
  proof (cases r)
    case (Inl e)
    then show ?thesis using IH len cnt by (simp add: evicted_def)
  next
    case (Inr ys)
    then obtain dropped where d: "mset ?zs = mset ys + mset dropped" "\<forall>d \<in> set dropped. fst (subagentSettled d)
        \<and> (\<forall>y \<in> set ys. fst (subagentSettled y) \<longrightarrow> snd (subagentSettled d) \<le> snd (subagentSettled y))"
      and l: "length ?zs - settled_count ?zs \<le> 20" "length ys = min (length ?zs) 20" using IH by (auto simp: evicted_def)
    have "set ys \<subseteq> set xs" using m d(1) by (metis UnI1 insertI2 set_mset_add_mset_insert set_mset_mset set_mset_union subsetI)
    then have "\<forall>d \<in> set (xs ! k # dropped). fst (subagentSettled d)
        \<and> (\<forall>y \<in> set ys. fst (subagentSettled y) \<longrightarrow> snd (subagentSettled d) \<le> snd (subagentSettled y))"
      using d(2) o' by auto
    moreover have "mset xs = mset ys + mset (xs ! k # dropped)" using m d(1) by simp
    moreover have "length ys = min (length xs) 20" using l(2) big len by simp
    ultimately show ?thesis unfolding evicted_def Inr sum.case using l(1) len cnt
      by (intro conjI exI [of _ "xs ! k # dropped"]) simp_all
  qed
qed

lemma trim_evicted: "evicted xs (trim_subagents xs)"
proof (induction xs rule: trim_subagents.induct)
  case (1 xs)
  show ?case
  proof (cases "length xs \<le> MaxBoardSubagents")
    case True
    then show ?thesis by (simp add: trim_subagents.simps [of xs] MaxBoardSubagents_def evicted_def)
  next
    case big: False
    show ?thesis
    proof (cases "oldest_settled 0 None xs")
      case None
      then have "settled_count xs = 0" using oldest_settled_props(1) [OF None] by (simp add: settled_count_def)
      then show ?thesis using None big by (simp add: trim_subagents.simps [of xs] MaxBoardSubagents_def evicted_def)
    next
      case (Some ka)
      obtain k at where ka: "ka = (k, at)" by fastforce
      have "evicted (remove_at k xs) (trim_subagents (remove_at k xs))" using 1 big Some ka by simp
      from evicted_round [OF Some [unfolded ka] _ this] show ?thesis
        using big Some ka by (simp add: trim_subagents.simps [of xs] MaxBoardSubagents_def)
    qed
  qed
qed

text \<open>The eviction of subagents. When a task has more than twenty subagents, exactly the excess is dropped:
  only settled ones, each started no later than every settled one that stays; the update is refused exactly
  when more than twenty are unsettled.\<close>

theorem trim_evicts_oldest:
  "case trim_subagents xs of
     Inl e \<Rightarrow> e = EInvalid Unsettled \<and> 20 < length xs - settled_count xs
   | Inr ys \<Rightarrow> length xs - settled_count xs \<le> 20 \<and> length ys = min (length xs) 20
       \<and> (\<exists>dropped. mset xs = mset ys + mset dropped \<and> (\<forall>d \<in> set dropped. fst (subagentSettled d)
            \<and> (\<forall>y \<in> set ys. fst (subagentSettled y) \<longrightarrow> snd (subagentSettled d) \<le> snd (subagentSettled y))))"
  using trim_evicted [of xs] by (simp add: evicted_def)

theorem trim_evicts_oldest_witness:
  "case trim_subagents (JObj [(''status'', JStr ''failed'')] # replicate 20 (JObj [])) of
     Inl e \<Rightarrow> False | Inr ys \<Rightarrow> length ys = 20"
proof -
  let ?xs = "JObj [(''status'', JStr ''failed'')] # replicate 20 (JObj [])"
  have "20 \<ge> length ?xs - settled_count ?xs" by code_simp
  with trim_evicts_oldest [of ?xs] show ?thesis by (auto split: sum.splits)
qed

end
