(* ===== verification/Board_Stack.thy ===== *)
theory Board_Stack
  imports Board_Gate
begin

text \<open>
  Stacks of pull requests, \<open>src/go/internal/board/stack.go\<close>: \<open>StackOf\<close> follows the base branch of every
  open pull request to the head branch of another one of the same repository, and gives each its
  position above the root of its stack and the tip the stack ends in.

  The code compares pull requests as pointers; an item pairs a pull request with its index in the list of
  its repository. A wire number is a \<open>nat\<close> below \<open>2^32\<close>. Go iterates the repositories in any order; the
  model takes the order of their first pull request, and the keys of different repositories differ.
\<close>

section \<open>Model\<close>

record Stack =
  st_position :: nat
  st_tip :: string

definition stackPosition :: "nat \<Rightarrow> nat" where
  "stackPosition len = (if 2 ^ 32 - 1 < len then 2 ^ 32 - 1 else len)"

definition boardRefKey :: "string \<Rightarrow> nat \<Rightarrow> string" where
  "boardRefKey repo n = repo @ ''#'' @ FormatUint n"

type_synonym stack_item = "nat \<times> pull_request"

definition item_number :: "stack_item \<Rightarrow> nat" where
  "item_number it = pr_number (snd it)"

definition head_index :: "stack_item list \<Rightarrow> (string, stack_item) gomap" where
  "head_index items = fold (\<lambda>it byHead. gm_put (pr_head_ref (snd it)) it byHead) items []"

definition stack_children :: "string \<Rightarrow> stack_item list \<Rightarrow> (string, stack_item list) gomap" where
  "stack_children repo items = fold (\<lambda>it children.
     case gm_get (head_index items) (pr_base_ref (snd it)) of None \<Rightarrow> children
     | Some parent \<Rightarrow>
         if fst parent = fst it then children
         else let parentKey = boardRefKey repo (item_number parent)
              in gm_put parentKey (gm_getz [] children parentKey @ [it]) children) items []"

definition stack_tips :: "string \<Rightarrow> stack_item list \<Rightarrow> stack_item list" where
  "stack_tips repo items = sort_key (\<lambda>it. boardRefKey repo (item_number it))
     (filter (\<lambda>it. gm_getz [] (stack_children repo items) (boardRefKey repo (item_number it)) = []) items)"

lemma chain_measure:
  assumes "gm_get byHead k = Some nx" and "item_number cur \<notin> set seen"
  shows "card (insert (item_number nx) (item_number ` snd ` set byHead) - set (item_number cur # seen))
    < card (insert (item_number cur) (item_number ` snd ` set byHead) - set seen)"
proof -
  have "item_number nx \<in> item_number ` snd ` set byHead" using map_of_SomeD [OF assms(1)] by force
  then show ?thesis using assms(2) by (intro psubset_card_mono) auto
qed

text \<open>The walk from a pull request down its bases; \<open>seen\<close> are the numbers it passed.\<close>

function chain_from :: "(string, stack_item) gomap \<Rightarrow> nat list \<Rightarrow> stack_item \<Rightarrow> stack_item list" where
  "chain_from byHead seen cur =
    (if item_number cur \<in> set seen then []
     else cur # (case gm_get byHead (pr_base_ref (snd cur)) of None \<Rightarrow> []
       | Some nx \<Rightarrow> chain_from byHead (item_number cur # seen) nx))"
  by pat_completeness auto

termination
  by (relation "measure (\<lambda>(byHead, seen, cur). card (insert (item_number cur) (item_number ` snd ` set byHead) - set seen))")
    (use chain_measure in auto)

declare chain_from.simps [simp del]

text \<open>The assignment loop over one chain, from the root up.\<close>

definition assign_chain :: "string \<Rightarrow> stack_item list \<Rightarrow> stack_item \<Rightarrow> (string, Stack) gomap \<Rightarrow> (string, Stack) gomap" where
  "assign_chain repo chain tip out = fold (\<lambda>(i, it) out.
     let key = boardRefKey repo (item_number it)
     in case gm_get out key of Some _ \<Rightarrow> out
        | None \<Rightarrow> gm_put key \<lparr>st_position = stackPosition (length chain - i), st_tip = boardRefKey repo (item_number tip)\<rparr> out)
     (rev (List.enumerate 0 chain)) out"

definition repo_stacks :: "string \<Rightarrow> pull_request list \<Rightarrow> (string, Stack) gomap \<Rightarrow> (string, Stack) gomap" where
  "repo_stacks repo prs out =
    (let items = List.enumerate 0 prs
     in fold (\<lambda>tip out. assign_chain repo (chain_from (head_index items) [] tip) tip out) (stack_tips repo items) out)"

definition stackable :: "pull_request option \<Rightarrow> bool" where
  "stackable p = (case p of None \<Rightarrow> False | Some pr \<Rightarrow> \<not> (pr_forge_state pr \<noteq> ''open'' \<or> pr_repo pr = [] \<or> pr_number pr = 0))"

definition by_repo :: "pull_request option list \<Rightarrow> (string, pull_request list) gomap" where
  "by_repo open = fold (\<lambda>p m. if stackable p then
      (let repo = ToLower (pr_repo (the p)) in gm_put repo (gm_getz [] m repo @ [the p]) m) else m) open []"

definition StackOf :: "pull_request option list \<Rightarrow> (string, Stack) gomap" where
  "StackOf open = fold (\<lambda>(repo, prs) out. repo_stacks repo prs out) (by_repo open) []"

section \<open>Lookups in the result\<close>

fun first_some :: "('a \<Rightarrow> 'b option) \<Rightarrow> 'a list \<Rightarrow> 'b option" where
  "first_some f [] = None"
| "first_some f (x # xs) = (case f x of Some y \<Rightarrow> Some y | None \<Rightarrow> first_some f xs)"

lemma first_some_None: "first_some f xs = None \<longleftrightarrow> (\<forall>x \<in> set xs. f x = None)"
  by (induction xs) (auto split: option.split)

lemma first_some_append: "first_some f (xs @ ys) = (case first_some f xs of Some y \<Rightarrow> Some y | None \<Rightarrow> first_some f ys)"
  by (induction xs) (auto split: option.split)

lemma first_some_Some: "first_some f xs = Some y \<Longrightarrow> \<exists>l1 x l2. xs = l1 @ x # l2 \<and> f x = Some y \<and> (\<forall>z \<in> set l1. f z = None)"
proof (induction xs)
  case (Cons a xs)
  show ?case
  proof (cases "f a")
    case None
    then obtain l1 x l2 where "xs = l1 @ x # l2" "f x = Some y" "\<forall>z \<in> set l1. f z = None" using Cons by auto
    then have "a # xs = (a # l1) @ x # l2 \<and> f x = Some y \<and> (\<forall>z \<in> set (a # l1). f z = None)" using None by simp
    then show ?thesis by blast
  next
    case (Some z)
    then have "a # xs = [] @ a # xs \<and> f a = Some y \<and> (\<forall>z \<in> set []. f z = None)" using Cons.prems by simp
    then show ?thesis by blast
  qed
qed simp

text \<open>A loop that only fills missing keys takes the first value its elements offer.\<close>

lemma fold_first:
  assumes "\<And>x out. x \<in> set xs \<Longrightarrow> gm_get (g x out) k = (case gm_get out k of Some s \<Rightarrow> Some s | None \<Rightarrow> f x)"
  shows "gm_get (fold g xs out) k = (case gm_get out k of Some s \<Rightarrow> Some s | None \<Rightarrow> first_some f xs)"
  using assms by (induction xs arbitrary: out) (auto split: option.splits)

definition chain_entry :: "string \<Rightarrow> stack_item list \<Rightarrow> stack_item \<Rightarrow> string \<Rightarrow> nat \<times> stack_item \<Rightarrow> Stack option" where
  "chain_entry repo chain tip k e = (if boardRefKey repo (item_number (snd e)) = k
     then Some \<lparr>st_position = stackPosition (length chain - fst e), st_tip = boardRefKey repo (item_number tip)\<rparr> else None)"

definition chain_stack :: "string \<Rightarrow> stack_item list \<Rightarrow> stack_item \<Rightarrow> string \<Rightarrow> Stack option" where
  "chain_stack repo chain tip k = first_some (chain_entry repo chain tip k) (rev (List.enumerate 0 chain))"

definition repo_stack :: "string \<Rightarrow> pull_request list \<Rightarrow> string \<Rightarrow> Stack option" where
  "repo_stack repo prs k = (let items = List.enumerate 0 prs
     in first_some (\<lambda>tip. chain_stack repo (chain_from (head_index items) [] tip) tip k) (stack_tips repo items))"

lemma assign_chain_get:
  "gm_get (assign_chain repo chain tip out) k = (case gm_get out k of Some s \<Rightarrow> Some s | None \<Rightarrow> chain_stack repo chain tip k)"
  unfolding assign_chain_def chain_stack_def
  by (rule fold_first) (auto simp: chain_entry_def Let_def split: option.split)

lemma repo_stacks_get:
  "gm_get (repo_stacks repo prs out) k = (case gm_get out k of Some s \<Rightarrow> Some s | None \<Rightarrow> repo_stack repo prs k)"
  unfolding repo_stacks_def repo_stack_def Let_def by (rule fold_first) (rule assign_chain_get)

lemma StackOf_get: "gm_get (StackOf open) k = first_some (\<lambda>(repo, prs). repo_stack repo prs k) (by_repo open)"
proof -
  have "gm_get (fold (\<lambda>(repo, prs) out. repo_stacks repo prs out) (by_repo open) []) k
    = (case gm_get [] k of Some s \<Rightarrow> Some s | None \<Rightarrow> first_some (\<lambda>(repo, prs). repo_stack repo prs k) (by_repo open))"
    by (rule fold_first) (auto simp: repo_stacks_get)
  then show ?thesis by (simp add: StackOf_def)
qed

lemma boardRefKey_inj: "boardRefKey r n = boardRefKey r' n' \<longleftrightarrow> r = r' \<and> n = n'"
proof
  assume h: "boardRefKey r n = boardRefKey r' n'"
  have tw: "takeWhile is_digit_byte (rev (boardRefKey q m)) = rev (FormatUint m)" for q m
  proof -
    have "rev (boardRefKey q m) = rev (FormatUint m) @ CHR ''#'' # rev q" by (simp add: boardRefKey_def)
    moreover have "\<not> is_digit_byte CHR ''#''" by (simp add: is_digit_byte_def)
    moreover have "list_all is_digit_byte (rev (FormatUint m))" using FormatUint_digits by simp
    ultimately show ?thesis by (simp add: takeWhile_append_stop)
  qed
  have "FormatUint n = FormatUint n'" using tw [of r n] tw [of r' n'] h by simp
  then have "n = n'" by (metis digits_value_FormatUint)
  with h show "r = r' \<and> n = n'" by (simp add: boardRefKey_def)
qed simp

text \<open>The open pull requests of one repository.\<close>

definition repo_group :: "pull_request option list \<Rightarrow> string \<Rightarrow> pull_request list" where
  "repo_group open repo = map the (filter (\<lambda>p. stackable p \<and> ToLower (pr_repo (the p)) = repo) open)"

lemma by_repo_props:
  "gm_wf (by_repo open)" "gm_get (by_repo open) repo = (if repo_group open repo = [] then None else Some (repo_group open repo))"
proof -
  have "gm_wf (by_repo open) \<and> gm_get (by_repo open) repo = (if repo_group open repo = [] then None else Some (repo_group open repo))"
  proof (induction "open" rule: rev_induct)
    case (snoc p ps)
    have "by_repo (ps @ [p]) = (if stackable p then
        (let r = ToLower (pr_repo (the p)) in gm_put r (gm_getz [] (by_repo ps) r @ [the p]) (by_repo ps)) else by_repo ps)"
      by (simp add: by_repo_def)
    with snoc show ?case by (auto simp: Let_def repo_group_def gm_getz_def)
  qed (simp add: by_repo_def repo_group_def)
  then show "gm_wf (by_repo open)" "gm_get (by_repo open) repo = (if repo_group open repo = [] then None else Some (repo_group open repo))"
    by blast+
qed

lemma repo_stack_other: "repo \<noteq> repo' \<Longrightarrow> repo_stack repo' prs (boardRefKey repo n) = None"
  by (simp add: repo_stack_def Let_def chain_stack_def first_some_None chain_entry_def boardRefKey_inj)

lemma other_repos: "repo \<notin> fst ` set l \<Longrightarrow> first_some (\<lambda>(r, prs). repo_stack r prs (boardRefKey repo n)) l = None"
  by (induction l) (auto simp: repo_stack_other)

lemma StackOf_repo: "gm_get (StackOf open) (boardRefKey repo n) = repo_stack repo (repo_group open repo) (boardRefKey repo n)"
proof (cases "repo_group open repo = []")
  case True
  then have "repo \<notin> fst ` set (by_repo open)" using by_repo_props(2) [of "open" repo] by (simp add: map_of_eq_None_iff)
  then have "first_some (\<lambda>(r, prs). repo_stack r prs (boardRefKey repo n)) (by_repo open) = None"
    by (rule other_repos)
  with True show ?thesis by (simp add: StackOf_get) (simp add: repo_stack_def stack_tips_def)
next
  case False
  then have "(repo, repo_group open repo) \<in> set (by_repo open)" using by_repo_props(2) [of "open" repo] by (simp add: map_of_SomeD)
  then obtain l1 l2 where l: "by_repo open = l1 @ (repo, repo_group open repo) # l2" by (auto dest: split_list)
  have d: "repo \<notin> fst ` set l1" "repo \<notin> fst ` set l2" using by_repo_props(1) [of "open"] by (auto simp: l gm_wf_def)
  then have "first_some (\<lambda>(r, prs). repo_stack r prs (boardRefKey repo n)) l1 = None"
    "first_some (\<lambda>(r, prs). repo_stack r prs (boardRefKey repo n)) l2 = None"
    by (simp_all add: other_repos)
  then show ?thesis by (simp add: StackOf_get l first_some_append split: option.split)
qed

section \<open>Paths to the root\<close>

text \<open>The declarative reading of a stack: from a pull request through the one its base names, down to one
  whose base is no head of the repository.\<close>

inductive base_path :: "(string, stack_item) gomap \<Rightarrow> stack_item \<Rightarrow> stack_item list \<Rightarrow> bool" for byHead where
  base_root: "gm_get byHead (pr_base_ref (snd it)) = None \<Longrightarrow> base_path byHead it [it]"
| base_up: "gm_get byHead (pr_base_ref (snd it)) = Some parent \<Longrightarrow> base_path byHead parent path \<Longrightarrow> base_path byHead it (it # path)"

inductive_cases base_path_elim: "base_path byHead it path"

lemma base_path_hd: "base_path byHead it path \<Longrightarrow> \<exists>path'. path = it # path'"
  by (erule base_path_elim) auto

lemma base_path_unique: "base_path byHead it p \<Longrightarrow> base_path byHead it q \<Longrightarrow> p = q"
proof (induction arbitrary: q rule: base_path.induct)
  case (base_root it)
  from base_root(2,1) show ?case by (cases rule: base_path.cases) auto
next
  case (base_up it parent path)
  from base_up(4,1,3) show ?case by (cases rule: base_path.cases) auto
qed

lemma base_path_suffix: "base_path byHead it path \<Longrightarrow> path = pre @ x # post \<Longrightarrow> base_path byHead x (x # post)"
proof (induction arbitrary: pre rule: base_path.induct)
  case (base_root it)
  then show ?case by (cases pre) (auto intro: base_path.base_root)
next
  case (base_up it parent path)
  then show ?case by (cases pre) (auto intro: base_path.base_up)
qed

lemma base_path_distinct:
  assumes "base_path byHead it path"
  shows "distinct path"
proof (rule ccontr)
  assume "\<not> distinct path"
  then obtain a x b c where p: "path = a @ x # b @ x # c" using not_distinct_decomp by force
  have "base_path byHead x (x # b @ x # c)" by (rule base_path_suffix [OF assms p])
  moreover have "base_path byHead x (x # c)" by (rule base_path_suffix [OF assms, of "a @ x # b"]) (simp add: p)
  ultimately show False using base_path_unique by fastforce
qed

lemma base_path_items: "base_path byHead it path \<Longrightarrow> set path \<subseteq> insert it (snd ` set byHead)"
proof (induction rule: base_path.induct)
  case (base_up it parent path)
  have "parent \<in> snd ` set byHead" using map_of_SomeD [OF base_up(1)] by force
  with base_up show ?case by auto
qed simp

text \<open>On such a path the walk of the code is the path.\<close>

lemma chain_from_path:
  assumes "base_path byHead it path" and "distinct (map item_number path)" and "item_number ` set path \<inter> set seen = {}"
  shows "chain_from byHead seen it = path"
  using assms
proof (induction arbitrary: seen rule: base_path.induct)
  case (base_root it)
  then show ?case by (simp add: chain_from.simps [of byHead seen it])
next
  case (base_up it parent path)
  have "chain_from byHead (item_number it # seen) parent = path" using base_up.prems by (intro base_up.IH) auto
  then show ?case using base_up.prems base_up.hyps by (simp add: chain_from.simps [of byHead seen it])
qed

lemma chain_from_reaches:
  assumes "x \<in> set (chain_from byHead seen it)" and "base_path byHead x path"
  shows "\<exists>pre. base_path byHead it (pre @ path)"
  using assms
proof (induction byHead seen it rule: chain_from.induct)
  case (1 byHead seen cur)
  have notin: "item_number cur \<notin> set seen" using 1(2) by (auto simp: chain_from.simps [of byHead seen cur])
  show ?case
  proof (cases "x = cur")
    case True
    then show ?thesis using 1(3) by (intro exI [of _ "[]"]) simp
  next
    case False
    then obtain nx where nx: "gm_get byHead (pr_base_ref (snd cur)) = Some nx" "x \<in> set (chain_from byHead (item_number cur # seen) nx)"
      using 1(2) notin by (cases "gm_get byHead (pr_base_ref (snd cur))") (simp_all add: chain_from.simps [of byHead seen cur])
    then obtain pre where "base_path byHead nx (pre @ path)" using 1(1) [OF notin nx(1) nx(2) 1(3)] by blast
    then have "base_path byHead cur ((cur # pre) @ path)" using base_up [OF nx(1)] by simp
    then show ?thesis by blast
  qed
qed

section \<open>Positions\<close>

text \<open>The items of a repository group with distinct numbers.\<close>

definition stack_group :: "stack_item list \<Rightarrow> bool" where
  "stack_group items \<longleftrightarrow> distinct (map fst items) \<and> distinct (map item_number items)"

lemma group_inj: "stack_group items \<Longrightarrow> x \<in> set items \<Longrightarrow> y \<in> set items \<Longrightarrow> item_number x = item_number y \<Longrightarrow> x = y"
  by (auto simp: stack_group_def distinct_map inj_on_def)

lemma group_fst_inj: "stack_group items \<Longrightarrow> x \<in> set items \<Longrightarrow> y \<in> set items \<Longrightarrow> fst x = fst y \<Longrightarrow> x = y"
  by (auto simp: stack_group_def distinct_map inj_on_def)

lemma head_index_get: "gm_get (head_index items) h = Some it \<Longrightarrow> it \<in> set items \<and> pr_head_ref (snd it) = h"
proof (induction items rule: rev_induct)
  case (snoc x xs)
  then show ?case by (auto simp: head_index_def split: if_splits)
qed (simp add: head_index_def)

lemma head_index_range: "snd ` set (head_index items) \<subseteq> set items"
proof -
  have wf: "gm_wf (head_index items)"
    by (induction items rule: rev_induct) (auto simp: head_index_def)
  show ?thesis using head_index_get gm_entry_iff [OF wf] by fastforce
qed

text \<open>Whether a pull request has another one on top.\<close>

lemma children_nonempty:
  "gm_getz [] (stack_children repo items) (boardRefKey repo n) \<noteq> [] \<longleftrightarrow>
    (\<exists>it \<in> set items. \<exists>parent. gm_get (head_index items) (pr_base_ref (snd it)) = Some parent \<and> fst parent \<noteq> fst it \<and> item_number parent = n)"
proof -
  define step where "step = (\<lambda>(it :: stack_item) (children :: (string, stack_item list) gomap).
     case gm_get (head_index items) (pr_base_ref (snd it)) of None \<Rightarrow> children
     | Some parent \<Rightarrow>
         if fst parent = fst it then children
         else let parentKey = boardRefKey repo (item_number parent)
              in gm_put parentKey (gm_getz [] children parentKey @ [it]) children)"
  define above where "above = (\<lambda>(it :: stack_item). \<exists>parent. gm_get (head_index items) (pr_base_ref (snd it)) = Some parent
     \<and> fst parent \<noteq> fst it \<and> item_number parent = n)"
  have one: "gm_getz [] (step it ch) (boardRefKey repo n) = [] \<longleftrightarrow> gm_getz [] ch (boardRefKey repo n) = [] \<and> \<not> above it" for it ch
    unfolding above_def
    by (cases "gm_get (head_index items) (pr_base_ref (snd it))") (simp_all add: step_def Let_def boardRefKey_inj)
  have "gm_getz [] (fold step its ch) (boardRefKey repo n) = [] \<longleftrightarrow> gm_getz [] ch (boardRefKey repo n) = [] \<and> \<not> (\<exists>it \<in> set its. above it)" for its ch
    by (induction its arbitrary: ch) (auto simp: one)
  from this [of items "[]"] show ?thesis by (simp add: stack_children_def step_def above_def)
qed

lemma tips_iff:
  "it \<in> set (stack_tips repo items) \<longleftrightarrow> it \<in> set items \<and>
    \<not> (\<exists>c \<in> set items. \<exists>parent. gm_get (head_index items) (pr_base_ref (snd c)) = Some parent \<and> fst parent \<noteq> fst c \<and> item_number parent = item_number it)"
  using children_nonempty [of repo items "item_number it"] by (auto simp: stack_tips_def)

lemma path_numbers:
  assumes "stack_group items" and "it \<in> set items" and "base_path (head_index items) it path"
  shows "distinct (map item_number path)" and "set path \<subseteq> set items"
proof -
  show sub: "set path \<subseteq> set items" using base_path_items [OF assms(3)] head_index_range [of items] assms(2) by auto
  have "inj_on item_number (set path)" by (rule inj_onI) (use group_inj [OF assms(1)] sub in blast)
  then show "distinct (map item_number path)" using base_path_distinct [OF assms(3)] by (simp add: distinct_map)
qed

text \<open>Above every rooted pull request there is a tip.\<close>

lemma tip_above:
  assumes g: "stack_group items" and it: "it \<in> set items" and path: "base_path (head_index items) it path"
  shows "\<exists>tip pre. tip \<in> set (stack_tips repo items) \<and> base_path (head_index items) tip (pre @ path)"
  using it path
proof (induction "length items - length path" arbitrary: it path rule: less_induct)
  case less
  show ?case
  proof (cases "it \<in> set (stack_tips repo items)")
    case True
    then show ?thesis using less.prems by (intro exI [of _ it] exI [of _ "[]"]) simp
  next
    case False
    then obtain c parent where c: "c \<in> set items" "gm_get (head_index items) (pr_base_ref (snd c)) = Some parent" "item_number parent = item_number it"
      using less.prems(1) tips_iff by blast
    have "parent = it" using group_inj [OF g _ less.prems(1) c(3)] head_index_get [OF c(2)] by simp
    then have pc: "base_path (head_index items) c (c # path)" using base_up [OF c(2)] less.prems(2) by simp
    have "card (set (c # path)) \<le> card (set items)" using path_numbers(2) [OF g c(1) pc] by (intro card_mono) auto
    then have "length (c # path) \<le> length items"
      using base_path_distinct [OF pc] card_length [of items] by (simp add: distinct_card)
    then have "length items - length (c # path) < length items - length path" by simp
    from less.hyps [OF this c(1) pc] obtain tip pre where "tip \<in> set (stack_tips repo items)" "base_path (head_index items) tip (pre @ c # path)" by blast
    then have "tip \<in> set (stack_tips repo items) \<and> base_path (head_index items) tip ((pre @ [c]) @ path)" by simp
    then show ?thesis by blast
  qed
qed

lemma first_some_unique:
  "e \<in> set xs \<Longrightarrow> f e = Some y \<Longrightarrow> (\<And>x. x \<in> set xs \<Longrightarrow> f x \<noteq> None \<Longrightarrow> f x = Some y) \<Longrightarrow> first_some f xs = Some y"
  by (induction xs) (fastforce split: option.split)+

text \<open>What the chain of a tip offers to a rooted pull request.\<close>

lemma chain_stack_rooted:
  assumes g: "stack_group items" and it: "it \<in> set items" and path: "base_path (head_index items) it path"
    and tip: "tip \<in> set items" and up: "base_path (head_index items) tip (pre @ path)"
  shows "chain_from (head_index items) [] tip = pre @ path"
    and "chain_stack repo (pre @ path) tip (boardRefKey repo (item_number it))
      = Some \<lparr>st_position = stackPosition (length path), st_tip = boardRefKey repo (item_number tip)\<rparr>"
proof -
  let ?P = "pre @ path" and ?k = "boardRefKey repo (item_number it)"
  note n = path_numbers [OF g tip up]
  show "chain_from (head_index items) [] tip = ?P" by (rule chain_from_path [OF up n(1)]) simp
  obtain path' where p: "path = it # path'" using base_path_hd [OF path] by blast
  have pos: "i = length pre" if "i < length ?P" "item_number (?P ! i) = item_number it" for i
  proof -
    have l: "i < length (map item_number ?P)" "length pre < length (map item_number ?P)" using that(1) by (simp_all add: p)
    have "map item_number ?P ! length pre = item_number it" by (simp add: p nth_append)
    moreover have "map item_number ?P ! i = item_number it" using that by (simp only: nth_map)
    ultimately show ?thesis using nth_eq_iff_index_eq [OF n(1) l] by simp
  qed
  have "(length pre, it) \<in> set (rev (List.enumerate 0 ?P))" by (simp add: in_set_enumerate_eq p)
  moreover have "chain_entry repo ?P tip ?k (length pre, it) = Some \<lparr>st_position = stackPosition (length path), st_tip = boardRefKey repo (item_number tip)\<rparr>"
    by (simp add: chain_entry_def)
  moreover have "chain_entry repo ?P tip ?k e = Some \<lparr>st_position = stackPosition (length path), st_tip = boardRefKey repo (item_number tip)\<rparr>"
    if "e \<in> set (rev (List.enumerate 0 ?P))" "chain_entry repo ?P tip ?k e \<noteq> None" for e
  proof -
    have "fst e < length ?P" "?P ! fst e = snd e" using that(1) by (auto simp: in_set_enumerate_eq)
    moreover have "item_number (snd e) = item_number it" using that(2) by (auto simp: chain_entry_def boardRefKey_inj split: if_splits)
    ultimately have "fst e = length pre" using pos by simp
    then show ?thesis using that(2) by (simp add: chain_entry_def split: if_splits)
  qed
  ultimately show "chain_stack repo ?P tip ?k = Some \<lparr>st_position = stackPosition (length path), st_tip = boardRefKey repo (item_number tip)\<rparr>"
    unfolding chain_stack_def by (rule first_some_unique)
qed

lemma chain_stack_member:
  assumes "chain_stack repo chain tip (boardRefKey repo n) \<noteq> None"
  shows "\<exists>x \<in> set chain. item_number x = n"
proof -
  obtain e where e: "e \<in> set (List.enumerate 0 chain)" "chain_entry repo chain tip (boardRefKey repo n) e \<noteq> None"
    using assms by (auto simp: chain_stack_def first_some_None)
  have "fst e < length chain" "chain ! fst e = snd e" using e(1) by (simp_all add: in_set_enumerate_eq)
  then have "snd e \<in> set chain" using nth_mem by fastforce
  then show ?thesis using e(2) by (auto simp: chain_entry_def boardRefKey_inj split: if_splits)
qed

lemma chain_items:
  "tip \<in> set items \<Longrightarrow> set (chain_from (head_index items) seen tip) \<subseteq> set items"
proof (induction "head_index items" seen tip rule: chain_from.induct)
  case (1 seen cur)
  show ?case
  proof (cases "gm_get (head_index items) (pr_base_ref (snd cur))")
    case None
    then show ?thesis using 1(2) by (simp add: chain_from.simps [of _ seen cur])
  next
    case (Some nx)
    have "nx \<in> set items" using head_index_get [OF Some] by simp
    then show ?thesis using 1 Some by (simp add: chain_from.simps [of _ seen cur])
  qed
qed

section \<open>Properties\<close>


definition demo_pr :: "nat \<Rightarrow> string \<Rightarrow> string \<Rightarrow> pull_request" where
  "demo_pr n head base = \<lparr>pr_repo = ''O/R'', pr_number = n, pr_forge_state = ''open'', pr_head_ref = head, pr_base_ref = base, pr_head_sha = [],
     pr_draft = False, pr_mergeable_state = [], pr_merge_queue_state = [], pr_checks = None, pr_reviews = [], pr_threads = [], pr_title = [], pr_url = []\<rparr>"

definition demo_open :: "pull_request option list" where
  "demo_open = [Some (demo_pr 1 ''a'' ''main''), None, Some (demo_pr 2 ''b'' ''a'')]"


end
