(* ===== verification/Board_Refs.thy ===== *)
theory Board_Refs
  imports Board_Stack
begin

text \<open>
  The references of an agent's board, \<open>src/go/internal/board/refs_derive.go\<close>: the references named by the tasks
  are parsed and joined to the stored forge rows in one batch for many agents, with the gate and the stack
  position of a pull request, and with the open artifacts of the agent that no task names.

  The reads of \<open>store/agent_boards.go\<close> the derivation uses are functions on the tables, in the order the
  statements sort them; a statement is taken to succeed. Decoding a stored pull request body is the
  parameter \<open>decode\<close>. A Go set of coordinates is a list without duplicates. A time is optional, the zero time
  being \<open>None\<close>.
\<close>

section \<open>Data\<close>

datatype ForgeArtifactKind = ForgeArtifactKindUnspecified | ForgeArtifactKindIssue | ForgeArtifactKindPullRequest

record AuthoredRef =
  au_coord :: ForgeCoord
  au_kind :: ForgeArtifactKind

record PullRequestRow =
  prr_coord :: ForgeCoord
  prr_state :: string
  prr_updated :: "int option"
  prr_body :: string

record Issue =
  is_provider :: ForgeProvider
  is_host :: string
  is_repo :: string
  is_number :: nat
  is_title :: string
  is_forge_state :: string
  is_url :: string
  is_forge_updated :: "int option"
  is_state :: int

datatype BoardRefKind = BOARD_REF_KIND_UNSPECIFIED | BOARD_REF_KIND_PULL_REQUEST | BOARD_REF_KIND_ISSUE

record BoardRef =
  rf_ref :: string
  rf_url :: string
  rf_kind :: BoardRefKind
  rf_title :: string
  rf_owned :: bool
  rf_draft :: bool
  rf_checks_state :: string
  rf_gate :: BoardPrGate
  rf_stale_approval :: bool
  rf_merge_queue_state :: string
  rf_observed_at :: int
  rf_stack_position :: nat
  rf_stack_tip :: string
  rf_forge_state :: string
  rf_issue_state :: int

definition bare_ref :: "string \<Rightarrow> string \<Rightarrow> BoardRef" where
  "bare_ref r u = \<lparr>rf_ref = r, rf_url = u, rf_kind = BOARD_REF_KIND_UNSPECIFIED, rf_title = [], rf_owned = False, rf_draft = False,
     rf_checks_state = [], rf_gate = BOARD_PR_GATE_UNSPECIFIED, rf_stale_approval = False, rf_merge_queue_state = [], rf_observed_at = 0,
     rf_stack_position = 0, rf_stack_tip = [], rf_forge_state = [], rf_issue_state = 0\<rparr>"

record RefRequest =
  rq_agent :: AccountID
  rq_refs :: "string list"

datatype derive_error = InvalidAgent | InvalidCoord | DecodeErrors "ForgeCoord list"

record RefResult =
  rs_refs :: "BoardRef list"
  rs_untracked :: "string list"
  rs_err :: "derive_error option"

record Forges =
  GitHubHost :: string
  LinearHost :: string
  LinearTeams :: "string list"

type_synonym artifactKey = "ForgeCoord \<times> BoardRefKind"
type_synonym stackGroup = "ForgeProvider \<times> string"

record parsedBoardRef =
  pb_ref :: Ref
  pb_coord :: ForgeCoord
  pb_kind :: BoardRefKind

record storedBoardPR =
  sp_row :: PullRequestRow
  sp_pr :: pull_request

record batchRequest =
  bq_parsed :: "parsedBoardRef option list"
  bq_task_refs :: "artifactKey list"
  bq_coords :: "ForgeCoord list"

record batchRows =
  rw_open :: "(AccountID, AuthoredRef list) gomap"
  rw_owned :: "(AccountID, artifactKey list) gomap"
  rw_prs :: "(ForgeCoord, storedBoardPR) gomap"
  rw_bad :: "(ForgeCoord, derive_error) gomap"
  rw_stacks :: "(AccountID, (stackGroup, (string, Stack) gomap) gomap) gomap"
  rw_issues :: "(ForgeCoord, Issue) gomap"

section \<open>Coordinates\<close>

definition addCoord :: "ForgeCoord \<Rightarrow> ForgeCoord list \<Rightarrow> ForgeCoord list" where
  "addCoord coord coords = (if coord \<in> set coords then coords else coords @ [coord])"

definition boardRefKind :: "ForgeArtifactKind \<Rightarrow> BoardRefKind" where
  "boardRefKind k = (case k of ForgeArtifactKindIssue \<Rightarrow> BOARD_REF_KIND_ISSUE | ForgeArtifactKindPullRequest \<Rightarrow> BOARD_REF_KIND_PULL_REQUEST
     | ForgeArtifactKindUnspecified \<Rightarrow> BOARD_REF_KIND_UNSPECIFIED)"

definition configuredCoord :: "Ref \<Rightarrow> Forges \<Rightarrow> (ForgeCoord \<times> BoardRefKind) option" where
  "configuredCoord ref forges =
    (if r_number ref = 0 then None
     else case r_kind ref of
       KindForge \<Rightarrow>
         if GitHubHost forges = [] then None
         else Some (Normalized \<lparr>fc_provider = ForgeProviderGitHub, fc_host = GitHubHost forges, fc_repo = r_owner ref @ ''/'' @ r_repo ref,
                      fc_number = r_number ref\<rparr>, BOARD_REF_KIND_PULL_REQUEST)
     | KindTracker \<Rightarrow>
         if LinearHost forges = [] \<or> r_key ref \<notin> set (LinearTeams forges) then None
         else Some (Normalized \<lparr>fc_provider = ForgeProviderLinear, fc_host = LinearHost forges, fc_repo = r_key ref,
                      fc_number = r_number ref\<rparr>, BOARD_REF_KIND_ISSUE))"

definition taskRefCoord :: "Ref \<Rightarrow> (ForgeCoord \<times> BoardRefKind) option" where
  "taskRefCoord ref =
    (if r_number ref = 0 then None
     else case r_kind ref of
       KindForge \<Rightarrow> Some (Normalized \<lparr>fc_provider = ForgeProviderGitHub, fc_host = ''github.com'', fc_repo = r_owner ref @ ''/'' @ r_repo ref,
                      fc_number = r_number ref\<rparr>, BOARD_REF_KIND_PULL_REQUEST)
     | KindTracker \<Rightarrow> Some (Normalized \<lparr>fc_provider = ForgeProviderLinear, fc_host = ''linear.app'', fc_repo = r_key ref,
                      fc_number = r_number ref\<rparr>, BOARD_REF_KIND_ISSUE))"

definition addTaskRefCoords :: "Ref \<Rightarrow> parsedBoardRef option \<Rightarrow> artifactKey list \<Rightarrow> artifactKey list" where
  "addTaskRefCoords ref item taskRefs =
    (case taskRefCoord ref of None \<Rightarrow> taskRefs
     | Some ck \<Rightarrow>
        (let (coord, kind) = (case item of None \<Rightarrow> ck | Some it \<Rightarrow> (pb_coord it, pb_kind it))
         in taskRefs @ [(coord, kind)] @ (if r_kind ref = KindForge then [(coord, BOARD_REF_KIND_ISSUE)] else [])))"

definition unknownRefURL :: "Ref \<Rightarrow> Forges \<Rightarrow> string" where
  "unknownRefURL ref forges =
    (case r_kind ref of
       KindForge \<Rightarrow> if GitHubHost forges = [] then []
         else ''https://'' @ GitHubHost forges @ ''/'' @ r_owner ref @ ''/'' @ r_repo ref @ ''/issues/'' @ FormatUint (r_number ref)
     | KindTracker \<Rightarrow> if LinearHost forges = [] \<or> r_key ref \<notin> set (LinearTeams forges) then []
         else ''https://'' @ LinearHost forges @ ''/browse/'' @ r_key ref @ ''-'' @ FormatUint (r_number ref))"

definition parseBoardRef :: "Ref \<Rightarrow> Forges \<Rightarrow> parsedBoardRef option \<times> BoardRef" where
  "parseBoardRef parsed forges =
    (case configuredCoord parsed forges of
       None \<Rightarrow> (None, bare_ref (String parsed) [])
     | Some (coord, kind) \<Rightarrow> (Some \<lparr>pb_ref = parsed, pb_coord = coord, pb_kind = kind\<rparr>, bare_ref (String parsed) (unknownRefURL parsed forges)))"

definition issueCoord :: "Issue \<Rightarrow> ForgeCoord" where
  "issueCoord i = Normalized \<lparr>fc_provider = is_provider i, fc_host = is_host i, fc_repo = is_repo i, fc_number = is_number i\<rparr>"

definition authoredRefString :: "AuthoredRef \<Rightarrow> string" where
  "authoredRefString ref =
    (let coord = Normalized (au_coord ref) in
     case au_kind ref of ForgeArtifactKindUnspecified \<Rightarrow> []
     | _ \<Rightarrow> if fc_provider coord = ForgeProviderLinear then fc_repo coord @ ''-'' @ FormatUint (fc_number coord)
            else ToLower (fc_repo coord) @ ''#'' @ FormatUint (fc_number coord))"

definition authoredKeys :: "AuthoredRef list \<Rightarrow> artifactKey list" where
  "authoredKeys refsIn = map (\<lambda>ref. (Normalized (au_coord ref), boardRefKind (au_kind ref))) refsIn"

section \<open>The reads\<close>

record ref_tables =
  rt_authored :: "(AccountID \<times> AuthoredRef) list"
  rt_prs :: "PullRequestRow list"
  rt_issues :: "Issue list"

definition coord_valid :: "ForgeCoord \<Rightarrow> bool" where
  "coord_valid c \<longleftrightarrow> fc_provider c \<noteq> ForgeProviderOther 0 \<and> fc_host c \<noteq> [] \<and> fc_repo c \<noteq> [] \<and> fc_number c \<noteq> 0"

definition normalizeCoords :: "ForgeCoord list \<Rightarrow> derive_error + ForgeCoord list" where
  "normalizeCoords cs = (if list_all coord_valid (map Normalized cs) then Inr (fold addCoord (map Normalized cs) []) else Inl InvalidCoord)"

text \<open>The rows of a query, gathered by agent.\<close>

definition by_agent :: "(AccountID \<times> AuthoredRef) list \<Rightarrow> (AccountID, AuthoredRef list) gomap" where
  "by_agent rows = fold (\<lambda>(agent, ref) out. gm_put agent (gm_getz [] out agent @ [ref]) out) rows []"

definition authored_open :: "ref_tables \<Rightarrow> AuthoredRef \<Rightarrow> bool" where
  "authored_open tb a =
    (case au_kind a of
       ForgeArtifactKindPullRequest \<Rightarrow> list_ex (\<lambda>p. Normalized (prr_coord p) = Normalized (au_coord a) \<and> prr_state p = ''open'') (rt_prs tb)
     | ForgeArtifactKindIssue \<Rightarrow> list_ex (\<lambda>i. issueCoord i = Normalized (au_coord a) \<and> is_forge_state i = ''open'') (rt_issues tb)
     | ForgeArtifactKindUnspecified \<Rightarrow> False)"

definition OpenAuthoredRefsForAgents :: "ref_tables \<Rightarrow> AccountID list \<Rightarrow> derive_error + (AccountID, AuthoredRef list) gomap" where
  "OpenAuthoredRefsForAgents tb agents =
    (if agents = [] then Inr [] else if [] \<in> set agents then Inl InvalidAgent
     else Inr (by_agent (filter (\<lambda>(agent, a). agent \<in> set agents \<and> authored_open tb a) (rt_authored tb))))"

definition AuthoredCoordsForAgents :: "ref_tables \<Rightarrow> AccountID list \<Rightarrow> ForgeCoord list \<Rightarrow> derive_error + (AccountID, AuthoredRef list) gomap" where
  "AuthoredCoordsForAgents tb agents coords =
    (if agents = [] then Inr [] else if [] \<in> set agents then Inl InvalidAgent
     else bindE (normalizeCoords coords) (\<lambda>want. if want = [] then Inr []
       else Inr (by_agent (filter (\<lambda>(agent, a). agent \<in> set agents \<and> Normalized (au_coord a) \<in> set want) (rt_authored tb)))))"

definition PullRequestsByCoords :: "ref_tables \<Rightarrow> ForgeCoord list \<Rightarrow> derive_error + PullRequestRow list" where
  "PullRequestsByCoords tb coords = bindE (normalizeCoords coords) (\<lambda>want. if want = [] then Inr []
     else Inr (filter (\<lambda>p. Normalized (prr_coord p) \<in> set want) (rt_prs tb)))"

definition IssuesByCoords :: "ref_tables \<Rightarrow> ForgeCoord list \<Rightarrow> derive_error + Issue list" where
  "IssuesByCoords tb coords = bindE (normalizeCoords coords) (\<lambda>want. if want = [] then Inr []
     else Inr (filter (\<lambda>i. issueCoord i \<in> set want) (rt_issues tb)))"

section \<open>The batch\<close>

text \<open>One round of the loop of \<open>parseRefRequest\<close>: the request, the derived references and the coordinates of the batch.\<close>

definition parse_ref_step :: "Forges \<Rightarrow> string \<Rightarrow> batchRequest \<times> BoardRef list \<times> ForgeCoord list \<Rightarrow> batchRequest \<times> BoardRef list \<times> ForgeCoord list" where
  "parse_ref_step forges raw st =
    (let (request, derived, allCoords) = st in
     case Parse raw of
       Inl _ \<Rightarrow> (request\<lparr>bq_parsed := bq_parsed request @ [None]\<rparr>, derived @ [bare_ref raw []], allCoords)
     | Inr ref \<Rightarrow>
        (let (item, base) = parseBoardRef ref forges;
             request1 = request\<lparr>bq_parsed := bq_parsed request @ [item], bq_task_refs := addTaskRefCoords ref item (bq_task_refs request)\<rparr>
         in case item of None \<Rightarrow> (request1, derived @ [base], allCoords)
            | Some it \<Rightarrow> (request1\<lparr>bq_coords := addCoord (pb_coord it) (bq_coords request)\<rparr>, derived @ [base], addCoord (pb_coord it) allCoords)))"

definition parseRefRequest :: "Forges \<Rightarrow> string list \<Rightarrow> ForgeCoord list \<Rightarrow> batchRequest \<times> BoardRef list \<times> ForgeCoord list" where
  "parseRefRequest forges refsIn allCoords =
    fold (parse_ref_step forges) refsIn (\<lparr>bq_parsed = [], bq_task_refs = [], bq_coords = []\<rparr>, [], allCoords)"

definition storePRRow :: "(string \<Rightarrow> pull_request option) \<Rightarrow> PullRequestRow
    \<Rightarrow> (ForgeCoord, storedBoardPR) gomap \<times> (ForgeCoord, derive_error) gomap \<Rightarrow> (ForgeCoord, storedBoardPR) gomap \<times> (ForgeCoord, derive_error) gomap" where
  "storePRRow decode row st =
    (let (byCoord, bad) = st; c = Normalized (prr_coord row) in
     case decode (prr_body row) of
       None \<Rightarrow> (byCoord, gm_put c (DecodeErrors [prr_coord row]) bad)
     | Some pr \<Rightarrow> (gm_put c \<lparr>sp_row = row, sp_pr = pr\<rparr> byCoord, bad))"

definition group_of :: "ForgeCoord \<Rightarrow> stackGroup" where
  "group_of c = (fc_provider c, ToLower (fc_host c))"

definition group_row :: "AuthoredRef list \<Rightarrow> (ForgeCoord, storedBoardPR) gomap \<Rightarrow> PullRequestRow
    \<Rightarrow> (stackGroup, pull_request option list) gomap \<Rightarrow> (stackGroup, pull_request option list) gomap" where
  "group_row open prs row groups =
    (let coord = Normalized (prr_coord row) in
     case gm_get prs coord of None \<Rightarrow> groups
     | Some stored \<Rightarrow>
        if prr_state row \<noteq> ''open'' \<or> (coord, BOARD_REF_KIND_PULL_REQUEST) \<notin> set (authoredKeys open) then groups
        else gm_put (group_of coord) (gm_getz [] groups (group_of coord) @ [Some (sp_pr stored)]) groups)"

definition agent_groups :: "AuthoredRef list \<Rightarrow> PullRequestRow list \<Rightarrow> (ForgeCoord, storedBoardPR) gomap \<Rightarrow> (stackGroup, pull_request option list) gomap" where
  "agent_groups open prRows prs = fold (group_row open prs) prRows []"

definition agentStacks :: "AccountID list \<Rightarrow> (AccountID, AuthoredRef list) gomap \<Rightarrow> PullRequestRow list \<Rightarrow> (ForgeCoord, storedBoardPR) gomap
    \<Rightarrow> (AccountID, (stackGroup, (string, Stack) gomap) gomap) gomap" where
  "agentStacks agents openByAgent prRows prs = fold (\<lambda>agent stacks.
     gm_put agent (map (\<lambda>(g, grp). (g, StackOf grp)) (agent_groups (gm_getz [] openByAgent agent) prRows prs)) stacks) agents []"

text \<open>The open coordinates of each request's agent join the request and the batch.\<close>

definition add_open :: "AuthoredRef list \<Rightarrow> batchRequest \<Rightarrow> batchRequest" where
  "add_open refsIn request = request\<lparr>bq_coords := fold (\<lambda>ref. addCoord (Normalized (au_coord ref))) refsIn (bq_coords request)\<rparr>"

definition loadBatchRows :: "(string \<Rightarrow> pull_request option) \<Rightarrow> ref_tables \<Rightarrow> AccountID list \<Rightarrow> RefRequest list \<Rightarrow> batchRequest list \<Rightarrow> ForgeCoord list
    \<Rightarrow> derive_error + batchRows \<times> batchRequest list" where
  "loadBatchRows decode tb agents reqs requests allCoords0 =
    bindE (OpenAuthoredRefsForAgents tb agents) (\<lambda>openByAgent.
     let requests1 = map2 (\<lambda>req request. add_open (gm_getz [] openByAgent (rq_agent req)) request) reqs requests;
         allCoords = fold (\<lambda>req cs. fold (\<lambda>ref. addCoord (Normalized (au_coord ref))) (gm_getz [] openByAgent (rq_agent req)) cs) reqs allCoords0
     in bindE (AuthoredCoordsForAgents tb agents allCoords) (\<lambda>ownedByAgent.
        bindE (PullRequestsByCoords tb allCoords) (\<lambda>prRows.
        bindE (IssuesByCoords tb allCoords) (\<lambda>issueRows.
        let (prs, bad) = fold (storePRRow decode) prRows ([], [])
        in Inr (\<lparr>rw_open = openByAgent,
                 rw_owned = fold (\<lambda>agent owned. gm_put agent (authoredKeys (gm_getz [] ownedByAgent agent)) owned) agents [],
                 rw_prs = prs, rw_bad = bad, rw_stacks = agentStacks agents openByAgent prRows prs,
                 rw_issues = fold (\<lambda>issue out. gm_put (issueCoord issue) issue out) issueRows []\<rparr>, requests1)))))"

definition unixMilli :: "int option \<Rightarrow> int" where
  "unixMilli t = (case t of None \<Rightarrow> 0 | Some ns \<Rightarrow> UnixMilli ns)"

definition fillIssueRef :: "Issue \<Rightarrow> BoardRef \<Rightarrow> BoardRef" where
  "fillIssueRef i base = base\<lparr>rf_title := is_title i, rf_url := is_url i, rf_forge_state := is_forge_state i, rf_issue_state := is_state i,
     rf_observed_at := unixMilli (is_forge_updated i)\<rparr>"

definition fillIssueDerivedRef :: "parsedBoardRef \<Rightarrow> Issue \<Rightarrow> artifactKey list \<Rightarrow> BoardRef \<Rightarrow> BoardRef" where
  "fillIssueDerivedRef item i authored base =
    fillIssueRef i (base\<lparr>rf_kind := BOARD_REF_KIND_ISSUE, rf_owned := (pb_coord item, BOARD_REF_KIND_ISSUE) \<in> set authored\<rparr>)"

definition fillPullRequestRef :: "storedBoardPR \<Rightarrow> parsedBoardRef \<Rightarrow> (string, Stack) gomap \<Rightarrow> BoardRef \<Rightarrow> BoardRef" where
  "fillPullRequestRef stored item stacks base =
    (let pr = sp_pr stored; (gate, stale) = derivePRState (Some pr);
         b = base\<lparr>rf_kind := BOARD_REF_KIND_PULL_REQUEST, rf_title := pr_title pr, rf_url := pr_url pr, rf_draft := pr_draft pr,
                  rf_checks_state := (case pr_checks pr of None \<Rightarrow> [] | Some cs \<Rightarrow> cs_state cs), rf_gate := gate, rf_stale_approval := stale,
                  rf_merge_queue_state := pr_merge_queue_state pr, rf_observed_at := unixMilli (prr_updated (sp_row stored))\<rparr>
     in case gm_get stacks (boardRefKey (r_owner (pb_ref item) @ ''/'' @ r_repo (pb_ref item)) (r_number (pb_ref item))) of
          None \<Rightarrow> b
        | Some st \<Rightarrow> b\<lparr>rf_stack_position := st_position st, rf_stack_tip := st_tip st\<rparr>)"

definition fillRef :: "batchRows \<Rightarrow> parsedBoardRef \<Rightarrow> artifactKey list \<Rightarrow> (stackGroup, (string, Stack) gomap) gomap \<Rightarrow> BoardRef \<Rightarrow> BoardRef" where
  "fillRef rows item authored stacks base =
    (case pb_kind item of
       BOARD_REF_KIND_PULL_REQUEST \<Rightarrow>
         (case gm_get (rw_prs rows) (pb_coord item) of
            Some stored \<Rightarrow> fillPullRequestRef stored item (gm_getz [] stacks (group_of (pb_coord item)))
              (base\<lparr>rf_owned := (pb_coord item, pb_kind item) \<in> set authored\<rparr>)
          | None \<Rightarrow>
              if r_kind (pb_ref item) \<noteq> KindForge then base
              else (case gm_get (rw_issues rows) (pb_coord item) of None \<Rightarrow> base | Some i \<Rightarrow> fillIssueDerivedRef item i authored base))
     | BOARD_REF_KIND_ISSUE \<Rightarrow>
         (case gm_get (rw_issues rows) (pb_coord item) of None \<Rightarrow> base | Some i \<Rightarrow> fillIssueDerivedRef item i authored base)
     | BOARD_REF_KIND_UNSPECIFIED \<Rightarrow> base)"

text \<open>\<open>batchRows.result\<close>; the joined decode errors of the request, in the order of the rows.\<close>

definition batch_result :: "batchRows \<Rightarrow> AccountID \<Rightarrow> batchRequest \<Rightarrow> BoardRef list \<Rightarrow> RefResult" where
  "batch_result rows agent request derived =
    (let bad = filter (\<lambda>(c, _). c \<in> set (bq_coords request)) (rw_bad rows) in
     if bad \<noteq> [] then \<lparr>rs_refs = [], rs_untracked = [], rs_err = Some (DecodeErrors (map fst bad))\<rparr>
     else (let authored = gm_getz [] (rw_owned rows) agent; stacks = gm_getz [] (rw_stacks rows) agent;
               refs = map2 (\<lambda>item base. case item of None \<Rightarrow> base | Some it \<Rightarrow> fillRef rows it authored stacks base) (bq_parsed request) derived;
               untracked = map authoredRefString (filter (\<lambda>ref. (Normalized (au_coord ref), boardRefKind (au_kind ref)) \<notin> set (bq_task_refs request))
                 (gm_getz [] (rw_open rows) agent))
           in \<lparr>rs_refs = refs, rs_untracked = untracked, rs_err = None\<rparr>))"

definition parse_requests :: "Forges \<Rightarrow> RefRequest list \<Rightarrow> ForgeCoord list \<Rightarrow> (batchRequest \<times> BoardRef list) list \<times> ForgeCoord list" where
  "parse_requests forges reqs cs = fold (\<lambda>req (done, cs). let (request, derived, cs') = parseRefRequest forges (rq_refs req) cs
     in (done @ [(request, derived)], cs')) reqs ([], cs)"

definition DeriveRefsBatch :: "(string \<Rightarrow> pull_request option) \<Rightarrow> ref_tables \<Rightarrow> Forges \<Rightarrow> RefRequest list \<Rightarrow> RefResult list" where
  "DeriveRefsBatch decode tb forges reqs =
    (let (parsed, allCoords) = parse_requests forges reqs [];
         agents = fold (\<lambda>req as. if rq_agent req \<in> set as then as else as @ [rq_agent req]) reqs []
     in case loadBatchRows decode tb agents reqs (map fst parsed) allCoords of
          Inl e \<Rightarrow> map (\<lambda>_. \<lparr>rs_refs = [], rs_untracked = [], rs_err = Some e\<rparr>) reqs
        | Inr (rows, requests) \<Rightarrow> map2 (\<lambda>req (request, derived). batch_result rows (rq_agent req) request derived) reqs (zip requests (map snd parsed)))"

definition DeriveRefs :: "(string \<Rightarrow> pull_request option) \<Rightarrow> ref_tables \<Rightarrow> Forges \<Rightarrow> AccountID \<Rightarrow> string list \<Rightarrow> RefResult" where
  "DeriveRefs decode tb forges agent refsIn =
    (case DeriveRefsBatch decode tb forges [\<lparr>rq_agent = agent, rq_refs = refsIn\<rparr>] of
       [] \<Rightarrow> \<lparr>rs_refs = [], rs_untracked = [], rs_err = None\<rparr> | r # _ \<Rightarrow> r)"

section \<open>Normal coordinates\<close>

lemma space_lower: "is_space_byte (to_lower_byte c) = is_space_byte c"
  by (auto simp: is_space_byte_def of_to_lower_byte split: if_splits)

lemma TrimSpace_ends: "TrimSpace s \<noteq> [] \<Longrightarrow> \<not> is_space_byte (hd (TrimSpace s)) \<and> \<not> is_space_byte (last (TrimSpace s))"
proof -
  let ?u = "dropWhile is_space_byte s" and ?v = "dropWhile is_space_byte (rev (dropWhile is_space_byte s))"
  assume "TrimSpace s \<noteq> []"
  then have v: "?v \<noteq> []" by (simp add: TrimSpace_def)
  then have u: "?u \<noteq> []" by (metis dropWhile.simps(1) rev.simps(1))
  have "last ?v = last (rev ?u)" using v by (metis last_appendR takeWhile_dropWhile_id)
  also have "\<dots> = hd ?u" using u by (simp add: last_rev)
  finally have "hd (TrimSpace s) = hd ?u" using v by (simp add: TrimSpace_def hd_rev)
  moreover have "last (TrimSpace s) = hd ?v" using v by (simp add: TrimSpace_def last_rev)
  ultimately show ?thesis using hd_dropWhile [OF u] hd_dropWhile [OF v] by simp
qed

lemma TrimSpace_id: "s = [] \<or> \<not> is_space_byte (hd s) \<and> \<not> is_space_byte (last s) \<Longrightarrow> TrimSpace s = s"
proof -
  assume h: "s = [] \<or> \<not> is_space_byte (hd s) \<and> \<not> is_space_byte (last s)"
  have "dropWhile is_space_byte s = s" using h by (auto simp: dropWhile_eq_self_iff)
  moreover have "dropWhile is_space_byte (rev s) = rev s" using h by (auto simp: dropWhile_eq_self_iff hd_rev)
  ultimately show ?thesis by (simp add: TrimSpace_def)
qed

lemma Normalized_idem [simp]: "Normalized (Normalized c) = Normalized c"
proof -
  have t: "TrimSpace (TrimSpace s) = TrimSpace s" for s using TrimSpace_ends [of s] by (intro TrimSpace_id) blast
  have l: "TrimSpace (ToLower (TrimSpace s)) = ToLower (TrimSpace s)" for s
    using TrimSpace_ends [of s] by (intro TrimSpace_id) (auto simp: ToLower_def hd_map last_map space_lower)
  show ?thesis by (simp add: Normalized_def Let_def t l)
qed

lemma name_not_space: "isNameByte c \<Longrightarrow> \<not> is_space_byte c" "isKeyByte c \<Longrightarrow> \<not> is_space_byte c"
  by (auto simp: isNameByte_def isWord_def isDigit_def isUpper_def isKeyByte_def is_space_byte_def)

lemma configured_valid:
  assumes "Parse raw = Inr ref" and "configuredCoord ref forges = Some (c, k)"
  shows "coord_valid c" and "Normalized c = c"
proof -
  have kt: "TrimSpace u = u" if "key_ok u" for u
    using that name_not_space(2) by (intro TrimSpace_id) (auto simp: key_ok_def list_all_iff)
  have ft: "TrimSpace (ToLower a @ ''/'' @ ToLower b) = ToLower a @ ''/'' @ ToLower b" if "name_ok a" "name_ok b" for a b
    using that name_not_space(1) by (intro TrimSpace_id) (auto simp: name_ok_def list_all_iff ToLower_def hd_append hd_map last_map space_lower)
  have "ref_text raw ref" using assms(1) by (simp add: Parse_iff)
  then show "coord_valid c"
    using assms(2) kt ft
    by (auto simp: ref_text_def configuredCoord_def forge_ref_def tracker_ref_def coord_valid_def Normalized_def Let_def key_ok_def split: if_splits)
  show "Normalized c = c" using assms(2) by (auto simp: configuredCoord_def split: if_splits ref_kind.splits)
qed

section \<open>One request on its own\<close>

text \<open>What the derivation gives a request when its own coordinates are the only ones read: the reference the batch
  is compared with.\<close>

definition parsed_request :: "Forges \<Rightarrow> string list \<Rightarrow> batchRequest \<times> BoardRef list" where
  "parsed_request forges refsIn = (let (request, derived, _) = parseRefRequest forges refsIn [] in (request, derived))"

definition open_of :: "ref_tables \<Rightarrow> AccountID \<Rightarrow> AuthoredRef list" where
  "open_of tb agent = map snd (filter (\<lambda>(a, r). a = agent \<and> authored_open tb r) (rt_authored tb))"

definition pr_index :: "(string \<Rightarrow> pull_request option) \<Rightarrow> ref_tables \<Rightarrow> ForgeCoord set \<Rightarrow> (ForgeCoord, storedBoardPR) gomap \<times> (ForgeCoord, derive_error) gomap" where
  "pr_index decode tb S = fold (storePRRow decode) (filter (\<lambda>p. Normalized (prr_coord p) \<in> S) (rt_prs tb)) ([], [])"

definition issue_index :: "ref_tables \<Rightarrow> ForgeCoord set \<Rightarrow> (ForgeCoord, Issue) gomap" where
  "issue_index tb S = fold (\<lambda>issue out. gm_put (issueCoord issue) issue out) (filter (\<lambda>i. issueCoord i \<in> S) (rt_issues tb)) []"

definition owned_of :: "ref_tables \<Rightarrow> ForgeCoord set \<Rightarrow> AccountID \<Rightarrow> artifactKey list" where
  "owned_of tb S agent = authoredKeys (map snd (filter (\<lambda>(a, r). a = agent \<and> Normalized (au_coord r) \<in> S) (rt_authored tb)))"

definition stacks_of :: "(string \<Rightarrow> pull_request option) \<Rightarrow> ref_tables \<Rightarrow> ForgeCoord set \<Rightarrow> AccountID \<Rightarrow> (stackGroup, (string, Stack) gomap) gomap" where
  "stacks_of decode tb S agent = map (\<lambda>(g, grp). (g, StackOf grp))
     (agent_groups (open_of tb agent) (filter (\<lambda>p. Normalized (prr_coord p) \<in> S) (rt_prs tb)) (fst (pr_index decode tb S)))"

definition rows_for :: "(string \<Rightarrow> pull_request option) \<Rightarrow> ref_tables \<Rightarrow> ForgeCoord set \<Rightarrow> AccountID \<Rightarrow> batchRows" where
  "rows_for decode tb S agent = \<lparr>rw_open = [(agent, open_of tb agent)], rw_owned = [(agent, owned_of tb S agent)],
     rw_prs = fst (pr_index decode tb S), rw_bad = snd (pr_index decode tb S), rw_stacks = [(agent, stacks_of decode tb S agent)],
     rw_issues = issue_index tb S\<rparr>"

definition derive_one :: "(string \<Rightarrow> pull_request option) \<Rightarrow> ref_tables \<Rightarrow> Forges \<Rightarrow> RefRequest \<Rightarrow> RefResult" where
  "derive_one decode tb forges req =
    (let (request0, derived) = parsed_request forges (rq_refs req); request = add_open (open_of tb (rq_agent req)) request0
     in batch_result (rows_for decode tb (set (bq_coords request)) (rq_agent req)) (rq_agent req) request derived)"

subsection \<open>Reading more coordinates than a request has\<close>

lemma filter_put: "filter (\<lambda>(c, _). c \<in> S) (gm_put k v m) = (if k \<in> S then gm_put k v (filter (\<lambda>(c, _). c \<in> S) m) else filter (\<lambda>(c, _). c \<in> S) m)"
  by (induction m) auto

lemma pr_index_restrict:
  assumes "S \<subseteq> A"
  shows "filter (\<lambda>(c, _). c \<in> S) (fst (pr_index decode tb A)) = fst (pr_index decode tb S)"
    and "filter (\<lambda>(c, _). c \<in> S) (snd (pr_index decode tb A)) = snd (pr_index decode tb S)"
proof -
  have "filter (\<lambda>(c, _). c \<in> S) (fst (fold (storePRRow decode) (filter (\<lambda>p. Normalized (prr_coord p) \<in> A) ps) ([], [])))
        = fst (fold (storePRRow decode) (filter (\<lambda>p. Normalized (prr_coord p) \<in> S) ps) ([], []))
      \<and> filter (\<lambda>(c, _). c \<in> S) (snd (fold (storePRRow decode) (filter (\<lambda>p. Normalized (prr_coord p) \<in> A) ps) ([], [])))
        = snd (fold (storePRRow decode) (filter (\<lambda>p. Normalized (prr_coord p) \<in> S) ps) ([], []))" for ps
  proof (induction ps rule: rev_induct)
    case (snoc p ps)
    have step: "fst (storePRRow decode p st) = (case decode (prr_body p) of None \<Rightarrow> fst st | Some pr \<Rightarrow> gm_put (Normalized (prr_coord p)) \<lparr>sp_row = p, sp_pr = pr\<rparr> (fst st))"
      "snd (storePRRow decode p st) = (case decode (prr_body p) of None \<Rightarrow> gm_put (Normalized (prr_coord p)) (DecodeErrors [prr_coord p]) (snd st) | Some _ \<Rightarrow> snd st)" for st
      by (simp_all add: storePRRow_def case_prod_beta Let_def split: option.split)
    show ?case
    proof (cases "Normalized (prr_coord p) \<in> S")
      case True
      then have "Normalized (prr_coord p) \<in> A" using assms by blast
      with True snoc show ?thesis by (simp add: step filter_put split: option.split)
    next
      case False
      with snoc show ?thesis by (cases "Normalized (prr_coord p) \<in> A") (simp_all add: step filter_put split: option.split)
    qed
  qed simp
  then show "filter (\<lambda>(c, _). c \<in> S) (fst (pr_index decode tb A)) = fst (pr_index decode tb S)"
    and "filter (\<lambda>(c, _). c \<in> S) (snd (pr_index decode tb A)) = snd (pr_index decode tb S)"
    unfolding pr_index_def by blast+
qed

lemma issue_index_restrict: "S \<subseteq> A \<Longrightarrow> filter (\<lambda>(c, _). c \<in> S) (issue_index tb A) = issue_index tb S"
proof -
  assume sub: "S \<subseteq> A"
  have "filter (\<lambda>(c, _). c \<in> S) (fold (\<lambda>issue out. gm_put (issueCoord issue) issue out) (filter (\<lambda>i. issueCoord i \<in> A) is) [])
      = fold (\<lambda>issue out. gm_put (issueCoord issue) issue out) (filter (\<lambda>i. issueCoord i \<in> S) is) []" for "is"
    using sub by (induction "is" rule: rev_induct) (auto simp: filter_put)
  then show ?thesis by (simp add: issue_index_def)
qed

lemma get_restrict: "c \<in> S \<Longrightarrow> gm_get (filter (\<lambda>(c, _). c \<in> S) m) c = gm_get m c"
  by (induction m) auto

lemma agent_groups_restrict:
  assumes sub: "fst ` set (authoredKeys open) \<subseteq> S" and eq: "\<And>c. c \<in> S \<Longrightarrow> gm_get prs c = gm_get prs' c" and "S \<subseteq> A"
  shows "agent_groups open (filter (\<lambda>p. Normalized (prr_coord p) \<in> A) ps) prs = agent_groups open (filter (\<lambda>p. Normalized (prr_coord p) \<in> S) ps) prs'"
proof (induction ps rule: rev_induct)
  case (snoc p ps)
  let ?c = "Normalized (prr_coord p)"
  show ?case
  proof (cases "?c \<in> S")
    case True
    then have "?c \<in> A" using assms(3) by blast
    with True snoc show ?thesis by (simp add: agent_groups_def group_row_def [of _ _ p] eq [OF True])
  next
    case False
    then have no: "(?c, BOARD_REF_KIND_PULL_REQUEST) \<notin> set (authoredKeys open)" using sub by force
    then have skip: "group_row open prs p groups = groups" for groups by (simp add: group_row_def Let_def split: option.split)
    show ?thesis using False snoc by (cases "?c \<in> A") (simp_all add: agent_groups_def skip)
  qed
qed (simp add: agent_groups_def)

lemma stacks_restrict:
  assumes "fst ` set (authoredKeys (open_of tb agent)) \<subseteq> S" and "S \<subseteq> A"
  shows "stacks_of decode tb A agent = stacks_of decode tb S agent"
proof -
  have "gm_get (fst (pr_index decode tb A)) c = gm_get (fst (pr_index decode tb S)) c" if "c \<in> S" for c
    using pr_index_restrict(1) [OF assms(2), of decode tb] get_restrict [OF that, of "fst (pr_index decode tb A)"] by simp
  from agent_groups_restrict [OF assms(1) this assms(2), of "rt_prs tb"] show ?thesis by (simp add: stacks_of_def)
qed

lemma batch_result_cong:
  assumes S: "S = set (bq_coords request)" and items: "\<And>it. Some it \<in> set (bq_parsed request) \<Longrightarrow> pb_coord it \<in> S"
    and bad: "filter (\<lambda>(c, _). c \<in> S) (rw_bad r1) = filter (\<lambda>(c, _). c \<in> S) (rw_bad r2)"
    and prs: "\<And>c. c \<in> S \<Longrightarrow> gm_get (rw_prs r1) c = gm_get (rw_prs r2) c"
    and issues: "\<And>c. c \<in> S \<Longrightarrow> gm_get (rw_issues r1) c = gm_get (rw_issues r2) c"
    and owned: "\<And>c k. c \<in> S \<Longrightarrow> (c, k) \<in> set (gm_getz [] (rw_owned r1) agent) \<longleftrightarrow> (c, k) \<in> set (gm_getz [] (rw_owned r2) agent)"
    and stacks: "gm_getz [] (rw_stacks r1) agent = gm_getz [] (rw_stacks r2) agent"
    and "open": "gm_getz [] (rw_open r1) agent = gm_getz [] (rw_open r2) agent"
  shows "batch_result r1 agent request derived = batch_result r2 agent request derived"
proof -
  have fill: "fillRef r1 it (gm_getz [] (rw_owned r1) agent) st base = fillRef r2 it (gm_getz [] (rw_owned r2) agent) st base"
    if "Some it \<in> set (bq_parsed request)" for it st base
    using items [OF that] prs issues owned
    by (simp add: fillRef_def fillIssueDerivedRef_def split: BoardRefKind.split option.split)
  have "map2 (\<lambda>item base. case item of None \<Rightarrow> base | Some it \<Rightarrow> fillRef r1 it (gm_getz [] (rw_owned r1) agent) (gm_getz [] (rw_stacks r1) agent) base) (bq_parsed request) derived
      = map2 (\<lambda>item base. case item of None \<Rightarrow> base | Some it \<Rightarrow> fillRef r2 it (gm_getz [] (rw_owned r2) agent) (gm_getz [] (rw_stacks r2) agent) base) (bq_parsed request) derived"
    by (auto simp: stacks split: option.split) (rule fill, erule set_zip_leftD)
  then show ?thesis unfolding batch_result_def Let_def S [symmetric] bad "open" by simp
qed

subsection \<open>Parsing\<close>

lemma set_addCoord [simp]: "set (addCoord c cs) = insert c (set cs)"
  by (auto simp: addCoord_def)

lemma set_fold_addCoord: "set (fold (\<lambda>x. addCoord (f x)) xs cs) = set cs \<union> f ` set xs"
  by (induction xs arbitrary: cs) auto

definition item_ok :: "batchRequest \<Rightarrow> bool" where
  "item_ok request \<longleftrightarrow> (\<forall>it. Some it \<in> set (bq_parsed request) \<longrightarrow> pb_coord it \<in> set (bq_coords request))
     \<and> (\<forall>c \<in> set (bq_coords request). coord_valid c \<and> Normalized c = c)"

lemma parse_ref_step_props:
  fixes cs cs2 :: "ForgeCoord list" and forges :: Forges and raw :: string and request :: batchRequest and derived :: "BoardRef list"
  defines "P \<equiv> parse_ref_step forges raw (request, derived, cs)" and "Q \<equiv> parse_ref_step forges raw (request, derived, cs2)"
  shows "fst P = fst Q" and "fst (snd P) = fst (snd Q)"
    and "\<exists>N. set (snd (snd P)) = set cs \<union> N \<and> set (bq_coords (fst P)) = set (bq_coords request) \<union> N"
    and "item_ok request \<Longrightarrow> item_ok (fst P)"
proof -
  have "fst P = fst Q \<and> fst (snd P) = fst (snd Q)
    \<and> (\<exists>N. set (snd (snd P)) = set cs \<union> N \<and> set (bq_coords (fst P)) = set (bq_coords request) \<union> N)
    \<and> (item_ok request \<longrightarrow> item_ok (fst P))"
  proof (cases "Parse raw")
    case (Inl e)
    then show ?thesis by (auto simp: P_def Q_def parse_ref_step_def item_ok_def)
  next
    case (Inr ref)
    show ?thesis
    proof (cases "configuredCoord ref forges")
      case None
      then show ?thesis using Inr by (auto simp: P_def Q_def parse_ref_step_def parseBoardRef_def item_ok_def)
    next
      case (Some ck)
      obtain c k where ck: "ck = (c, k)" by fastforce
      have v: "coord_valid c" "Normalized c = c" using configured_valid [OF Inr Some [unfolded ck]] by simp_all
      have "set (snd (snd P)) = set cs \<union> {c} \<and> set (bq_coords (fst P)) = set (bq_coords request) \<union> {c}"
        using Inr Some ck by (simp add: P_def parse_ref_step_def parseBoardRef_def)
      moreover have "item_ok request \<longrightarrow> item_ok (fst P)"
        using Inr Some ck v by (auto simp: P_def parse_ref_step_def parseBoardRef_def item_ok_def)
      moreover have "fst P = fst Q \<and> fst (snd P) = fst (snd Q)"
        using Inr Some ck by (simp add: P_def Q_def parse_ref_step_def parseBoardRef_def)
      ultimately show ?thesis by blast
    qed
  qed
  then show "fst P = fst Q" "fst (snd P) = fst (snd Q)"
    "\<exists>N. set (snd (snd P)) = set cs \<union> N \<and> set (bq_coords (fst P)) = set (bq_coords request) \<union> N"
    "item_ok request \<Longrightarrow> item_ok (fst P)" by blast+
qed

lemma parse_fold_props:
  "fst (fold (parse_ref_step forges) raws (request, derived, cs)) = fst (fold (parse_ref_step forges) raws (request, derived, cs2))
   \<and> fst (snd (fold (parse_ref_step forges) raws (request, derived, cs))) = fst (snd (fold (parse_ref_step forges) raws (request, derived, cs2)))
   \<and> (\<exists>N. set (snd (snd (fold (parse_ref_step forges) raws (request, derived, cs)))) = set cs \<union> N
        \<and> set (bq_coords (fst (fold (parse_ref_step forges) raws (request, derived, cs)))) = set (bq_coords request) \<union> N)
   \<and> (item_ok request \<longrightarrow> item_ok (fst (fold (parse_ref_step forges) raws (request, derived, cs))))"
proof (induction raws arbitrary: request derived cs cs2)
  case (Cons raw raws)
  obtain r1 d1 c1 where p: "parse_ref_step forges raw (request, derived, cs) = (r1, d1, c1)" by (metis prod_cases3)
  obtain c2 where q: "parse_ref_step forges raw (request, derived, cs2) = (r1, d1, c2)"
    using parse_ref_step_props(1,2) [of forges raw request derived cs cs2] p by (metis fst_conv prod.collapse snd_conv)
  obtain N1 where N1: "set c1 = set cs \<union> N1" "set (bq_coords r1) = set (bq_coords request) \<union> N1"
    using parse_ref_step_props(3) [of forges raw request derived cs] p by auto
  have ok: "item_ok request \<longrightarrow> item_ok r1" using parse_ref_step_props(4) [of request forges raw derived cs] p by auto
  obtain N2 where N2: "set (snd (snd (fold (parse_ref_step forges) raws (r1, d1, c1)))) = set c1 \<union> N2"
    "set (bq_coords (fst (fold (parse_ref_step forges) raws (r1, d1, c1)))) = set (bq_coords r1) \<union> N2" using Cons [of r1 d1 c1 c2] by blast
  have "\<exists>N. set (snd (snd (fold (parse_ref_step forges) raws (r1, d1, c1)))) = set cs \<union> N
      \<and> set (bq_coords (fst (fold (parse_ref_step forges) raws (r1, d1, c1)))) = set (bq_coords request) \<union> N"
    using N1 N2 by (intro exI [of _ "N1 \<union> N2"]) auto
  moreover have "item_ok request \<longrightarrow> item_ok (fst (fold (parse_ref_step forges) raws (r1, d1, c1)))" using Cons [of r1 d1 c1 c2] ok by blast
  moreover note Cons [of r1 d1 c1 c2]
  ultimately show ?case by (simp only: fold_simps comp_apply p q fold.simps simp_thms)
qed auto

lemma parseRefRequest_props:
  obtains cs' where "parseRefRequest forges refsIn cs = (fst (parsed_request forges refsIn), snd (parsed_request forges refsIn), cs')"
    "set cs' = set cs \<union> set (bq_coords (fst (parsed_request forges refsIn)))"
proof -
  let ?r0 = "\<lparr>bq_parsed = [], bq_task_refs = [], bq_coords = []\<rparr>"
  let ?P = "fold (parse_ref_step forges) refsIn (?r0, [], cs)" and ?Q = "fold (parse_ref_step forges) refsIn (?r0, [], [])"
  have q: "parsed_request forges refsIn = (fst ?Q, fst (snd ?Q))" by (simp add: parsed_request_def parseRefRequest_def case_prod_beta)
  note f = parse_fold_props [of forges refsIn ?r0 "[]" cs "[]"]
  then have "parseRefRequest forges refsIn cs = (fst (parsed_request forges refsIn), snd (parsed_request forges refsIn), snd (snd ?P))"
    by (simp add: parseRefRequest_def q prod_eq_iff)
  moreover have "set (snd (snd ?P)) = set cs \<union> set (bq_coords (fst (parsed_request forges refsIn)))" using f by (auto simp: q)
  ultimately show thesis by (rule that)
qed

lemma parsed_request_ok: "item_ok (fst (parsed_request forges refsIn))"
proof -
  have "item_ok \<lparr>bq_parsed = [], bq_task_refs = [], bq_coords = []\<rparr>" by (simp add: item_ok_def)
  then have "item_ok (fst (fold (parse_ref_step forges) refsIn (\<lparr>bq_parsed = [], bq_task_refs = [], bq_coords = []\<rparr>, [], [])))"
    using parse_fold_props by blast
  then show ?thesis by (simp add: parsed_request_def parseRefRequest_def case_prod_beta)
qed

lemma parse_requests_props:
  "fst (parse_requests forges reqs cs) = map (\<lambda>req. parsed_request forges (rq_refs req)) reqs
   \<and> set (snd (parse_requests forges reqs cs)) = set cs \<union> (\<Union>req \<in> set reqs. set (bq_coords (fst (parsed_request forges (rq_refs req)))))"
proof (induction reqs rule: rev_induct)
  case (snoc req reqs)
  obtain cs' where c: "parseRefRequest forges (rq_refs req) (snd (parse_requests forges reqs cs))
      = (fst (parsed_request forges (rq_refs req)), snd (parsed_request forges (rq_refs req)), cs')"
    "set cs' = set (snd (parse_requests forges reqs cs)) \<union> set (bq_coords (fst (parsed_request forges (rq_refs req))))"
    by (rule parseRefRequest_props)
  have "parse_requests forges (reqs @ [req]) cs = (fst (parse_requests forges reqs cs) @ [parsed_request forges (rq_refs req)], cs')"
    using c(1) by (simp add: parse_requests_def case_prod_beta)
  with snoc c(2) show ?case by auto
qed (simp add: parse_requests_def)

subsection \<open>The reads of the batch\<close>

lemma by_agent_get: "gm_getz [] (by_agent rows) agent = map snd (filter (\<lambda>(a, _). a = agent) rows)"
  by (induction rows rule: rev_induct) (auto simp: by_agent_def)

lemma fold_put_get: "gm_getz z (fold (\<lambda>a m. gm_put a (f a) m) agents m0) b = (if b \<in> set agents then f b else gm_getz z m0 b)"
  by (induction agents arbitrary: m0) auto

lemma normalizeCoords_id:
  assumes "\<forall>c \<in> set cs. coord_valid c \<and> Normalized c = c"
  shows "\<exists>want. normalizeCoords cs = Inr want \<and> set want = set cs"
proof -
  have m: "map Normalized cs = cs" using assms by (simp add: map_idI)
  have "set (fold addCoord cs []) = set cs" using set_fold_addCoord [of "\<lambda>c. c" cs "[]"] by simp
  then show ?thesis using assms by (simp add: normalizeCoords_def m list_all_iff)
qed

lemma reads_of_batch:
  assumes cs: "\<forall>c \<in> set cs. coord_valid c \<and> Normalized c = c" and ag: "agents \<noteq> []" "[] \<notin> set agents"
  shows "PullRequestsByCoords tb cs = Inr (filter (\<lambda>p. Normalized (prr_coord p) \<in> set cs) (rt_prs tb))"
    and "IssuesByCoords tb cs = Inr (filter (\<lambda>i. issueCoord i \<in> set cs) (rt_issues tb))"
    and "\<exists>m. AuthoredCoordsForAgents tb agents cs = Inr m \<and> (\<forall>a \<in> set agents. authoredKeys (gm_getz [] m a) = owned_of tb (set cs) a)"
    and "\<exists>m. OpenAuthoredRefsForAgents tb agents = Inr m \<and> (\<forall>a \<in> set agents. gm_getz [] m a = open_of tb a)"
proof -
  obtain want where w: "normalizeCoords cs = Inr want" "set want = set cs" using normalizeCoords_id [OF cs] by blast
  have e: "want = [] \<longleftrightarrow> set cs = {}" using w(2) by auto
  show "PullRequestsByCoords tb cs = Inr (filter (\<lambda>p. Normalized (prr_coord p) \<in> set cs) (rt_prs tb))"
    and "IssuesByCoords tb cs = Inr (filter (\<lambda>i. issueCoord i \<in> set cs) (rt_issues tb))"
    by (simp_all add: PullRequestsByCoords_def IssuesByCoords_def w e)
  have f: "filter (\<lambda>(b, _). b = a) (filter (\<lambda>(agent, r). agent \<in> set agents \<and> P r) xs) = filter (\<lambda>(b, r). b = a \<and> P r) xs"
    if "a \<in> set agents" for a P and xs :: "(string \<times> AuthoredRef) list" using that by (induction xs) auto
  show "\<exists>m. OpenAuthoredRefsForAgents tb agents = Inr m \<and> (\<forall>a \<in> set agents. gm_getz [] m a = open_of tb a)"
    using ag by (simp add: OpenAuthoredRefsForAgents_def by_agent_get f open_of_def del: filter_filter)
  show "\<exists>m. AuthoredCoordsForAgents tb agents cs = Inr m \<and> (\<forall>a \<in> set agents. authoredKeys (gm_getz [] m a) = owned_of tb (set cs) a)"
    using ag by (simp add: AuthoredCoordsForAgents_def w e by_agent_get f owned_of_def authoredKeys_def del: filter_filter)
qed

lemma load_batch:
  assumes ag: "agents \<noteq> []" "[] \<notin> set agents" "set agents = rq_agent ` set reqs"
    and cs0: "\<forall>c \<in> set cs0. coord_valid c \<and> Normalized c = c"
    and tb: "\<forall>ar \<in> set (rt_authored tb). coord_valid (Normalized (au_coord (snd ar)))"
  defines "A \<equiv> set cs0 \<union> (\<Union>req \<in> set reqs. (\<lambda>r. Normalized (au_coord r)) ` set (open_of tb (rq_agent req)))"
  obtains rows where "loadBatchRows decode tb agents reqs requests cs0
      = Inr (rows, map2 (\<lambda>req. add_open (open_of tb (rq_agent req))) reqs requests)"
    "rw_prs rows = fst (pr_index decode tb A)" "rw_bad rows = snd (pr_index decode tb A)" "rw_issues rows = issue_index tb A"
    "\<And>a. a \<in> set agents \<Longrightarrow> gm_getz [] (rw_open rows) a = open_of tb a"
    "\<And>a. a \<in> set agents \<Longrightarrow> gm_getz [] (rw_owned rows) a = owned_of tb A a"
    "\<And>a. a \<in> set agents \<Longrightarrow> gm_getz [] (rw_stacks rows) a = stacks_of decode tb A a"
proof -
  obtain om where om: "OpenAuthoredRefsForAgents tb agents = Inr om" "\<And>a. a \<in> set agents \<Longrightarrow> gm_getz [] om a = open_of tb a"
    using reads_of_batch(4) [OF cs0 ag(1,2)] by blast
  define cs where "cs = fold (\<lambda>req cs. fold (\<lambda>ref. addCoord (Normalized (au_coord ref))) (gm_getz [] om (rq_agent req)) cs) reqs cs0"
  have "set (fold (\<lambda>req cs. fold (\<lambda>ref. addCoord (Normalized (au_coord ref))) (f req) cs) rs c0)
      = set c0 \<union> (\<Union>req \<in> set rs. (\<lambda>r. Normalized (au_coord r)) ` set (f req))" for f :: "RefRequest \<Rightarrow> AuthoredRef list" and rs c0
    by (induction rs arbitrary: c0) (auto simp: set_fold_addCoord)
  then have "set cs = set cs0 \<union> (\<Union>req \<in> set reqs. (\<lambda>r. Normalized (au_coord r)) ` set (gm_getz [] om (rq_agent req)))" by (simp add: cs_def)
  also have "\<dots> = A" unfolding A_def using om(2) ag(3) by auto
  finally have A: "set cs = A" .
  have "coord_valid (Normalized (au_coord r))" if "r \<in> set (open_of tb a)" for r a using that tb by (auto simp: open_of_def)
  then have cv: "\<forall>c \<in> set cs. coord_valid c \<and> Normalized c = c" using cs0 unfolding A A_def by auto
  note rd = reads_of_batch(1,2) [OF cv ag(1,2), of tb, unfolded A]
  obtain m where m: "AuthoredCoordsForAgents tb agents cs = Inr m" "\<And>a. a \<in> set agents \<Longrightarrow> authoredKeys (gm_getz [] m a) = owned_of tb A a"
    using reads_of_batch(3) [OF cv ag(1,2), of tb] A by blast
  let ?ps = "filter (\<lambda>p. Normalized (prr_coord p) \<in> A) (rt_prs tb)"
  let ?rows = "\<lparr>rw_open = om, rw_owned = fold (\<lambda>agent owned. gm_put agent (authoredKeys (gm_getz [] m agent)) owned) agents [],
      rw_prs = fst (pr_index decode tb A), rw_bad = snd (pr_index decode tb A), rw_stacks = agentStacks agents om ?ps (fst (pr_index decode tb A)),
      rw_issues = issue_index tb A\<rparr>"
  have req: "map2 (\<lambda>req request. add_open (gm_getz [] om (rq_agent req)) request) reqs requests
      = map2 (\<lambda>req. add_open (open_of tb (rq_agent req))) reqs requests"
    using om(2) ag(3) by (auto dest: set_zip_leftD)
  have load: "loadBatchRows decode tb agents reqs requests cs0 = Inr (?rows, map2 (\<lambda>req. add_open (open_of tb (rq_agent req))) reqs requests)"
    by (simp add: loadBatchRows_def om(1) Let_def req m(1) rd pr_index_def issue_index_def case_prod_beta flip: cs_def)
  show thesis
    by (rule that [OF load]) (use om(2) m(2) in \<open>simp_all add: fold_put_get agentStacks_def stacks_of_def\<close>)
qed

lemma owned_mem: "(c, k) \<in> set (owned_of tb S a) \<longleftrightarrow> c \<in> S \<and> (\<exists>r. (a, r) \<in> set (rt_authored tb) \<and> c = Normalized (au_coord r) \<and> k = boardRefKind (au_kind r))"
  by (force simp: owned_of_def authoredKeys_def)

lemma rows_for_get:
  "gm_getz [] (rw_open (rows_for decode tb S a)) a = open_of tb a" "gm_getz [] (rw_owned (rows_for decode tb S a)) a = owned_of tb S a"
  "gm_getz [] (rw_stacks (rows_for decode tb S a)) a = stacks_of decode tb S a"
  by (simp_all add: rows_for_def gm_getz_def)

section \<open>Properties\<close>

lemma batch_one:
  assumes agents: "\<forall>req \<in> set reqs. rq_agent req \<noteq> []" and tb: "\<forall>ar \<in> set (rt_authored tb). coord_valid (Normalized (au_coord (snd ar)))"
  shows "DeriveRefsBatch decode tb forges reqs = map (derive_one decode tb forges) reqs"
proof (cases "reqs = []")
  case True
  then show ?thesis by (simp add: DeriveRefsBatch_def parse_requests_def loadBatchRows_def split: sum.split)
next
  case False
  define agents where "agents = fold (\<lambda>req as. if rq_agent req \<in> set as then as else as @ [rq_agent req]) reqs []"
  have "set (fold (\<lambda>req as. if rq_agent req \<in> set as then as else as @ [rq_agent req]) rs as) = set as \<union> rq_agent ` set rs" for rs :: "RefRequest list" and as
    by (induction rs arbitrary: as) auto
  then have set: "set agents = rq_agent ` set reqs" by (simp add: agents_def)
  have ag: "agents \<noteq> []" "[] \<notin> set agents" using False set agents by auto
  define cs0 where "cs0 = snd (parse_requests forges reqs [])"
  note pr = parse_requests_props [of forges reqs "[]"]
  have cs0: "\<forall>c \<in> set cs0. coord_valid c \<and> Normalized c = c"
    using pr parsed_request_ok [of forges] by (auto simp: cs0_def item_ok_def)
  let ?requests = "map (\<lambda>req. fst (parsed_request forges (rq_refs req))) reqs"
  let ?A = "set cs0 \<union> (\<Union>req \<in> set reqs. (\<lambda>r. Normalized (au_coord r)) ` set (open_of tb (rq_agent req)))"
  obtain rows where load: "loadBatchRows decode tb agents reqs ?requests cs0
        = Inr (rows, map2 (\<lambda>req. add_open (open_of tb (rq_agent req))) reqs ?requests)"
    and rows: "rw_prs rows = fst (pr_index decode tb ?A)" "rw_bad rows = snd (pr_index decode tb ?A)" "rw_issues rows = issue_index tb ?A"
      "\<And>a. a \<in> set agents \<Longrightarrow> gm_getz [] (rw_open rows) a = open_of tb a"
      "\<And>a. a \<in> set agents \<Longrightarrow> gm_getz [] (rw_owned rows) a = owned_of tb ?A a"
      "\<And>a. a \<in> set agents \<Longrightarrow> gm_getz [] (rw_stacks rows) a = stacks_of decode tb ?A a"
    by (rule load_batch [OF ag set cs0 tb, where decode = decode and requests = ?requests]) (rule that)
  have one: "batch_result rows (rq_agent req) (add_open (open_of tb (rq_agent req)) (fst (parsed_request forges (rq_refs req))))
      (snd (parsed_request forges (rq_refs req))) = derive_one decode tb forges req" if req: "req \<in> set reqs" for req
  proof -
    let ?a = "rq_agent req" and ?base = "fst (parsed_request forges (rq_refs req))"
    let ?r = "add_open (open_of tb ?a) ?base"
    let ?S = "set (bq_coords ?r)"
    have a: "?a \<in> set agents" using req set by simp
    have S: "?S = set (bq_coords ?base) \<union> (\<lambda>r. Normalized (au_coord r)) ` set (open_of tb ?a)" by (simp add: add_open_def set_fold_addCoord)
    have r0: "set (bq_coords ?base) \<subseteq> set cs0" using conjunct2 [OF pr] req unfolding cs0_def by blast
    have "(\<lambda>r. Normalized (au_coord r)) ` set (open_of tb ?a) \<subseteq> (\<Union>req \<in> set reqs. (\<lambda>r. Normalized (au_coord r)) ` set (open_of tb (rq_agent req)))"
      using req by blast
    with r0 have sub: "?S \<subseteq> ?A" by (simp only: S) blast
    have "fst ` set (authoredKeys (open_of tb ?a)) \<subseteq> ?S" by (auto simp: S authoredKeys_def)
    note st = stacks_restrict [OF this sub, of decode]
    have items: "pb_coord it \<in> ?S" if "Some it \<in> set (bq_parsed ?r)" for it
      using parsed_request_ok [of forges "rq_refs req"] that by (auto simp: item_ok_def add_open_def set_fold_addCoord)
    have "batch_result rows ?a ?r d = batch_result (rows_for decode tb ?S ?a) ?a ?r d" for d
    proof (rule batch_result_cong [OF refl items])
      show "filter (\<lambda>(c, _). c \<in> ?S) (rw_bad rows) = filter (\<lambda>(c, _). c \<in> ?S) (rw_bad (rows_for decode tb ?S ?a))"
        using pr_index_restrict(2) [OF sub, of decode tb] pr_index_restrict(2) [OF subset_refl, of ?S decode tb]
        by (simp only: rows rows_for_def batchRows.select_convs)
    next
      fix c assume c: "c \<in> ?S"
      show "gm_get (rw_prs rows) c = gm_get (rw_prs (rows_for decode tb ?S ?a)) c"
        using pr_index_restrict(1) [OF sub, of decode tb] get_restrict [OF c, of "fst (pr_index decode tb ?A)"]
        by (simp only: rows rows_for_def batchRows.select_convs)
      show "gm_get (rw_issues rows) c = gm_get (rw_issues (rows_for decode tb ?S ?a)) c"
        using issue_index_restrict [OF sub, of tb] get_restrict [OF c, of "issue_index tb ?A"]
        by (simp only: rows rows_for_def batchRows.select_convs)
      fix k
      show "(c, k) \<in> set (gm_getz [] (rw_owned rows) ?a) \<longleftrightarrow> (c, k) \<in> set (gm_getz [] (rw_owned (rows_for decode tb ?S ?a)) ?a)"
        using c subsetD [OF sub c] by (simp only: rows(5) [OF a] rows_for_get owned_mem simp_thms)
    qed (simp_all only: rows(4,6) [OF a] rows_for_get st)
    then show ?thesis by (simp add: derive_one_def case_prod_beta Let_def)
  qed
  have "DeriveRefsBatch decode tb forges reqs = map2 (\<lambda>req (request, derived). batch_result rows (rq_agent req) request derived) reqs
      (zip (map2 (\<lambda>req. add_open (open_of tb (rq_agent req))) reqs ?requests) (map (\<lambda>req. snd (parsed_request forges (rq_refs req))) reqs))"
    using load pr by (simp add: DeriveRefsBatch_def case_prod_beta Let_def comp_def flip: agents_def cs0_def)
  also have "\<dots> = map (\<lambda>req. batch_result rows (rq_agent req) (add_open (open_of tb (rq_agent req)) (fst (parsed_request forges (rq_refs req))))
      (snd (parsed_request forges (rq_refs req)))) reqs"
    by (intro nth_equalityI) simp_all
  also have "\<dots> = map (derive_one decode tb forges) reqs" using one by simp
  finally show ?thesis .
qed

text \<open>C12: a batch is its requests. The references derived for many agents in one batch, with one read per row type
  over the union of all coordinates, are for every request what deriving it alone gives: no request sees the
  rows, the ownership, the stacks or the undecodable pull requests of another.\<close>

theorem batch_is_pointwise:
  assumes "\<forall>req \<in> set reqs. rq_agent req \<noteq> []" and "\<forall>ar \<in> set (rt_authored tb). coord_valid (Normalized (au_coord (snd ar)))"
  shows "DeriveRefsBatch decode tb forges reqs = map (\<lambda>req. DeriveRefs decode tb forges (rq_agent req) (rq_refs req)) reqs"
proof -
  have "DeriveRefs decode tb forges (rq_agent req) (rq_refs req) = derive_one decode tb forges req" if "req \<in> set reqs" for req
  proof -
    have "\<forall>r \<in> set [\<lparr>rq_agent = rq_agent req, rq_refs = rq_refs req\<rparr>]. rq_agent r \<noteq> []" using assms(1) that by simp
    from batch_one [OF this assms(2), of decode forges] show ?thesis by (cases req) (simp add: DeriveRefs_def)
  qed
  then show ?thesis using batch_one [OF assms, of decode forges] by simp
qed

definition demo_ref_tables :: ref_tables where
  "demo_ref_tables = \<lparr>rt_authored = [(''bob'', \<lparr>au_coord = \<lparr>fc_provider = ForgeProviderGitHub, fc_host = ''github.com'', fc_repo = ''o/r'', fc_number = 2\<rparr>,
       au_kind = ForgeArtifactKindPullRequest\<rparr>)],
     rt_prs = [\<lparr>prr_coord = \<lparr>fc_provider = ForgeProviderGitHub, fc_host = ''github.com'', fc_repo = ''o/r'', fc_number = 2\<rparr>, prr_state = ''open'',
       prr_updated = None, prr_body = ''x''\<rparr>], rt_issues = []\<rparr>"

theorem batch_is_pointwise_witness:
  "DeriveRefsBatch (\<lambda>_. None) demo_ref_tables \<lparr>GitHubHost = ''github.com'', LinearHost = [], LinearTeams = []\<rparr>
     [\<lparr>rq_agent = ''bob'', rq_refs = []\<rparr>, \<lparr>rq_agent = ''ada'', rq_refs = [''RIG-7'']\<rparr>]
   = [DeriveRefs (\<lambda>_. None) demo_ref_tables \<lparr>GitHubHost = ''github.com'', LinearHost = [], LinearTeams = []\<rparr> ''bob'' [],
      DeriveRefs (\<lambda>_. None) demo_ref_tables \<lparr>GitHubHost = ''github.com'', LinearHost = [], LinearTeams = []\<rparr> ''ada'' [''RIG-7'']]"
proof -
  have "coord_valid (Normalized \<lparr>fc_provider = ForgeProviderGitHub, fc_host = ''github.com'', fc_repo = ''o/r'', fc_number = 2\<rparr>)" by code_simp
  then show ?thesis
    using batch_is_pointwise [of "[\<lparr>rq_agent = ''bob'', rq_refs = []\<rparr>, \<lparr>rq_agent = ''ada'', rq_refs = [''RIG-7'']\<rparr>]" demo_ref_tables]
    by (simp add: demo_ref_tables_def)
qed

end
