(* ===== verification/Runner_Wire.thy ===== *)
theory Runner_Wire
  imports Comms_Types
begin

text \<open>
  The messages of the stream between Server and Runner, \<open>src/proto/compass/v1/runner.proto\<close>: the commands the Server pushes,
  the results the Runner returns, and the errors of a failed command. A payload the relay
  carries without reading it is a string.
\<close>

datatype RunnerErrorCode = CodeUnspecified | CodeAlreadyRunning | CodeNotFound | CodeInternal
  | CodeResourceExhausted | CodeFailedPrecondition

record RunnerError =
  re_code :: RunnerErrorCode
  re_message :: string

record AgentSessionStatus =
  ss_session_id :: string
  ss_state :: agent_session_state

record StartAgentSessionRequest =
  start_container_name :: string
  start_resume_session_id :: string

record DispatchControl =
  dc_session_id :: string
  dc_op :: string

text \<open>The command of a frame; a frame may also carry none.\<close>

datatype session_command =
    SessionsResponse_Start StartAgentSessionRequest
  | SessionsResponse_Stop string
  | SessionsResponse_Reload string
  | SessionsResponse_Status string
  | SessionsResponse_Provision string
  | SessionsResponse_ForgeNotification string
  | SessionsResponse_SecretsVersion string string
  | SessionsResponse_ConfigVersion
  | SessionsResponse_Remove string
  | SessionsResponse_DeliverControl DispatchControl

record SessionsResponse =
  sr_request_id :: string
  sr_command :: "session_command option"
  sr_resume_body :: string
  sr_fresh_session_id :: string
  sr_agent_account_id :: string
  sr_traceparent :: string

datatype session_result =
    SessionsRequest_Start string
  | SessionsRequest_Stop
  | SessionsRequest_Reload string
  | SessionsRequest_Status "AgentSessionStatus list"
  | SessionsRequest_Provision string
  | SessionsRequest_Remove
  | SessionsRequest_Error RunnerError

record SessionsRequest =
  rq_request_id :: string
  rq_result :: "session_result option"

definition GetError :: "SessionsRequest \<Rightarrow> RunnerError option" where
  "GetError q = (case rq_result q of Some (SessionsRequest_Error e) \<Rightarrow> Some e | _ \<Rightarrow> None)"

text \<open>\<open>cmd.GetDeliverControl().GetSessionId()\<close>: empty for any other command.\<close>

definition deliver_session :: "SessionsResponse \<Rightarrow> string" where
  "deliver_session cmd = (case sr_command cmd of Some (SessionsResponse_DeliverControl d) \<Rightarrow> dc_session_id d | _ \<Rightarrow> [])"

end
