(* ===== verification/Op_System.thy ===== *)
theory Op_System
  imports Main
begin

text \<open>
  Runs of operations. A component whose goroutines interleave is a function \<open>exec\<close> from an operation and a state to
  the next state; \<open>ok\<close> says when an operation may happen (an identifier drawn at random is fresh, an input comes from
  the component that produces it). The locale is the contract the components' invariants are proved against: every admitted
  operation keeps the invariant, hence so does every run.
\<close>

inductive reaches :: "('op \<Rightarrow> 's \<Rightarrow> bool) \<Rightarrow> ('op \<Rightarrow> 's \<Rightarrow> 's) \<Rightarrow> 's \<Rightarrow> 's \<Rightarrow> bool" for ok exec s where
  reaches_refl: "reaches ok exec s s"
| reaches_step: "reaches ok exec s t \<Longrightarrow> ok op t \<Longrightarrow> reaches ok exec s (exec op t)"

lemma reaches_trans: "reaches ok exec t u \<Longrightarrow> reaches ok exec s t \<Longrightarrow> reaches ok exec s u"
  by (induction rule: reaches.induct) (auto intro: reaches_step)

fun admitted :: "('op \<Rightarrow> 's \<Rightarrow> bool) \<Rightarrow> ('op \<Rightarrow> 's \<Rightarrow> 's) \<Rightarrow> 'op list \<Rightarrow> 's \<Rightarrow> bool" where
  "admitted ok exec [] s \<longleftrightarrow> True"
| "admitted ok exec (op # ops) s \<longleftrightarrow> ok op s \<and> admitted ok exec ops (exec op s)"

lemma reaches_fold: "admitted ok exec ops s \<Longrightarrow> reaches ok exec s (fold exec ops s)"
proof (induction ops arbitrary: s)
  case (Cons op ops)
  then have "reaches ok exec (exec op s) (fold exec (op # ops) s)" by simp
  moreover have "reaches ok exec s (exec op s)" using Cons.prems by (auto intro: reaches_step [OF reaches_refl])
  ultimately show ?case by (rule reaches_trans)
qed (simp add: reaches_refl)

lemma admitted_True: "admitted (\<lambda>_ _. True) exec ops s"
  by (induction ops arbitrary: s) simp_all

locale op_system =
  fixes ok :: "'op \<Rightarrow> 's \<Rightarrow> bool"
    and exec :: "'op \<Rightarrow> 's \<Rightarrow> 's"
    and inv :: "'s \<Rightarrow> bool"
  assumes step: "inv s \<Longrightarrow> ok op s \<Longrightarrow> inv (exec op s)"
begin

lemma reaches_inv: "reaches ok exec s t \<Longrightarrow> inv s \<Longrightarrow> inv t"
  by (induction rule: reaches.induct) (auto intro: step)

lemma run_inv: "inv s \<Longrightarrow> admitted ok exec ops s \<Longrightarrow> inv (fold exec ops s)"
  by (rule reaches_inv [OF reaches_fold])

end

locale free_system = op_system "\<lambda>_ _. True" exec inv
  for exec :: "'op \<Rightarrow> 's \<Rightarrow> 's" and inv
begin

lemma fold_inv: "inv s \<Longrightarrow> inv (fold exec ops s)"
  by (rule run_inv) (simp_all add: admitted_True)

end

end
