(* ===== verification/Runner_Router.thy ===== *)
theory Runner_Router
  imports Runner_Wire Op_System "HOL-Library.Multiset"
begin

text \<open>
  The session-command router of the runner hub, \<open>src/go/internal/runnerhub/router.go\<close>: commands to a Runner are
  queued on the sender of the live stream, a blocking command registers a pending call its result is
  correlated with by request id, and a delivery is remembered so that its refusal is seen.

  Pending calls and senders are Go pointers that outlive the maps naming them (every retrier waits
  on the same call, a detached sender drains its queue), so they are cells of a heap. Every critical
  section under \<open>mu\<close> is one operation; the sender goroutine of an attachment and a completion
  that has left the critical section but not yet closed the call are steps of their own, so every
  interleaving of the goroutines is a sequence of operations. \<open>cr_panic\<close> records a double close of
  a channel or a send on a closed one. \<open>ss_accepted\<close> and \<open>ss_wire\<close> are histories: what a queue took and
  what the stream sent.

  The bounded cache of refusals is a third-party library; its operations are the parameter
  \<open>lru_ops\<close>, and \<open>lru_laws\<close> is its documented behaviour.
\<close>

section \<open>Data\<close>

datatype frameClass = frameDeliver | frameSignal | frameCommand

record deliverRefusal =
  dr_sessionID :: string
  dr_traceparent :: string

record outFrame =
  of_cmd :: SessionsResponse
  of_class :: frameClass

record senderState =
  ss_queue :: "outFrame list"
  ss_closed :: bool
  ss_sending :: "outFrame option"
  ss_done :: bool
  ss_accepted :: "outFrame list"
  ss_wire :: "outFrame list"

datatype router_error = RequiresRequestID frameClass | NoSessionsStream frameClass string
  | SendQueueFull frameClass string | PushFailed string string | Detached string

record pendingCall =
  pc_done :: bool
  pc_result :: "SessionsRequest option"
  pc_err :: "router_error option"

definition sendQueueCap :: nat where
  "sendQueueCap = 256"

definition deliverRefusalsMax :: nat where
  "deliverRefusalsMax = 16384"

record 'l lru_ops =
  lru_NewLRU :: "nat \<Rightarrow> 'l"
  lru_Add :: "string \<Rightarrow> deliverRefusal \<Rightarrow> 'l \<Rightarrow> 'l"
  lru_Remove :: "string \<Rightarrow> 'l \<Rightarrow> 'l"
  lru_Peek :: "'l \<Rightarrow> string \<Rightarrow> deliverRefusal option"

record 'l commandRouter =
  cr_sender :: "nat option"
  cr_senders :: "senderState list"
  cr_inflight :: "(string, nat) gomap"
  cr_calls :: "pendingCall list"
  cr_refusals :: 'l
  cr_refused :: "64 word"
  cr_onUnknown :: bool
  cr_completing :: "(nat \<times> SessionsRequest) list"
  cr_lost :: "(string \<times> string) list"
  cr_panic :: bool

section \<open>Operations\<close>

definition newCommandRouter :: "'l lru_ops \<Rightarrow> 'l commandRouter" where
  "newCommandRouter L = \<lparr>cr_sender = None, cr_senders = [], cr_inflight = [], cr_calls = [],
     cr_refusals = lru_NewLRU L deliverRefusalsMax, cr_refused = 0, cr_onUnknown = False,
     cr_completing = [], cr_lost = [], cr_panic = False\<rparr>"

definition RefusedDelivers :: "'l commandRouter \<Rightarrow> 64 word" where
  "RefusedDelivers r = cr_refused r"

definition newSender :: senderState where
  "newSender = \<lparr>ss_queue = [], ss_closed = False, ss_sending = None, ss_done = False,
     ss_accepted = [], ss_wire = []\<rparr>"

definition attach :: "'l commandRouter \<Rightarrow> 'l commandRouter" where
  "attach r = r\<lparr>cr_senders := cr_senders r @ [newSender], cr_sender := Some (length (cr_senders r))\<rparr>"

definition setSessionUnknown :: "'l commandRouter \<Rightarrow> 'l commandRouter" where
  "setSessionUnknown r = r\<lparr>cr_onUnknown := True\<rparr>"

text \<open>Closing the channel of a pending call, with what its waiters will read.\<close>

definition close_call :: "nat \<Rightarrow> SessionsRequest option \<Rightarrow> router_error option \<Rightarrow> 'l commandRouter \<Rightarrow> 'l commandRouter" where
  "close_call c res e r =
    (let call = cr_calls r ! c
     in r\<lparr>cr_calls := (cr_calls r)[c := \<lparr>pc_done = True, pc_result = (if res = None then pc_result call else res),
            pc_err = (if e = None then pc_err call else e)\<rparr>],
          cr_panic := cr_panic r \<or> pc_done call\<rparr>)"

definition close_queue :: "'l commandRouter \<Rightarrow> 'l commandRouter" where
  "close_queue r = (case cr_sender r of None \<Rightarrow> r
     | Some i \<Rightarrow> r\<lparr>cr_senders := (cr_senders r)[i := (cr_senders r ! i)\<lparr>ss_closed := True\<rparr>],
                   cr_panic := cr_panic r \<or> ss_closed (cr_senders r ! i)\<rparr>)"

definition detach :: "string \<Rightarrow> 'l commandRouter \<Rightarrow> 'l commandRouter" where
  "detach cause r =
    (let r1 = (close_queue r)\<lparr>cr_sender := None\<rparr>;
         r2 = fold (\<lambda>(_, c). close_call c None (Some (Detached cause))) (cr_inflight r1) r1
     in r2\<lparr>cr_inflight := []\<rparr>)"

definition enqueue :: "outFrame \<Rightarrow> 'l commandRouter \<Rightarrow> 'l commandRouter \<times> bool" where
  "enqueue f r = (case cr_sender r of None \<Rightarrow> (r, False)
     | Some i \<Rightarrow>
        (let s = cr_senders r ! i
         in if ss_closed s then (r\<lparr>cr_panic := True\<rparr>, False)
            else if length (ss_queue s) < sendQueueCap
            then (r\<lparr>cr_senders := (cr_senders r)[i := s\<lparr>ss_queue := ss_queue s @ [f], ss_accepted := ss_accepted s @ [f]\<rparr>]\<rparr>, True)
            else (r, False)))"

text \<open>The steps of \<open>runSender\<close>: taking the next frame, a send that succeeded, a send that failed, and the
  end of a closed and drained queue.\<close>

definition sender_take :: "nat \<Rightarrow> 'l commandRouter \<Rightarrow> 'l commandRouter" where
  "sender_take i r =
    (let s = cr_senders r ! i
     in if i < length (cr_senders r) \<and> \<not> ss_done s \<and> ss_sending s = None
        then (case ss_queue s of [] \<Rightarrow> r
              | f # fs \<Rightarrow> r\<lparr>cr_senders := (cr_senders r)[i := s\<lparr>ss_queue := fs, ss_sending := Some f\<rparr>]\<rparr>)
        else r)"

definition sender_sent :: "nat \<Rightarrow> 'l commandRouter \<Rightarrow> 'l commandRouter" where
  "sender_sent i r =
    (let s = cr_senders r ! i
     in if i < length (cr_senders r)
        then (case ss_sending s of None \<Rightarrow> r
              | Some f \<Rightarrow> r\<lparr>cr_senders := (cr_senders r)[i := s\<lparr>ss_sending := None, ss_wire := ss_wire s @ [f]\<rparr>]\<rparr>)
        else r)"

definition failFrameOnSendError :: "'l lru_ops \<Rightarrow> outFrame \<Rightarrow> string \<Rightarrow> 'l commandRouter \<Rightarrow> 'l commandRouter" where
  "failFrameOnSendError L f err r =
    (let id = sr_request_id (of_cmd f)
     in case of_class f of
          frameCommand \<Rightarrow> (case gm_get (cr_inflight r) id of None \<Rightarrow> r
             | Some c \<Rightarrow> (close_call c None (Some (PushFailed id err)) r)\<lparr>cr_inflight := gm_del id (cr_inflight r)\<rparr>)
        | frameDeliver \<Rightarrow> r\<lparr>cr_refusals := lru_Remove L id (cr_refusals r)\<rparr>
        | frameSignal \<Rightarrow> r)"

definition sender_fail :: "'l lru_ops \<Rightarrow> nat \<Rightarrow> string \<Rightarrow> 'l commandRouter \<Rightarrow> 'l commandRouter" where
  "sender_fail L i err r =
    (let s = cr_senders r ! i
     in if i < length (cr_senders r)
        then (case ss_sending s of None \<Rightarrow> r
              | Some f \<Rightarrow> failFrameOnSendError L f err
                  (r\<lparr>cr_senders := (cr_senders r)[i := s\<lparr>ss_sending := None, ss_done := True\<rparr>]\<rparr>))
        else r)"

definition sender_exit :: "nat \<Rightarrow> 'l commandRouter \<Rightarrow> 'l commandRouter" where
  "sender_exit i r =
    (let s = cr_senders r ! i
     in if i < length (cr_senders r) \<and> ss_closed s \<and> ss_queue s = [] \<and> ss_sending s = None
        then r\<lparr>cr_senders := (cr_senders r)[i := s\<lparr>ss_done := True\<rparr>]\<rparr> else r)"

text \<open>\<open>dispatch\<close> up to its wait: an error at once, or the call to wait on.\<close>

definition dispatch :: "SessionsResponse \<Rightarrow> 'l commandRouter \<Rightarrow> 'l commandRouter \<times> (router_error + nat)" where
  "dispatch cmd r =
    (let id = sr_request_id cmd
     in if id = [] then (r, Inl (RequiresRequestID frameCommand))
        else case gm_get (cr_inflight r) id of Some existing \<Rightarrow> (r, Inr existing)
        | None \<Rightarrow>
           (case cr_sender r of None \<Rightarrow> (r, Inl (NoSessionsStream frameCommand id))
            | Some _ \<Rightarrow>
               (let call = length (cr_calls r);
                    r1 = r\<lparr>cr_calls := cr_calls r @ [\<lparr>pc_done = False, pc_result = None, pc_err = None\<rparr>],
                           cr_inflight := gm_put id call (cr_inflight r)\<rparr>;
                    (r2, ok) = enqueue \<lparr>of_cmd = cmd, of_class = frameCommand\<rparr> r1
                in if ok then (r2, Inr call)
                   else (r2\<lparr>cr_inflight := gm_del id (cr_inflight r2), cr_calls := cr_calls r\<rparr>,
                         Inl (SendQueueFull frameCommand id)))))"

text \<open>The wait: the outcome of a closed call; \<open>None\<close> while it is open, where only the caller's context ends the wait.\<close>

definition waitCall :: "nat \<Rightarrow> 'l commandRouter \<Rightarrow> (SessionsRequest option \<times> router_error option) option" where
  "waitCall c r = (let call = cr_calls r ! c in if pc_done call then Some (pc_result call, pc_err call) else None)"

definition push :: "SessionsResponse \<Rightarrow> 'l commandRouter \<Rightarrow> 'l commandRouter" where
  "push cmd r = fst (enqueue \<lparr>of_cmd = cmd, of_class = frameSignal\<rparr> r)"

definition send1 :: "'l lru_ops \<Rightarrow> SessionsResponse \<Rightarrow> 'l commandRouter \<Rightarrow> 'l commandRouter \<times> (router_error + unit)" where
  "send1 L cmd r =
    (let id = sr_request_id cmd
     in if id = [] then (r, Inl (RequiresRequestID frameDeliver))
        else case cr_sender r of None \<Rightarrow> (r, Inl (NoSessionsStream frameDeliver id))
        | Some _ \<Rightarrow>
           (let r1 = r\<lparr>cr_refusals := lru_Add L id \<lparr>dr_sessionID = deliver_session cmd, dr_traceparent = sr_traceparent cmd\<rparr> (cr_refusals r)\<rparr>;
                (r2, ok) = enqueue \<lparr>of_cmd = cmd, of_class = frameDeliver\<rparr> r1
            in if ok then (r2, Inr ())
               else (r2\<lparr>cr_refusals := lru_Remove L id (cr_refusals r2)\<rparr>, Inl (SendQueueFull frameDeliver id))))"

text \<open>\<open>complete\<close> under the lock, with what follows a refusal; the close of a correlated call comes after it.\<close>

definition complete :: "'l lru_ops \<Rightarrow> SessionsRequest \<Rightarrow> 'l commandRouter \<Rightarrow> 'l commandRouter" where
  "complete L result r =
    (let id = rq_request_id result
     in case gm_get (cr_inflight r) id of
          Some c \<Rightarrow> r\<lparr>cr_inflight := gm_del id (cr_inflight r), cr_completing := cr_completing r @ [(c, result)]\<rparr>
        | None \<Rightarrow>
           (let refusal = lru_Peek L (cr_refusals r) id;
                r1 = r\<lparr>cr_refusals := lru_Remove L id (cr_refusals r)\<rparr>
            in case refusal of None \<Rightarrow> r1
               | Some rf \<Rightarrow>
                  (let r2 = r1\<lparr>cr_refused := cr_refused r1 + 1\<rparr>
                   in case GetError result of None \<Rightarrow> r2
                      | Some e \<Rightarrow> if re_code e = CodeNotFound \<and> cr_onUnknown r \<and> dr_sessionID rf \<noteq> []
                          then r2\<lparr>cr_lost := cr_lost r2 @ [(dr_sessionID rf, dr_traceparent rf)]\<rparr> else r2)))"

definition complete_close :: "'l commandRouter \<Rightarrow> nat \<Rightarrow> 'l commandRouter" where
  "complete_close r k = (if k < length (cr_completing r)
     then (case cr_completing r ! k of (c, result) \<Rightarrow>
        (close_call c (Some result) None r)\<lparr>cr_completing := take k (cr_completing r) @ drop (k + 1) (cr_completing r)\<rparr>)
     else r)"

section \<open>Runs\<close>

datatype router_op = Attach | SetUnknown | Detach string | Dispatch SessionsResponse | Push SessionsResponse
  | Send1 SessionsResponse | Complete SessionsRequest | CompleteClose nat
  | SenderTake nat | SenderSent nat | SenderFail nat string | SenderExit nat

fun router_exec :: "'l lru_ops \<Rightarrow> router_op \<Rightarrow> 'l commandRouter \<Rightarrow> 'l commandRouter" where
  "router_exec L Attach r = attach r"
| "router_exec L SetUnknown r = setSessionUnknown r"
| "router_exec L (Detach cause) r = detach cause r"
| "router_exec L (Dispatch cmd) r = fst (dispatch cmd r)"
| "router_exec L (Push cmd) r = push cmd r"
| "router_exec L (Send1 cmd) r = fst (send1 L cmd r)"
| "router_exec L (Complete result) r = complete L result r"
| "router_exec L (CompleteClose k) r = complete_close r k"
| "router_exec L (SenderTake i) r = sender_take i r"
| "router_exec L (SenderSent i) r = sender_sent i r"
| "router_exec L (SenderFail i err) r = sender_fail L i err r"
| "router_exec L (SenderExit i) r = sender_exit i r"

abbreviation router_run :: "'l lru_ops \<Rightarrow> router_op list \<Rightarrow> 'l commandRouter \<Rightarrow> 'l commandRouter" where
  "router_run L ops r \<equiv> fold (router_exec L) ops r"

section \<open>The invariant\<close>

text \<open>The open calls are exactly those registered under a request id or handed to a completion, each once.\<close>

definition pending_calls :: "'l commandRouter \<Rightarrow> nat set" where
  "pending_calls r = {c. c < length (cr_calls r) \<and> \<not> pc_done (cr_calls r ! c)}"

definition owed_calls :: "'l commandRouter \<Rightarrow> nat multiset" where
  "owed_calls r = image_mset snd (mset (cr_inflight r)) + image_mset fst (mset (cr_completing r))"

definition call_ok :: "pendingCall \<Rightarrow> bool" where
  "call_ok c = (if pc_done c then (pc_result c = None) \<noteq> (pc_err c = None) else pc_result c = None \<and> pc_err c = None)"

definition sender_ok :: "senderState \<Rightarrow> bool" where
  "sender_ok s \<longleftrightarrow> length (ss_queue s) \<le> sendQueueCap \<and> (ss_done s \<longrightarrow> ss_sending s = None)
    \<and> (\<exists>mid. ss_accepted s = ss_wire s @ mid @ ss_queue s \<and> length mid \<le> 1
         \<and> (\<not> ss_done s \<longrightarrow> mid = (case ss_sending s of None \<Rightarrow> [] | Some f \<Rightarrow> [f])))"

definition router_inv :: "'l commandRouter \<Rightarrow> bool" where
  "router_inv r \<longleftrightarrow> \<not> cr_panic r
    \<and> (\<forall>i. cr_sender r = Some i \<longrightarrow> i < length (cr_senders r) \<and> \<not> ss_closed (cr_senders r ! i))
    \<and> gm_wf (cr_inflight r) \<and> owed_calls r = mset_set (pending_calls r)
    \<and> list_all call_ok (cr_calls r) \<and> list_all sender_ok (cr_senders r)"

lemma finite_pending [simp]: "finite (pending_calls r)"
  by (simp add: pending_calls_def)

lemma mset_del: "gm_wf m \<Longrightarrow> gm_get m k = Some v \<Longrightarrow> mset m = add_mset (k, v) (mset (gm_del k m))"
proof (induction m)
  case (Cons kv m)
  obtain k0 v0 where kv: "kv = (k0, v0)" by fastforce
  show ?case
  proof (cases "k0 = k")
    case True
    have "gm_del k m = m" using Cons.prems(1) kv True by (simp add: gm_wf_def delete_idem)
    then show ?thesis using Cons.prems(2) kv True by simp
  next
    case False
    then show ?thesis using Cons kv by (simp add: gm_wf_def)
  qed
qed simp

lemma close_call_frame [simp]:
  "cr_sender (close_call c res e r) = cr_sender r" "cr_senders (close_call c res e r) = cr_senders r"
  "cr_inflight (close_call c res e r) = cr_inflight r" "cr_completing (close_call c res e r) = cr_completing r"
  "cr_refusals (close_call c res e r) = cr_refusals r" "cr_refused (close_call c res e r) = cr_refused r"
  "length (cr_calls (close_call c res e r)) = length (cr_calls r)"
  by (simp_all add: close_call_def Let_def)

lemma close_call_nth:
  "c < length (cr_calls r) \<Longrightarrow> cr_calls (close_call c res e r) ! d =
    (if d = c then \<lparr>pc_done = True, pc_result = (if res = None then pc_result (cr_calls r ! c) else res),
        pc_err = (if e = None then pc_err (cr_calls r ! c) else e)\<rparr> else cr_calls r ! d)"
  by (auto simp: close_call_def Let_def nth_list_update)

lemma close_call_pending:
  assumes "c \<in> pending_calls r"
  shows "pending_calls (close_call c res e r) = pending_calls r - {c}" "cr_panic (close_call c res e r) = cr_panic r"
proof -
  have c: "c < length (cr_calls r)" "\<not> pc_done (cr_calls r ! c)" using assms by (simp_all add: pending_calls_def)
  show "pending_calls (close_call c res e r) = pending_calls r - {c}"
    using c by (auto simp: pending_calls_def close_call_nth)
  show "cr_panic (close_call c res e r) = cr_panic r" using c by (simp add: close_call_def Let_def)
qed

lemma close_call_ok:
  assumes "list_all call_ok (cr_calls r)" and "c \<in> pending_calls r" and "(res = None) \<noteq> (e = None)"
  shows "list_all call_ok (cr_calls (close_call c res e r))"
proof -
  have c: "c < length (cr_calls r)" "\<not> pc_done (cr_calls r ! c)" using assms(2) by (simp_all add: pending_calls_def)
  then have "call_ok (cr_calls r ! c)" using assms(1) by (simp add: list_all_length)
  then show ?thesis using assms(1,3) c by (auto simp: list_all_length close_call_nth call_ok_def)
qed

lemma mset_set_remove1: "finite A \<Longrightarrow> c \<in> A \<Longrightarrow> mset_set A = add_mset c (mset_set (A - {c}))"
  by (metis finite_Diff insert_Diff insert_Diff_single mset_set.insert_remove)

lemma mset_set_minus: "finite A \<Longrightarrow> mset_set A = add_mset c M \<Longrightarrow> c \<in> A \<and> mset_set (A - {c}) = M"
  by (metis add_mset_add_single add_mset_remove_trivial finite_set_mset_mset_set mset_set_remove1 union_single_eq_member)

text \<open>Releasing an owed call: whoever closes it takes it out of the owed calls.\<close>

lemma release_inv:
  assumes inv: "router_inv r" and owed: "owed_calls r = add_mset c (owed_calls r')"
    and eq: "cr_calls r' = cr_calls (close_call c res e r)" "cr_panic r' = cr_panic (close_call c res e r)"
      "cr_sender r' = cr_sender r" "gm_wf (cr_inflight r')"
    and send: "list_all sender_ok (cr_senders r')" "map ss_closed (cr_senders r') = map ss_closed (cr_senders r)"
    and one: "(res = None) \<noteq> (e = None)"
  shows "router_inv r'"
proof -
  have c: "c \<in> pending_calls r" "mset_set (pending_calls r - {c}) = owed_calls r'"
    using mset_set_minus [OF finite_pending, of r c "owed_calls r'"] inv owed by (simp_all add: router_inv_def)
  have p: "pending_calls r' = pending_calls r - {c}"
    using close_call_pending(1) [OF c(1)] by (simp add: pending_calls_def eq(1))
  have len: "length (cr_senders r') = length (cr_senders r)" using send(2) map_eq_imp_length_eq by blast
  have "ss_closed (cr_senders r' ! i) = ss_closed (cr_senders r ! i)" if "i < length (cr_senders r)" for i
    using that len send(2) by (metis nth_map)
  then have "\<forall>i. cr_sender r' = Some i \<longrightarrow> i < length (cr_senders r') \<and> \<not> ss_closed (cr_senders r' ! i)"
    using inv len eq(3) by (auto simp: router_inv_def)
  moreover have "list_all call_ok (cr_calls r')" using close_call_ok [OF _ c(1) one] inv by (simp add: eq(1) router_inv_def)
  moreover have "\<not> cr_panic r'" using close_call_pending(2) [OF c(1)] inv by (simp add: eq(2) router_inv_def)
  ultimately show ?thesis using c(2) p send(1) eq(4) by (simp add: router_inv_def)
qed

text \<open>Steps that touch no call only need the senders' part of the invariant.\<close>

lemma sender_inv:
  assumes inv: "router_inv r"
    and eq: "cr_calls r' = cr_calls r" "cr_inflight r' = cr_inflight r" "cr_completing r' = cr_completing r" "\<not> cr_panic r'"
    and send: "list_all sender_ok (cr_senders r')"
      "\<And>i. cr_sender r' = Some i \<Longrightarrow> i < length (cr_senders r') \<and> \<not> ss_closed (cr_senders r' ! i)"
  shows "router_inv r'"
  using inv eq send by (simp add: router_inv_def owed_calls_def pending_calls_def)

lemma nth_list_update': "xs[i := x] ! j = (if j = i \<and> i < length xs then x else xs ! j)"
  by (cases "i < length xs") (auto simp: list_update_beyond)

lemma sender_ok_update:
  "list_all sender_ok ss \<Longrightarrow> (i < length ss \<Longrightarrow> sender_ok s) \<Longrightarrow> list_all sender_ok (ss[i := s])"
  by (cases "i < length ss") (auto simp: list_all_length nth_list_update)

lemma sender_ok_nth: "list_all sender_ok ss \<Longrightarrow> i < length ss \<Longrightarrow> sender_ok (ss ! i)"
  by (simp add: list_all_length)

lemma inv_sender: "router_inv r \<Longrightarrow> cr_sender r = Some i \<Longrightarrow> i < length (cr_senders r) \<and> \<not> ss_closed (cr_senders r ! i) \<and> sender_ok (cr_senders r ! i)"
  by (simp add: router_inv_def sender_ok_nth)

lemma router_inv_new: "router_inv (newCommandRouter L)"
  by (simp add: router_inv_def newCommandRouter_def owed_calls_def pending_calls_def)

lemma router_inv_attach: "router_inv r \<Longrightarrow> router_inv (attach r)"
  by (rule sender_inv) (auto simp: attach_def router_inv_def newSender_def sender_ok_def)

lemma router_inv_unknown: "router_inv r \<Longrightarrow> router_inv (setSessionUnknown r)"
  by (rule sender_inv) (auto simp: setSessionUnknown_def router_inv_def)

lemma enqueue_cases:
  obtains (refused) "enqueue f r = (r, False)"
  | (panic) i where "cr_sender r = Some i" "ss_closed (cr_senders r ! i)"
  | (queued) i where "cr_sender r = Some i" "\<not> ss_closed (cr_senders r ! i)" "length (ss_queue (cr_senders r ! i)) < sendQueueCap"
      "enqueue f r = (r\<lparr>cr_senders := (cr_senders r)[i := (cr_senders r ! i)\<lparr>ss_queue := ss_queue (cr_senders r ! i) @ [f],
          ss_accepted := ss_accepted (cr_senders r ! i) @ [f]\<rparr>]\<rparr>, True)"
proof (cases "cr_sender r")
  case None
  then show ?thesis by (intro refused) (simp add: enqueue_def)
next
  case (Some i)
  show ?thesis
  proof (cases "ss_closed (cr_senders r ! i)")
    case True
    then show ?thesis by (rule panic [OF Some])
  next
    case False
    then show ?thesis using Some
      by (cases "length (ss_queue (cr_senders r ! i)) < sendQueueCap") (auto simp: enqueue_def Let_def intro: refused queued)
  qed
qed

lemma sender_ok_append:
  "sender_ok s \<Longrightarrow> length (ss_queue s) < sendQueueCap \<Longrightarrow> sender_ok (s\<lparr>ss_queue := ss_queue s @ [f], ss_accepted := ss_accepted s @ [f]\<rparr>)"
  by (auto simp: sender_ok_def)

lemma enqueue_frame [simp]:
  "cr_calls (fst (enqueue f r)) = cr_calls r" "cr_inflight (fst (enqueue f r)) = cr_inflight r"
  "cr_completing (fst (enqueue f r)) = cr_completing r" "cr_sender (fst (enqueue f r)) = cr_sender r"
  "cr_refusals (fst (enqueue f r)) = cr_refusals r" "cr_refused (fst (enqueue f r)) = cr_refused r"
  "cr_onUnknown (fst (enqueue f r)) = cr_onUnknown r" "cr_lost (fst (enqueue f r)) = cr_lost r"
  by (simp_all add: enqueue_def Let_def split: option.split)

lemma router_inv_enqueue:
  assumes "router_inv r" shows "router_inv (fst (enqueue f r))"
proof (cases rule: enqueue_cases [of f r])
  case refused
  then show ?thesis using assms by simp
next
  case (panic i)
  then show ?thesis using inv_sender [OF assms] by simp
next
  case (queued i)
  note ok = inv_sender [OF assms queued(1)]
  show ?thesis
  proof (rule sender_inv [OF assms])
    show "list_all sender_ok (cr_senders (fst (enqueue f r)))"
      using assms ok queued(3) by (auto simp: queued(4) router_inv_def intro!: sender_ok_update sender_ok_append)
    show "i' < length (cr_senders (fst (enqueue f r))) \<and> \<not> ss_closed (cr_senders (fst (enqueue f r)) ! i')"
      if "cr_sender (fst (enqueue f r)) = Some i'" for i'
      using that ok queued(1) by (simp add: queued(4))
    show "\<not> cr_panic (fst (enqueue f r))" using assms by (simp add: queued(4) router_inv_def)
  qed simp_all
qed

lemma router_inv_push: "router_inv r \<Longrightarrow> router_inv (push cmd r)"
  by (simp add: push_def router_inv_enqueue)

lemma router_inv_refusals: "router_inv r \<Longrightarrow> router_inv (r\<lparr>cr_refusals := l\<rparr>)"
  by (rule sender_inv) (auto simp: router_inv_def)

lemma router_inv_send1: "router_inv r \<Longrightarrow> router_inv (fst (send1 L cmd r))"
  by (auto simp: send1_def Let_def case_prod_beta router_inv_refusals router_inv_enqueue split: option.split)

lemma senders_nth_update:
  "router_inv r \<Longrightarrow> (sender_ok (cr_senders r ! i) \<Longrightarrow> sender_ok s) \<Longrightarrow> ss_closed s = ss_closed (cr_senders r ! i)
    \<Longrightarrow> router_inv (r\<lparr>cr_senders := (cr_senders r)[i := s]\<rparr>)"
  by (rule sender_inv, assumption)
    (auto simp: router_inv_def nth_list_update' intro!: sender_ok_update dest: sender_ok_nth)

lemma router_inv_take: "router_inv r \<Longrightarrow> router_inv (sender_take i r)"
  by (auto simp: sender_take_def Let_def split: list.split intro!: senders_nth_update) (auto simp: sender_ok_def)

lemma router_inv_sent: "router_inv r \<Longrightarrow> router_inv (sender_sent i r)"
  by (auto simp: sender_sent_def Let_def split: option.split intro!: senders_nth_update) (auto simp: sender_ok_def)

lemma router_inv_exit: "router_inv r \<Longrightarrow> router_inv (sender_exit i r)"
  by (auto simp: sender_exit_def Let_def intro!: senders_nth_update) (auto simp: sender_ok_def)

lemma router_inv_failed:
  assumes "router_inv r" shows "router_inv (failFrameOnSendError L f err r)"
proof (cases "of_class f")
  case frameCommand
  show ?thesis
  proof (cases "gm_get (cr_inflight r) (sr_request_id (of_cmd f))")
    case None
    then show ?thesis using assms frameCommand by (simp add: failFrameOnSendError_def Let_def)
  next
    case (Some c)
    have wf: "gm_wf (cr_inflight r)" using assms by (simp add: router_inv_def)
    show ?thesis
      using assms frameCommand Some wf mset_del [OF wf Some]
      by (intro release_inv [OF assms, of c _ None "Some (PushFailed (sr_request_id (of_cmd f)) err)"])
        (simp_all add: failFrameOnSendError_def Let_def owed_calls_def router_inv_def)
  qed
qed (use assms in \<open>simp_all add: failFrameOnSendError_def Let_def router_inv_refusals\<close>)

lemma router_inv_fail: "router_inv r \<Longrightarrow> router_inv (sender_fail L i err r)"
  by (auto simp: sender_fail_def Let_def split: option.split intro!: router_inv_failed senders_nth_update)
    (auto simp: sender_ok_def)

lemma router_inv_complete:
  assumes "router_inv r" shows "router_inv (complete L result r)"
proof (cases "gm_get (cr_inflight r) (rq_request_id result)")
  case None
  then show ?thesis using assms
    by (auto simp: complete_def Let_def split: option.split intro!: sender_inv [OF assms]) (auto simp: router_inv_def)
next
  case (Some c)
  have wf: "gm_wf (cr_inflight r)" using assms by (simp add: router_inv_def)
  have "owed_calls (complete L result r) = owed_calls r"
    using mset_del [OF wf Some] by (simp add: complete_def Let_def Some owed_calls_def)
  then show ?thesis using assms Some by (simp add: complete_def Let_def router_inv_def pending_calls_def)
qed

lemma router_inv_close:
  assumes "router_inv r" shows "router_inv (complete_close r k)"
proof (cases "k < length (cr_completing r)")
  case True
  obtain c result where cr: "cr_completing r ! k = (c, result)" by fastforce
  have "mset (cr_completing r) = add_mset (c, result) (mset (take k (cr_completing r) @ drop (k + 1) (cr_completing r)))"
    using arg_cong [OF id_take_nth_drop [OF True], of mset] by (simp add: cr)
  then show ?thesis using assms True cr
    by (intro release_inv [OF assms, of c _ "Some result" None])
      (simp_all add: complete_close_def owed_calls_def router_inv_def)
qed (use assms in \<open>simp add: complete_close_def\<close>)

lemma owed_fresh: "router_inv r \<Longrightarrow> pending_calls (r\<lparr>cr_calls := cr_calls r @ [c]\<rparr>)
    = (if pc_done c then pending_calls r else insert (length (cr_calls r)) (pending_calls r))"
  by (auto simp: pending_calls_def nth_append less_Suc_eq)

lemma mset_put_new: "gm_get m k = None \<Longrightarrow> mset (gm_put k v m) = add_mset (k, v) (mset m)"
  by (induction m) (auto split: if_splits)

lemma router_inv_register:
  assumes "router_inv r" and "gm_get (cr_inflight r) rid = None"
  shows "router_inv (r\<lparr>cr_calls := cr_calls r @ [\<lparr>pc_done = False, pc_result = None, pc_err = None\<rparr>],
     cr_inflight := gm_put rid (length (cr_calls r)) (cr_inflight r)\<rparr>)"
proof -
  have "length (cr_calls r) \<notin> pending_calls r" by (simp add: pending_calls_def)
  moreover have "pending_calls (r\<lparr>cr_calls := cr_calls r @ [\<lparr>pc_done = False, pc_result = None, pc_err = None\<rparr>],
      cr_inflight := gm_put rid (length (cr_calls r)) (cr_inflight r)\<rparr>) = insert (length (cr_calls r)) (pending_calls r)"
    by (auto simp: pending_calls_def nth_append less_Suc_eq)
  ultimately show ?thesis using assms mset_put_new [OF assms(2)]
    by (auto simp: router_inv_def owed_calls_def call_ok_def)
qed

lemma dispatch_cases:
  obtains (refused) e where "dispatch cmd r = (r, Inl e)"
  | (joined) c where "gm_get (cr_inflight r) (sr_request_id cmd) = Some c" "dispatch cmd r = (r, Inr c)"
  | (panic) i where "cr_sender r = Some i" "ss_closed (cr_senders r ! i)"
  | (queued) r1 where "sr_request_id cmd \<noteq> []" "gm_get (cr_inflight r) (sr_request_id cmd) = None"
      "r1 = r\<lparr>cr_calls := cr_calls r @ [\<lparr>pc_done = False, pc_result = None, pc_err = None\<rparr>],
         cr_inflight := gm_put (sr_request_id cmd) (length (cr_calls r)) (cr_inflight r)\<rparr>"
      "snd (enqueue \<lparr>of_cmd = cmd, of_class = frameCommand\<rparr> r1)"
      "dispatch cmd r = (fst (enqueue \<lparr>of_cmd = cmd, of_class = frameCommand\<rparr> r1), Inr (length (cr_calls r)))"
proof -
  let ?id = "sr_request_id cmd" and ?f = "\<lparr>of_cmd = cmd, of_class = frameCommand\<rparr>"
  let ?r1 = "r\<lparr>cr_calls := cr_calls r @ [\<lparr>pc_done = False, pc_result = None, pc_err = None\<rparr>],
         cr_inflight := gm_put ?id (length (cr_calls r)) (cr_inflight r)\<rparr>"
  have del: "gm_del ?id (gm_put ?id c m) = m" if "gm_get m ?id = None" for c :: nat and m
    using that by (simp add: delete_update_same map_of_eq_None_iff)
  consider "?id = []" | c where "gm_get (cr_inflight r) ?id = Some c" "?id \<noteq> []"
    | "?id \<noteq> []" "gm_get (cr_inflight r) ?id = None" "cr_sender r = None"
    | i where "?id \<noteq> []" "gm_get (cr_inflight r) ?id = None" "cr_sender r = Some i" by fastforce
  then show ?thesis
  proof cases
    case (4 i)
    show ?thesis
    proof (cases rule: enqueue_cases [of ?f ?r1])
      case refused
      then have "dispatch cmd r = (r, Inl (SendQueueFull frameCommand ?id))"
        using 4 del [OF 4(2)] by (simp add: dispatch_def Let_def)
      then show ?thesis by (rule that(1))
    next
      case (panic j)
      then show ?thesis using that(3) by simp
    next
      case (queued j)
      then show ?thesis using 4 by (intro that(4) [OF _ _ refl]) (simp_all add: dispatch_def Let_def case_prod_beta)
    qed
  qed (auto simp: dispatch_def Let_def intro: that)
qed

lemma router_inv_dispatch: "router_inv r \<Longrightarrow> router_inv (fst (dispatch cmd r))"
  by (cases rule: dispatch_cases [of cmd r])
    (use inv_sender in \<open>auto intro!: router_inv_enqueue router_inv_register\<close>)

text \<open>Closing a list of distinct open calls.\<close>

lemma close_all:
  fixes e :: router_error
  assumes "distinct (map snd xs)" and "snd ` set xs \<subseteq> pending_calls r"
  defines "r' \<equiv> fold (\<lambda>(_, c). close_call c None (Some e)) xs r"
  shows "pending_calls r' = pending_calls r - snd ` set xs \<and> cr_panic r' = cr_panic r \<and> length (cr_calls r') = length (cr_calls r)
    \<and> (\<forall>c. cr_calls r' ! c = (if c \<in> snd ` set xs then \<lparr>pc_done = True, pc_result = pc_result (cr_calls r ! c), pc_err = Some e\<rparr> else cr_calls r ! c))
    \<and> cr_sender r' = cr_sender r \<and> cr_senders r' = cr_senders r \<and> cr_inflight r' = cr_inflight r \<and> cr_completing r' = cr_completing r"
  using assms(1,2) unfolding r'_def
proof (induction xs arbitrary: r)
  case (Cons x xs)
  obtain k c where x: "x = (k, c)" by fastforce
  let ?r = "close_call c None (Some e) r"
  have c: "c \<in> pending_calls r" "c < length (cr_calls r)" "c \<notin> snd ` set xs" using Cons.prems x by (auto simp: pending_calls_def)
  have "snd ` set xs \<subseteq> pending_calls ?r" using Cons.prems c x by (auto simp: close_call_pending)
  note IH = Cons.IH [OF _ this]
  show ?case using IH Cons.prems c(2,3) x close_call_pending [OF c(1), of None "Some e"]
    by (auto simp: close_call_nth)
qed simp

lemma mset_setD: "mset xs = mset_set A \<Longrightarrow> finite A \<Longrightarrow> distinct xs \<and> set xs = A"
  by (metis count_mset_set' distinct_count_atmost_1 finite_set_mset_mset_set set_mset_mset)

lemma inflight_pending:
  assumes "router_inv r"
  shows "distinct (map snd (cr_inflight r))" "snd ` set (cr_inflight r) \<subseteq> pending_calls r"
    "snd ` set (cr_inflight r) \<inter> fst ` set (cr_completing r) = {}" "fst ` set (cr_completing r) \<subseteq> pending_calls r"
    "snd ` set (cr_inflight r) \<union> fst ` set (cr_completing r) = pending_calls r"
proof -
  have "mset (map snd (cr_inflight r) @ map fst (cr_completing r)) = mset_set (pending_calls r)"
    using assms by (simp add: router_inv_def owed_calls_def)
  from mset_setD [OF this finite_pending]
  show "distinct (map snd (cr_inflight r))" "snd ` set (cr_inflight r) \<subseteq> pending_calls r"
    "snd ` set (cr_inflight r) \<inter> fst ` set (cr_completing r) = {}" "fst ` set (cr_completing r) \<subseteq> pending_calls r"
    "snd ` set (cr_inflight r) \<union> fst ` set (cr_completing r) = pending_calls r"
    by auto
qed

lemma detach_effect:
  fixes cause :: string
  assumes "router_inv r"
  defines "r' \<equiv> detach cause r"
  shows "cr_inflight r' = []" "cr_sender r' = None" "cr_completing r' = cr_completing r" "cr_panic r' = cr_panic r"
    "length (cr_calls r') = length (cr_calls r)" "pending_calls r' = pending_calls r - snd ` set (cr_inflight r)"
    "cr_calls r' ! c = (if c \<in> snd ` set (cr_inflight r)
       then \<lparr>pc_done = True, pc_result = pc_result (cr_calls r ! c), pc_err = Some (Detached cause)\<rparr> else cr_calls r ! c)"
    "list_all sender_ok (cr_senders r')"
    "map ss_accepted (cr_senders r') = map ss_accepted (cr_senders r)"
proof -
  let ?r1 = "(close_queue r)\<lparr>cr_sender := None\<rparr>"
  have f: "cr_inflight ?r1 = cr_inflight r" "cr_calls ?r1 = cr_calls r" "cr_completing ?r1 = cr_completing r"
    "cr_panic ?r1 = cr_panic r" "pending_calls ?r1 = pending_calls r"
    using inv_sender [OF assms(1)] by (auto simp: close_queue_def pending_calls_def split: option.split)
  have send: "list_all sender_ok (cr_senders ?r1)" "map ss_accepted (cr_senders ?r1) = map ss_accepted (cr_senders r)"
    using assms(1) by (auto simp: close_queue_def router_inv_def sender_ok_def list_all_length nth_list_update' map_update
        intro: nth_equalityI split: option.split)
  note c = close_all [of "cr_inflight r" ?r1 "Detached cause", unfolded f, OF inflight_pending(1,2) [OF assms(1)]]
  have "pending_calls r' = pending_calls (fold (\<lambda>(_, c). close_call c None (Some (Detached cause))) (cr_inflight r) ?r1)"
    by (simp add: r'_def detach_def Let_def f(1) pending_calls_def)
  then show "pending_calls r' = pending_calls r - snd ` set (cr_inflight r)" using c by simp
  show "cr_inflight r' = []" "cr_sender r' = None" "cr_completing r' = cr_completing r" "cr_panic r' = cr_panic r"
    "length (cr_calls r') = length (cr_calls r)"
    "cr_calls r' ! c = (if c \<in> snd ` set (cr_inflight r)
       then \<lparr>pc_done = True, pc_result = pc_result (cr_calls r ! c), pc_err = Some (Detached cause)\<rparr> else cr_calls r ! c)"
    "list_all sender_ok (cr_senders r')" "map ss_accepted (cr_senders r') = map ss_accepted (cr_senders r)"
    using c send by (simp_all add: r'_def detach_def Let_def f)
qed

lemma router_inv_detach:
  assumes "router_inv r" shows "router_inv (detach cause r)"
proof -
  note d = detach_effect [OF assms, of cause]
  note i = inflight_pending [OF assms]
  have "list_all call_ok (cr_calls (detach cause r))"
    using assms i(2) by (auto simp: list_all_length d(5,7) router_inv_def call_ok_def pending_calls_def)
  moreover have "owed_calls (detach cause r) = mset_set (pending_calls (detach cause r))"
  proof -
    have "mset_set (pending_calls r) = mset_set (snd ` set (cr_inflight r)) + mset_set (pending_calls r - snd ` set (cr_inflight r))"
      using i(2) by (metis finite_pending finite_subset finite_Diff Diff_disjoint Un_Diff_cancel Un_absorb1 mset_set_Union)
    moreover have "mset_set (snd ` set (cr_inflight r)) = image_mset snd (mset (cr_inflight r))"
      using mset_set_set [OF i(1)] by simp
    ultimately show ?thesis using assms by (simp add: owed_calls_def d(1,3,6) router_inv_def)
  qed
  ultimately show ?thesis using assms by (simp add: router_inv_def d(1,2,4,8))
qed

lemmas router_inv_ops = router_inv_attach router_inv_unknown router_inv_detach router_inv_dispatch router_inv_push
  router_inv_send1 router_inv_complete router_inv_close router_inv_take router_inv_sent router_inv_fail router_inv_exit

lemma router_inv_exec: "router_inv r \<Longrightarrow> router_inv (router_exec L op r)"
  by (cases op) (simp_all add: router_inv_ops)

interpretation router: free_system "router_exec L" router_inv for L
  by unfold_locales (rule router_inv_exec)

lemmas router_reach = router.fold_inv [OF router_inv_new]

section \<open>Closed calls stay as they are\<close>

lemma closed_frame:
  assumes inv: "router_inv r" and c: "c < length (cr_calls r)" "pc_done (cr_calls r ! c)"
  shows "c < length (cr_calls (router_exec L op r)) \<and> cr_calls (router_exec L op r) ! c = cr_calls r ! c"
proof -
  have np: "c \<notin> pending_calls r" using c by (simp add: pending_calls_def)
  have close: "cr_calls (close_call d res e r') ! c = cr_calls r ! c"
    if "d \<in> pending_calls r" "cr_calls r' = cr_calls r" for d res e and r' :: "'a commandRouter"
    using that np by (auto simp: close_call_nth pending_calls_def)
  note i = inflight_pending [OF inv]
  have infl: "d \<in> pending_calls r" if "gm_get (cr_inflight r) k = Some d" for k d
    using that i(2) by (force dest: map_of_SomeD)
  show ?thesis
  proof (cases op)
    case (Detach cause)
    then show ?thesis using detach_effect(5,7) [OF inv] i(2) c np by auto
  next
    case (Dispatch cmd)
    show ?thesis unfolding Dispatch router_exec.simps
      by (cases rule: dispatch_cases [of cmd r]) (use c inv_sender [OF inv] in \<open>auto simp: nth_append\<close>)
  next
    case (Complete q)
    then show ?thesis using c by (simp add: complete_def Let_def split: option.split)
  next
    case (CompleteClose k)
    have "fst (cr_completing r ! k) \<in> pending_calls r" if "k < length (cr_completing r)" using that i(4) nth_mem by blast
    then show ?thesis using CompleteClose c close by (auto simp: complete_close_def case_prod_beta)
  next
    case (SenderFail j err)
    then show ?thesis using c close infl
      by (auto simp: sender_fail_def failFrameOnSendError_def Let_def split: option.split frameClass.split)
  qed (use c in \<open>simp_all add: attach_def setSessionUnknown_def push_def send1_def sender_take_def sender_sent_def
      sender_exit_def Let_def case_prod_beta split: option.split list.split\<close>)
qed

lemma closed_frame_run:
  "router_inv r \<Longrightarrow> c < length (cr_calls r) \<Longrightarrow> pc_done (cr_calls r ! c) \<Longrightarrow> cr_calls (router_run L ops r) ! c = cr_calls r ! c"
proof (induction ops arbitrary: r)
  case (Cons op ops)
  note f = closed_frame [OF Cons.prems, of L op]
  show ?case using Cons.IH [of "router_exec L op r"] f Cons.prems router_inv_exec by fastforce
qed simp

section \<open>Retries join the call in flight\<close>

text \<open>How often the command of a request id has been handed to a sender.\<close>

definition command_pushes :: "string \<Rightarrow> 'l commandRouter \<Rightarrow> nat" where
  "command_pushes rid r = length (filter (\<lambda>f. of_class f = frameCommand \<and> sr_request_id (of_cmd f) = rid)
     (concat (map ss_accepted (cr_senders r))))"

lemma pushes_same: "map ss_accepted (cr_senders r') = map ss_accepted (cr_senders r) \<Longrightarrow> command_pushes rid r' = command_pushes rid r"
  by (simp add: command_pushes_def)

lemma accepted_update [simp]:
  "ss_accepted s = ss_accepted (ss ! i) \<Longrightarrow> map ss_accepted (ss[i := s]) = map ss_accepted ss"
  by (simp add: map_update list_update_same_conv nth_equalityI nth_list_update')

lemma concat_update_snoc:
  "i < length xss \<Longrightarrow> mset (concat (xss[i := xss ! i @ [x]])) = add_mset x (mset (concat xss))"
  by (induction xss arbitrary: i) (auto split: nat.split)

lemma pushes_enqueue:
  assumes "router_inv r"
  shows "command_pushes rid (fst (enqueue f r)) = command_pushes rid r
    + (if snd (enqueue f r) \<and> of_class f = frameCommand \<and> sr_request_id (of_cmd f) = rid then 1 else 0)"
proof (cases rule: enqueue_cases [of f r])
  case refused
  then show ?thesis by simp
next
  case (panic i)
  then show ?thesis using inv_sender [OF assms] by simp
next
  case (queued i)
  let ?P = "\<lambda>f. of_class f = frameCommand \<and> sr_request_id (of_cmd f) = rid"
  have i: "i < length (cr_senders r)" using inv_sender [OF assms queued(1)] by simp
  have "mset (concat (map ss_accepted (cr_senders (fst (enqueue f r))))) = add_mset f (mset (concat (map ss_accepted (cr_senders r))))"
    using concat_update_snoc [of i "map ss_accepted (cr_senders r)" f] i by (simp add: queued(4) map_update)
  from arg_cong [OF this, of "\<lambda>M. size (filter_mset ?P M)"] show ?thesis
    by (simp add: command_pushes_def queued(4) flip: mset_filter size_mset)
qed

lemma command_push_step:
  assumes inv: "router_inv r" and c: "c < length (cr_calls r)" and now: "gm_get (cr_inflight (router_exec L op r)) rid = Some c"
  shows "gm_get (cr_inflight r) rid = Some c \<and> command_pushes rid (router_exec L op r) = command_pushes rid r"
proof (cases op)
  case (Detach cause)
  then show ?thesis using now detach_effect(1) [OF inv] by simp
next
  case (Dispatch cmd)
  show ?thesis
  proof (cases rule: dispatch_cases [of cmd r])
    case (queued r1)
    then have ne: "sr_request_id cmd \<noteq> rid" using now c by (auto simp: Dispatch split: if_splits)
    have "router_inv r1" unfolding queued(3) by (rule router_inv_register [OF inv queued(2)])
    from pushes_enqueue [OF this, of rid] ne
    have "command_pushes rid (router_exec L op r) = command_pushes rid r1" by (simp add: Dispatch queued(5))
    then show ?thesis using now ne by (simp add: Dispatch queued(3,5) command_pushes_def)
  qed (use now inv_sender [OF inv] Dispatch in auto)
next
  case (Push cmd)
  then show ?thesis using now pushes_enqueue [OF inv, of rid] by (simp add: push_def)
next
  case (Send1 cmd)
  let ?r1 = "r\<lparr>cr_refusals := lru_Add L (sr_request_id cmd) \<lparr>dr_sessionID = deliver_session cmd, dr_traceparent = sr_traceparent cmd\<rparr> (cr_refusals r)\<rparr>"
  have "command_pushes rid (fst (enqueue \<lparr>of_cmd = cmd, of_class = frameDeliver\<rparr> ?r1)) = command_pushes rid r"
    using pushes_enqueue [OF router_inv_refusals [OF inv], of rid] by (simp add: command_pushes_def)
  then show ?thesis using now
    by (auto simp: Send1 send1_def Let_def case_prod_beta command_pushes_def split: option.splits if_splits)
next
  case (SenderFail i err)
  have a: "map ss_accepted (cr_senders (sender_fail L i err r)) = map ss_accepted (cr_senders r)"
    by (simp add: sender_fail_def failFrameOnSendError_def Let_def split: option.split frameClass.split)
  then show ?thesis using now pushes_same [OF a]
    by (auto simp: SenderFail sender_fail_def failFrameOnSendError_def Let_def split: option.splits frameClass.splits if_splits)
next
  case (Complete q)
  then show ?thesis using now
    by (auto simp: complete_def Let_def command_pushes_def split: option.splits if_splits)
next
  case (CompleteClose k)
  then show ?thesis using now by (simp add: complete_close_def command_pushes_def split: prod.splits if_splits)
qed (use now in \<open>auto simp: attach_def newSender_def setSessionUnknown_def sender_take_def sender_sent_def sender_exit_def Let_def
      command_pushes_def split: option.splits list.splits if_splits\<close>)

lemma calls_grow:
  assumes "router_inv r" shows "length (cr_calls r) \<le> length (cr_calls (router_exec L op r))"
proof (cases op)
  case (Detach cause)
  then show ?thesis using detach_effect(5) [OF assms] by simp
next
  case (Dispatch cmd)
  then show ?thesis by (cases rule: dispatch_cases [of cmd r]) (use inv_sender [OF assms] in auto)
qed (simp_all add: attach_def setSessionUnknown_def push_def send1_def complete_def complete_close_def sender_take_def
    sender_sent_def sender_exit_def sender_fail_def failFrameOnSendError_def Let_def case_prod_beta
    split: option.split list.split frameClass.split)

lemma command_push_run:
  "router_inv r \<Longrightarrow> c < length (cr_calls r) \<Longrightarrow> gm_get (cr_inflight (router_run L ops r)) rid = Some c
    \<Longrightarrow> gm_get (cr_inflight r) rid = Some c \<and> command_pushes rid (router_run L ops r) = command_pushes rid r"
proof (induction ops arbitrary: r)
  case (Cons op ops)
  have "gm_get (cr_inflight (router_exec L op r)) rid = Some c
      \<and> command_pushes rid (router_run L ops (router_exec L op r)) = command_pushes rid (router_exec L op r)"
    using Cons.IH [of "router_exec L op r"] Cons.prems router_inv_exec calls_grow [OF Cons.prems(1), of L op] by fastforce
  then show ?case using command_push_step [OF Cons.prems(1,2)] by auto
qed simp

section \<open>The cache of refusals\<close>

datatype lru_op = LAdd string deliverRefusal | LRemove string

fun lru_apply :: "'l lru_ops \<Rightarrow> lru_op \<Rightarrow> 'l \<Rightarrow> 'l" where
  "lru_apply L (LAdd k v) l = lru_Add L k v l"
| "lru_apply L (LRemove k) l = lru_Remove L k l"

fun lru_key :: "lru_op \<Rightarrow> string" where
  "lru_key (LAdd k v) = k"
| "lru_key (LRemove k) = k"

fun is_add :: "lru_op \<Rightarrow> bool" where
  "is_add (LAdd k v) = True"
| "is_add (LRemove k) = False"

text \<open>What the library documents of a cache of \<open>n\<close> entries: a removed key is absent, and an added one stays until it
  is removed, replaced, or \<open>n\<close> further additions have been made.\<close>

definition lru_laws :: "'l lru_ops \<Rightarrow> nat \<Rightarrow> bool" where
  "lru_laws L n \<longleftrightarrow>
    (\<forall>before k. lru_Peek L (lru_apply L (LRemove k) (fold (lru_apply L) before (lru_NewLRU L n))) k = None)
    \<and> (\<forall>before k v after. list_all (\<lambda>o'. lru_key o' \<noteq> k) after \<longrightarrow> length (filter is_add after) < n
        \<longrightarrow> lru_Peek L (fold (lru_apply L) after (lru_Add L k v (fold (lru_apply L) before (lru_NewLRU L n)))) k = Some v)"

text \<open>The operations of the router on the cache.\<close>

fun refusal_ops :: "router_op \<Rightarrow> 'l commandRouter \<Rightarrow> lru_op list" where
  "refusal_ops (Send1 cmd) r = (if sr_request_id cmd = [] \<or> cr_sender r = None then []
     else LAdd (sr_request_id cmd) \<lparr>dr_sessionID = deliver_session cmd, dr_traceparent = sr_traceparent cmd\<rparr>
       # (if snd (enqueue \<lparr>of_cmd = cmd, of_class = frameDeliver\<rparr> r) then [] else [LRemove (sr_request_id cmd)]))"
| "refusal_ops (Complete q) r = (if gm_get (cr_inflight r) (rq_request_id q) = None then [LRemove (rq_request_id q)] else [])"
| "refusal_ops (SenderFail i err) r = (if i < length (cr_senders r)
     then (case ss_sending (cr_senders r ! i) of None \<Rightarrow> []
       | Some f \<Rightarrow> if of_class f = frameDeliver then [LRemove (sr_request_id (of_cmd f))] else []) else [])"
| "refusal_ops _ r = []"

lemma enqueue_refusals: "snd (enqueue f (r\<lparr>cr_refusals := l\<rparr>)) = snd (enqueue f r)"
  by (simp add: enqueue_def Let_def split: option.split)

lemma close_all_refusals: "cr_refusals (fold (\<lambda>(_, c). close_call c None (Some e)) xs r) = cr_refusals r"
  by (induction xs arbitrary: r) (simp_all add: case_prod_beta)

lemma refusals_exec: "cr_refusals (router_exec L op r) = fold (lru_apply L) (refusal_ops op r) (cr_refusals r)"
proof (cases op)
  case (Dispatch cmd)
  then show ?thesis
    by (auto simp: dispatch_def Let_def case_prod_beta split: option.split)
next
  case (Send1 cmd)
  then show ?thesis
    by (auto simp: send1_def Let_def case_prod_beta enqueue_refusals split: option.split)
next
  case (Complete q)
  then show ?thesis by (auto simp: complete_def Let_def split: option.split)
next
  case (SenderFail i err)
  then show ?thesis
    by (auto simp: sender_fail_def failFrameOnSendError_def Let_def split: option.split frameClass.split)
qed (simp_all add: attach_def setSessionUnknown_def detach_def close_queue_def close_all_refusals push_def complete_close_def
    sender_take_def sender_sent_def sender_exit_def Let_def case_prod_beta split: option.split list.split)

fun run_refusal_ops :: "'l lru_ops \<Rightarrow> router_op list \<Rightarrow> 'l commandRouter \<Rightarrow> lru_op list" where
  "run_refusal_ops L [] r = []"
| "run_refusal_ops L (op # ops) r = refusal_ops op r @ run_refusal_ops L ops (router_exec L op r)"

lemma refusals_run: "cr_refusals (router_run L ops r) = fold (lru_apply L) (run_refusal_ops L ops r) (cr_refusals r)"
  by (induction ops arbitrary: r) (simp_all add: refusals_exec)

text \<open>A step that leaves the refusal of a request id to be seen.\<close>

fun spares :: "string \<Rightarrow> router_op \<Rightarrow> bool" where
  "spares rid (Send1 cmd) = (sr_request_id cmd \<noteq> rid)"
| "spares rid (Complete q) = (rq_request_id q \<noteq> rid)"
| "spares rid (SenderFail i err) = False"
| "spares rid _ = True"

fun is_send1 :: "router_op \<Rightarrow> bool" where
  "is_send1 (Send1 cmd) = True"
| "is_send1 _ = False"

lemma spares_ops:
  assumes "spares rid op"
  shows "list_all (\<lambda>o'. lru_key o' \<noteq> rid) (refusal_ops op r) \<and> length (filter is_add (refusal_ops op r)) \<le> (if is_send1 op then 1 else 0)"
proof (cases op)
  case (SenderFail i err)
  then show ?thesis using assms by (simp only: spares.simps)
qed (use assms in simp_all)

lemma spares_run:
  "list_all (spares rid) ops \<Longrightarrow> list_all (\<lambda>o'. lru_key o' \<noteq> rid) (run_refusal_ops L ops r)
    \<and> length (filter is_add (run_refusal_ops L ops r)) \<le> length (filter is_send1 ops)"
proof (induction ops arbitrary: r)
  case (Cons op ops)
  have "length (filter is_add (run_refusal_ops L ops (router_exec L op r))) \<le> length (filter is_send1 ops)"
    "list_all (\<lambda>o'. lru_key o' \<noteq> rid) (run_refusal_ops L ops (router_exec L op r))"
    using Cons by simp_all
  then show ?case using spares_ops [of rid op r] Cons.prems by (auto split: if_splits)
qed simp

section \<open>Properties\<close>

lemmas router_eval = newCommandRouter_def attach_def newSender_def setSessionUnknown_def dispatch_def enqueue_def sendQueueCap_def
  push_def send1_def complete_def complete_close_def close_call_def sender_take_def sender_sent_def waitCall_def command_pushes_def
  deliver_session_def GetError_def Let_def

text \<open>C9: no waiter of a session command is stranded. Whatever the interleaving of callers, results, sender goroutines
  and detaches, no channel is closed twice or written after its close, and every pending call is
  either closed with exactly one of a result and an error, or still owed: registered under a
  request id, or handed to a completion that is about to close it. A detach closes every registered call
  with its cause and leaves no call registered.\<close>

theorem waiters_never_stranded:
  "\<not> cr_panic (router_run L ops (newCommandRouter L))
    \<and> (\<forall>c. c < length (cr_calls (router_run L ops (newCommandRouter L))) \<longrightarrow>
        (case waitCall c (router_run L ops (newCommandRouter L)) of
           Some (result, err) \<Rightarrow> (result = None) \<noteq> (err = None)
         | None \<Rightarrow> (\<exists>rid. gm_get (cr_inflight (router_run L ops (newCommandRouter L))) rid = Some c)
             \<noteq> (c \<in> fst ` set (cr_completing (router_run L ops (newCommandRouter L))))))
    \<and> cr_inflight (detach cause (router_run L ops (newCommandRouter L))) = []
    \<and> (\<forall>rid c. gm_get (cr_inflight (router_run L ops (newCommandRouter L))) rid = Some c
        \<longrightarrow> waitCall c (detach cause (router_run L ops (newCommandRouter L))) = Some (None, Some (Detached cause)))"
proof -
  let ?r = "router_run L ops (newCommandRouter L)"
  have inv: "router_inv ?r" by (rule router_reach)
  note i = inflight_pending [OF inv] and d = detach_effect [OF inv, of cause]
  have reg: "(\<exists>rid. gm_get (cr_inflight ?r) rid = Some c) \<longleftrightarrow> c \<in> snd ` set (cr_inflight ?r)" for c
    using inv by (force simp: router_inv_def simp flip: gm_entry_iff)
  have call: "call_ok (cr_calls ?r ! c)" if "c < length (cr_calls ?r)" for c
    using inv that by (simp add: router_inv_def list_all_length)
  have "case waitCall c ?r of Some (result, err) \<Rightarrow> (result = None) \<noteq> (err = None)
      | None \<Rightarrow> (\<exists>rid. gm_get (cr_inflight ?r) rid = Some c) \<noteq> (c \<in> fst ` set (cr_completing ?r))"
    if "c < length (cr_calls ?r)" for c
  proof (cases "pc_done (cr_calls ?r ! c)")
    case True
    then show ?thesis using call [OF that] by (simp add: waitCall_def Let_def call_ok_def)
  next
    case False
    then have "c \<in> pending_calls ?r" using that by (simp add: pending_calls_def)
    then show ?thesis using i(3,5) False unfolding reg by (auto simp: waitCall_def Let_def)
  qed
  moreover have "waitCall c (detach cause ?r) = Some (None, Some (Detached cause))" if "gm_get (cr_inflight ?r) rid = Some c" for rid c
  proof -
    have c: "c \<in> snd ` set (cr_inflight ?r)" using that reg by blast
    then have "pc_result (cr_calls ?r ! c) = None"
      using i(2) call by (auto simp: pending_calls_def call_ok_def subset_iff)
    then show ?thesis using c by (simp add: waitCall_def Let_def d(7))
  qed
  ultimately show ?thesis using inv d(1) by (simp add: router_inv_def)
qed

definition demo_cmd :: SessionsResponse where
  "demo_cmd = \<lparr>sr_request_id = ''q'', sr_command = Some (SessionsResponse_DeliverControl \<lparr>dc_session_id = ''s'', dc_op = []\<rparr>),
     sr_resume_body = [], sr_fresh_session_id = [], sr_agent_account_id = [], sr_traceparent = []\<rparr>"

definition demo_result :: SessionsRequest where
  "demo_result = \<lparr>rq_request_id = ''q'', rq_result = Some (SessionsRequest_Error \<lparr>re_code = CodeNotFound, re_message = []\<rparr>)\<rparr>"

text \<open>A list as a cache of the documented kind: the newest entry first.\<close>

definition list_lru :: "(nat \<times> (string \<times> deliverRefusal) list) lru_ops" where
  "list_lru = \<lparr>lru_NewLRU = \<lambda>n. (n, []), lru_Add = \<lambda>k v (n, xs). (n, take n ((k, v) # gm_del k xs)),
     lru_Remove = \<lambda>k (n, xs). (n, gm_del k xs), lru_Peek = \<lambda>(n, xs) k. gm_get xs k\<rparr>"

theorem waiters_never_stranded_witness:
  "waitCall 0 (detach ''gone'' (router_run list_lru [Attach, Dispatch demo_cmd, Dispatch demo_cmd] (newCommandRouter list_lru)))
    = Some (None, Some (Detached ''gone''))"
proof -
  have "gm_get (cr_inflight (router_run list_lru [Attach, Dispatch demo_cmd, Dispatch demo_cmd] (newCommandRouter list_lru))) ''q'' = Some 0"
    by (simp add: router_eval demo_cmd_def)
  with waiters_never_stranded [where L = list_lru and ops = "[Attach, Dispatch demo_cmd, Dispatch demo_cmd]" and cause = "''gone''"]
  show ?thesis by blast
qed

text \<open>Retries of a command share one call. Once a dispatch waits on a call, as long as the request id stays in flight under
  that call every further dispatch of the id joins it and changes nothing, and the command has been handed
  to the stream exactly once since.\<close>

theorem retries_join:
  assumes "r = router_run L ops (newCommandRouter L)" and "gm_get (cr_inflight r) (sr_request_id cmd) = None"
    and "dispatch cmd r = (r1, Inr c)"
    and "gm_get (cr_inflight (router_run L later r1)) (sr_request_id cmd) = Some c"
    and "sr_request_id retry = sr_request_id cmd"
  shows "dispatch retry (router_run L later r1) = (router_run L later r1, Inr c)
    \<and> command_pushes (sr_request_id cmd) (router_run L later r1) = command_pushes (sr_request_id cmd) r + 1"
proof -
  have inv: "router_inv r" unfolding assms(1) by (rule router_reach)
  have inv1: "router_inv r1" using router_inv_dispatch [OF inv, of cmd] assms(3) by simp
  have "c < length (cr_calls r1) \<and> command_pushes (sr_request_id cmd) r1 = command_pushes (sr_request_id cmd) r + 1
      \<and> sr_request_id cmd \<noteq> []"
  proof (cases rule: dispatch_cases [of cmd r])
    case (queued r0)
    have "router_inv r0" unfolding queued(3) by (rule router_inv_register [OF inv queued(2)])
    from pushes_enqueue [OF this, of "sr_request_id cmd" "\<lparr>of_cmd = cmd, of_class = frameCommand\<rparr>"] show ?thesis
      using assms(3) queued by (auto simp: command_pushes_def)
  qed (use assms(2,3) inv_sender [OF inv] in auto)
  then show ?thesis
    using command_push_run [OF inv1 _ assms(4)] assms(4,5) by (auto simp: dispatch_def Let_def)
qed

theorem retries_join_witness:
  "command_pushes ''q'' (router_run list_lru [SenderTake 0, Dispatch demo_cmd, SenderSent 0]
      (fst (dispatch demo_cmd (attach (newCommandRouter list_lru))))) = 1"
proof -
  let ?r = "attach (newCommandRouter list_lru)" and ?later = "[SenderTake 0, Dispatch demo_cmd, SenderSent 0]"
  have "?r = router_run list_lru [Attach] (newCommandRouter list_lru)" by simp
  moreover have "gm_get (cr_inflight ?r) (sr_request_id demo_cmd) = None" by (simp add: router_eval demo_cmd_def)
  moreover have "dispatch demo_cmd ?r = (fst (dispatch demo_cmd ?r), Inr 0)" by (simp add: router_eval demo_cmd_def)
  moreover have "gm_get (cr_inflight (router_run list_lru ?later (fst (dispatch demo_cmd ?r)))) (sr_request_id demo_cmd) = Some 0"
    by (simp add: router_eval demo_cmd_def)
  ultimately have "command_pushes (sr_request_id demo_cmd) (router_run list_lru ?later (fst (dispatch demo_cmd ?r)))
      = command_pushes (sr_request_id demo_cmd) ?r + 1"
    using retries_join [of ?r list_lru "[Attach]" demo_cmd _ 0 ?later demo_cmd] by blast
  moreover have "command_pushes (sr_request_id demo_cmd) ?r = 0" by (simp add: router_eval demo_cmd_def)
  ultimately show ?thesis by (simp add: demo_cmd_def)
qed

text \<open>The outcome of a call is final: whatever happens after it was closed, every waiter of the call, early or late, reads the same
  result or error.\<close>

theorem outcome_is_final:
  assumes "c < length (cr_calls (router_run L ops (newCommandRouter L)))"
    and "waitCall c (router_run L ops (newCommandRouter L)) = Some out"
  shows "waitCall c (router_run L (ops @ later) (newCommandRouter L)) = Some out"
  using closed_frame_run [OF router_reach assms(1), where L = L and ops = later] assms(2)
  by (simp add: waitCall_def Let_def split: if_splits)

theorem outcome_is_final_witness:
  "waitCall 0 (router_run list_lru ([Attach, Dispatch demo_cmd, Complete demo_result, CompleteClose 0] @ [Detach ''x'']) (newCommandRouter list_lru))
    = Some (Some demo_result, None)"
  by (rule outcome_is_final) (simp_all add: router_eval demo_cmd_def demo_result_def)

text \<open>Frames leave in order. On every attachment at most 256 frames are queued, the frames put on the wire are a prefix of the
  accepted ones in the order of their acceptance, and while its sender runs, what is not yet on the wire
  is the frame being sent and the queue; a new attachment starts with nothing to send.\<close>

theorem frames_in_order:
  assumes "s \<in> set (cr_senders (router_run L ops (newCommandRouter L)))"
  shows "length (ss_queue s) \<le> 256
    \<and> (\<exists>rest. ss_accepted s = ss_wire s @ rest)
    \<and> (\<not> ss_done s \<longrightarrow> ss_accepted s = ss_wire s @ (case ss_sending s of None \<Rightarrow> [] | Some f \<Rightarrow> [f]) @ ss_queue s)
    \<and> cr_senders (attach (router_run L ops (newCommandRouter L))) ! length (cr_senders (router_run L ops (newCommandRouter L))) = newSender"
proof -
  have "sender_ok s" using assms router_reach [of L ops] by (auto simp: router_inv_def list_all_iff)
  then show ?thesis by (auto simp: sender_ok_def sendQueueCap_def attach_def)
qed

theorem frames_in_order_witness:
  "ss_accepted (cr_senders (router_run list_lru [Attach, Push demo_cmd, SenderTake 0, Push demo_cmd] (newCommandRouter list_lru)) ! 0)
    = replicate 2 \<lparr>of_cmd = demo_cmd, of_class = frameSignal\<rparr>"
proof -
  let ?r = "router_run list_lru [Attach, Push demo_cmd, SenderTake 0, Push demo_cmd] (newCommandRouter list_lru)"
  let ?f = "\<lparr>of_cmd = demo_cmd, of_class = frameSignal\<rparr>"
  have s: "cr_senders ?r ! 0 \<in> set (cr_senders ?r)" by (rule nth_mem) (simp add: router_eval)
  have "\<not> ss_done (cr_senders ?r ! 0)" "ss_wire (cr_senders ?r ! 0) = []" "ss_sending (cr_senders ?r ! 0) = Some ?f"
    "ss_queue (cr_senders ?r ! 0) = [?f]" by (simp_all add: router_eval demo_cmd_def demo_result_def)
  with frames_in_order [OF s] show ?thesis by (simp add: numeral_2_eq_2)
qed

text \<open>C30: a refused delivery is seen. After a delivery was accepted for sending, as long as fewer than 16384 further deliveries are sent,
  none reuses its request id, its stream does not fail and no result for it arrived, the first result
  that carries its id raises the count of refused deliveries by one; a not-found refusal also reports the
  session of the delivery as lost, once, if the hub asked for it.\<close>

theorem refused_delivery_seen:
  assumes "lru_laws L deliverRefusalsMax" and "r = router_run L ops (newCommandRouter L)"
    and "send1 L cmd r = (rs, Inr ())" and "list_all (spares (sr_request_id cmd)) later"
    and "length (filter is_send1 later) < 16384" and "rl = router_run L later rs"
    and "gm_get (cr_inflight rl) (sr_request_id cmd) = None" and "rq_request_id q = sr_request_id cmd" and "GetError q = Some e"
  shows "RefusedDelivers (complete L q rl) = RefusedDelivers rl + 1
    \<and> cr_lost (complete L q rl) = cr_lost rl @ (if re_code e = CodeNotFound \<and> cr_onUnknown rl \<and> deliver_session cmd \<noteq> []
        then [(deliver_session cmd, sr_traceparent cmd)] else [])
    \<and> RefusedDelivers (complete L q (complete L q rl)) = RefusedDelivers rl + 1
    \<and> cr_lost (complete L q (complete L q rl)) = cr_lost (complete L q rl)"
proof -
  let ?id = "sr_request_id cmd" and ?v = "\<lparr>dr_sessionID = deliver_session cmd, dr_traceparent = sr_traceparent cmd\<rparr>"
  let ?cache = "\<lambda>os. fold (lru_apply L) os (lru_NewLRU L deliverRefusalsMax)"
  define before where "before = run_refusal_ops L ops (newCommandRouter L)"
  define after where "after = run_refusal_ops L later rs"
  have r: "cr_refusals r = ?cache before" by (simp add: assms(2) refusals_run before_def newCommandRouter_def)
  have rs: "cr_refusals rs = lru_Add L ?id ?v (cr_refusals r)"
    using assms(3) by (auto simp: send1_def Let_def case_prod_beta split: option.splits if_splits)
  have rl: "cr_refusals rl = fold (lru_apply L) after (lru_Add L ?id ?v (?cache before))"
    by (simp add: assms(6) refusals_run after_def rs r)
  have sp: "list_all (\<lambda>o'. lru_key o' \<noteq> ?id) after" "length (filter is_add after) < deliverRefusalsMax"
    using spares_run [OF assms(4), of L rs] assms(5) by (simp_all add: after_def deliverRefusalsMax_def)
  have peek: "lru_Peek L (cr_refusals rl) ?id = Some ?v" using assms(1) sp unfolding rl lru_laws_def by blast
  have "cr_refusals rl = ?cache (before @ LAdd ?id ?v # after)" by (simp add: rl)
  then have gone: "lru_Peek L (lru_Remove L ?id (cr_refusals rl)) ?id = None"
    using assms(1) unfolding lru_laws_def lru_apply.simps by presburger
  show ?thesis using assms(7,8,9) peek gone
    by (simp add: complete_def Let_def RefusedDelivers_def)
qed

lemma take_del: "k \<noteq> k' \<Longrightarrow> gm_get (take m xs) k = Some v \<Longrightarrow> gm_get (take m (gm_del k' xs)) k = Some v"
proof (induction xs arbitrary: m)
  case (Cons x xs)
  show ?case
  proof (cases m)
    case (Suc m')
    have mono: "gm_get (take m' ys) k = Some v \<Longrightarrow> gm_get (take (Suc m') ys) k = Some v" for ys :: "('a \<times> 'b) list"
      by (cases "m' < length ys") (auto simp: take_Suc_conv_app_nth map_add_Some_iff)
    show ?thesis using Cons Suc by (cases x) (auto split: if_splits intro: mono)
  qed (use Cons.prems in simp)
qed simp

lemma list_lru_keeps:
  assumes "list_all (\<lambda>o'. lru_key o' \<noteq> k) after" and "length (filter is_add after) < n"
    and "gm_get (take (n - length (filter is_add after)) xs) k = Some v"
  shows "gm_get (snd (fold (lru_apply list_lru) after (n, xs))) k = Some v"
  using assms
proof (induction after arbitrary: xs)
  case Nil
  have "gm_get (take n xs @ drop n xs) k = Some v" using Nil.prems(3) by (simp only: map_of_append) simp
  then show ?case by simp
next
  case (Cons o' after)
  show ?case
  proof (cases o')
    case (LAdd k' v')
    let ?m = "n - length (filter is_add (o' # after))"
    have m: "n - length (filter is_add after) = Suc ?m" "min n (Suc ?m) = Suc ?m" using Cons.prems(2) LAdd by auto
    have k: "k \<noteq> k'" using Cons.prems(1) LAdd by auto
    have "gm_get (take (Suc ?m) ((k', v') # gm_del k' xs)) k = Some v"
      using take_del [OF k Cons.prems(3)] k by simp
    then have "gm_get (take (n - length (filter is_add after)) (take n ((k', v') # gm_del k' xs))) k = Some v"
      unfolding m(1) take_take using m(2) by (simp add: min.commute)
    with Cons.IH [of "take n ((k', v') # gm_del k' xs)"] Cons.prems show ?thesis by (simp add: LAdd list_lru_def)
  next
    case (LRemove k')
    have "gm_get (take (n - length (filter is_add after)) (gm_del k' xs)) k = Some v"
      using Cons.prems LRemove by (intro take_del) auto
    with Cons.IH [of "gm_del k' xs"] Cons.prems show ?thesis by (simp add: LRemove list_lru_def)
  qed
qed

lemma list_lru_size: "fst (fold (lru_apply list_lru) os (n, xs)) = n"
proof (induction os arbitrary: xs)
  case (Cons o' os)
  then show ?case by (cases o') (simp_all add: list_lru_def)
qed simp

lemma list_lru_laws: "0 < n \<Longrightarrow> lru_laws list_lru n"
proof -
  assume n: "0 < n"
  have st: "\<exists>ys. fold (lru_apply list_lru) os (lru_NewLRU list_lru n) = (n, ys)" for os
    using list_lru_size [of os n "[]"] by (cases "fold (lru_apply list_lru) os (n, [])") (simp add: list_lru_def)
  have "lru_Peek list_lru (lru_apply list_lru (LRemove k) (fold (lru_apply list_lru) before (lru_NewLRU list_lru n))) k = None" for before k
    using st [of before] by (auto simp: list_lru_def)
  moreover have "lru_Peek list_lru (fold (lru_apply list_lru) after (lru_Add list_lru k v (fold (lru_apply list_lru) before (lru_NewLRU list_lru n)))) k = Some v"
    if "list_all (\<lambda>o'. lru_key o' \<noteq> k) after" "length (filter is_add after) < n" for before k v after
  proof -
    obtain ys where ys: "fold (lru_apply list_lru) before (lru_NewLRU list_lru n) = (n, ys)" using st by blast
    let ?m = "n - length (filter is_add after)"
    have "gm_get (take ?m (take n ((k, v) # gm_del k ys))) k = Some v" using that(2) by (cases ?m; cases n) auto
    from list_lru_keeps [OF that this] show ?thesis unfolding ys by (simp add: list_lru_def case_prod_beta)
  qed
  ultimately show ?thesis unfolding lru_laws_def by blast
qed

theorem refused_delivery_seen_witness:
  "RefusedDelivers (complete list_lru demo_result (fst (send1 list_lru demo_cmd (setSessionUnknown (attach (newCommandRouter list_lru)))))) = 1"
proof -
  let ?r = "setSessionUnknown (attach (newCommandRouter list_lru))"
  have "RefusedDelivers (complete list_lru demo_result (fst (send1 list_lru demo_cmd ?r))) = RefusedDelivers (fst (send1 list_lru demo_cmd ?r)) + 1"
    by (rule refused_delivery_seen [where ops = "[Attach, SetUnknown]" and later = "[]" and cmd = demo_cmd and r = ?r
          and rs = "fst (send1 list_lru demo_cmd ?r)" and e = "\<lparr>re_code = CodeNotFound, re_message = []\<rparr>", THEN conjunct1])
      (simp_all add: list_lru_laws deliverRefusalsMax_def router_eval demo_cmd_def demo_result_def)
  then show ?thesis by (simp add: router_eval demo_cmd_def RefusedDelivers_def)
qed

lemma dispatch_fresh:
  assumes "router_inv r" and "gm_get (cr_inflight r) (sr_request_id cmd) = None" and "sr_request_id cmd \<noteq> []"
    and "cr_sender r = Some i" and "length (ss_queue (cr_senders r ! i)) < sendQueueCap"
  shows "snd (dispatch cmd r) = Inr (length (cr_calls r))"
    "gm_get (cr_inflight (fst (dispatch cmd r))) (sr_request_id cmd) = Some (length (cr_calls r))"
    "length (cr_calls (fst (dispatch cmd r))) = length (cr_calls r) + 1" "cr_sender (fst (dispatch cmd r)) = Some i"
    "length (ss_queue (cr_senders (fst (dispatch cmd r)) ! i)) = length (ss_queue (cr_senders r ! i)) + 1"
    "command_pushes (sr_request_id cmd) (fst (dispatch cmd r)) = command_pushes (sr_request_id cmd) r + 1"
proof -
  note i = inv_sender [OF assms(1,4)]
  let ?f = "\<lparr>of_cmd = cmd, of_class = frameCommand\<rparr>"
  show q: "snd (dispatch cmd r) = Inr (length (cr_calls r))" "cr_sender (fst (dispatch cmd r)) = Some i"
    "gm_get (cr_inflight (fst (dispatch cmd r))) (sr_request_id cmd) = Some (length (cr_calls r))"
    "length (cr_calls (fst (dispatch cmd r))) = length (cr_calls r) + 1"
    "length (ss_queue (cr_senders (fst (dispatch cmd r)) ! i)) = length (ss_queue (cr_senders r ! i)) + 1"
    using assms i by (simp_all add: dispatch_def enqueue_def Let_def)
  show "command_pushes (sr_request_id cmd) (fst (dispatch cmd r)) = command_pushes (sr_request_id cmd) r + 1"
  proof (cases rule: dispatch_cases [of cmd r])
    case (queued r0)
    have "router_inv r0" unfolding queued(3) by (rule router_inv_register [OF assms(1,2)])
    from pushes_enqueue [OF this, of "sr_request_id cmd" ?f] show ?thesis using queued by (auto simp: command_pushes_def)
  qed (use assms(2) q i assms(4) in auto)
qed

text \<open>C40: a request id whose call has completed is not remembered: a retry that arrives after the result pushes the command to
  the Runner a second time and waits on a new call.\<close>

theorem completed_retry_pushes_again:
  assumes "router_inv r" and "gm_get (cr_inflight r) (sr_request_id cmd) = None" and "sr_request_id cmd \<noteq> []"
    and "cr_sender r = Some i" and "length (ss_queue (cr_senders r ! i)) + 1 < sendQueueCap"
    and "rq_request_id q = sr_request_id cmd" and "rc = complete L q (fst (dispatch cmd r))"
  shows "snd (dispatch cmd r) = Inr (length (cr_calls r)) \<and> snd (dispatch cmd rc) = Inr (length (cr_calls r) + 1)
    \<and> command_pushes (sr_request_id cmd) (fst (dispatch cmd rc)) = command_pushes (sr_request_id cmd) r + 2"
proof -
  let ?r0 = "fst (dispatch cmd r)"
  note d = dispatch_fresh [OF assms(1-4) less_imp_le_nat [THEN le_less_trans, OF less_add_one assms(5)]]
  have rc: "rc = ?r0\<lparr>cr_inflight := gm_del (sr_request_id cmd) (cr_inflight ?r0), cr_completing := cr_completing ?r0 @ [(length (cr_calls r), q)]\<rparr>"
    using d(2) by (simp add: assms(6,7) complete_def Let_def)
  have inv: "router_inv rc" unfolding assms(7) by (intro router_inv_complete router_inv_dispatch assms(1))
  have "command_pushes (sr_request_id cmd) rc = command_pushes (sr_request_id cmd) ?r0" by (simp add: rc command_pushes_def)
  moreover have "gm_get (cr_inflight rc) (sr_request_id cmd) = None" "cr_sender rc = Some i"
    "length (ss_queue (cr_senders rc ! i)) < sendQueueCap" "length (cr_calls rc) = length (cr_calls r) + 1"
    using d assms(5) by (simp_all add: rc)
  ultimately show ?thesis using d(1,6) dispatch_fresh(1,6) [OF inv _ assms(3)] by simp
qed

theorem completed_retry_pushes_again_witness:
  "command_pushes ''q'' (fst (dispatch demo_cmd (complete list_lru demo_result (fst (dispatch demo_cmd (attach (newCommandRouter list_lru))))))) = 2"
proof -
  have inv: "router_inv (attach (newCommandRouter list_lru))" by (intro router_inv_attach router_inv_new)
  have "command_pushes (sr_request_id demo_cmd) (fst (dispatch demo_cmd (complete list_lru demo_result (fst (dispatch demo_cmd (attach (newCommandRouter list_lru)))))))
      = command_pushes (sr_request_id demo_cmd) (attach (newCommandRouter list_lru)) + 2"
    by (rule completed_retry_pushes_again [OF inv, where i = 0 and q = demo_result, THEN conjunct2, THEN conjunct2])
      (simp_all add: router_eval demo_cmd_def demo_result_def)
  then show ?thesis by (simp add: router_eval demo_cmd_def)
qed

end
