(* ===== verification/Runner_Dispatch.thy ===== *)
theory Runner_Dispatch
  imports Runner_Router Utf8
begin

text \<open>
  The Runner's command dispatcher, \<open>src/go/internal/runner/dispatch.go\<close>: every command of the stream runs on a goroutine of its
  own; the first command of a request id executes against the container host, a later one joins
  it and returns the recorded result. Entries are Go pointers shared by the joiners, so they are
  cells of a heap; a goroutine is an element of \<open>d_running\<close> (executing, with its slot of the
  provision semaphore) or \<open>d_joining\<close>. The host's answer to a call is an input of the step in which
  the call returns. \<open>d_started\<close> and \<open>d_sent\<close> are histories: the commands handed to the host, and
  the results put on the stream.
\<close>

section \<open>Error messages\<close>

text \<open>\<open>utf8.RuneStart\<close>, \<open>utf8.ValidString\<close> and \<open>strings.ToValidUTF8\<close> of the standard library.\<close>

definition RuneStart :: "char \<Rightarrow> bool" where
  "RuneStart c \<longleftrightarrow> \<not> byte_in 0x80 0xBF c"

definition rune_at :: "char \<Rightarrow> string \<Rightarrow> bool" where
  "rune_at c s \<longleftrightarrow> byte_in 0 0x7F c \<or> utf8_follow c \<noteq> [] \<and> follows (utf8_follow c) s"

function ValidString :: "string \<Rightarrow> bool" where
  "ValidString [] = True"
| "ValidString (c # s) = (rune_at c s \<and> ValidString (drop (rune_width c s) (c # s)))"
  by pat_completeness auto
termination by (relation "measure length") (auto simp: rune_width_def)

declare ValidString.simps(2) [simp del]

function to_valid :: "bool \<Rightarrow> string \<Rightarrow> string \<Rightarrow> string" where
  "to_valid invalid repl [] = []"
| "to_valid invalid repl (c # s) =
    (if rune_at c s then take (rune_width c s) (c # s) @ to_valid False repl (drop (rune_width c s) (c # s))
     else (if invalid then [] else repl) @ to_valid True repl s)"
  by pat_completeness auto
termination by (relation "measure (\<lambda>(_, _, s). length s)") (auto simp: rune_width_def)

definition ToValidUTF8 :: "string \<Rightarrow> string \<Rightarrow> string" where
  "ToValidUTF8 s repl = to_valid False repl s"

definition maxRunnerErrorMessageBytes :: nat where
  "maxRunnerErrorMessageBytes = 4096"

definition truncatedMarker :: string where
  "truncatedMarker = [CHR 0xE2, CHR 0x80, CHR 0xA6] @ '' (truncated)''"

definition replacement_rune :: string where
  "replacement_rune = [CHR 0xEF, CHR 0xBF, CHR 0xBD]"

fun cut_back :: "string \<Rightarrow> nat \<Rightarrow> nat" where
  "cut_back msg 0 = 0"
| "cut_back msg (Suc n) = (if RuneStart (msg ! Suc n) then Suc n else cut_back msg n)"

definition truncateMessage :: "string \<Rightarrow> string" where
  "truncateMessage msg0 =
    (let msg = ToValidUTF8 msg0 replacement_rune
     in if length msg \<le> maxRunnerErrorMessageBytes then msg
        else take (cut_back msg (maxRunnerErrorMessageBytes - length truncatedMarker)) msg @ truncatedMarker)"

section \<open>The host\<close>

datatype host_sentinel = errAlreadyRunning | errAlreadyProvisioned | errSessionUnknown | errContainerGone
  | errFreshSessionIDMissing | ErrOperatorConfig | errTooManySessions | ErrCanceled | ErrDeadlineExceeded

text \<open>An error: the sentinels its chain holds (\<open>errors.Is\<close>) and its text.\<close>

record host_error =
  he_is :: "host_sentinel list"
  he_text :: string

text \<open>The host's answers, one per operation of \<open>SessionHost\<close> a command calls.\<close>

record SessionHost =
  host_Start :: "StartAgentSessionRequest \<Rightarrow> string \<Rightarrow> string \<Rightarrow> host_error + string"
  host_Provision :: "string \<Rightarrow> string \<Rightarrow> host_error + string"
  host_Stop :: "string \<Rightarrow> host_error + unit"
  host_Remove :: "string \<Rightarrow> host_error + unit"
  host_Reload :: "string \<Rightarrow> host_error + unit"
  host_Status :: "string \<Rightarrow> host_error + AgentSessionStatus list"
  host_Deliver :: "string \<Rightarrow> string \<Rightarrow> host_error + unit"

definition maxStatusEntries :: nat where
  "maxStatusEntries = 4096"

definition provisionConcurrency :: nat where
  "provisionConcurrency = 8"

definition error_code :: "host_error \<Rightarrow> RunnerErrorCode" where
  "error_code err =
    (if errAlreadyRunning \<in> set (he_is err) \<or> errAlreadyProvisioned \<in> set (he_is err) then CodeAlreadyRunning
     else if errSessionUnknown \<in> set (he_is err) \<or> errContainerGone \<in> set (he_is err) then CodeNotFound
     else if errFreshSessionIDMissing \<in> set (he_is err) \<or> ErrOperatorConfig \<in> set (he_is err) \<or> errTooManySessions \<in> set (he_is err)
     then CodeFailedPrecondition else CodeInternal)"

definition errorResult :: "string \<Rightarrow> host_error \<Rightarrow> SessionsRequest" where
  "errorResult rid err = \<lparr>rq_request_id = rid,
     rq_result = Some (SessionsRequest_Error \<lparr>re_code = error_code err, re_message = truncateMessage (he_text err)\<rparr>)\<rparr>"

text \<open>The arm of a host call: its error, or the result built from its value.\<close>

definition answer :: "string \<Rightarrow> host_error + 'a \<Rightarrow> ('a \<Rightarrow> SessionsRequest option) \<Rightarrow> SessionsRequest option" where
  "answer rid outcome build = (case outcome of Inl err \<Rightarrow> Some (errorResult rid err) | Inr v \<Rightarrow> build v)"

definition result_of :: "string \<Rightarrow> session_result \<Rightarrow> SessionsRequest option" where
  "result_of rid res = Some \<lparr>rq_request_id = rid, rq_result = Some res\<rparr>"

definition too_many :: "nat \<Rightarrow> host_error" where
  "too_many n = \<lparr>he_is = [errTooManySessions],
     he_text = ''runner holds more sessions than one status reply carries: '' @ FormatUint n @ '' > '' @ FormatUint maxStatusEntries\<rparr>"

definition plain_error :: "string \<Rightarrow> host_error" where
  "plain_error msg = \<lparr>he_is = [], he_text = msg\<rparr>"

text \<open>\<open>execute\<close>, for a command whose host call has returned; \<open>None\<close> is the absent result frame. The refresh of secrets and
  the config signal have their own steps below.\<close>

fun execute :: "SessionHost \<Rightarrow> string \<Rightarrow> SessionsResponse \<Rightarrow> SessionsRequest option" where
  "execute host rid cmd =
    (case sr_command cmd of
       None \<Rightarrow> Some (errorResult rid (plain_error ''sessions stream: command frame missing command variant''))
     | Some (SessionsResponse_Start req) \<Rightarrow>
         answer rid (host_Start host req (sr_resume_body cmd) (sr_fresh_session_id cmd)) (\<lambda>sid. result_of rid (SessionsRequest_Start sid))
     | Some (SessionsResponse_Provision req) \<Rightarrow>
         answer rid (host_Provision host req (sr_agent_account_id cmd)) (\<lambda>name. result_of rid (SessionsRequest_Provision name))
     | Some (SessionsResponse_Stop sid) \<Rightarrow> answer rid (host_Stop host sid) (\<lambda>_. result_of rid SessionsRequest_Stop)
     | Some (SessionsResponse_Remove name) \<Rightarrow> answer rid (host_Remove host name) (\<lambda>_. result_of rid SessionsRequest_Remove)
     | Some (SessionsResponse_Reload sid) \<Rightarrow> answer rid (host_Reload host sid) (\<lambda>_. result_of rid (SessionsRequest_Reload sid))
     | Some (SessionsResponse_Status sid) \<Rightarrow>
         answer rid (host_Status host sid) (\<lambda>statuses. if maxStatusEntries < length statuses
           then Some (errorResult rid (too_many (length statuses))) else result_of rid (SessionsRequest_Status statuses))
     | Some (SessionsResponse_SecretsVersion sid v) \<Rightarrow> None
     | Some SessionsResponse_ConfigVersion \<Rightarrow> None
     | Some (SessionsResponse_DeliverControl d) \<Rightarrow> answer rid (host_Deliver host (dc_session_id d) (dc_op d)) (\<lambda>_. None)
     | Some (SessionsResponse_ForgeNotification n) \<Rightarrow> Some (errorResult rid (plain_error ''unrecognized session command variant'')))"

section \<open>The dispatcher\<close>

record inflightResult =
  ir_done :: bool
  ir_result :: "SessionsRequest option"

record execution =
  ex_entry :: nat
  ex_cmd :: SessionsResponse
  ex_slot :: bool

record dispatcher =
  d_handled :: "(string, nat) gomap"
  d_entries :: "inflightResult list"
  d_running :: "execution list"
  d_joining :: "nat list"
  d_provisions :: nat
  d_configSignal :: bool
  d_refreshes :: "string list"
  d_config_passes :: nat
  d_started :: "SessionsResponse list"
  d_sent :: "SessionsRequest list"

definition newDispatcher :: dispatcher where
  "newDispatcher = \<lparr>d_handled = [], d_entries = [], d_running = [], d_joining = [], d_provisions = 0, d_configSignal = False,
     d_refreshes = [], d_config_passes = 0, d_started = [], d_sent = []\<rparr>"

definition signalConfig :: "dispatcher \<Rightarrow> dispatcher" where
  "signalConfig d = d\<lparr>d_configSignal := True\<rparr>"

text \<open>The config worker takes the pending signal and runs one pass.\<close>

definition runConfigWorker :: "dispatcher \<Rightarrow> dispatcher" where
  "runConfigWorker d = (if d_configSignal d then d\<lparr>d_configSignal := False, d_config_passes := d_config_passes d + 1\<rparr> else d)"

definition is_provision :: "SessionsResponse \<Rightarrow> bool" where
  "is_provision cmd = (case sr_command cmd of Some (SessionsResponse_Provision _) \<Rightarrow> True | _ \<Rightarrow> False)"

text \<open>A received command up to the point where its goroutine executes or waits: a signal acts at once, a known
  request id joins its entry, a new one becomes an execution.\<close>

definition handle :: "SessionsResponse \<Rightarrow> dispatcher \<Rightarrow> dispatcher" where
  "handle cmd d =
    (case sr_command cmd of
       Some SessionsResponse_ConfigVersion \<Rightarrow> signalConfig d
     | Some (SessionsResponse_SecretsVersion sid v) \<Rightarrow> d\<lparr>d_refreshes := d_refreshes d @ [sid]\<rparr>
     | _ \<Rightarrow>
        (case gm_get (d_handled d) (sr_request_id cmd) of
           Some entry \<Rightarrow> d\<lparr>d_joining := d_joining d @ [entry]\<rparr>
         | None \<Rightarrow>
            (let entry = length (d_entries d)
             in d\<lparr>d_entries := d_entries d @ [\<lparr>ir_done = False, ir_result = None\<rparr>],
                  d_handled := gm_put (sr_request_id cmd) entry (d_handled d),
                  d_running := d_running d @ [\<lparr>ex_entry = entry, ex_cmd = cmd, ex_slot = False\<rparr>],
                  d_started := d_started d @ [cmd]\<rparr>)))"

text \<open>A provision takes a slot of the semaphore before it calls the host.\<close>

definition acquire :: "nat \<Rightarrow> dispatcher \<Rightarrow> dispatcher" where
  "acquire k d =
    (if k < length (d_running d) \<and> is_provision (ex_cmd (d_running d ! k)) \<and> \<not> ex_slot (d_running d ! k)
        \<and> d_provisions d < provisionConcurrency
     then d\<lparr>d_running := (d_running d)[k := (d_running d ! k)\<lparr>ex_slot := True\<rparr>], d_provisions := d_provisions d + 1\<rparr>
     else d)"

definition send :: "SessionsRequest option \<Rightarrow> dispatcher \<Rightarrow> dispatcher" where
  "send result d = (case result of None \<Rightarrow> d | Some q \<Rightarrow> d\<lparr>d_sent := d_sent d @ [q]\<rparr>)"

text \<open>The end of an execution: its result is recorded, the entry closed and the result sent.\<close>

definition record_result :: "nat \<Rightarrow> SessionsRequest option \<Rightarrow> dispatcher \<Rightarrow> dispatcher" where
  "record_result k result d =
    (let ex = d_running d ! k
     in send result (d\<lparr>d_entries := (d_entries d)[ex_entry ex := \<lparr>ir_done = True, ir_result = result\<rparr>],
          d_running := take k (d_running d) @ drop (k + 1) (d_running d),
          d_provisions := (if ex_slot ex then d_provisions d - 1 else d_provisions d)\<rparr>))"

definition finish :: "SessionHost \<Rightarrow> nat \<Rightarrow> dispatcher \<Rightarrow> dispatcher" where
  "finish host k d =
    (if k < length (d_running d) \<and> (is_provision (ex_cmd (d_running d ! k)) \<longrightarrow> ex_slot (d_running d ! k))
     then record_result k (execute host (sr_request_id (ex_cmd (d_running d ! k))) (ex_cmd (d_running d ! k))) d
     else d)"

text \<open>A provision still without a slot when the stream's context ends.\<close>

definition abandon :: "nat \<Rightarrow> dispatcher \<Rightarrow> dispatcher" where
  "abandon k d =
    (if k < length (d_running d) \<and> is_provision (ex_cmd (d_running d ! k)) \<and> \<not> ex_slot (d_running d ! k)
     then record_result k (Some (errorResult (sr_request_id (ex_cmd (d_running d ! k)))
        \<lparr>he_is = [ErrCanceled], he_text = ''context canceled''\<rparr>)) d
     else d)"

text \<open>A joiner returns the recorded result once the entry is closed.\<close>

definition join :: "nat \<Rightarrow> dispatcher \<Rightarrow> dispatcher" where
  "join k d =
    (if k < length (d_joining d) \<and> ir_done (d_entries d ! (d_joining d ! k))
     then send (ir_result (d_entries d ! (d_joining d ! k))) (d\<lparr>d_joining := take k (d_joining d) @ drop (k + 1) (d_joining d)\<rparr>)
     else d)"

datatype dispatch_op = Receive SessionsResponse | Acquire nat | Finish SessionHost nat | Abandon nat | Join nat | ConfigPass

fun dispatch_exec :: "dispatch_op \<Rightarrow> dispatcher \<Rightarrow> dispatcher" where
  "dispatch_exec (Receive cmd) d = handle cmd d"
| "dispatch_exec (Acquire k) d = acquire k d"
| "dispatch_exec (Finish host k) d = finish host k d"
| "dispatch_exec (Abandon k) d = abandon k d"
| "dispatch_exec (Join k) d = join k d"
| "dispatch_exec ConfigPass d = runConfigWorker d"

abbreviation dispatch_run :: "dispatch_op list \<Rightarrow> dispatcher" where
  "dispatch_run ops \<equiv> fold dispatch_exec ops newDispatcher"

section \<open>Truncated messages are valid\<close>

lemma width_pos [simp]: "0 < rune_width c s"
  by (simp add: rune_width_def)

lemma follows_take: "follows rs s \<Longrightarrow> length rs \<le> length s \<and> follows rs (take (length rs) s @ t)"
  by (induction rs s rule: follows.induct) auto

lemma follows_mid: "follows rs s \<Longrightarrow> i < length rs \<Longrightarrow> byte_in (fst (rs ! i)) (snd (rs ! i)) (s ! i)"
  by (induction rs s arbitrary: i rule: follows.induct) (auto simp: nth_Cons split: nat.split)

lemma utf8_follow_range: "r \<in> set (utf8_follow c) \<Longrightarrow> 0x80 \<le> fst r \<and> snd r \<le> 0xBF"
  by (auto simp: utf8_follow_def Let_def split: if_splits)

text \<open>A rune at the head of a string, and what follows it.\<close>

lemma rune_split:
  assumes "rune_at c s"
  shows "rune_width c s \<le> length (c # s)" "rune_at c (take (rune_width c s - 1) s @ t)"
    "rune_width c (take (rune_width c s - 1) s @ t) = rune_width c s"
    "0 < i \<Longrightarrow> i < rune_width c s \<Longrightarrow> \<not> RuneStart ((c # s) ! i)"
proof -
  have f: "follows (utf8_follow c) s"
    using assms by (cases "utf8_follow c = []") (auto simp: rune_at_def byte_in_def utf8_follow_def Let_def split: if_splits)
  have w: "rune_width c s = 1 + length (utf8_follow c)" using f by (simp add: rune_width_def)
  note t = follows_take [OF f]
  show "rune_width c s \<le> length (c # s)" using t w by simp
  show "rune_at c (take (rune_width c s - 1) s @ t)" using assms t w by (auto simp: rune_at_def)
  show "rune_width c (take (rune_width c s - 1) s @ t) = rune_width c s" using t w by (simp add: rune_width_def)
  assume i: "0 < i" "i < rune_width c s"
  then have i': "i - 1 < length (utf8_follow c)" using w by linarith
  from follows_mid [OF f i'] utf8_follow_range [OF nth_mem [OF i']]
  show "\<not> RuneStart ((c # s) ! i)" using i by (auto simp: RuneStart_def byte_in_def nth_Cons')
qed

lemma ValidString_rune:
  assumes "rune_at c s" and "ValidString t"
  shows "ValidString (take (rune_width c s) (c # s) @ t)"
proof -
  obtain w where w: "rune_width c s = Suc w" using width_pos [of c s] by (cases "rune_width c s") auto
  note r = rune_split [OF assms(1)]
  have len: "length (take w s) = w" using r(1) w by simp
  have "rune_at c (take w s @ t)" "rune_width c (take w s @ t) = Suc w" using r(2,3) [of t] w by simp_all
  then show ?thesis using assms(2) len by (simp add: w ValidString.simps(2))
qed

lemma ValidString_append: "ValidString s \<Longrightarrow> ValidString t \<Longrightarrow> ValidString (s @ t)"
proof (induction s rule: ValidString.induct)
  case (2 c s)
  have r: "rune_at c s" and "ValidString (drop (rune_width c s) (c # s))" using 2(2) by (simp_all add: ValidString.simps(2))
  then have "ValidString (drop (rune_width c s) (c # s) @ t)" using 2 by simp
  from ValidString_rune [OF r this] show ?case by (simp only: append.assoc [symmetric] append_take_drop_id)
qed simp

lemma ValidString_take:
  assumes "ValidString s" and "n = 0 \<or> length s \<le> n \<or> RuneStart (s ! n)"
  shows "ValidString (take n s)"
  using assms
proof (induction s arbitrary: n rule: ValidString.induct)
  case (2 c s)
  let ?w = "rune_width c s"
  have r: "rune_at c s" and v: "ValidString (drop ?w (c # s))" using 2(2) by (simp_all add: ValidString.simps(2))
  consider "n = 0" | "0 < n" "n < ?w" | "?w \<le> n" by linarith
  then show ?case
  proof cases
    case 2
    then show ?thesis using rune_split(1,4) [OF r] \<open>n = 0 \<or> length (c # s) \<le> n \<or> RuneStart ((c # s) ! n)\<close> by auto
  next
    case 3
    have "n - ?w = 0 \<or> length (drop ?w (c # s)) \<le> n - ?w \<or> RuneStart (drop ?w (c # s) ! (n - ?w))"
      using 2(3) 3 rune_split(1) [OF r] by auto
    from ValidString_rune [OF r 2(1) [OF v this]] show ?thesis
      using 3 take_add [of ?w "n - ?w" "c # s"] by simp
  qed simp
qed simp

lemma to_valid_ok: "ValidString repl \<Longrightarrow> ValidString (to_valid b repl s)"
  by (induction b repl s rule: to_valid.induct) (auto simp: ValidString_rune ValidString_append simp del: take_Suc_Cons)

lemma cut_back_le: "cut_back msg n \<le> n"
  by (induction n) auto

lemma cut_back_start: "cut_back msg n = 0 \<or> RuneStart (msg ! cut_back msg n)"
  by (induction n) auto

lemma marker_valid: "ValidString truncatedMarker" "ValidString replacement_rune" "length truncatedMarker = 15"
  by code_simp+

lemma truncateMessage_ok: "ValidString (truncateMessage msg) \<and> length (truncateMessage msg) \<le> 4096"
proof -
  let ?m = "ToValidUTF8 msg replacement_rune" and ?n = "maxRunnerErrorMessageBytes - length truncatedMarker"
  have v: "ValidString ?m" by (simp add: ToValidUTF8_def to_valid_ok marker_valid)
  have "ValidString (take (cut_back ?m ?n) ?m)" using ValidString_take [OF v] cut_back_start [of ?m ?n] by blast
  then show ?thesis using v cut_back_le [of ?m ?n]
    by (auto simp: truncateMessage_def Let_def maxRunnerErrorMessageBytes_def marker_valid(3) intro!: ValidString_append marker_valid(1))
qed

section \<open>The invariant of the dispatcher\<close>

text \<open>Entries and started commands grow together; an open entry is exactly one execution, and what was sent is the
  recorded result of a closed entry.\<close>

definition running_entries :: "dispatcher \<Rightarrow> nat list" where
  "running_entries d = map ex_entry (d_running d)"

definition entries_ok :: "dispatcher \<Rightarrow> bool" where
  "entries_ok d \<longleftrightarrow> length (d_entries d) = length (d_started d)
    \<and> distinct (running_entries d) \<and> set (running_entries d) = {e. e < length (d_entries d) \<and> \<not> ir_done (d_entries d ! e)}
    \<and> (\<forall>ex \<in> set (d_running d). ex_cmd ex = d_started d ! ex_entry ex)
    \<and> (\<forall>e < length (d_entries d). \<forall>q. ir_result (d_entries d ! e) = Some q \<longrightarrow> rq_request_id q = sr_request_id (d_started d ! e))"

definition handled_ok :: "dispatcher \<Rightarrow> bool" where
  "handled_ok d \<longleftrightarrow> (\<forall>e < length (d_started d). gm_get (d_handled d) (sr_request_id (d_started d ! e)) = Some e)
    \<and> (\<forall>rid e. gm_get (d_handled d) rid = Some e \<longrightarrow> e < length (d_started d) \<and> sr_request_id (d_started d ! e) = rid)"

definition sent_ok :: "dispatcher \<Rightarrow> bool" where
  "sent_ok d \<longleftrightarrow> (\<forall>q \<in> set (d_sent d). \<exists>e < length (d_entries d). ir_done (d_entries d ! e) \<and> ir_result (d_entries d ! e) = Some q)
    \<and> (\<forall>e \<in> set (d_joining d). e < length (d_entries d))"

definition slots_ok :: "dispatcher \<Rightarrow> bool" where
  "slots_ok d \<longleftrightarrow> d_provisions d = length (filter ex_slot (d_running d)) \<and> d_provisions d \<le> provisionConcurrency"

definition dispatch_inv :: "dispatcher \<Rightarrow> bool" where
  "dispatch_inv d \<longleftrightarrow> entries_ok d \<and> handled_ok d \<and> sent_ok d \<and> slots_ok d"

lemma execute_id: "execute host rid cmd = Some q \<Longrightarrow> rq_request_id q = rid"
  by (auto simp: answer_def result_of_def errorResult_def split: option.splits session_command.splits sum.splits if_splits)

lemma dispatch_inv_new: "dispatch_inv newDispatcher"
  by (simp add: dispatch_inv_def entries_ok_def handled_ok_def sent_ok_def slots_ok_def newDispatcher_def running_entries_def)

lemma send_frame [simp]:
  "d_handled (send r d) = d_handled d" "d_entries (send r d) = d_entries d" "d_running (send r d) = d_running d"
  "d_joining (send r d) = d_joining d" "d_provisions (send r d) = d_provisions d" "d_started (send r d) = d_started d"
  "d_sent (send r d) = d_sent d @ (case r of None \<Rightarrow> [] | Some q \<Rightarrow> [q])"
  by (simp_all add: send_def split: option.split)

text \<open>An operation that touches neither entries nor executions.\<close>

lemma dispatch_inv_frame:
  assumes "dispatch_inv d" and "d_handled d' = d_handled d" "d_entries d' = d_entries d" "d_running d' = d_running d"
    "d_provisions d' = d_provisions d" "d_started d' = d_started d" and "sent_ok d'"
  shows "dispatch_inv d'"
  using assms by (simp add: dispatch_inv_def entries_ok_def handled_ok_def slots_ok_def running_entries_def)

lemma dispatch_inv_signal: "dispatch_inv d \<Longrightarrow> dispatch_inv (signalConfig d)"
  by (rule dispatch_inv_frame, assumption) (auto simp: signalConfig_def dispatch_inv_def sent_ok_def)

lemma dispatch_inv_worker: "dispatch_inv d \<Longrightarrow> dispatch_inv (runConfigWorker d)"
  by (rule dispatch_inv_frame, assumption) (auto simp: runConfigWorker_def dispatch_inv_def sent_ok_def)

lemma dispatch_inv_refresh: "dispatch_inv d \<Longrightarrow> dispatch_inv (d\<lparr>d_refreshes := xs\<rparr>)"
  by (rule dispatch_inv_frame, assumption) (auto simp: dispatch_inv_def sent_ok_def)

lemma dispatch_inv_joiner:
  assumes "dispatch_inv d" and "gm_get (d_handled d) rid = Some e"
  shows "dispatch_inv (d\<lparr>d_joining := d_joining d @ [e]\<rparr>)"
proof -
  have "e < length (d_entries d)" using assms by (auto simp: dispatch_inv_def handled_ok_def entries_ok_def)
  then show ?thesis using assms(1) by (intro dispatch_inv_frame [OF assms(1)]) (auto simp: dispatch_inv_def sent_ok_def)
qed

lemma dispatch_inv_start:
  assumes inv: "dispatch_inv d" and new: "gm_get (d_handled d) (sr_request_id cmd) = None"
  shows "dispatch_inv (d\<lparr>d_entries := d_entries d @ [\<lparr>ir_done = False, ir_result = None\<rparr>],
      d_handled := gm_put (sr_request_id cmd) (length (d_entries d)) (d_handled d),
      d_running := d_running d @ [\<lparr>ex_entry = length (d_entries d), ex_cmd = cmd, ex_slot = False\<rparr>],
      d_started := d_started d @ [cmd]\<rparr>)" (is "dispatch_inv ?d")
proof -
  have len: "length (d_started d) = length (d_entries d)" using inv by (simp add: dispatch_inv_def entries_ok_def)
  have run: "set (running_entries d) = {e. e < length (d_entries d) \<and> \<not> ir_done (d_entries d ! e)}" "distinct (running_entries d)"
    using inv by (simp_all add: dispatch_inv_def entries_ok_def)
  have cmds: "\<forall>ex \<in> set (d_running d). ex_cmd ex = d_started d ! ex_entry ex"
    and res: "\<forall>e < length (d_entries d). \<forall>q. ir_result (d_entries d ! e) = Some q \<longrightarrow> rq_request_id q = sr_request_id (d_started d ! e)"
    using inv unfolding dispatch_inv_def entries_ok_def by blast+
  have fresh: "length (d_entries d) \<notin> set (running_entries d)" using run(1) by simp
  have "ex_cmd ex = d_started ?d ! ex_entry ex" if "ex \<in> set (d_running ?d)" for ex
  proof (cases "ex \<in> set (d_running d)")
    case True
    then have "ex_entry ex < length (d_entries d)" using run(1) by (auto simp: running_entries_def)
    then show ?thesis using cmds True len by (simp add: nth_append)
  qed (use that len in \<open>simp add: nth_append\<close>)
  moreover have "set (running_entries ?d) = {e. e < length (d_entries ?d) \<and> \<not> ir_done (d_entries ?d ! e)}"
    using run(1) by (auto simp: running_entries_def nth_append less_Suc_eq)
  moreover have "\<forall>e < length (d_entries ?d). \<forall>q. ir_result (d_entries ?d ! e) = Some q \<longrightarrow> rq_request_id q = sr_request_id (d_started ?d ! e)"
    using res len by (simp add: nth_append less_Suc_eq all_conj_distrib imp_conjR)
  ultimately have e: "entries_ok ?d" using run(2) fresh len unfolding entries_ok_def by (simp add: running_entries_def)
  have h: "\<forall>e < length (d_started d). gm_get (d_handled d) (sr_request_id (d_started d ! e)) = Some e"
    "\<And>rid e. gm_get (d_handled d) rid = Some e \<Longrightarrow> e < length (d_started d) \<and> sr_request_id (d_started d ! e) = rid"
    using inv unfolding dispatch_inv_def handled_ok_def by blast+
  have "gm_get (d_handled ?d) (sr_request_id (d_started ?d ! e)) = Some e" if "e < length (d_started ?d)" for e
  proof (cases "e = length (d_started d)")
    case False
    then have "e < length (d_started d)" using that by simp
    then show ?thesis using h(1) new by (auto simp: nth_append)
  qed (use len in \<open>simp add: nth_append\<close>)
  moreover have "e < length (d_started ?d) \<and> sr_request_id (d_started ?d ! e) = rid" if "gm_get (d_handled ?d) rid = Some e" for rid e
    using that h(2) [of rid e] len by (simp add: nth_append split: if_splits)
  ultimately have "handled_ok ?d" unfolding handled_ok_def by blast
  moreover have "sent_ok ?d" using inv by (auto simp: dispatch_inv_def sent_ok_def nth_append less_Suc_eq)
  moreover have "slots_ok ?d" using inv by (simp add: dispatch_inv_def slots_ok_def)
  ultimately show ?thesis using e by (simp add: dispatch_inv_def)
qed

lemma dispatch_inv_handle: "dispatch_inv d \<Longrightarrow> dispatch_inv (handle cmd d)"
  unfolding handle_def Let_def
  by (auto split: option.split session_command.split
      intro: dispatch_inv_signal dispatch_inv_refresh dispatch_inv_joiner dispatch_inv_start)

lemma dispatch_inv_acquire:
  assumes "dispatch_inv d" shows "dispatch_inv (acquire k d)"
proof (cases "k < length (d_running d) \<and> is_provision (ex_cmd (d_running d ! k)) \<and> \<not> ex_slot (d_running d ! k)
    \<and> d_provisions d < provisionConcurrency")
  case True
  let ?ex = "(d_running d ! k)\<lparr>ex_slot := True\<rparr>"
  have m: "map ex_entry ((d_running d)[k := ?ex]) = map ex_entry (d_running d)"
    "map ex_cmd ((d_running d)[k := ?ex]) = map ex_cmd (d_running d)"
    using True by (simp_all add: map_update list_update_same_conv)
  have "filter ex_slot ((d_running d)[k := ?ex]) = filter ex_slot (take k (d_running d)) @ ?ex # filter ex_slot (drop (Suc k) (d_running d))"
    using True by (simp add: upd_conv_take_nth_drop)
  moreover have "filter ex_slot (d_running d) = filter ex_slot (take k (d_running d)) @ filter ex_slot (drop (Suc k) (d_running d))"
    using True by (metis (no_types, lifting) filter.simps(2) filter_append id_take_nth_drop)
  ultimately have slots: "slots_ok (acquire k d)" using assms True by (simp add: acquire_def dispatch_inv_def slots_ok_def)
  have cmd: "ex_cmd ex = d_started d ! ex_entry ex" if "ex \<in> set ((d_running d)[k := ?ex])" for ex
    using that True assms set_update_subset_insert [of "d_running d" k ?ex] nth_mem [of k "d_running d"]
    by (auto simp: dispatch_inv_def entries_ok_def)
  have acq: "acquire k d = d\<lparr>d_running := (d_running d)[k := ?ex], d_provisions := d_provisions d + 1\<rparr>"
    using True by (simp add: acquire_def)
  have "running_entries (acquire k d) = running_entries d" using m(1) by (simp add: acq running_entries_def)
  then have "entries_ok (acquire k d)" using assms cmd unfolding dispatch_inv_def entries_ok_def by (simp add: acq)
  moreover have "handled_ok (acquire k d)" using assms True by (simp add: dispatch_inv_def acquire_def handled_ok_def)
  moreover have "sent_ok (acquire k d)" using assms True by (simp add: dispatch_inv_def acquire_def sent_ok_def)
  ultimately show ?thesis using slots by (simp add: dispatch_inv_def)
next
  case False
  then have "acquire k d = d" unfolding acquire_def by (rule if_not_P)
  then show ?thesis using assms by simp
qed

lemma dispatch_inv_record:
  assumes inv: "dispatch_inv d" and k: "k < length (d_running d)"
    and q: "\<And>q. result = Some q \<Longrightarrow> rq_request_id q = sr_request_id (ex_cmd (d_running d ! k))"
  shows "dispatch_inv (record_result k result d)" (is "dispatch_inv ?d")
proof -
  let ?ex = "d_running d ! k" and ?rest = "take k (d_running d) @ drop (Suc k) (d_running d)"
  have split: "d_running d = take k (d_running d) @ ?ex # drop (Suc k) (d_running d)" using k by (rule id_take_nth_drop)
  have e: "ex_entry ?ex < length (d_entries d)" "\<not> ir_done (d_entries d ! ex_entry ?ex)" "ex_cmd ?ex = d_started d ! ex_entry ?ex"
    using inv k nth_mem [OF k] by (auto simp: dispatch_inv_def entries_ok_def running_entries_def)
  have "distinct (map ex_entry (take k (d_running d) @ ?ex # drop (Suc k) (d_running d)))"
    using inv split by (simp add: dispatch_inv_def entries_ok_def running_entries_def)
  then have run: "distinct (map ex_entry ?rest)" "set (map ex_entry ?rest) = ex_entry ` set (d_running d) - {ex_entry ?ex}"
    using arg_cong [OF split, of set] by auto
  have sub: "set ?rest \<subseteq> set (d_running d)" using arg_cong [OF split, of set] by auto
  have "entries_ok ?d"
    using inv run e q sub by (auto simp: record_result_def Let_def dispatch_inv_def entries_ok_def running_entries_def nth_list_update')
  moreover have "handled_ok ?d" using inv by (simp add: record_result_def Let_def dispatch_inv_def handled_ok_def)
  moreover have "sent_ok ?d"
    using inv e by (force simp: record_result_def Let_def dispatch_inv_def sent_ok_def nth_list_update' split: option.split)
  moreover have "filter ex_slot (d_running d) = filter ex_slot (take k (d_running d)) @ (if ex_slot ?ex then [?ex] else []) @ filter ex_slot (drop (Suc k) (d_running d))"
    using arg_cong [OF split, of "filter ex_slot"] by simp
  then have "slots_ok ?d" using inv by (auto simp: record_result_def Let_def dispatch_inv_def slots_ok_def)
  ultimately show ?thesis by (simp add: dispatch_inv_def)
qed

lemma dispatch_inv_join:
  assumes "dispatch_inv d" shows "dispatch_inv (join k d)"
proof (cases "k < length (d_joining d) \<and> ir_done (d_entries d ! (d_joining d ! k))")
  case True
  then have "d_joining d ! k < length (d_entries d)" using assms by (simp add: dispatch_inv_def sent_ok_def)
  then have "sent_ok (join k d)" using assms True
    by (cases "ir_result (d_entries d ! (d_joining d ! k))")
      (auto simp: join_def dispatch_inv_def sent_ok_def dest: in_set_takeD in_set_dropD)
  then show ?thesis using True by (intro dispatch_inv_frame [OF assms]) (simp_all add: join_def)
next
  case False
  then have "join k d = d" unfolding join_def by (rule if_not_P)
  then show ?thesis using assms by simp
qed

lemma dispatch_inv_finish: "dispatch_inv d \<Longrightarrow> dispatch_inv (finish host k d)"
  by (simp add: finish_def dispatch_inv_record execute_id del: execute.simps)

lemma dispatch_inv_abandon: "dispatch_inv d \<Longrightarrow> dispatch_inv (abandon k d)"
  by (auto simp: abandon_def errorResult_def intro!: dispatch_inv_record)

lemmas dispatch_inv_ops = dispatch_inv_handle dispatch_inv_acquire dispatch_inv_finish dispatch_inv_abandon
  dispatch_inv_join dispatch_inv_worker

lemma dispatch_inv_exec: "dispatch_inv d \<Longrightarrow> dispatch_inv (dispatch_exec op d)"
  by (cases op) (simp_all add: dispatch_inv_ops)

interpretation dispatcher: free_system dispatch_exec dispatch_inv
  by unfold_locales (rule dispatch_inv_exec)

lemmas dispatch_reach = dispatcher.fold_inv [OF dispatch_inv_new]

section \<open>Properties\<close>

lemma started_once:
  assumes "dispatch_inv d"
  shows "distinct (map sr_request_id (d_started d))"
    "q \<in> set (d_sent d) \<Longrightarrow> q' \<in> set (d_sent d) \<Longrightarrow> rq_request_id q = rq_request_id q' \<Longrightarrow> q = q'"
    "q \<in> set (d_sent d) \<Longrightarrow> rq_request_id q \<in> sr_request_id ` set (d_started d)"
proof -
  have h: "\<forall>e < length (d_started d). gm_get (d_handled d) (sr_request_id (d_started d ! e)) = Some e"
    and len: "length (d_entries d) = length (d_started d)"
    and res: "\<forall>e < length (d_entries d). \<forall>q. ir_result (d_entries d ! e) = Some q \<longrightarrow> rq_request_id q = sr_request_id (d_started d ! e)"
    and sent: "\<forall>q \<in> set (d_sent d). \<exists>e < length (d_entries d). ir_done (d_entries d ! e) \<and> ir_result (d_entries d ! e) = Some q"
    using assms unfolding dispatch_inv_def handled_ok_def entries_ok_def sent_ok_def by blast+
  show "distinct (map sr_request_id (d_started d))"
    unfolding distinct_conv_nth using h by (metis length_map nth_map option.inject)
  have of: "\<exists>e < length (d_started d). ir_result (d_entries d ! e) = Some q \<and> sr_request_id (d_started d ! e) = rq_request_id q"
    if "q \<in> set (d_sent d)" for q using that sent res len by metis
  show "rq_request_id q \<in> sr_request_id ` set (d_started d)" if "q \<in> set (d_sent d)" using of [OF that] by (metis image_eqI nth_mem)
  assume "q \<in> set (d_sent d)" "q' \<in> set (d_sent d)" "rq_request_id q = rq_request_id q'"
  then show "q = q'" using of [of q] of [of q'] h by (metis option.inject)
qed

text \<open>The commands a run received.\<close>

fun received :: "dispatch_op list \<Rightarrow> SessionsResponse list" where
  "received [] = []"
| "received (Receive cmd # ops) = cmd # received ops"
| "received (op # ops) = received ops"

lemma started_step:
  "set (d_started (dispatch_exec op d)) \<subseteq> set (d_started d) \<union> (case op of Receive cmd \<Rightarrow> {cmd} | _ \<Rightarrow> {})"
  by (cases op) (auto simp: handle_def signalConfig_def Let_def acquire_def finish_def abandon_def record_result_def join_def
      runConfigWorker_def simp del: execute.simps split: option.split session_command.split)

lemma started_received: "set (d_started (fold dispatch_exec ops d)) \<subseteq> set (d_started d) \<union> set (received ops)"
proof (induction ops arbitrary: d)
  case (Cons op ops)
  from Cons [of "dispatch_exec op d"] started_step [of op d] show ?case by (cases op) auto
qed simp

text \<open>C14: a retried command runs once. Let a Runner receive the frames an attachment of the router put on its wire, in any interleaving with its own
  goroutines. Every request id is handed to the host at most once, however often the router pushed it;
  only commands the attachment accepted are run; and all results sent back for one request id are the same.\<close>

theorem retried_command_runs_once:
  assumes "s \<in> set (cr_senders (router_run L rops (newCommandRouter L)))"
    and "map of_cmd (ss_wire s) = received ops @ later"
  shows "distinct (map sr_request_id (d_started (dispatch_run ops)))
    \<and> (\<forall>cmd \<in> set (d_started (dispatch_run ops)). \<exists>f \<in> set (ss_accepted s). of_cmd f = cmd)
    \<and> (\<forall>q \<in> set (d_sent (dispatch_run ops)). \<forall>q' \<in> set (d_sent (dispatch_run ops)). rq_request_id q = rq_request_id q' \<longrightarrow> q = q')"
proof -
  note o = started_once [OF dispatch_reach]
  have "sender_ok s" using assms(1) router_reach [of L rops] by (auto simp: router_inv_def list_all_iff)
  then have "set (ss_wire s) \<subseteq> set (ss_accepted s)" by (auto simp: sender_ok_def)
  moreover have "set (d_started (dispatch_run ops)) \<subseteq> of_cmd ` set (ss_wire s)"
    using started_received [of ops newDispatcher] arg_cong [OF assms(2), of set] by (auto simp: newDispatcher_def)
  ultimately have "\<forall>cmd \<in> set (d_started (dispatch_run ops)). \<exists>f \<in> set (ss_accepted s). of_cmd f = cmd" by blast
  then show ?thesis using o by blast
qed

definition stop_cmd :: SessionsResponse where
  "stop_cmd = \<lparr>sr_request_id = ''q'', sr_command = Some (SessionsResponse_Stop ''s''), sr_resume_body = [], sr_fresh_session_id = [],
     sr_agent_account_id = [], sr_traceparent = []\<rparr>"

theorem retried_command_runs_once_witness:
  "distinct (map sr_request_id (d_started (dispatch_run [Receive stop_cmd, Receive stop_cmd])))
    \<and> length (d_joining (dispatch_run [Receive stop_cmd, Receive stop_cmd])) = 1"
proof -
  let ?r = "router_run list_lru [Attach, Push stop_cmd, Push stop_cmd, SenderTake 0, SenderSent 0, SenderTake 0, SenderSent 0] (newCommandRouter list_lru)"
  have s: "cr_senders ?r ! 0 \<in> set (cr_senders ?r)" by (rule nth_mem) (simp add: router_eval)
  have "map of_cmd (ss_wire (cr_senders ?r ! 0)) = received [Receive stop_cmd, Receive stop_cmd] @ []"
    by (simp add: router_eval)
  from retried_command_runs_once [OF s this]
  have "distinct (map sr_request_id (d_started (dispatch_run [Receive stop_cmd, Receive stop_cmd])))" by blast
  moreover have "length (d_joining (dispatch_run [Receive stop_cmd, Receive stop_cmd])) = 1"
    by (simp add: handle_def stop_cmd_def newDispatcher_def Let_def)
  ultimately show ?thesis by blast
qed

lemma to_valid_id: "ValidString s \<Longrightarrow> to_valid b repl s = s"
  by (induction b repl s rule: to_valid.induct) (auto simp: ValidString.simps(2) simp del: take_Suc_Cons)

text \<open>Bounds of the dispatcher. At most eight provisions hold a slot at a time, and every error message it reports is valid UTF-8 of
  at most 4096 bytes; a valid message within the bound is reported as it is.\<close>

theorem dispatcher_bounds:
  "length (filter ex_slot (d_running (dispatch_run ops))) \<le> 8
    \<and> ValidString (truncateMessage msg) \<and> length (truncateMessage msg) \<le> 4096
    \<and> (ValidString msg \<and> length msg \<le> 4096 \<longrightarrow> truncateMessage msg = msg)"
proof -
  have "slots_ok (dispatch_run ops)" using dispatch_reach [of ops] by (simp add: dispatch_inv_def)
  then show ?thesis using truncateMessage_ok [of msg]
    by (auto simp: slots_ok_def provisionConcurrency_def truncateMessage_def ToValidUTF8_def to_valid_id maxRunnerErrorMessageBytes_def Let_def)
qed

theorem dispatcher_bounds_witness: "truncateMessage ''no such session'' = ''no such session''"
proof -
  have "ValidString ''no such session''" by code_simp
  then show ?thesis using dispatcher_bounds [of "[]" "''no such session''"] by simp
qed

end
