(* ===== verification/Session_Bindings.thy ===== *)
theory Session_Bindings
  imports Comms_Types
begin

text \<open>
  The durable session bindings, \<open>src/go/internal/store/session_bindings.go\<close> with the statements of
  \<open>src/go/internal/store/queries/session_bindings.sql\<close>: which live session speaks for an agent account, on which
  Runner. The table \<open>session_bindings\<close> is keyed by tenant and account and unique in tenant and session; every
  binding opens a billable compute interval in \<open>compute_usage_events\<close>, whose insertions do nothing on a second
  event of the same interval and kind. A statement under the tenant role sees the rows of one tenant only;
  the sweep of a Runner and the read of a session's tenant run under the system role and see all.

  A transaction is atomic: an error rolls it back. A fault of the database is an input of an operation.
  The identifiers the code draws at random (interval and version) are inputs too. Timestamps are left out.
\<close>

section \<open>Tables\<close>

record binding_row =
  br_tenant :: string
  br_account :: string
  br_session :: string
  br_runner :: string
  br_interval :: string
  br_version :: string

datatype usage_kind = UsageStart | UsageEnd

record usage_event =
  ue_tenant :: string
  ue_interval :: string
  ue_kind :: usage_kind
  ue_account :: string
  ue_session :: string
  ue_runner :: string
  ue_estimated :: bool

text \<open>\<open>bd_agents\<close> are the rows of \<open>agent_accounts\<close>: the account and its tenant.\<close>

record bindings_db =
  bd_rows :: "binding_row list"
  bd_events :: "usage_event list"
  bd_agents :: "(string \<times> string) list"

record SessionBinding =
  sbr_tenant :: string
  sbr_session :: string
  sbr_account :: string
  sbr_runner :: string

datatype binding_error = BindingInvalid string | BindingConflict | BindingNotFound | BindingFault

section \<open>Statements\<close>

definition insert_event :: "usage_event \<Rightarrow> usage_event list \<Rightarrow> usage_event list" where
  "insert_event e evs = (if list_ex (\<lambda>e'. ue_tenant e' = ue_tenant e \<and> ue_interval e' = ue_interval e \<and> ue_kind e' = ue_kind e) evs
     then evs else evs @ [e])"

definition event_of :: "usage_kind \<Rightarrow> bool \<Rightarrow> binding_row \<Rightarrow> usage_event" where
  "event_of kind estimated row = \<lparr>ue_tenant = br_tenant row, ue_interval = br_interval row, ue_kind = kind,
     ue_account = br_account row, ue_session = br_session row, ue_runner = br_runner row, ue_estimated = estimated\<rparr>"

definition AgentAccountVisible :: "string \<Rightarrow> string \<Rightarrow> bindings_db \<Rightarrow> bool" where
  "AgentAccountVisible t account db \<longleftrightarrow> (account, t) \<in> set (bd_agents db)"

definition SessionBindingForUpdate :: "string \<Rightarrow> string \<Rightarrow> bindings_db \<Rightarrow> binding_row option" where
  "SessionBindingForUpdate t account db = find (\<lambda>row. br_tenant row = t \<and> br_account row = account) (bd_rows db)"

definition SessionBinding_row :: "string \<Rightarrow> string \<Rightarrow> bindings_db \<Rightarrow> binding_row option" where
  "SessionBinding_row t sid db = find (\<lambda>row. br_tenant row = t \<and> br_session row = sid) (bd_rows db)"

text \<open>The upsert on tenant and account; the unique session refuses a session that another account holds.\<close>

definition upsert_binding :: "binding_row \<Rightarrow> binding_row list \<Rightarrow> binding_row list option" where
  "upsert_binding row rows =
    (if list_ex (\<lambda>r. br_tenant r = br_tenant row \<and> br_session r = br_session row \<and> br_account r \<noteq> br_account row) rows then None
     else if list_ex (\<lambda>r. br_tenant r = br_tenant row \<and> br_account r = br_account row) rows
     then Some (map (\<lambda>r. if br_tenant r = br_tenant row \<and> br_account r = br_account row then row else r) rows)
     else Some (rows @ [row]))"

text \<open>The deletions: a removed binding gets an estimated start if it has none, and its end. \<open>joined\<close> is the join with \<open>agent_accounts\<close>
  under the role of the statement.\<close>

definition delete_bindings :: "(binding_row \<Rightarrow> bool) \<Rightarrow> (binding_row \<Rightarrow> bool) \<Rightarrow> bindings_db \<Rightarrow> bindings_db \<times> binding_row list" where
  "delete_bindings joined P db =
    (let d = filter P (bd_rows db);
         starts = fold (\<lambda>row. insert_event (event_of UsageStart True row)) (filter joined d) (bd_events db);
         ends = fold (\<lambda>row. insert_event (event_of UsageEnd False row)) (filter joined d) starts
     in (db\<lparr>bd_rows := filter (\<lambda>row. \<not> P row) (bd_rows db), bd_events := ends\<rparr>, d))"

section \<open>Store methods\<close>

definition record_tx :: "string \<Rightarrow> string \<Rightarrow> string \<Rightarrow> string \<Rightarrow> string \<Rightarrow> string \<Rightarrow> bindings_db \<Rightarrow> binding_error + (bindings_db \<times> string)" where
  "record_tx t sessionID accountID runnerID newInterval version db =
    (if \<not> AgentAccountVisible t accountID db then Inl (BindingInvalid ''agent account does not exist in this tenant'')
     else
      (let prior = SessionBindingForUpdate t accountID db;
           displaced = (case prior of None \<Rightarrow> [] | Some row \<Rightarrow> br_session row);
           evs1 = (case prior of None \<Rightarrow> bd_events db | Some row \<Rightarrow>
                     if br_interval row = [] then bd_events db else insert_event (event_of UsageStart True row) (bd_events db));
           intervalID = (if displaced = sessionID then (case prior of None \<Rightarrow> [] | Some row \<Rightarrow> br_interval row) else newInterval);
           row' = \<lparr>br_tenant = t, br_account = accountID, br_session = sessionID, br_runner = runnerID, br_interval = intervalID, br_version = version\<rparr>;
           evs2 = (if displaced = sessionID then evs1
                   else let ended = (case prior of None \<Rightarrow> evs1 | Some row \<Rightarrow>
                          if br_interval row = [] then evs1 else insert_event (event_of UsageEnd False row) evs1)
                        in insert_event (event_of UsageStart False row') ended)
       in case upsert_binding row' (bd_rows db) of
            None \<Rightarrow> Inl BindingConflict
          | Some rows \<Rightarrow> Inr (db\<lparr>bd_rows := rows, bd_events := evs2\<rparr>, displaced)))"

definition RecordSessionBinding :: "bool \<Rightarrow> string \<Rightarrow> string \<Rightarrow> string \<Rightarrow> string \<Rightarrow> string \<Rightarrow> string \<Rightarrow> bindings_db
    \<Rightarrow> bindings_db \<times> (binding_error + string \<times> string)" where
  "RecordSessionBinding fault t sessionID accountID runnerID newInterval version db =
    (if sessionID = [] then (db, Inl (BindingInvalid ''session id is required''))
     else if accountID = [] then (db, Inl (BindingInvalid ''agent account id is required''))
     else if runnerID = [] then (db, Inl (BindingInvalid ''runner id is required''))
     else if fault then (db, Inl BindingFault)
     else case record_tx t sessionID accountID runnerID newInterval version db of
            Inl e \<Rightarrow> (db, Inl e)
          | Inr (db', displaced) \<Rightarrow> (db', Inr (displaced, version)))"

definition ResolveSessionBinding :: "bool \<Rightarrow> string \<Rightarrow> string \<Rightarrow> bindings_db \<Rightarrow> binding_error + (string \<times> string \<times> string)" where
  "ResolveSessionBinding fault t sessionID db =
    (if sessionID = [] then Inl (BindingInvalid ''session id is required'')
     else if fault then Inl BindingFault
     else case SessionBinding_row t sessionID db of None \<Rightarrow> Inl BindingNotFound
          | Some row \<Rightarrow> Inr (br_account row, br_runner row, br_version row))"

definition SessionForAccount_row :: "bool \<Rightarrow> string \<Rightarrow> string \<Rightarrow> bindings_db \<Rightarrow> binding_error + (string \<times> string \<times> string)" where
  "SessionForAccount_row fault t accountID db =
    (if accountID = [] then Inl (BindingInvalid ''agent account id is required'')
     else if fault then Inl BindingFault
     else case SessionBindingForUpdate t accountID db of None \<Rightarrow> Inl BindingNotFound
          | Some row \<Rightarrow> Inr (br_session row, br_runner row, br_version row))"

definition tenant_join :: "string \<Rightarrow> bindings_db \<Rightarrow> binding_row \<Rightarrow> bool" where
  "tenant_join t db row \<longleftrightarrow> (br_account row, t) \<in> set (bd_agents db)"

definition system_join :: "bindings_db \<Rightarrow> binding_row \<Rightarrow> bool" where
  "system_join db row \<longleftrightarrow> br_account row \<in> fst ` set (bd_agents db)"

definition DeleteSessionBinding :: "bool \<Rightarrow> string \<Rightarrow> string \<Rightarrow> bindings_db \<Rightarrow> bindings_db \<times> (binding_error + unit)" where
  "DeleteSessionBinding fault t sessionID db =
    (if sessionID = [] then (db, Inl (BindingInvalid ''session id is required''))
     else if fault then (db, Inl BindingFault)
     else (fst (delete_bindings (tenant_join t db) (\<lambda>row. br_tenant row = t \<and> br_session row = sessionID) db), Inr ()))"

definition DeleteSessionBindingVersion :: "bool \<Rightarrow> string \<Rightarrow> string \<Rightarrow> string \<Rightarrow> bindings_db \<Rightarrow> bindings_db \<times> (binding_error + bool)" where
  "DeleteSessionBindingVersion fault t sessionID version db =
    (if sessionID = [] then (db, Inl (BindingInvalid ''session id is required''))
     else if fault then (db, Inl BindingFault)
     else case delete_bindings (tenant_join t db) (\<lambda>row. br_tenant row = t \<and> br_session row = sessionID \<and> br_version row = version) db of
            (db', d) \<Rightarrow> (db', Inr (0 < length d)))"

definition DeleteSessionBindingsForRunner :: "bool \<Rightarrow> string \<Rightarrow> bindings_db \<Rightarrow> bindings_db \<times> (binding_error + SessionBinding list)" where
  "DeleteSessionBindingsForRunner fault runnerID db =
    (if runnerID = [] then (db, Inl (BindingInvalid ''runner id is required''))
     else if fault then (db, Inl BindingFault)
     else case delete_bindings (system_join db) (\<lambda>row. br_runner row = runnerID) db of
            (db', d) \<Rightarrow> (db', Inr (sort_key sbr_session
               (map (\<lambda>row. \<lparr>sbr_tenant = br_tenant row, sbr_session = br_session row, sbr_account = br_account row, sbr_runner = runnerID\<rparr>) d))))"

definition SessionBindingTenant :: "bool \<Rightarrow> string \<Rightarrow> string \<Rightarrow> bindings_db \<Rightarrow> binding_error + string" where
  "SessionBindingTenant fault sessionID runnerID db =
    (if sessionID = [] \<or> runnerID = [] then Inl (BindingInvalid ''session id and runner id are required'')
     else if fault then Inl BindingFault
     else case map br_tenant (filter (\<lambda>row. br_session row = sessionID \<and> br_runner row = runnerID) (bd_rows db)) of
            [] \<Rightarrow> Inl BindingNotFound | [t] \<Rightarrow> Inr t | _ \<Rightarrow> Inl BindingConflict)"

section \<open>The invariant of the tables\<close>

abbreviation account_key :: "binding_row \<Rightarrow> string \<times> string" where
  "account_key row \<equiv> (br_tenant row, br_account row)"

abbreviation session_key :: "binding_row \<Rightarrow> string \<times> string" where
  "session_key row \<equiv> (br_tenant row, br_session row)"

abbreviation interval_key :: "binding_row \<Rightarrow> string \<times> string" where
  "interval_key row \<equiv> (br_tenant row, br_interval row)"

definition event_key :: "usage_event \<Rightarrow> string \<times> string \<times> usage_kind" where
  "event_key e = (ue_tenant e, ue_interval e, ue_kind e)"

definition event_keys :: "usage_event list \<Rightarrow> (string \<times> string \<times> usage_kind) set" where
  "event_keys evs = event_key ` set evs"

definition rows_ok :: "(string \<times> string) list \<Rightarrow> binding_row list \<Rightarrow> bool" where
  "rows_ok agents rows \<longleftrightarrow> distinct (map account_key rows) \<and> distinct (map session_key rows) \<and> distinct (map interval_key rows)
    \<and> (\<forall>row \<in> set rows. (br_account row, br_tenant row) \<in> set agents \<and> br_session row \<noteq> [] \<and> br_runner row \<noteq> [] \<and> br_interval row \<noteq> [])"

text \<open>Billing: the interval of a binding has not ended, and any other interval that has an event has both of them.\<close>

definition billing_ok :: "binding_row list \<Rightarrow> usage_event list \<Rightarrow> bool" where
  "billing_ok rows evs \<longleftrightarrow> distinct (map event_key evs)
    \<and> (\<forall>row \<in> set rows. (br_tenant row, br_interval row, UsageEnd) \<notin> event_keys evs)
    \<and> (\<forall>t i k. (t, i, k) \<in> event_keys evs \<longrightarrow> (t, i) \<in> interval_key ` set rows
         \<or> (t, i, UsageStart) \<in> event_keys evs \<and> (t, i, UsageEnd) \<in> event_keys evs)"

definition db_ok :: "bindings_db \<Rightarrow> bool" where
  "db_ok db \<longleftrightarrow> rows_ok (bd_agents db) (bd_rows db) \<and> billing_ok (bd_rows db) (bd_events db)"

lemma insert_event_alt: "insert_event e evs = (if event_key e \<in> event_keys evs then evs else evs @ [e])"
proof -
  have "list_ex (\<lambda>e'. ue_tenant e' = ue_tenant e \<and> ue_interval e' = ue_interval e \<and> ue_kind e' = ue_kind e) evs \<longleftrightarrow> event_key e \<in> event_keys evs"
    by (induction evs) (auto simp: event_keys_def event_key_def)
  then show ?thesis by (simp add: insert_event_def)
qed

lemma event_keys_insert [simp]: "event_keys (insert_event e evs) = insert (event_key e) (event_keys evs)"
  by (auto simp: insert_event_alt event_keys_def)

lemma event_key_of [simp]: "event_key (event_of k b row) = (br_tenant row, br_interval row, k)"
  by (simp add: event_key_def event_of_def)

lemma insert_event_distinct: "distinct (map event_key evs) \<Longrightarrow> distinct (map event_key (insert_event e evs))"
  by (auto simp: insert_event_alt event_keys_def)

lemma fold_insert_events:
  "event_keys (fold (\<lambda>row. insert_event (event_of k b row)) rows evs) = event_keys evs \<union> (\<lambda>row. (br_tenant row, br_interval row, k)) ` set rows
    \<and> (distinct (map event_key evs) \<longrightarrow> distinct (map event_key (fold (\<lambda>row. insert_event (event_of k b row)) rows evs)))"
  by (induction rows arbitrary: evs) (auto simp: insert_event_distinct)

lemma rows_ok_filter: "rows_ok ag rows \<Longrightarrow> rows_ok ag (filter P rows)"
  by (auto simp: rows_ok_def distinct_map_filter)

lemma delete_bindings_ok:
  assumes "db_ok db" and "\<And>row. row \<in> set (bd_rows db) \<Longrightarrow> P row \<Longrightarrow> joined row"
  shows "db_ok (fst (delete_bindings joined P db))"
proof -
  let ?d = "filter P (bd_rows db)" and ?db = "fst (delete_bindings joined P db)"
  have j: "filter joined ?d = ?d" using assms(2) by (intro filter_True) auto
  have k: "event_keys (bd_events ?db) = event_keys (bd_events db) \<union> (\<lambda>row. (br_tenant row, br_interval row, UsageStart)) ` set ?d
      \<union> (\<lambda>row. (br_tenant row, br_interval row, UsageEnd)) ` set ?d"
    and dist: "distinct (map event_key (bd_events ?db))"
    using assms(1) unfolding delete_bindings_def Let_def fst_conv j
    by (simp_all add: fold_insert_events db_ok_def billing_ok_def)
  have rows: "bd_rows ?db = filter (\<lambda>row. \<not> P row) (bd_rows db)" "bd_agents ?db = bd_agents db"
    by (simp_all add: delete_bindings_def Let_def)
  have inj: "row = row'" if "row \<in> set (bd_rows db)" "row' \<in> set (bd_rows db)" "interval_key row = interval_key row'" for row row'
    using assms(1) that by (auto simp: db_ok_def rows_ok_def distinct_map dest: inj_onD)
  have b: "billing_ok (bd_rows db) (bd_events db)" using assms(1) by (simp add: db_ok_def)
  have "(br_tenant row, br_interval row, UsageEnd) \<notin> event_keys (bd_events ?db)" if "row \<in> set (bd_rows ?db)" for row
    using that b inj [of row] by (auto simp: k rows billing_ok_def)
  moreover have "(t, i) \<in> interval_key ` set (bd_rows ?db) \<or> (t, i, UsageStart) \<in> event_keys (bd_events ?db) \<and> (t, i, UsageEnd) \<in> event_keys (bd_events ?db)"
    if "(t, i, kd) \<in> event_keys (bd_events ?db)" for t i kd
  proof (cases "(t, i) \<in> interval_key ` set ?d")
    case True
    then show ?thesis by (auto simp: k)
  next
    case False
    then have "(t, i, kd) \<in> event_keys (bd_events db)" using that by (auto simp: k)
    then have "(t, i) \<in> interval_key ` set (bd_rows db) \<or> (t, i, UsageStart) \<in> event_keys (bd_events db) \<and> (t, i, UsageEnd) \<in> event_keys (bd_events db)"
      using b by (auto simp: billing_ok_def)
    then show ?thesis using False by (auto simp: k rows)
  qed
  ultimately show ?thesis using assms(1) dist rows rows_ok_filter by (auto simp: db_ok_def billing_ok_def)
qed

text \<open>What the upsert does to the rows: the row of the account is replaced, or a new one comes last.\<close>

lemma find_split: "find P xs = Some x \<Longrightarrow> \<exists>ys zs. xs = ys @ x # zs \<and> P x \<and> (\<forall>y \<in> set ys. \<not> P y)"
proof (induction xs)
  case (Cons a xs)
  show ?case
  proof (cases "P a")
    case False
    then obtain ys zs where "xs = ys @ x # zs \<and> P x \<and> (\<forall>y \<in> set ys. \<not> P y)" using Cons by auto
    then show ?thesis using False by (intro exI [of _ "a # ys"] exI [of _ zs]) simp
  qed (use Cons.prems in \<open>auto intro: exI [of _ "[]"]\<close>)
qed simp

lemma upsert_split:
  assumes "upsert_binding row rows = Some rows'" and "distinct (map account_key rows)"
  obtains xs ys where "rows' = xs @ row # ys"
    "\<forall>r \<in> set (xs @ ys). session_key r \<noteq> session_key row"
    "\<forall>r \<in> set (xs @ ys). account_key r \<noteq> account_key row"
    "case find (\<lambda>r. br_tenant r = br_tenant row \<and> br_account r = br_account row) rows of None \<Rightarrow> rows = xs @ ys | Some old \<Rightarrow> rows = xs @ old # ys"
proof (cases "find (\<lambda>r. br_tenant r = br_tenant row \<and> br_account r = br_account row) rows")
  case None
  then have none: "\<not> list_ex (\<lambda>r. br_tenant r = br_tenant row \<and> br_account r = br_account row) rows"
    by (auto simp: find_None_iff list_ex_iff)
  then show ?thesis using assms(1) None
    by (intro that [of rows "[]"]) (auto simp: upsert_binding_def list_ex_iff split: if_splits)
next
  case (Some old)
  obtain xs ys where sp: "rows = xs @ old # ys" "br_tenant old = br_tenant row" "br_account old = br_account row"
    using find_split [OF Some] by blast
  note that' = that [of xs ys, unfolded Some option.case]
  have out: "account_key row \<notin> account_key ` set (xs @ ys)" using assms(2) sp by auto
  have rest: "\<forall>r \<in> set (xs @ ys). account_key r \<noteq> account_key row"
  proof (intro ballI notI)
    fix r
    assume "r \<in> set (xs @ ys)" "account_key r = account_key row"
    then show False using out image_eqI [of "account_key row" account_key r "set (xs @ ys)"] by simp
  qed
  have ex: "list_ex (\<lambda>r. br_tenant r = br_tenant row \<and> br_account r = br_account row) rows" using sp by simp
  have nc: "\<not> list_ex (\<lambda>r. br_tenant r = br_tenant row \<and> br_session r = br_session row \<and> br_account r \<noteq> br_account row) rows"
    using assms(1) unfolding upsert_binding_def by (metis option.distinct(1))
  have rows': "rows' = map (\<lambda>r. if br_tenant r = br_tenant row \<and> br_account r = br_account row then row else r) rows"
    using assms(1) ex nc unfolding upsert_binding_def by simp
  have keep: "map (\<lambda>r. if br_tenant r = br_tenant row \<and> br_account r = br_account row then row else r) zs = zs"
    if "set zs \<subseteq> set (xs @ ys)" for zs using that rest by (intro map_idI) auto
  have "rows' = xs @ row # ys" unfolding rows' sp(1) map_append list.map using sp(2,3) keep [of xs] keep [of ys] by simp
  moreover have "\<forall>r \<in> set (xs @ ys). session_key r \<noteq> session_key row"
    using nc rest unfolding sp(1) list_ex_iff by auto
  ultimately show ?thesis using rest sp(1) by (rule that')
qed

text \<open>A random identifier is fresh: no row and no event carries it.\<close>

definition fresh_interval :: "string \<Rightarrow> bindings_db \<Rightarrow> bool" where
  "fresh_interval i db \<longleftrightarrow> i \<noteq> [] \<and> i \<notin> br_interval ` set (bd_rows db) \<and> i \<notin> ue_interval ` set (bd_events db)"

lemma fresh_keys: "fresh_interval i db \<Longrightarrow> (t, i, k) \<notin> event_keys (bd_events db) \<and> (\<forall>row \<in> set (bd_rows db). br_interval row \<noteq> i)"
  by (auto simp: fresh_interval_def event_keys_def event_key_def)

lemma replaced_rows_ok:
  assumes "rows_ok ag rows" and "set (xs @ ys) \<subseteq> set rows" and "distinct (map account_key (xs @ ys))" "distinct (map session_key (xs @ ys))"
      "distinct (map interval_key (xs @ ys))"
    and "\<forall>r \<in> set (xs @ ys). account_key r \<noteq> account_key row \<and> session_key r \<noteq> session_key row \<and> interval_key r \<noteq> interval_key row"
    and "(br_account row, br_tenant row) \<in> set ag" "br_session row \<noteq> []" "br_runner row \<noteq> []" "br_interval row \<noteq> []"
  shows "rows_ok ag (xs @ row # ys)"
proof -
  have d: "distinct (map f (xs @ row # ys))" if "distinct (map f (xs @ ys))" "\<forall>r \<in> set (xs @ ys). f r \<noteq> f row" for f :: "binding_row \<Rightarrow> string \<times> string"
    using that by (auto simp: image_iff)
  have e: "(br_account r, br_tenant r) \<in> set ag \<and> br_session r \<noteq> [] \<and> br_runner r \<noteq> [] \<and> br_interval r \<noteq> []" if "r \<in> set (xs @ row # ys)" for r
    using that assms(1,2,7-10) by (auto simp: rows_ok_def)
  show ?thesis unfolding rows_ok_def using d [OF assms(3)] d [OF assms(4)] d [OF assms(5)] assms(6) e by blast
qed

text \<open>The cases of a successful bind: the account was unbound, is bound to the same session, or moves from another one.\<close>

lemma record_tx_cases:
  assumes "record_tx t sid account runner i v db = Inr (db', displaced)" and "db_ok db" and "sid \<noteq> []"
  obtains (first) xs ys where "SessionBindingForUpdate t account db = None" "bd_rows db = xs @ ys" "displaced = []"
      "db' = db\<lparr>bd_rows := xs @ \<lparr>br_tenant = t, br_account = account, br_session = sid, br_runner = runner, br_interval = i, br_version = v\<rparr> # ys,
         bd_events := insert_event (event_of UsageStart False \<lparr>br_tenant = t, br_account = account, br_session = sid, br_runner = runner, br_interval = i, br_version = v\<rparr>) (bd_events db)\<rparr>"
      "\<forall>r \<in> set (xs @ ys). account_key r \<noteq> (t, account) \<and> session_key r \<noteq> (t, sid)" "(account, t) \<in> set (bd_agents db)"
  | (same) xs ys old where "SessionBindingForUpdate t account db = Some old" "bd_rows db = xs @ old # ys" "displaced = sid" "br_session old = sid"
      "db' = db\<lparr>bd_rows := xs @ \<lparr>br_tenant = t, br_account = account, br_session = sid, br_runner = runner, br_interval = br_interval old, br_version = v\<rparr> # ys,
         bd_events := insert_event (event_of UsageStart True old) (bd_events db)\<rparr>" "account_key old = (t, account)"
      "\<forall>r \<in> set (xs @ ys). account_key r \<noteq> (t, account) \<and> session_key r \<noteq> (t, sid)" "(account, t) \<in> set (bd_agents db)"
  | (moved) xs ys old where "SessionBindingForUpdate t account db = Some old" "bd_rows db = xs @ old # ys" "displaced = br_session old" "br_session old \<noteq> sid"
      "db' = db\<lparr>bd_rows := xs @ \<lparr>br_tenant = t, br_account = account, br_session = sid, br_runner = runner, br_interval = i, br_version = v\<rparr> # ys,
         bd_events := insert_event (event_of UsageStart False \<lparr>br_tenant = t, br_account = account, br_session = sid, br_runner = runner, br_interval = i, br_version = v\<rparr>)
           (insert_event (event_of UsageEnd False old) (insert_event (event_of UsageStart True old) (bd_events db)))\<rparr>" "account_key old = (t, account)"
      "\<forall>r \<in> set (xs @ ys). account_key r \<noteq> (t, account) \<and> session_key r \<noteq> (t, sid)" "(account, t) \<in> set (bd_agents db)"
proof -
  have vis: "(account, t) \<in> set (bd_agents db)"
    using assms(1) by (auto simp: record_tx_def AgentAccountVisible_def split: if_splits)
  have dist: "distinct (map account_key (bd_rows db))" using assms(2) by (simp add: db_ok_def rows_ok_def)
  show ?thesis
  proof (cases "SessionBindingForUpdate t account db")
    case None
    let ?row = "\<lparr>br_tenant = t, br_account = account, br_session = sid, br_runner = runner, br_interval = i, br_version = v\<rparr>"
    obtain rows where up: "upsert_binding ?row (bd_rows db) = Some rows" "displaced = []"
      "db' = db\<lparr>bd_rows := rows, bd_events := insert_event (event_of UsageStart False ?row) (bd_events db)\<rparr>"
      using assms(1,3) None vis by (auto simp: record_tx_def Let_def AgentAccountVisible_def split: option.splits)
    show ?thesis
      using up(2,3) None vis by (cases rule: upsert_split [OF up(1) dist]) (auto simp: SessionBindingForUpdate_def intro!: first)
  next
    case (Some old)
    have old: "account_key old = (t, account)" "old \<in> set (bd_rows db)" using Some by (auto simp: SessionBindingForUpdate_def find_Some_iff)
    have int: "br_interval old \<noteq> []" using assms(2) old(2) by (auto simp: db_ok_def rows_ok_def)
    show ?thesis
    proof (cases "br_session old = sid")
      case True
      let ?row = "\<lparr>br_tenant = t, br_account = account, br_session = sid, br_runner = runner, br_interval = br_interval old, br_version = v\<rparr>"
      obtain rows where up: "upsert_binding ?row (bd_rows db) = Some rows" "displaced = sid"
        "db' = db\<lparr>bd_rows := rows, bd_events := insert_event (event_of UsageStart True old) (bd_events db)\<rparr>"
        using assms(1) Some True vis int by (auto simp: record_tx_def Let_def AgentAccountVisible_def split: option.splits)
      show ?thesis
        using up(2,3) Some True vis old(1) by (cases rule: upsert_split [OF up(1) dist]) (auto simp: SessionBindingForUpdate_def intro!: same)
    next
      case False
      let ?row = "\<lparr>br_tenant = t, br_account = account, br_session = sid, br_runner = runner, br_interval = i, br_version = v\<rparr>"
      obtain rows where up: "upsert_binding ?row (bd_rows db) = Some rows" "displaced = br_session old"
        "db' = db\<lparr>bd_rows := rows, bd_events := insert_event (event_of UsageStart False ?row)
           (insert_event (event_of UsageEnd False old) (insert_event (event_of UsageStart True old) (bd_events db)))\<rparr>"
        using assms(1) Some False vis int by (auto simp: record_tx_def Let_def AgentAccountVisible_def split: option.splits)
      show ?thesis
        using up(2,3) Some False vis old(1) by (cases rule: upsert_split [OF up(1) dist]) (auto simp: SessionBindingForUpdate_def intro!: moved)
    qed
  qed
qed

text \<open>Billing over a change of the rows: the changed part may drop an interval only together with both its events.\<close>

lemma billing_change:
  assumes "billing_ok rows evs" and "distinct (map event_key evs')" and "event_keys evs' = event_keys evs \<union> A"
    and "\<And>row. row \<in> set rows' \<Longrightarrow> row \<in> set rows \<and> (br_tenant row, br_interval row, UsageEnd) \<notin> A
      \<or> (br_tenant row, br_interval row, UsageEnd) \<notin> event_keys evs \<union> A"
    and "\<And>row. row \<in> set rows \<Longrightarrow> interval_key row \<in> interval_key ` set rows' \<or> {(br_tenant row, br_interval row, UsageStart), (br_tenant row, br_interval row, UsageEnd)} \<subseteq> A"
    and "\<And>t i k. (t, i, k) \<in> A \<Longrightarrow> (t, i) \<in> interval_key ` set rows' \<or> {(t, i, UsageStart), (t, i, UsageEnd)} \<subseteq> A"
  shows "billing_ok rows' evs'"
proof -
  have "(br_tenant row, br_interval row, UsageEnd) \<notin> event_keys evs'" if "row \<in> set rows'" for row
    using assms(4) [OF that] assms(1) unfolding assms(3) billing_ok_def by auto
  moreover have "(t, i) \<in> interval_key ` set rows' \<or> (t, i, UsageStart) \<in> event_keys evs' \<and> (t, i, UsageEnd) \<in> event_keys evs'"
    if "(t, i, k) \<in> event_keys evs'" for t i k
  proof (cases "(t, i, k) \<in> A")
    case False
    then have "(t, i, k) \<in> event_keys evs" using that assms(3) by blast
    then consider row where "row \<in> set rows" "t = br_tenant row" "i = br_interval row"
      | "(t, i, UsageStart) \<in> event_keys evs" "(t, i, UsageEnd) \<in> event_keys evs"
      using assms(1) unfolding billing_ok_def by fast
    then show ?thesis using assms(5) by cases (auto simp: assms(3))
  qed (use assms(3,6) in blast)
  ultimately show ?thesis using assms(2) unfolding billing_ok_def by blast
qed

lemma record_tx_ok:
  assumes rec: "record_tx t sid account runner i v db = Inr (db', displaced)" and ok: "db_ok db" and sid: "sid \<noteq> []" "runner \<noteq> []"
    and fresh: "fresh_interval i db"
  shows "db_ok db'"
proof -
  have rok: "rows_ok (bd_agents db) (bd_rows db)" and bok: "billing_ok (bd_rows db) (bd_events db)" using ok by (simp_all add: db_ok_def)
  have dk: "distinct (map event_key (bd_events db))" using bok by (simp add: billing_ok_def)
  note f = fresh_keys [OF fresh]
  have i: "i \<noteq> []" using fresh by (simp add: fresh_interval_def)
  from rec ok sid(1) show ?thesis
  proof (cases rule: record_tx_cases)
    case (first xs ys)
    have "rows_ok (bd_agents db) (bd_rows db')"
      using rok first(5,6) f i sid unfolding first(4) by simp (intro replaced_rows_ok [OF rok], auto simp: first(2) rows_ok_def)
    moreover have "billing_ok (bd_rows db') (bd_events db')"
      using dk f by (intro billing_change [OF bok, where A = "{(t, i, UsageStart)}"])
        (auto simp: first(2,4) insert_event_distinct)
    ultimately show ?thesis by (simp add: db_ok_def first(4))
  next
    case (same xs ys old)
    have "interval_key r \<noteq> interval_key old" if "r \<in> set (xs @ ys)" for r
      using rok that unfolding rows_ok_def same(2) by (auto simp: image_iff)
    then have "rows_ok (bd_agents db) (bd_rows db')"
      using rok same(6,7,8) sid unfolding same(5) by simp (intro replaced_rows_ok [OF rok], auto simp: same(2) rows_ok_def)
    moreover have "(t, br_interval old, UsageEnd) \<notin> event_keys (bd_events db)"
      using bok same(6) unfolding billing_ok_def same(2) by auto
    then have "billing_ok (bd_rows db') (bd_events db')"
      using dk same(6) by (intro billing_change [OF bok, where A = "{(t, br_interval old, UsageStart)}"])
        (auto simp: same(2,5) insert_event_distinct)
    ultimately show ?thesis by (simp add: db_ok_def same(5))
  next
    case (moved xs ys old)
    have ne: "interval_key r \<noteq> interval_key old" if "r \<in> set (xs @ ys)" for r
      using rok that unfolding rows_ok_def moved(2) by (auto simp: image_iff)
    have "rows_ok (bd_agents db) (bd_rows db')"
      using rok moved(7,8) f i sid unfolding moved(5) by simp (intro replaced_rows_ok [OF rok], auto simp: moved(2) rows_ok_def)
    moreover have "billing_ok (bd_rows db') (bd_events db')"
      using dk f ne moved(6) i
      by (intro billing_change [OF bok, where A = "{(t, i, UsageStart), (t, br_interval old, UsageStart), (t, br_interval old, UsageEnd)}"])
        (auto simp: moved(2,5) insert_event_distinct)
    ultimately show ?thesis by (simp add: db_ok_def moved(5))
  qed
qed

section \<open>Lookups\<close>

lemma find_key: "distinct (map f xs) \<Longrightarrow> find (\<lambda>x. f x = k) xs = Some y \<longleftrightarrow> y \<in> set xs \<and> f y = k"
  by (induction xs) (auto simp: image_iff)

lemma session_row_iff: "db_ok db \<Longrightarrow> SessionBinding_row t sid db = Some row \<longleftrightarrow> row \<in> set (bd_rows db) \<and> session_key row = (t, sid)"
  using find_key [of session_key "bd_rows db" "(t, sid)" row] by (simp add: SessionBinding_row_def db_ok_def rows_ok_def)

lemma account_row_iff: "db_ok db \<Longrightarrow> SessionBindingForUpdate t account db = Some row \<longleftrightarrow> row \<in> set (bd_rows db) \<and> account_key row = (t, account)"
  using find_key [of account_key "bd_rows db" "(t, account)" row] by (simp add: SessionBindingForUpdate_def db_ok_def rows_ok_def)

lemma session_row_None: "SessionBinding_row t sid db = None \<longleftrightarrow> (\<forall>row \<in> set (bd_rows db). session_key row \<noteq> (t, sid))"
  by (auto simp: SessionBinding_row_def find_None_iff)

lemma session_row_cong:
  assumes "db_ok db" "db_ok db'"
    and "\<And>row. session_key row = (t, sid) \<Longrightarrow> row \<in> set (bd_rows db') \<longleftrightarrow> row \<in> set (bd_rows db)"
  shows "SessionBinding_row t sid db' = SessionBinding_row t sid db"
proof (rule option.expand)
  show "(SessionBinding_row t sid db' = None) = (SessionBinding_row t sid db = None)" using assms(3) by (auto simp: session_row_None)
  assume "SessionBinding_row t sid db' \<noteq> None" "SessionBinding_row t sid db \<noteq> None"
  then obtain a b where "SessionBinding_row t sid db' = Some a" "SessionBinding_row t sid db = Some b" by blast
  moreover from this have "SessionBinding_row t sid db = Some a"
    using assms by (auto simp: session_row_iff)
  ultimately show "the (SessionBinding_row t sid db') = the (SessionBinding_row t sid db)" by simp
qed

text \<open>What a bind changes of the rows: the account's row is the new one, every row of another account is kept.\<close>

lemma replaced_set:
  assumes "\<forall>r \<in> set (xs @ ys). account_key r \<noteq> (t, account) \<and> session_key r \<noteq> (t, sid)"
  shows "set (xs @ row # ys) = insert row {r \<in> set (xs @ ys). account_key r \<noteq> (t, account)}"
    "account_key old = (t, account) \<Longrightarrow> set (xs @ row # ys) = insert row {r \<in> set (xs @ old # ys). account_key r \<noteq> (t, account)}"
  using assms by auto

lemma record_rows:
  assumes "record_tx t sid account runner i v db = Inr (db', displaced)" and "db_ok db" and "sid \<noteq> []"
  shows "\<exists>row. br_tenant row = t \<and> br_account row = account \<and> br_session row = sid \<and> br_runner row = runner \<and> br_version row = v
      \<and> set (bd_rows db') = insert row {r \<in> set (bd_rows db). account_key r \<noteq> (t, account)}"
    "displaced = (case SessionBindingForUpdate t account db of None \<Rightarrow> [] | Some old \<Rightarrow> br_session old)"
    "\<forall>r \<in> set (bd_rows db). session_key r = (t, sid) \<longrightarrow> account_key r = (t, account)"
proof -
  let ?row = "\<lambda>j. \<lparr>br_tenant = t, br_account = account, br_session = sid, br_runner = runner, br_interval = j, br_version = v\<rparr>"
  have new: "\<exists>row. br_tenant row = t \<and> br_account row = account \<and> br_session row = sid \<and> br_runner row = runner \<and> br_version row = v
      \<and> R = insert row S" if "R = insert (?row j) S" for R S j
    using that by (intro exI [of _ "?row j"]) simp
  have "(\<exists>row. br_tenant row = t \<and> br_account row = account \<and> br_session row = sid \<and> br_runner row = runner \<and> br_version row = v
      \<and> set (bd_rows db') = insert row {r \<in> set (bd_rows db). account_key r \<noteq> (t, account)})
    \<and> displaced = (case SessionBindingForUpdate t account db of None \<Rightarrow> [] | Some old \<Rightarrow> br_session old)
    \<and> (\<forall>r \<in> set (bd_rows db). session_key r = (t, sid) \<longrightarrow> account_key r = (t, account))"
    using assms
  proof (cases rule: record_tx_cases)
    case (first xs ys)
    have "set (bd_rows db') = insert (?row i) {r \<in> set (bd_rows db). account_key r \<noteq> (t, account)}"
      using replaced_set(1) [OF first(5)] by (simp add: first(2,4))
    moreover have "\<forall>r \<in> set (bd_rows db). session_key r = (t, sid) \<longrightarrow> account_key r = (t, account)" using first(5) unfolding first(2) by blast
    ultimately show ?thesis using new first(1,3) by simp
  next
    case (same xs ys old)
    have rows': "bd_rows db' = xs @ ?row (br_interval old) # ys" by (simp add: same(5))
    have "set (bd_rows db') = insert (?row (br_interval old)) {r \<in> set (bd_rows db). account_key r \<noteq> (t, account)}"
      unfolding rows' same(2) by (rule replaced_set(2) [OF same(7,6)])
    moreover have "\<forall>r \<in> set (bd_rows db). session_key r = (t, sid) \<longrightarrow> account_key r = (t, account)" using same(6,7) unfolding same(2) by auto
    ultimately show ?thesis using new same(1,3,4) by simp
  next
    case (moved xs ys old)
    have rows': "bd_rows db' = xs @ ?row i # ys" by (simp add: moved(5))
    have "set (bd_rows db') = insert (?row i) {r \<in> set (bd_rows db). account_key r \<noteq> (t, account)}"
      unfolding rows' moved(2) by (rule replaced_set(2) [OF moved(7,6)])
    moreover have "\<forall>r \<in> set (bd_rows db). session_key r = (t, sid) \<longrightarrow> account_key r = (t, account)" using moved(6,7) unfolding moved(2) by auto
    ultimately show ?thesis using new moved(1,3) by simp
  qed
  then show "\<exists>row. br_tenant row = t \<and> br_account row = account \<and> br_session row = sid \<and> br_runner row = runner \<and> br_version row = v
      \<and> set (bd_rows db') = insert row {r \<in> set (bd_rows db). account_key r \<noteq> (t, account)}"
    "displaced = (case SessionBindingForUpdate t account db of None \<Rightarrow> [] | Some old \<Rightarrow> br_session old)"
    "\<forall>r \<in> set (bd_rows db). session_key r = (t, sid) \<longrightarrow> account_key r = (t, account)" by blast+
qed

section \<open>Runs\<close>

text \<open>The database may hold bindings an older server wrote without a start event.\<close>

inductive db_reachable :: "bindings_db \<Rightarrow> bool" where
  init: "rows_ok ag rows \<Longrightarrow> db_reachable \<lparr>bd_rows = rows, bd_events = [], bd_agents = ag\<rparr>"
| bind: "db_reachable db \<Longrightarrow> fresh_interval i db \<Longrightarrow> db_reachable (fst (RecordSessionBinding fault t sid account runner i v db))"
| release: "db_reachable db \<Longrightarrow> db_reachable (fst (DeleteSessionBinding fault t sid db))"
| release_version: "db_reachable db \<Longrightarrow> db_reachable (fst (DeleteSessionBindingVersion fault t sid v db))"
| sweep: "db_reachable db \<Longrightarrow> db_reachable (fst (DeleteSessionBindingsForRunner fault runner db))"

lemma bind_ok: "db_ok db \<Longrightarrow> fresh_interval i db \<Longrightarrow> db_ok (fst (RecordSessionBinding fault t sid account runner i v db))"
  by (auto simp: RecordSessionBinding_def record_tx_ok split: sum.split)

lemma agent_joined: "db_ok db \<Longrightarrow> row \<in> set (bd_rows db) \<Longrightarrow> (br_account row, br_tenant row) \<in> set (bd_agents db)"
  by (simp add: db_ok_def rows_ok_def)

lemma release_ok: "db_ok db \<Longrightarrow> db_ok (fst (DeleteSessionBinding fault t sid db))"
  by (auto simp: DeleteSessionBinding_def tenant_join_def intro!: delete_bindings_ok dest: agent_joined)

lemma release_version_ok: "db_ok db \<Longrightarrow> db_ok (fst (DeleteSessionBindingVersion fault t sid v db))"
  by (auto simp: DeleteSessionBindingVersion_def tenant_join_def case_prod_beta intro!: delete_bindings_ok dest: agent_joined)

lemma sweep_ok: "db_ok db \<Longrightarrow> db_ok (fst (DeleteSessionBindingsForRunner fault runner db))"
  by (auto simp: DeleteSessionBindingsForRunner_def system_join_def case_prod_beta intro!: delete_bindings_ok)
    (metis agent_joined fst_conv image_eqI)

lemma db_reachable_ok: "db_reachable db \<Longrightarrow> db_ok db"
proof (induction rule: db_reachable.induct)
  case (init ag rows)
  then show ?case by (simp add: db_ok_def billing_ok_def event_keys_def)
qed (simp_all add: bind_ok release_ok release_version_ok sweep_ok)

section \<open>What the table promises its readers\<close>

text \<open>A row as the write that made it: session, account, Runner and version.\<close>

type_synonym binding_write = "string \<times> string \<times> string \<times> string"

definition row_write :: "binding_row \<Rightarrow> binding_write" where
  "row_write r = (br_session r, br_account r, br_runner r, br_version r)"

definition live_writes :: "bindings_db \<Rightarrow> binding_write set" where
  "live_writes db = row_write ` set (bd_rows db)"

text \<open>The contract of the store with the hub: a lookup answers a row, a bind adds one write and nothing else, a failed operation
  changes nothing, a release only removes, and a sweep leaves no row of its Runner.\<close>

locale binding_store =
  fixes writes :: "'db \<Rightarrow> binding_write set"
    and bind :: "bool \<Rightarrow> string \<Rightarrow> string \<Rightarrow> string \<Rightarrow> string \<Rightarrow> string \<Rightarrow> string \<Rightarrow> 'db \<Rightarrow> 'db \<times> (binding_error + string \<times> string)"
    and resolve :: "bool \<Rightarrow> string \<Rightarrow> string \<Rightarrow> 'db \<Rightarrow> binding_error + (string \<times> string \<times> string)"
    and session_of :: "bool \<Rightarrow> string \<Rightarrow> string \<Rightarrow> 'db \<Rightarrow> binding_error + (string \<times> string \<times> string)"
    and release :: "bool \<Rightarrow> string \<Rightarrow> string \<Rightarrow> 'db \<Rightarrow> 'db \<times> (binding_error + unit)"
    and release_version :: "bool \<Rightarrow> string \<Rightarrow> string \<Rightarrow> string \<Rightarrow> 'db \<Rightarrow> 'db \<times> (binding_error + bool)"
    and sweep :: "bool \<Rightarrow> string \<Rightarrow> 'db \<Rightarrow> 'db \<times> (binding_error + SessionBinding list)"
  assumes bind_fails: "bind fault t sid a r i v db = (db', Inl e) \<Longrightarrow> db' = db"
    and bind_writes: "bind fault t sid a r i v db = (db', Inr (d, v')) \<Longrightarrow> v' = v \<and> writes db' \<subseteq> insert (sid, a, r, v) (writes db)"
    and resolve_written: "resolve fault t sid db = Inr (a, r, v) \<Longrightarrow> (sid, a, r, v) \<in> writes db"
    and session_of_written: "session_of fault t a db = Inr (sid, r, v) \<Longrightarrow> (sid, a, r, v) \<in> writes db"
    and release_writes: "writes (fst (release fault t sid db)) \<subseteq> writes db"
    and release_version_writes: "writes (fst (release_version fault t sid v db)) \<subseteq> writes db"
    and sweep_fails: "sweep fault r db = (db', Inl e) \<Longrightarrow> db' = db"
    and sweep_writes: "sweep fault r db = (db', Inr rows) \<Longrightarrow> writes db' = {(s, a, r', v) \<in> writes db. r' \<noteq> r}"
begin

lemma bind_known: "writes db \<subseteq> W \<Longrightarrow> bind fault t sid a r i v db = (db', Inr (d, v')) \<Longrightarrow> writes db' \<subseteq> insert (sid, a, r, v) W"
  using bind_writes by blast

lemma sweep_subset: "writes (fst (sweep fault r db)) \<subseteq> writes db"
  by (cases "sweep fault r db"; cases "snd (sweep fault r db)") (auto dest: sweep_fails sweep_writes)

text \<open>Where a version names one write, a version a sweep removed is on no row it left.\<close>

lemma sweep_retires:
  assumes "sweep fault r db = (db', Inr rows)" and "(s, a, r, v) \<in> writes db" and "(s', a', r', v) \<in> writes db'"
  shows "\<exists>w w'. w \<in> writes db \<and> w' \<in> writes db \<and> w \<noteq> w' \<and> snd (snd (snd w)) = v \<and> snd (snd (snd w')) = v"
proof -
  have "(s', a', r', v) \<in> writes db \<and> r' \<noteq> r" using sweep_writes [OF assms(1)] assms(3) by auto
  with assms(2) have "(s, a, r, v) \<in> writes db \<and> (s', a', r', v) \<in> writes db \<and> (s, a, r, v) \<noteq> (s', a', r', v)" by auto
  then show ?thesis by force
qed

end

lemma upsert_writes: "upsert_binding row rows = Some rows' \<Longrightarrow> set rows' \<subseteq> insert row (set rows)"
  by (auto simp: upsert_binding_def split: if_splits)

lemma live_writes_delete: "live_writes (fst (delete_bindings joined P db)) = row_write ` {r \<in> set (bd_rows db). \<not> P r}"
  by (simp add: delete_bindings_def live_writes_def Let_def)

interpretation table: binding_store live_writes RecordSessionBinding ResolveSessionBinding SessionForAccount_row
  DeleteSessionBinding DeleteSessionBindingVersion DeleteSessionBindingsForRunner
proof unfold_locales
  fix fault t sid a r i v d v' and db db' :: bindings_db and e :: binding_error
  show "db' = db" if "RecordSessionBinding fault t sid a r i v db = (db', Inl e)"
    using that by (auto simp: RecordSessionBinding_def split: if_splits sum.splits)
  show "v' = v \<and> live_writes db' \<subseteq> insert (sid, a, r, v) (live_writes db)"
    if "RecordSessionBinding fault t sid a r i v db = (db', Inr (d, v'))"
    using that by (auto simp: RecordSessionBinding_def record_tx_def Let_def live_writes_def row_write_def
        dest!: upsert_writes split: if_splits sum.splits option.splits)
next
  fix fault t sid a r v and db db' :: bindings_db and e :: binding_error and rows :: "SessionBinding list"
  show "(sid, a, r, v) \<in> live_writes db" if "ResolveSessionBinding fault t sid db = Inr (a, r, v)"
    using that by (auto simp: ResolveSessionBinding_def SessionBinding_row_def live_writes_def row_write_def find_Some_iff
        split: if_splits option.splits)
  show "(sid, a, r, v) \<in> live_writes db" if "SessionForAccount_row fault t a db = Inr (sid, r, v)"
    using that by (auto simp: SessionForAccount_row_def SessionBindingForUpdate_def live_writes_def row_write_def find_Some_iff
        split: if_splits option.splits)
  show "live_writes (fst (DeleteSessionBinding fault t sid db)) \<subseteq> live_writes db"
    by (auto simp: DeleteSessionBinding_def live_writes_delete) (auto simp: live_writes_def)
  show "live_writes (fst (DeleteSessionBindingVersion fault t sid v db)) \<subseteq> live_writes db"
    by (auto simp: DeleteSessionBindingVersion_def live_writes_delete case_prod_beta) (auto simp: live_writes_def)
  show "db' = db" if "DeleteSessionBindingsForRunner fault r db = (db', Inl e)"
    using that by (auto simp: DeleteSessionBindingsForRunner_def split: if_splits prod.splits)
  show "live_writes db' = {(s, a, r', v) \<in> live_writes db. r' \<noteq> r}" if "DeleteSessionBindingsForRunner fault r db = (db', Inr rows)"
    using that live_writes_delete [of "system_join db" "\<lambda>row. br_runner row = r" db]
    by (auto simp: DeleteSessionBindingsForRunner_def live_writes_def row_write_def split: if_splits prod.splits)
qed

section \<open>Properties\<close>


definition demo_agents :: "(string \<times> string) list" where
  "demo_agents = [(''a'', ''t'')]"

definition demo_db :: bindings_db where
  "demo_db = fst (RecordSessionBinding False ''t'' ''s1'' ''a'' ''r'' ''i1'' ''v1'' \<lparr>bd_rows = [], bd_events = [], bd_agents = demo_agents\<rparr>)"

lemma demo_db_reachable: "db_reachable demo_db"
  unfolding demo_db_def
  by (rule db_reachable.bind [OF db_reachable.init]) (simp_all add: rows_ok_def fresh_interval_def)


text \<open>A bind re-points the account. A bind that succeeds reports the session the account held before, the new session resolves to the account and the Runner
  under the version of this write in both directions, the displaced session resolves no more, and every other session keeps its answer;
  it succeeds only if no other account of the tenant holds the session, and a bind that fails changes nothing.\<close>

theorem bind_repoints:
  assumes "db_reachable db" and "fresh_interval i db" and "RecordSessionBinding fault t sid account runner i v db = (db', res)"
  shows "case res of
      Inl e \<Rightarrow> db' = db
    | Inr (displaced, version) \<Rightarrow> version = v
        \<and> (\<forall>r \<in> set (bd_rows db). session_key r = (t, sid) \<longrightarrow> account_key r = (t, account))
        \<and> displaced = (case SessionBindingForUpdate t account db of None \<Rightarrow> [] | Some old \<Rightarrow> br_session old)
        \<and> ResolveSessionBinding False t sid db' = Inr (account, runner, v)
        \<and> SessionForAccount_row False t account db' = Inr (sid, runner, v)
        \<and> (displaced \<noteq> [] \<and> displaced \<noteq> sid \<longrightarrow> ResolveSessionBinding False t displaced db' = Inl BindingNotFound)
        \<and> (\<forall>t' s. (t', s) \<noteq> (t, sid) \<and> (t', s) \<noteq> (t, displaced) \<longrightarrow> ResolveSessionBinding False t' s db' = ResolveSessionBinding False t' s db)"
proof (cases res)
  case (Inl e)
  then show ?thesis using assms(3) by (auto simp: RecordSessionBinding_def split: if_splits sum.splits)
next
  case (Inr dv)
  obtain displaced version where dv: "dv = (displaced, version)" by fastforce
  have ok: "db_ok db" by (rule db_reachable_ok [OF assms(1)])
  have pre: "sid \<noteq> []" "account \<noteq> []" "runner \<noteq> []" and rec: "record_tx t sid account runner i v db = Inr (db', displaced)" and v: "version = v"
    using assms(3) Inr dv by (auto simp: RecordSessionBinding_def split: if_splits sum.splits)
  have ok': "db_ok db'" using bind_ok [OF ok assms(2), of fault t sid account runner v] assms(3) by simp
  note r = record_rows [OF rec ok pre(1)]
  obtain row where row: "br_tenant row = t" "br_account row = account" "br_session row = sid" "br_runner row = runner" "br_version row = v"
    "set (bd_rows db') = insert row {r \<in> set (bd_rows db). account_key r \<noteq> (t, account)}" using r(1) by blast
  have "SessionBinding_row t sid db' = Some row" "SessionBindingForUpdate t account db' = Some row"
    using ok' row by (simp_all add: session_row_iff account_row_iff)
  then have new: "ResolveSessionBinding False t sid db' = Inr (account, runner, v)" "SessionForAccount_row False t account db' = Inr (sid, runner, v)"
    using pre row by (simp_all add: ResolveSessionBinding_def SessionForAccount_row_def)
  have gone: "ResolveSessionBinding False t displaced db' = Inl BindingNotFound" if d: "displaced \<noteq> []" "displaced \<noteq> sid"
  proof -
    obtain old where old: "SessionBindingForUpdate t account db = Some old" "br_session old = displaced"
      using r(2) d(1) by (auto split: option.splits)
    have "r' = old" if "r' \<in> set (bd_rows db)" "session_key r' = (t, displaced)" for r'
      using that old account_row_iff [OF ok, of t account old] session_row_iff [OF ok, of t displaced r'] session_row_iff [OF ok, of t displaced old]
      by simp
    then have "SessionBinding_row t displaced db' = None"
      using row d(2) old account_row_iff [OF ok, of t account old] by (auto simp: session_row_None)
    then show ?thesis using d by (simp add: ResolveSessionBinding_def)
  qed
  have other: "ResolveSessionBinding False t' s db' = ResolveSessionBinding False t' s db" if "(t', s) \<noteq> (t, sid)" "(t', s) \<noteq> (t, displaced)" for t' s
  proof -
    have "r' \<in> set (bd_rows db') \<longleftrightarrow> r' \<in> set (bd_rows db)" if k: "session_key r' = (t', s)" for r'
    proof -
      have "account_key r' \<noteq> (t, account)" if "r' \<in> set (bd_rows db)"
        using that k r(2) account_row_iff [OF ok, of t account r'] \<open>(t', s) \<noteq> (t, displaced)\<close> by auto
      then show ?thesis using row k \<open>(t', s) \<noteq> (t, sid)\<close> by auto
    qed
    then show ?thesis using session_row_cong [OF ok ok', of t' s] by (simp add: ResolveSessionBinding_def)
  qed
  have gone': "displaced \<noteq> [] \<and> displaced \<noteq> sid \<longrightarrow> ResolveSessionBinding False t displaced db' = Inl BindingNotFound" using gone by blast
  have other': "\<forall>t' s. (t', s) \<noteq> (t, sid) \<and> (t', s) \<noteq> (t, displaced) \<longrightarrow> ResolveSessionBinding False t' s db' = ResolveSessionBinding False t' s db"
    using other by blast
  show ?thesis unfolding Inr dv sum.case prod.case by (intro conjI v r(2,3) new gone' other')
qed

theorem bind_repoints_witness:
  "case snd (RecordSessionBinding False ''t'' ''s2'' ''a'' ''r'' ''i2'' ''v2'' demo_db) of Inl e \<Rightarrow> False
   | Inr (displaced, version) \<Rightarrow> displaced = ''s1''
      \<and> ResolveSessionBinding False ''t'' ''s1'' (fst (RecordSessionBinding False ''t'' ''s2'' ''a'' ''r'' ''i2'' ''v2'' demo_db)) = Inl BindingNotFound"
proof -
  have "fresh_interval ''i2'' demo_db" by code_simp
  moreover have "snd (RecordSessionBinding False ''t'' ''s2'' ''a'' ''r'' ''i2'' ''v2'' demo_db) = Inr (''s1'', ''v2'')" by code_simp
  moreover have "SessionBindingForUpdate ''t'' ''a'' demo_db = Some (hd (bd_rows demo_db))" "br_session (hd (bd_rows demo_db)) = ''s1''" by code_simp+
  ultimately show ?thesis
    using bind_repoints [OF demo_db_reachable _ prod.collapse [symmetric], of "''i2''" False "''t''" "''s2''" "''a''" "''r''" "''v2''"] by simp
qed

text \<open>A stale release spares a rebind. A release limited to one version of a session's binding removes the row only while that write is still the
  current one; a binding written since then stays, with its interval open, and the release reports that it removed nothing.\<close>

theorem stale_release_spares_rebind:
  assumes "db_reachable db" and "SessionBinding_row t sid db = Some row" and "sid \<noteq> []"
    and "DeleteSessionBindingVersion False t sid v db = (db', Inr removed)"
  shows "removed = (br_version row = v) \<and> (if br_version row = v then SessionBinding_row t sid db' = None
      \<and> (br_tenant row, br_interval row, UsageEnd) \<in> event_keys (bd_events db') else db' = db)"
proof -
  have ok: "db_ok db" by (rule db_reachable_ok [OF assms(1)])
  let ?P = "\<lambda>r. br_tenant r = t \<and> br_session r = sid \<and> br_version r = v"
  have row: "row \<in> set (bd_rows db)" "session_key row = (t, sid)" using assms(2) ok by (simp_all add: session_row_iff)
  have only: "r = row" if "r \<in> set (bd_rows db)" "br_tenant r = t" "br_session r = sid" for r
    using that session_row_iff [OF ok, of t sid r] assms(2) by simp
  have d: "delete_bindings (tenant_join t db) ?P db = (db', filter ?P (bd_rows db))" "removed = (filter ?P (bd_rows db) \<noteq> [])"
    using assms(3,4) by (auto simp: DeleteSessionBindingVersion_def delete_bindings_def Let_def split: if_splits)
  show ?thesis
  proof (cases "br_version row = v")
    case True
    have in_d: "row \<in> set (filter (tenant_join t db) (filter ?P (bd_rows db)))"
      using row True agent_joined [OF ok row(1)] by (simp add: tenant_join_def)
    have "bd_rows db' = filter (\<lambda>r. \<not> ?P r) (bd_rows db)" using d(1) by (auto simp: delete_bindings_def Let_def)
    then have "SessionBinding_row t sid db' = None" using only True by (auto simp: session_row_None)
    moreover have "(br_tenant row, br_interval row, UsageEnd) \<in> event_keys (bd_events db')"
      using d(1) in_d unfolding delete_bindings_def Let_def by (auto simp: fold_insert_events)
    ultimately show ?thesis using d(2) in_d True by (auto simp: filter_empty_conv)
  next
    case False
    then have "filter ?P (bd_rows db) = []" using only by (auto simp: filter_empty_conv)
    moreover from this have "filter (\<lambda>r. \<not> ?P r) (bd_rows db) = bd_rows db" by (simp add: filter_empty_conv filter_id_conv)
    ultimately show ?thesis using d False by (auto simp: delete_bindings_def Let_def)
  qed
qed

theorem stale_release_spares_rebind_witness:
  "fst (DeleteSessionBindingVersion False ''t'' ''s1'' ''v0'' demo_db) = demo_db"
proof -
  obtain row where row: "SessionBinding_row ''t'' ''s1'' demo_db = Some row" "br_version row = ''v1''"
    by (rule that [of "hd (bd_rows demo_db)"]) code_simp+
  moreover have "DeleteSessionBindingVersion False ''t'' ''s1'' ''v0'' demo_db = (fst (DeleteSessionBindingVersion False ''t'' ''s1'' ''v0'' demo_db), Inr False)"
    by code_simp
  ultimately show ?thesis using stale_release_spares_rebind [OF demo_db_reachable row(1), of "''v0''"] by simp
qed

end
