(* ===== verification/Hub_Bindings.thy ===== *)
theory Hub_Bindings
  imports Session_Bindings Op_System
begin

text \<open>
  The session bindings of the runner hub, \<open>src/go/internal/runnerhub/relay_comms.go\<close> and the enrollment of
  \<open>src/go/internal/runnerhub/hub.go\<close>: the maps session to account and account to session are a cache over the durable table of
  \<open>Session_Bindings\<close>. An operation that calls the store releases \<open>mu\<close> around the call, so it is several
  steps between which others run. \<open>bindingWriteMu\<close> is the field \<open>hb_writer\<close>: an enrollment, a promotion and a full release hold it
  from their first step to their last. A lookup and a limited release hold nothing between their steps; they are
  elements of \<open>hb_threads\<close>. A limited release runs under the read side of \<open>enrollMu\<close>, so no enrollment begins while one is under way.
  Other server instances work on the same table: any store operation may happen between two steps.

  Histories: \<open>hb_writes\<close> are all bindings ever written (by this hub, another instance, or present at the
  start), \<open>hb_reaped\<close> the versions a successful sweep removed, \<open>hb_answers\<close> the answers of lookups, \<open>hb_effects\<close> what the
  operations told the presence, delivery and archive sinks and the routing fabric.
\<close>

section \<open>State\<close>

record sessionBinding =
  sb_account :: string
  sb_runnerID :: string
  sb_version :: string
  sb_lifetime :: nat

record attachedRunner =
  ar_id :: string
  ar_enrollment :: nat
  ar_tier :: int
  ar_egressPosture :: int

datatype bindingLookup = bindingFound sessionBinding | bindingNotFound | bindingUnverifiable

datatype hub_effect =
    PresenceDisconnected string string
  | SessionsReaped "string list"
  | SessionEnded string string
  | SessionStarted string string
  | SessionPromoted string string
  | SessionLost string string bool
  | BindingUnbound string string
  | BindingBound string string

text \<open>The holder of \<open>bindingWriteMu\<close>, with its local variables.\<close>

datatype writer = Idle
  | EnrollReap string nat "(string \<times> string) list" "string list"
  | EnrollEnd string nat bool "(string \<times> string) list" "string list" "SessionBinding list"
  | PromoteStore string string string string
  | PromoteEnd string string string string string string string
  | ReleaseStore string string
  | ReleaseEnd string string string

datatype thread =
    LookupRead string string nat
  | LookupFill string nat string string string
  | AccountRead string string string nat
  | AccountFill string string nat string string string
  | LimitedStore string string sessionBinding bool
  | LimitedEnd string string sessionBinding bool string

record hub =
  hb_runner :: "attachedRunner option"
  hb_enrollCount :: nat
  hb_enrollGen :: nat
  hb_containers :: "(string, sessionBinding) gomap"
  hb_sessions :: "(string, sessionBinding) gomap"
  hb_accounts :: "(string, string) gomap"
  hb_hasStore :: bool
  hb_reapStale :: "(string, nat) gomap"
  hb_bindingEpoch :: nat
  hb_runnerEpoch :: "(string, nat) gomap"
  hb_lastLifetime :: nat
  hb_writer :: writer
  hb_threads :: "thread list"
  hb_db :: bindings_db
  hb_writes :: "binding_write list"
  hb_reaped :: "string list"
  hb_answers :: "(string \<times> bindingLookup) list"
  hb_effects :: "hub_effect list"

definition NewHub :: "bool \<Rightarrow> bindings_db \<Rightarrow> hub" where
  "NewHub hasStore db = \<lparr>hb_runner = None, hb_enrollCount = 0, hb_enrollGen = 1, hb_containers = [], hb_sessions = [], hb_accounts = [],
     hb_hasStore = hasStore, hb_reapStale = [], hb_bindingEpoch = 0, hb_runnerEpoch = [], hb_lastLifetime = 0,
     hb_writer = Idle, hb_threads = [], hb_db = db, hb_writes = map row_write (bd_rows db), hb_reaped = [], hb_answers = [], hb_effects = []\<rparr>"

section \<open>Cache helpers\<close>

definition sameBinding :: "sessionBinding \<Rightarrow> sessionBinding \<Rightarrow> bool" where
  "sameBinding a b = (if sb_version a \<noteq> [] \<or> sb_version b \<noteq> [] then sb_version a = sb_version b else sb_lifetime a = sb_lifetime b)"

definition newBindingLocked :: "string \<Rightarrow> string \<Rightarrow> string \<Rightarrow> hub \<Rightarrow> hub \<times> sessionBinding" where
  "newBindingLocked account runnerID version h =
    (let n = hb_lastLifetime h + 1
     in (h\<lparr>hb_lastLifetime := n\<rparr>, \<lparr>sb_account = account, sb_runnerID = runnerID, sb_version = version, sb_lifetime = n\<rparr>))"

definition emit :: "hub_effect list \<Rightarrow> hub \<Rightarrow> hub" where
  "emit es h = h\<lparr>hb_effects := hb_effects h @ es\<rparr>"

text \<open>Dropping a session from both maps; the reverse entry only while it still points at the session.\<close>

definition evict :: "string \<Rightarrow> string \<Rightarrow> hub \<Rightarrow> hub" where
  "evict account sid h = h\<lparr>hb_accounts := (if gm_get (hb_accounts h) account = Some sid then gm_del account (hb_accounts h) else hb_accounts h),
     hb_sessions := gm_del sid (hb_sessions h)\<rparr>"

definition evictStaleBinding :: "string \<Rightarrow> sessionBinding \<Rightarrow> hub \<Rightarrow> hub" where
  "evictStaleBinding sid stale h = (case gm_get (hb_sessions h) sid of
     Some live \<Rightarrow> if sameBinding live stale then evict (sb_account stale) sid h else h | None \<Rightarrow> h)"

definition bindContainer :: "string \<Rightarrow> string \<Rightarrow> string \<Rightarrow> hub \<Rightarrow> hub" where
  "bindContainer containerName account runnerID h =
    (if containerName = [] \<or> account = [] \<or> runnerID = [] then h
     else h\<lparr>hb_containers := gm_put containerName \<lparr>sb_account = account, sb_runnerID = runnerID, sb_version = [], sb_lifetime = 0\<rparr> (hb_containers h)\<rparr>)"

definition unbindContainer :: "string \<Rightarrow> hub \<Rightarrow> hub" where
  "unbindContainer containerName h = h\<lparr>hb_containers := gm_del containerName (hb_containers h)\<rparr>"

definition AccountForLiveSession :: "string \<Rightarrow> string \<Rightarrow> hub \<Rightarrow> string option" where
  "AccountForLiveSession runnerID sid h = (case gm_get (hb_sessions h) sid of None \<Rightarrow> None
     | Some b \<Rightarrow> if runnerID = [] \<or> sb_runnerID b \<noteq> runnerID then None else Some (sb_account b))"

definition AccountForContainer :: "string \<Rightarrow> string \<Rightarrow> hub \<Rightarrow> string option" where
  "AccountForContainer runnerID containerName h = (case gm_get (hb_containers h) containerName of None \<Rightarrow> None
     | Some b \<Rightarrow> if runnerID = [] \<or> sb_runnerID b \<noteq> runnerID then None else Some (sb_account b))"

definition CachedSessionForAccount :: "string \<Rightarrow> hub \<Rightarrow> string option" where
  "CachedSessionForAccount account h = gm_get (hb_accounts h) account"

definition LiveAgentSessions :: "hub \<Rightarrow> (string, string) gomap" where
  "LiveAgentSessions h = hb_accounts h"

definition OnBindingChange :: "string \<Rightarrow> hub \<Rightarrow> hub" where
  "OnBindingChange sid h = (if sid = [] then h else case gm_get (hb_sessions h) sid of None \<Rightarrow> h | Some b \<Rightarrow> evict (sb_account b) sid h)"

section \<open>The tenant of a Runner's call\<close>

datatype relay_error = SessionUnbound | SessionUnverifiable

definition bindingTenantCode :: "binding_error \<Rightarrow> relay_error" where
  "bindingTenantCode e = (case e of BindingNotFound \<Rightarrow> SessionUnbound | BindingConflict \<Rightarrow> SessionUnbound | _ \<Rightarrow> SessionUnverifiable)"

definition lookupRunnerSessionTenant :: "bool \<Rightarrow> string \<Rightarrow> string \<Rightarrow> hub \<Rightarrow> binding_error + string" where
  "lookupRunnerSessionTenant fault runnerID sid h =
    (if runnerID = [] \<or> sid = [] then Inl BindingNotFound else SessionBindingTenant fault sid runnerID (hb_db h))"

text \<open>A call without a tenant is scoped to the tenant that binds the session to the Runner; a session bound nowhere or in several
  tenants is refused, a faulted read goes on unscoped.\<close>

definition runnerSessionCtx :: "bool \<Rightarrow> string option \<Rightarrow> string \<Rightarrow> string \<Rightarrow> hub \<Rightarrow> string option option" where
  "runnerSessionCtx fault scoped runnerID sid h =
    (if scoped \<noteq> None \<or> \<not> hb_hasStore h then Some scoped
     else case lookupRunnerSessionTenant fault runnerID sid h of
            Inr t \<Rightarrow> Some (Some t)
          | Inl e \<Rightarrow> if bindingTenantCode e = SessionUnbound then None else Some None)"

text \<open>The archive edges after a failed sweep; \<open>faulted\<close> are the sessions whose tenant could not be read.\<close>

definition archive_unswept :: "string list \<Rightarrow> string \<Rightarrow> string list \<Rightarrow> hub \<Rightarrow> hub_effect list" where
  "archive_unswept faulted rid sessions h = concat (map (\<lambda>sid. case runnerSessionCtx (sid \<in> set faulted) None rid sid h of
     None \<Rightarrow> [] | Some t \<Rightarrow> [SessionEnded (case t of None \<Rightarrow> [] | Some t' \<Rightarrow> t') sid]) sessions)"

section \<open>Enrollment\<close>

definition runner_id :: "hub \<Rightarrow> string" where
  "runner_id h = (case hb_runner h of None \<Rightarrow> [] | Some r \<Rightarrow> ar_id r)"

fun is_limited :: "thread \<Rightarrow> bool" where
  "is_limited (LimitedStore t sid b e) = True"
| "is_limited (LimitedEnd t sid b e tenant) = True"
| "is_limited _ = False"

text \<open>\<open>enroll\<close> up to its store call: the runner is replaced, the maps are cleared, the epoch moves on and the Runner is marked stale.\<close>

definition enroll_begin :: "string \<Rightarrow> int \<Rightarrow> int \<Rightarrow> hub \<Rightarrow> hub" where
  "enroll_begin rid tier posture h =
    (if hb_writer h \<noteq> Idle \<or> list_ex is_limited (hb_threads h) then h
     else
      (let epoch = hb_bindingEpoch h + 1;
           offline = hb_accounts h;
           sessions = map fst (hb_sessions h)
       in h\<lparr>hb_enrollGen := hb_enrollGen h + 1, hb_enrollCount := hb_enrollCount h + 1,
            hb_runner := Some \<lparr>ar_id = rid, ar_enrollment = hb_enrollCount h + 1, ar_tier = tier, ar_egressPosture = posture\<rparr>,
            hb_containers := [], hb_sessions := [], hb_accounts := [],
            hb_bindingEpoch := epoch, hb_runnerEpoch := gm_put rid epoch (hb_runnerEpoch h),
            hb_reapStale := (if hb_hasStore h then gm_put rid epoch (hb_reapStale h) else hb_reapStale h),
            hb_writer := EnrollReap rid epoch offline sessions\<rparr>))"

definition enroll_reap :: "bool \<Rightarrow> hub \<Rightarrow> hub" where
  "enroll_reap fault h = (case hb_writer h of
     EnrollReap rid epoch offline sessions \<Rightarrow>
       if \<not> hb_hasStore h then h\<lparr>hb_writer := EnrollEnd rid epoch True offline sessions []\<rparr>
       else (case DeleteSessionBindingsForRunner fault rid (hb_db h) of
          (db, Inl _) \<Rightarrow> h\<lparr>hb_writer := EnrollEnd rid epoch False offline sessions []\<rparr>
        | (db, Inr rows) \<Rightarrow> h\<lparr>hb_db := db,
            hb_reaped := hb_reaped h @ map br_version (filter (\<lambda>r. br_runner r = rid) (bd_rows (hb_db h))),
            hb_writer := EnrollEnd rid epoch True (map (\<lambda>b. (sbr_account b, sbr_session b)) rows) (map sbr_session rows) rows\<rparr>)
   | _ \<Rightarrow> h)"

text \<open>The completion and the edges of \<open>enroll\<close>; the result is whether it reports an error.\<close>

definition enroll_end :: "string list \<Rightarrow> hub \<Rightarrow> hub \<times> bool" where
  "enroll_end faulted h = (case hb_writer h of
     EnrollEnd rid epoch ok offline sessions rows \<Rightarrow>
       (let epoch' = hb_bindingEpoch h + 1;
            h1 = h\<lparr>hb_bindingEpoch := epoch', hb_runnerEpoch := gm_put rid epoch' (hb_runnerEpoch h),
                   hb_reapStale := (if ok \<and> gm_getz 0 (hb_reapStale h) rid = epoch then gm_del rid (hb_reapStale h) else hb_reapStale h),
                   hb_writer := Idle\<rparr>
        in (emit (map (\<lambda>(account, sid). PresenceDisconnected account sid) offline @ [SessionsReaped sessions]
              @ (if hb_hasStore h \<and> ok then map (\<lambda>b. SessionEnded (sbr_tenant b) (sbr_session b)) rows
                 else archive_unswept faulted rid sessions h1)) h1, \<not> ok))
   | _ \<Rightarrow> (h, False))"

definition EnrolledRunners :: "hub \<Rightarrow> (string \<times> nat) list" where
  "EnrolledRunners h = (case hb_runner h of None \<Rightarrow> [] | Some r \<Rightarrow> [(ar_id r, ar_enrollment r)])"

definition runnerRuntimeIdentity :: "hub \<Rightarrow> int \<times> int" where
  "runnerRuntimeIdentity h = (case hb_runner h of None \<Rightarrow> (0, 0) | Some r \<Rightarrow> (ar_tier r, ar_egressPosture r))"

section \<open>Promotion\<close>

definition promote_begin :: "string \<Rightarrow> string \<Rightarrow> string \<Rightarrow> hub \<Rightarrow> hub" where
  "promote_begin tenant containerName sid h =
    (if containerName = [] \<or> sid = [] \<or> hb_writer h \<noteq> Idle then h
     else case gm_get (hb_containers h) containerName of None \<Rightarrow> h
          | Some b \<Rightarrow> h\<lparr>hb_writer := PromoteStore tenant (sb_account b) sid (runner_id h)\<rparr>)"

text \<open>The durable write: a failed one, for whatever reason, falls back to the cache.\<close>

definition promote_store :: "bool \<Rightarrow> string \<Rightarrow> string \<Rightarrow> hub \<Rightarrow> hub" where
  "promote_store fault newInterval version h = (case hb_writer h of
     PromoteStore tenant account sid runnerID \<Rightarrow>
       if hb_hasStore h \<and> runnerID \<noteq> []
       then (case RecordSessionBinding fault tenant sid account runnerID newInterval version (hb_db h) of
          (db, Inl _) \<Rightarrow> h\<lparr>hb_writes := hb_writes h @ [(sid, account, runnerID, [])], hb_writer := PromoteEnd account sid runnerID [] [] [] tenant\<rparr>
        | (db, Inr (displaced, v)) \<Rightarrow> h\<lparr>hb_db := db, hb_writes := hb_writes h @ [(sid, account, runnerID, v)],
              hb_writer := PromoteEnd account sid runnerID displaced v tenant tenant\<rparr>)
       else h\<lparr>hb_writes := hb_writes h @ [(sid, account, runnerID, [])], hb_writer := PromoteEnd account sid runnerID [] [] [] tenant\<rparr>
   | _ \<Rightarrow> h)"

definition promote_end :: "hub \<Rightarrow> hub" where
  "promote_end h = (case hb_writer h of
     PromoteEnd account sid runnerID displaced version published tenant \<Rightarrow>
       (let (h1, b) = newBindingLocked account runnerID version h;
            sessions = gm_put sid b (hb_sessions h1);
            h2 = h1\<lparr>hb_sessions := (if displaced \<noteq> [] \<and> displaced \<noteq> sid then gm_del displaced sessions else sessions),
                    hb_accounts := gm_put account sid (hb_accounts h1), hb_writer := Idle\<rparr>
        in emit ((if published = [] then []
                  else (if displaced \<noteq> [] \<and> displaced \<noteq> sid then [BindingUnbound published displaced] else []) @ [BindingBound published sid])
                 @ [SessionStarted sid account, SessionPromoted account sid]) h2)
   | _ \<Rightarrow> h)"

section \<open>Release\<close>

definition release_begin :: "string \<Rightarrow> string \<Rightarrow> hub \<Rightarrow> hub" where
  "release_begin tenant sid h = (if hb_writer h \<noteq> Idle then h else h\<lparr>hb_writer := ReleaseStore tenant sid\<rparr>)"

definition release_store :: "bool \<Rightarrow> hub \<Rightarrow> hub" where
  "release_store fault h = (case hb_writer h of
     ReleaseStore tenant sid \<Rightarrow>
       if hb_hasStore h
       then (case DeleteSessionBinding fault tenant sid (hb_db h) of
          (db, Inl _) \<Rightarrow> h\<lparr>hb_writer := ReleaseEnd tenant sid []\<rparr>
        | (db, Inr _) \<Rightarrow> h\<lparr>hb_db := db, hb_writer := ReleaseEnd tenant sid tenant\<rparr>)
       else h\<lparr>hb_writer := ReleaseEnd tenant sid []\<rparr>
   | _ \<Rightarrow> h)"

text \<open>The maps after a release, and the edges it fires: the account goes offline unless it moved to a newer session.\<close>

definition release_maps :: "string \<Rightarrow> string \<Rightarrow> hub \<Rightarrow> hub" where
  "release_maps published sid h =
    (let unbound = (if published = [] then [] else [BindingUnbound published sid])
     in case gm_get (hb_sessions h) sid of
          None \<Rightarrow> emit unbound (h\<lparr>hb_sessions := gm_del sid (hb_sessions h)\<rparr>)
        | Some b \<Rightarrow> emit (unbound @ (if gm_get (hb_accounts h) (sb_account b) = Some sid then [PresenceDisconnected (sb_account b) sid] else []))
            (evict (sb_account b) sid h))"

definition release_end :: "hub \<Rightarrow> hub" where
  "release_end h = (case hb_writer h of
     ReleaseEnd tenant sid published \<Rightarrow> release_maps published sid (h\<lparr>hb_writer := Idle\<rparr>)
   | _ \<Rightarrow> h)"

text \<open>A release limited to one binding, as \<open>dropLostSessionIfCurrent\<close> makes it for a binding a lookup answered.\<close>

definition add_thread :: "thread \<Rightarrow> hub \<Rightarrow> hub" where
  "add_thread th h = h\<lparr>hb_threads := hb_threads h @ [th]\<rparr>"

definition set_thread :: "nat \<Rightarrow> thread \<Rightarrow> hub \<Rightarrow> hub" where
  "set_thread k th h = h\<lparr>hb_threads := (hb_threads h)[k := th]\<rparr>"

definition end_thread :: "nat \<Rightarrow> hub \<Rightarrow> hub" where
  "end_thread k h = h\<lparr>hb_threads := take k (hb_threads h) @ drop (k + 1) (hb_threads h)\<rparr>"

definition drop_begin :: "nat \<Rightarrow> string \<Rightarrow> string \<Rightarrow> string \<Rightarrow> sessionBinding \<Rightarrow> sessionBinding option \<Rightarrow> bool \<Rightarrow> hub \<Rightarrow> hub" where
  "drop_begin gen tenant runnerID sid binding seen errored h =
    (if hb_enrollGen h \<noteq> gen \<or> (sid, bindingFound binding) \<notin> set (hb_answers h) then h
     else if runnerID = [] \<or> sb_runnerID binding \<noteq> runnerID \<or> (case seen of None \<Rightarrow> False | Some s \<Rightarrow> \<not> sameBinding binding s) then h
     else case gm_get (hb_sessions h) sid of
            Some live \<Rightarrow> if sameBinding live binding then add_thread (LimitedStore tenant sid binding errored) h else h
          | None \<Rightarrow> add_thread (LimitedStore tenant sid binding errored) h)"

definition limited_store :: "bool \<Rightarrow> nat \<Rightarrow> hub \<Rightarrow> hub" where
  "limited_store fault k h = (if k < length (hb_threads h) then (case hb_threads h ! k of
     LimitedStore tenant sid only errored \<Rightarrow>
       if \<not> hb_hasStore h then set_thread k (LimitedEnd tenant sid only errored []) h
       else if sb_version only \<noteq> []
       then (case DeleteSessionBindingVersion fault tenant sid (sb_version only) (hb_db h) of
          (db, Inl _) \<Rightarrow> set_thread k (LimitedEnd tenant sid only errored []) h
        | (db, Inr removed) \<Rightarrow> if removed then set_thread k (LimitedEnd tenant sid only errored tenant) (h\<lparr>hb_db := db\<rparr>)
              else end_thread k (evictStaleBinding sid only (h\<lparr>hb_db := db\<rparr>)))
       else (case ResolveSessionBinding fault tenant sid (hb_db h) of
          Inl BindingNotFound \<Rightarrow> set_thread k (LimitedEnd tenant sid only errored tenant) h
        | _ \<Rightarrow> end_thread k (evictStaleBinding sid only h))
   | _ \<Rightarrow> h) else h)"

definition limited_end :: "nat \<Rightarrow> hub \<Rightarrow> hub" where
  "limited_end k h = (if k < length (hb_threads h) then (case hb_threads h ! k of
     LimitedEnd tenant sid only errored published \<Rightarrow>
       (case gm_get (hb_sessions h) sid of
          Some live \<Rightarrow> if sameBinding live only
             then emit [SessionEnded tenant sid, SessionLost sid (sb_account only) errored] (release_maps published sid (end_thread k h))
             else end_thread k h
        | None \<Rightarrow> emit [SessionEnded tenant sid, SessionLost sid (sb_account only) errored] (release_maps published sid (end_thread k h)))
   | _ \<Rightarrow> h) else h)"

section \<open>Lookups\<close>

definition answer_lookup :: "string \<Rightarrow> bindingLookup \<Rightarrow> hub \<Rightarrow> hub" where
  "answer_lookup sid a h = h\<lparr>hb_answers := hb_answers h @ [(sid, a)]\<rparr>"

definition readThroughAllowed :: "bool \<Rightarrow> hub \<Rightarrow> bool" where
  "readThroughAllowed system h \<longleftrightarrow> hb_hasStore h \<and> hb_runner h \<noteq> None \<and> \<not> system"

definition lookup_begin :: "bool \<Rightarrow> string \<Rightarrow> string \<Rightarrow> hub \<Rightarrow> hub" where
  "lookup_begin system tenant sid h = (case gm_get (hb_sessions h) sid of
     Some b \<Rightarrow> answer_lookup sid (bindingFound b) h
   | None \<Rightarrow> if \<not> hb_hasStore h then answer_lookup sid bindingNotFound h
             else if \<not> readThroughAllowed system h then answer_lookup sid bindingUnverifiable h
             else add_thread (LookupRead tenant sid (hb_bindingEpoch h)) h)"

definition lookup_read :: "bool \<Rightarrow> nat \<Rightarrow> hub \<Rightarrow> hub" where
  "lookup_read fault k h = (if k < length (hb_threads h) then (case hb_threads h ! k of
     LookupRead tenant sid epoch \<Rightarrow>
       (case ResolveSessionBinding fault tenant sid (hb_db h) of
          Inl BindingNotFound \<Rightarrow> answer_lookup sid bindingNotFound (end_thread k h)
        | Inl _ \<Rightarrow> answer_lookup sid bindingUnverifiable (end_thread k h)
        | Inr (account, runnerID, version) \<Rightarrow> set_thread k (LookupFill sid epoch account runnerID version) h)
   | _ \<Rightarrow> h) else h)"

text \<open>A row read across an enrollment of its Runner, or while that Runner's reap is faulted, is refused.\<close>

definition refused :: "string \<Rightarrow> nat \<Rightarrow> hub \<Rightarrow> bool" where
  "refused runnerID epoch h \<longleftrightarrow> gm_getz 0 (hb_reapStale h) runnerID \<noteq> 0 \<or> gm_getz 0 (hb_runnerEpoch h) runnerID > epoch"

definition lookup_fill :: "nat \<Rightarrow> hub \<Rightarrow> hub" where
  "lookup_fill k h = (if k < length (hb_threads h) then (case hb_threads h ! k of
     LookupFill sid epoch account runnerID version \<Rightarrow>
       (case gm_get (hb_sessions h) sid of
          Some live \<Rightarrow> answer_lookup sid (bindingFound live) (end_thread k h)
        | None \<Rightarrow> if refused runnerID epoch h then answer_lookup sid bindingUnverifiable (end_thread k h)
            else (let (h1, b) = newBindingLocked account runnerID version (end_thread k h)
                  in answer_lookup sid (bindingFound b) (h1\<lparr>hb_sessions := gm_put sid b (hb_sessions h1)\<rparr>)))
   | _ \<Rightarrow> h) else h)"

text \<open>\<open>SessionForAccount\<close>: the session of an account, \<open>None\<close> while the store is read.\<close>

definition session_begin :: "bool \<Rightarrow> string \<Rightarrow> string \<Rightarrow> hub \<Rightarrow> hub \<times> string option" where
  "session_begin system tenant account h =
    (let live = (case gm_get (hb_accounts h) account of None \<Rightarrow> None
            | Some sid \<Rightarrow> (case gm_get (hb_sessions h) sid of None \<Rightarrow> None
                | Some b \<Rightarrow> if hb_runner h = None \<or> sb_runnerID b = runner_id h then Some sid else None))
     in case live of Some sid \<Rightarrow> (h, Some sid)
        | None \<Rightarrow>
           (let h1 = h\<lparr>hb_accounts := gm_del account (hb_accounts h)\<rparr>
            in if readThroughAllowed system h1
               then (add_thread (AccountRead tenant account (runner_id h1) (hb_bindingEpoch h1)) h1, None) else (h1, None)))"

definition session_read :: "bool \<Rightarrow> nat \<Rightarrow> hub \<Rightarrow> hub" where
  "session_read fault k h = (if k < length (hb_threads h) then (case hb_threads h ! k of
     AccountRead tenant account runnerID epoch \<Rightarrow>
       (case SessionForAccount_row fault tenant account (hb_db h) of
          Inr (sid, ownerID, version) \<Rightarrow> if ownerID = runnerID then set_thread k (AccountFill account runnerID epoch sid ownerID version) h else end_thread k h
        | Inl _ \<Rightarrow> end_thread k h)
   | _ \<Rightarrow> h) else h)"

definition session_fill :: "nat \<Rightarrow> hub \<Rightarrow> hub" where
  "session_fill k h = (if k < length (hb_threads h) then (case hb_threads h ! k of
     AccountFill account runnerID epoch sid ownerID version \<Rightarrow>
       (let h0 = end_thread k h;
            live = (case gm_get (hb_accounts h) account of None \<Rightarrow> None
              | Some s \<Rightarrow> (case gm_get (hb_sessions h) s of None \<Rightarrow> None
                  | Some b \<Rightarrow> if hb_runner h \<noteq> None \<and> sb_runnerID b = runner_id h then Some s else None))
        in if live \<noteq> None then h0
           else (let h1 = h0\<lparr>hb_accounts := gm_del account (hb_accounts h0)\<rparr>
                 in if (hb_runner h1 \<noteq> None \<and> (runner_id h1 \<noteq> runnerID \<or> gm_getz 0 (hb_runnerEpoch h1) ownerID > epoch)) \<or> gm_getz 0 (hb_reapStale h1) ownerID \<noteq> 0
                    then h1
                    else (let (h2, b) = newBindingLocked account ownerID version h1
                          in h2\<lparr>hb_sessions := gm_put sid b (hb_sessions h2), hb_accounts := gm_put account sid (hb_accounts h2)\<rparr>)))
   | _ \<Rightarrow> h) else h)"

section \<open>What a Runner's call resolves to\<close>

definition accountForRunnerSessionError :: "string \<Rightarrow> bindingLookup \<Rightarrow> relay_error + string" where
  "accountForRunnerSessionError runnerID found =
    (if runnerID = [] then Inl SessionUnbound
     else case found of bindingUnverifiable \<Rightarrow> Inl SessionUnverifiable
          | bindingNotFound \<Rightarrow> Inl SessionUnbound
          | bindingFound b \<Rightarrow> if sb_runnerID b \<noteq> runnerID then Inl SessionUnbound else Inr (sb_account b))"

text \<open>\<open>runnerSessionAccountError\<close> reads the tenant first when the call carries none and a store is wired.\<close>

definition session_tenant :: "bool \<Rightarrow> string option \<Rightarrow> string \<Rightarrow> string \<Rightarrow> hub \<Rightarrow> relay_error + string option" where
  "session_tenant fault scoped runnerID sid h =
    (if scoped \<noteq> None \<or> \<not> hb_hasStore h then Inr scoped
     else case lookupRunnerSessionTenant fault runnerID sid h of Inl e \<Rightarrow> Inl (bindingTenantCode e) | Inr t \<Rightarrow> Inr (Some t))"

section \<open>Runs\<close>

datatype hub_op = BindContainer string string string | UnbindContainer string | BindingChanged string
  | EnrollBegin string int int | EnrollReapStep bool | EnrollEndStep "string list"
  | PromoteBegin string string string | PromoteStoreStep bool string string | PromoteEndStep
  | ReleaseBegin string string | ReleaseStoreStep bool | ReleaseEndStep
  | DropBegin nat string string string sessionBinding "sessionBinding option" bool | LimitedStoreStep bool nat | LimitedEndStep nat
  | LookupBegin bool string string | LookupReadStep bool nat | LookupFillStep nat
  | SessionBegin bool string string | SessionReadStep bool nat | SessionFillStep nat
  | PeerBind string string string string string string | PeerRelease string string | PeerSweep string

fun hub_exec :: "hub_op \<Rightarrow> hub \<Rightarrow> hub" where
  "hub_exec (BindContainer c a r) h = bindContainer c a r h"
| "hub_exec (UnbindContainer c) h = unbindContainer c h"
| "hub_exec (BindingChanged sid) h = OnBindingChange sid h"
| "hub_exec (EnrollBegin rid tier posture) h = enroll_begin rid tier posture h"
| "hub_exec (EnrollReapStep fault) h = enroll_reap fault h"
| "hub_exec (EnrollEndStep faulted) h = fst (enroll_end faulted h)"
| "hub_exec (PromoteBegin t c sid) h = promote_begin t c sid h"
| "hub_exec (PromoteStoreStep fault i v) h = promote_store fault i v h"
| "hub_exec PromoteEndStep h = promote_end h"
| "hub_exec (ReleaseBegin t sid) h = release_begin t sid h"
| "hub_exec (ReleaseStoreStep fault) h = release_store fault h"
| "hub_exec ReleaseEndStep h = release_end h"
| "hub_exec (DropBegin gen t r sid b seen errored) h = drop_begin gen t r sid b seen errored h"
| "hub_exec (LimitedStoreStep fault k) h = limited_store fault k h"
| "hub_exec (LimitedEndStep k) h = limited_end k h"
| "hub_exec (LookupBegin system t sid) h = lookup_begin system t sid h"
| "hub_exec (LookupReadStep fault k) h = lookup_read fault k h"
| "hub_exec (LookupFillStep k) h = lookup_fill k h"
| "hub_exec (SessionBegin system t a) h = fst (session_begin system t a h)"
| "hub_exec (SessionReadStep fault k) h = session_read fault k h"
| "hub_exec (SessionFillStep k) h = session_fill k h"
| "hub_exec (PeerBind t sid a r i v) h = (case RecordSessionBinding False t sid a r i v (hb_db h) of
     (db, Inr _) \<Rightarrow> h\<lparr>hb_db := db, hb_writes := hb_writes h @ [(sid, a, r, v)]\<rparr> | (db, Inl _) \<Rightarrow> h)"
| "hub_exec (PeerRelease t sid) h = h\<lparr>hb_db := fst (DeleteSessionBinding False t sid (hb_db h))\<rparr>"
| "hub_exec (PeerSweep r) h = h\<lparr>hb_db := fst (DeleteSessionBindingsForRunner False r (hb_db h))\<rparr>"

section \<open>Invariants of the binding cache\<close>

abbreviation version_of :: "binding_write \<Rightarrow> string" where
  "version_of w \<equiv> snd (snd (snd w))"

text \<open>The versions the store draws at random are new.\<close>

fun hub_fresh :: "hub_op \<Rightarrow> hub \<Rightarrow> bool" where
  "hub_fresh (PromoteStoreStep fault i v) h \<longleftrightarrow> v \<noteq> [] \<and> v \<notin> version_of ` set (hb_writes h)"
| "hub_fresh (PeerBind t sid a r i v) h \<longleftrightarrow> v \<noteq> [] \<and> v \<notin> version_of ` set (hb_writes h)"
| "hub_fresh _ h \<longleftrightarrow> True"

text \<open>A version is one write.\<close>

definition one_write :: "binding_write set \<Rightarrow> bool" where
  "one_write W \<longleftrightarrow> (\<forall>w \<in> W. \<forall>w' \<in> W. version_of w = version_of w' \<and> version_of w \<noteq> [] \<longrightarrow> w = w')"

definition written :: "hub \<Rightarrow> string \<Rightarrow> string \<Rightarrow> string \<Rightarrow> string \<Rightarrow> bool" where
  "written h sid a r v \<longleftrightarrow> (sid, a, r, v) \<in> set (hb_writes h)"

definition current :: "hub \<Rightarrow> string \<Rightarrow> bool" where
  "current h v \<longleftrightarrow> v = [] \<or> v \<notin> set (hb_reaped h)"

text \<open>A row in the hands of a lookup is current, or its fill will be refused.\<close>

definition fenced :: "hub \<Rightarrow> string \<Rightarrow> nat \<Rightarrow> string \<Rightarrow> bool" where
  "fenced h r e v \<longleftrightarrow> current h v \<or> refused r e h"

fun thread_ok :: "hub \<Rightarrow> thread \<Rightarrow> bool" where
  "thread_ok h (LookupRead t sid e) \<longleftrightarrow> e \<le> hb_bindingEpoch h"
| "thread_ok h (LookupFill sid e a r v) \<longleftrightarrow> e \<le> hb_bindingEpoch h \<and> written h sid a r v \<and> fenced h r e v"
| "thread_ok h (AccountRead t a r e) \<longleftrightarrow> e \<le> hb_bindingEpoch h \<and> hb_runner h \<noteq> None"
| "thread_ok h (AccountFill a r e sid own v) \<longleftrightarrow> e \<le> hb_bindingEpoch h \<and> hb_runner h \<noteq> None \<and> written h sid a own v \<and> fenced h own e v"
| "thread_ok h (LimitedStore t sid b x) \<longleftrightarrow> written h sid (sb_account b) (sb_runnerID b) (sb_version b)"
| "thread_ok h (LimitedEnd t sid b x p) \<longleftrightarrow> written h sid (sb_account b) (sb_runnerID b) (sb_version b)"

fun writer_ok :: "hub \<Rightarrow> writer \<Rightarrow> bool" where
  "writer_ok h (EnrollReap rid e off ses) \<longleftrightarrow> hb_hasStore h \<longrightarrow> gm_getz 0 (hb_reapStale h) rid \<noteq> 0
      \<and> (\<forall>sid b. gm_get (hb_sessions h) sid = Some b \<longrightarrow> sb_runnerID b \<noteq> rid)"
| "writer_ok h (PromoteEnd a sid r d v p t) \<longleftrightarrow> written h sid a r v \<and> current h v"
| "writer_ok h _ \<longleftrightarrow> True"

definition cache_ok :: "hub \<Rightarrow> bool" where
  "cache_ok h \<longleftrightarrow> (\<forall>sid b. gm_get (hb_sessions h) sid = Some b
     \<longrightarrow> written h sid (sb_account b) (sb_runnerID b) (sb_version b) \<and> current h (sb_version b))"

definition hub_store_ok :: "hub \<Rightarrow> bool" where
  "hub_store_ok h \<longleftrightarrow> one_write (set (hb_writes h)) \<and> live_writes (hb_db h) \<subseteq> set (hb_writes h)
    \<and> (\<forall>w \<in> live_writes (hb_db h). current h (version_of w)) \<and> set (hb_reaped h) \<subseteq> version_of ` set (hb_writes h)"

definition answers_ok :: "hub \<Rightarrow> bool" where
  "answers_ok h \<longleftrightarrow> (\<forall>sid b. (sid, bindingFound b) \<in> set (hb_answers h)
     \<longrightarrow> written h sid (sb_account b) (sb_runnerID b) (sb_version b))"

definition hub_inv :: "hub \<Rightarrow> bool" where
  "hub_inv h \<longleftrightarrow> hub_store_ok h \<and> cache_ok h \<and> answers_ok h \<and> writer_ok h (hb_writer h) \<and> (\<forall>th \<in> set (hb_threads h). thread_ok h th)"

lemma hub_inv_new: "one_write (live_writes db) \<Longrightarrow> hub_inv (NewHub hasStore db)"
  by (simp add: hub_inv_def hub_store_ok_def cache_ok_def answers_ok_def NewHub_def live_writes_def current_def)

text \<open>Steps that only grow the history of writes and move the epochs on keep what is known of a thread.\<close>

definition hub_later :: "hub \<Rightarrow> hub \<Rightarrow> bool" where
  "hub_later h h' \<longleftrightarrow> set (hb_writes h) \<subseteq> set (hb_writes h') \<and> hb_bindingEpoch h \<le> hb_bindingEpoch h'
    \<and> (hb_runner h \<noteq> None \<longrightarrow> hb_runner h' \<noteq> None)
    \<and> (\<forall>sid a r e v. e \<le> hb_bindingEpoch h \<and> written h sid a r v \<and> fenced h r e v \<longrightarrow> fenced h' r e v)"

lemma thread_later: "hub_later h h' \<Longrightarrow> thread_ok h th \<Longrightarrow> thread_ok h' th"
  by (cases th) (auto simp: hub_later_def written_def)

lemma threads_later: "hub_later h h' \<Longrightarrow> \<forall>th \<in> set (hb_threads h). thread_ok h th \<Longrightarrow> set (hb_threads h') \<subseteq> set (hb_threads h)
    \<Longrightarrow> \<forall>th \<in> set (hb_threads h'). thread_ok h' th"
  using thread_later by blast

lemma set_end_thread: "set (hb_threads (end_thread k h)) \<subseteq> set (hb_threads h)"
  by (auto simp: end_thread_def dest: in_set_takeD in_set_dropD)

lemma set_set_thread: "set (hb_threads (set_thread k th h)) \<subseteq> insert th (set (hb_threads h))"
  by (simp add: set_thread_def set_update_subset_insert)

lemma end_thread_simps [simp]:
  "hb_writes (end_thread k h) = hb_writes h" "hb_reaped (end_thread k h) = hb_reaped h" "hb_db (end_thread k h) = hb_db h"
  "hb_sessions (end_thread k h) = hb_sessions h" "hb_accounts (end_thread k h) = hb_accounts h" "hb_answers (end_thread k h) = hb_answers h"
  "hb_writer (end_thread k h) = hb_writer h" "hb_bindingEpoch (end_thread k h) = hb_bindingEpoch h" "hb_runner (end_thread k h) = hb_runner h"
  "hb_runnerEpoch (end_thread k h) = hb_runnerEpoch h" "hb_reapStale (end_thread k h) = hb_reapStale h" "hb_hasStore (end_thread k h) = hb_hasStore h"
  "hb_lastLifetime (end_thread k h) = hb_lastLifetime h"
  by (simp_all add: end_thread_def)

text \<open>Steps that leave the fence alone and only drop from the cache and the table.\<close>

definition same_fence :: "hub \<Rightarrow> hub \<Rightarrow> bool" where
  "same_fence h h' \<longleftrightarrow> hb_writes h' = hb_writes h \<and> hb_reaped h' = hb_reaped h \<and> hb_bindingEpoch h' = hb_bindingEpoch h
    \<and> hb_runnerEpoch h' = hb_runnerEpoch h \<and> hb_reapStale h' = hb_reapStale h \<and> hb_runner h' = hb_runner h \<and> hb_hasStore h' = hb_hasStore h"

lemma fence_simps:
  assumes "same_fence h h'"
  shows "written h' = written h" "current h' = current h" "fenced h' = fenced h"
    and "thread_ok h' th = thread_ok h th"
  using assms by (cases th; auto simp: same_fence_def written_def current_def fenced_def refused_def fun_eq_iff)+

lemma hub_inv_shrink:
  assumes "hub_inv h" and f: "same_fence h h'"
    and "\<And>sid b. gm_get (hb_sessions h') sid = Some b \<Longrightarrow> gm_get (hb_sessions h) sid = Some b"
    and "live_writes (hb_db h') \<subseteq> live_writes (hb_db h)"
    and "\<And>sid b. (sid, bindingFound b) \<in> set (hb_answers h') \<Longrightarrow> (sid, bindingFound b) \<in> set (hb_answers h) \<or> gm_get (hb_sessions h) sid = Some b"
    and "hb_writer h' = hb_writer h \<or> writer_ok h' (hb_writer h')"
    and "\<And>th. th \<in> set (hb_threads h') \<Longrightarrow> th \<in> set (hb_threads h) \<or> thread_ok h th"
  shows "hub_inv h'"
proof -
  note s = fence_simps [OF f] and g = f [unfolded same_fence_def]
  have "writer_ok h' (hb_writer h')"
    using assms(1,3,6) g s(1,2) by (cases "hb_writer h") (auto simp: hub_inv_def, blast+)
  moreover have "hub_store_ok h'" using assms(1,4) g s(2) by (auto simp: hub_inv_def hub_store_ok_def)
  moreover have "cache_ok h'" using assms(1,3) s(1,2) by (auto simp: hub_inv_def cache_ok_def)
  moreover have "answers_ok h'" using assms(1,5) s(1,2) by (fastforce simp: hub_inv_def cache_ok_def answers_ok_def)
  moreover have "\<forall>th \<in> set (hb_threads h'). thread_ok h' th" using assms(1,7) s(4) by (auto simp: hub_inv_def)
  ultimately show ?thesis by (simp add: hub_inv_def)
qed

lemmas hub_ops_simps = emit_def evict_def add_thread_def set_thread_def answer_lookup_def release_maps_def evictStaleBinding_def Let_def

lemma same_fence_refl: "same_fence h h"
  by (simp add: same_fence_def)

lemma evict_fence: "same_fence h (evict a sid h)"
  by (simp add: same_fence_def evict_def)

lemma hub_inv_bindContainer: "hub_inv h \<Longrightarrow> hub_inv (bindContainer c a r h)"
  by (rule hub_inv_shrink [of h]) (auto simp: bindContainer_def same_fence_def split: if_splits)

lemma hub_inv_unbindContainer: "hub_inv h \<Longrightarrow> hub_inv (unbindContainer c h)"
  by (rule hub_inv_shrink [of h]) (auto simp: unbindContainer_def same_fence_def)

lemma hub_inv_evict: "hub_inv h \<Longrightarrow> hub_inv (evict a sid h)"
  by (rule hub_inv_shrink [of h]) (auto simp: evict_def same_fence_def split: if_splits)

lemma hub_inv_emit: "hub_inv h \<Longrightarrow> hub_inv (emit es h)"
  by (rule hub_inv_shrink [of h]) (auto simp: emit_def same_fence_def)

lemma hub_inv_end_thread: "hub_inv h \<Longrightarrow> hub_inv (end_thread k h)"
  using set_end_thread [of k h] by - (rule hub_inv_shrink [of h], auto simp: same_fence_def)

lemma hub_inv_add_thread: "hub_inv h \<Longrightarrow> thread_ok h th \<Longrightarrow> hub_inv (add_thread th h)"
  by (rule hub_inv_shrink [of h]) (auto simp: add_thread_def same_fence_def)

lemma hub_inv_set_thread: "hub_inv h \<Longrightarrow> thread_ok h th \<Longrightarrow> hub_inv (set_thread k th h)"
  using set_set_thread [of k th h] by - (rule hub_inv_shrink [of h], auto simp: set_thread_def same_fence_def)

lemma hub_inv_db: "hub_inv h \<Longrightarrow> live_writes db \<subseteq> live_writes (hb_db h) \<Longrightarrow> hub_inv (h\<lparr>hb_db := db\<rparr>)"
  by (rule hub_inv_shrink [of h]) (auto simp: same_fence_def)

lemma hub_inv_writer: "hub_inv h \<Longrightarrow> writer_ok h w \<Longrightarrow> hub_inv (h\<lparr>hb_writer := w\<rparr>)"
  by (rule hub_inv_shrink [of h]) (cases w; auto simp: same_fence_def written_def current_def)+

lemma hub_inv_sessions: "hub_inv h \<Longrightarrow> hub_inv (h\<lparr>hb_sessions := gm_del sid (hb_sessions h)\<rparr>)"
  by (rule hub_inv_shrink [of h]) (auto simp: same_fence_def split: if_splits)

lemma hub_inv_accounts: "hub_inv h \<Longrightarrow> hub_inv (h\<lparr>hb_accounts := m\<rparr>)"
  by (rule hub_inv_shrink [of h]) (auto simp: same_fence_def)

lemma hub_inv_answer_none: "hub_inv h \<Longrightarrow> (\<And>b. a \<noteq> bindingFound b) \<Longrightarrow> hub_inv (answer_lookup sid a h)"
  by (rule hub_inv_shrink [of h]) (auto simp: answer_lookup_def same_fence_def)

lemma hub_inv_answer: "hub_inv h \<Longrightarrow> gm_get (hb_sessions h) sid = Some b \<Longrightarrow> hub_inv (answer_lookup sid (bindingFound b) h)"
  by (rule hub_inv_shrink [of h]) (auto simp: answer_lookup_def same_fence_def)

lemmas hub_inv_parts = hub_inv_evict hub_inv_emit hub_inv_end_thread hub_inv_add_thread hub_inv_set_thread hub_inv_db hub_inv_writer
  hub_inv_sessions hub_inv_accounts hub_inv_answer_none hub_inv_answer

lemma hub_inv_OnBindingChange: "hub_inv h \<Longrightarrow> hub_inv (OnBindingChange sid h)"
  by (auto simp: OnBindingChange_def hub_inv_parts split: option.split)

lemma hub_inv_evictStale: "hub_inv h \<Longrightarrow> hub_inv (evictStaleBinding sid b h)"
  by (auto simp: evictStaleBinding_def hub_inv_parts split: option.split)

lemma hub_inv_release_maps: "hub_inv h \<Longrightarrow> hub_inv (release_maps p sid h)"
  by (auto simp: release_maps_def Let_def hub_inv_parts split: option.split)

lemma hub_inv_promote_begin: "hub_inv h \<Longrightarrow> hub_inv (promote_begin t c sid h)"
  by (auto simp: promote_begin_def hub_inv_parts split: option.split)

lemma hub_inv_release_begin: "hub_inv h \<Longrightarrow> hub_inv (release_begin t sid h)"
  by (auto simp: release_begin_def hub_inv_parts)

lemma hub_inv_release_store: "hub_inv h \<Longrightarrow> hub_inv (release_store fault h)"
proof (cases "hb_writer h")
  case (ReleaseStore t sid)
  assume inv: "hub_inv h"
  obtain db res where d: "DeleteSessionBinding fault t sid (hb_db h) = (db, res)" by fastforce
  have "hub_inv (h\<lparr>hb_db := db, hb_writer := ReleaseEnd t sid t\<rparr>)"
    using table.release_writes [of fault t sid "hb_db h"] d by (intro hub_inv_writer [OF hub_inv_db [OF inv]]) simp_all
  moreover have "hub_inv (h\<lparr>hb_writer := ReleaseEnd t sid []\<rparr>)" by (rule hub_inv_writer [OF inv]) simp
  ultimately show ?thesis using ReleaseStore d by (cases res) (simp_all add: release_store_def)
qed (simp_all add: release_store_def)

lemma hub_inv_release_end: "hub_inv h \<Longrightarrow> hub_inv (release_end h)"
  by (auto simp: release_end_def hub_inv_release_maps hub_inv_writer split: writer.split)

lemma hub_inv_drop_begin: "hub_inv h \<Longrightarrow> hub_inv (drop_begin gen t r sid b seen x h)"
proof -
  assume inv: "hub_inv h"
  have "hub_inv (add_thread (LimitedStore t sid b x) h)" if "(sid, bindingFound b) \<in> set (hb_answers h)"
    using that inv by (intro hub_inv_add_thread inv) (auto simp: hub_inv_def answers_ok_def)
  then show ?thesis using inv by (auto simp: drop_begin_def split: option.split)
qed

lemma thread_at: "hub_inv h \<Longrightarrow> k < length (hb_threads h) \<Longrightarrow> hb_threads h ! k = th \<Longrightarrow> thread_ok h th"
  by (auto simp: hub_inv_def)

lemma hub_inv_limited_store: "hub_inv h \<Longrightarrow> hub_inv (limited_store fault k h)"
proof (cases "k < length (hb_threads h)"; cases "hb_threads h ! k")
  fix t sid b x
  assume inv: "hub_inv h" and k: "k < length (hb_threads h)" "hb_threads h ! k = LimitedStore t sid b x"
  have th: "thread_ok h (LimitedEnd t sid b x p)" for p using thread_at [OF inv k] by simp
  have db: "hub_inv (h\<lparr>hb_db := db\<rparr>)" if "DeleteSessionBindingVersion fault t sid (sb_version b) (hb_db h) = (db, res)" for db res
    using table.release_version_writes [of fault t sid "sb_version b" "hb_db h"] that by (auto intro!: hub_inv_db [OF inv])
  have th': "thread_ok (h\<lparr>hb_db := db\<rparr>) (LimitedEnd t sid b x p)" for p db using th by (simp add: written_def)
  show ?thesis using inv k th db th'
    by (auto simp: limited_store_def hub_inv_set_thread hub_inv_end_thread hub_inv_evictStale split: prod.split sum.split binding_error.split)
qed (simp_all add: limited_store_def)

lemma hub_inv_limited_end: "hub_inv h \<Longrightarrow> hub_inv (limited_end k h)"
  by (auto simp: limited_end_def hub_inv_release_maps hub_inv_end_thread hub_inv_emit split: thread.split option.split)

lemma hub_inv_lookup_begin: "hub_inv h \<Longrightarrow> hub_inv (lookup_begin system t sid h)"
  by (auto simp: lookup_begin_def hub_inv_answer hub_inv_answer_none hub_inv_add_thread split: option.split)

lemma hub_inv_lookup_read: "hub_inv h \<Longrightarrow> hub_inv (lookup_read fault k h)"
proof (cases "k < length (hb_threads h)"; cases "hb_threads h ! k")
  fix t sid e
  assume inv: "hub_inv h" and k: "k < length (hb_threads h)" "hb_threads h ! k = LookupRead t sid e"
  have "thread_ok h (LookupFill sid e a r v)" if "ResolveSessionBinding fault t sid (hb_db h) = Inr (a, r, v)" for a r v
    using table.resolve_written [OF that] thread_at [OF inv k] inv by (auto simp: hub_inv_def hub_store_ok_def written_def fenced_def)
  then show ?thesis using inv k
    by (auto simp: lookup_read_def hub_inv_set_thread hub_inv_end_thread hub_inv_answer_none split: sum.split binding_error.split)
qed (simp_all add: lookup_read_def)

lemma hub_inv_session_begin: "hub_inv h \<Longrightarrow> hub_inv (fst (session_begin system t a h))"
proof -
  assume inv: "hub_inv h"
  let ?h = "h\<lparr>hb_accounts := gm_del a (hb_accounts h)\<rparr>"
  have inv': "hub_inv ?h" using inv by (rule hub_inv_accounts)
  have "hub_inv (add_thread (AccountRead t a (runner_id ?h) (hb_bindingEpoch ?h)) ?h)" if "readThroughAllowed system ?h"
    using that by (intro hub_inv_add_thread inv') (simp add: readThroughAllowed_def)
  then show ?thesis using inv inv' by (auto simp: session_begin_def Let_def split: option.split)
qed

lemma hub_inv_session_read: "hub_inv h \<Longrightarrow> hub_inv (session_read fault k h)"
proof (cases "k < length (hb_threads h)"; cases "hb_threads h ! k")
  fix t a r e
  assume inv: "hub_inv h" and k: "k < length (hb_threads h)" "hb_threads h ! k = AccountRead t a r e"
  have "thread_ok h (AccountFill a r' e sid own v)" if "SessionForAccount_row fault t a (hb_db h) = Inr (sid, own, v)" for sid own v r'
    using table.session_of_written [OF that] thread_at [OF inv k] inv by (auto simp: hub_inv_def hub_store_ok_def written_def fenced_def)
  then show ?thesis using inv k
    by (auto simp: session_read_def hub_inv_set_thread hub_inv_end_thread split: sum.split)
qed (simp_all add: session_read_def)

lemma one_write_insert: "one_write W \<Longrightarrow> v = [] \<or> v \<notin> version_of ` W \<Longrightarrow> one_write (insert (sid, a, r, v) W)"
  by (auto simp: one_write_def image_iff)

text \<open>A new write, with its row or, where the store failed, without.\<close>

lemma hub_inv_write:
  assumes "hub_inv h" and "v = [] \<or> v \<notin> version_of ` set (hb_writes h)"
    and "live_writes db \<subseteq> insert (sid, a, r, v) (live_writes (hb_db h))"
  shows "hub_inv (h\<lparr>hb_db := db, hb_writes := hb_writes h @ [(sid, a, r, v)]\<rparr>)"
proof -
  let ?h = "h\<lparr>hb_db := db, hb_writes := hb_writes h @ [(sid, a, r, v)]\<rparr>"
  have c: "current ?h = current h" by (simp add: current_def fun_eq_iff)
  have f: "fenced ?h = fenced h" by (simp add: fenced_def refused_def c fun_eq_iff)
  have w: "written ?h sid' a' r' v'" if "written h sid' a' r' v'" for sid' a' r' v' using that by (simp add: written_def)
  have later: "hub_later h ?h" by (auto simp: hub_later_def f)
  have "\<forall>th \<in> set (hb_threads h). thread_ok h th" using assms(1) by (simp add: hub_inv_def)
  from threads_later [OF later this] have threads: "\<forall>th \<in> set (hb_threads ?h). thread_ok ?h th" by simp
  have "current h v" using assms(1,2) by (auto simp: current_def hub_inv_def hub_store_ok_def)
  then have "\<forall>w \<in> live_writes db. current h (version_of w)" using assms(1,3) unfolding hub_store_ok_def hub_inv_def by fastforce
  moreover have st: "hub_store_ok h" using assms(1) by (simp add: hub_inv_def)
  moreover from st have "one_write (set (hb_writes ?h))" using one_write_insert [OF _ assms(2), of sid a r] by (simp add: hub_store_ok_def)
  moreover from st have "live_writes db \<subseteq> set (hb_writes ?h)" using assms(3) by (simp add: hub_store_ok_def) blast
  ultimately have "hub_store_ok ?h" by (simp add: hub_store_ok_def c image_Un subset_insertI2)
  moreover have "writer_ok ?h (hb_writer ?h)" using assms(1) w by (cases "hb_writer h") (auto simp: hub_inv_def c)
  moreover have "cache_ok ?h" "answers_ok ?h" using assms(1) w by (auto simp: hub_inv_def cache_ok_def answers_ok_def c)
  ultimately show ?thesis using threads by (simp add: hub_inv_def)
qed

lemma hub_inv_promote_store:
  assumes inv: "hub_inv h" and fresh: "v \<noteq> [] \<and> v \<notin> version_of ` set (hb_writes h)"
  shows "hub_inv (promote_store fault i v h)"
proof (cases "hb_writer h")
  case (PromoteStore t a sid r)
  have cur: "current h v" using inv fresh by (auto simp: current_def hub_inv_def hub_store_ok_def)
  have "live_writes (hb_db h) \<subseteq> insert (sid, a, r, []) (live_writes (hb_db h))" by blast
  from hub_inv_writer [OF hub_inv_write [OF inv _ this], of "PromoteEnd a sid r [] [] [] t"]
  have faulted: "hub_inv (h\<lparr>hb_writes := hb_writes h @ [(sid, a, r, [])], hb_writer := PromoteEnd a sid r [] [] [] t\<rparr>)"
    by (simp add: written_def current_def)
  show ?thesis
  proof (cases "hb_hasStore h \<and> r \<noteq> []")
    case True
    obtain db res where d: "RecordSessionBinding fault t sid a r i v (hb_db h) = (db, res)" by fastforce
    show ?thesis
    proof (cases res)
      case (Inr dv)
      then obtain dis v' where dv: "res = Inr (dis, v')" by (cases dv) auto
      from table.bind_writes [OF d [unfolded dv]] have v: "v' = v" and w: "live_writes db \<subseteq> insert (sid, a, r, v) (live_writes (hb_db h))" by simp_all
      have "hub_inv (h\<lparr>hb_db := db, hb_writes := hb_writes h @ [(sid, a, r, v)], hb_writer := PromoteEnd a sid r dis v t t\<rparr>)"
        using cur by (intro hub_inv_writer hub_inv_write [OF inv _ w]) (simp_all add: fresh written_def current_def)
      then show ?thesis using PromoteStore True d by (simp add: promote_store_def dv v)
    qed (use faulted PromoteStore True d in \<open>simp add: promote_store_def\<close>)
  qed (use faulted PromoteStore in \<open>auto simp: promote_store_def\<close>)
qed (use inv in \<open>simp_all add: promote_store_def\<close>)

lemma hub_inv_PeerBind:
  assumes "hub_inv h" and "v \<noteq> [] \<and> v \<notin> version_of ` set (hb_writes h)"
  shows "hub_inv (hub_exec (PeerBind t sid a r i v) h)"
proof -
  obtain db res where d: "RecordSessionBinding False t sid a r i v (hb_db h) = (db, res)" by fastforce
  show ?thesis
  proof (cases res)
    case (Inr dv)
    with d table.bind_writes [of False t sid a r i v "hb_db h" db "fst dv" "snd dv"]
    show ?thesis using hub_inv_write [OF assms(1), of v db sid a r] assms(2) by simp
  qed (use assms(1) d in simp)
qed

text \<open>A new cache entry for a current write, while its Runner is not being enrolled.\<close>

lemma hub_inv_cache:
  assumes "hub_inv h" and "written h sid (sb_account b) (sb_runnerID b) (sb_version b)" and "current h (sb_version b)"
    and "\<And>e off ses. hb_writer h = EnrollReap (sb_runnerID b) e off ses \<Longrightarrow> \<not> hb_hasStore h"
  shows "hub_inv (h\<lparr>hb_lastLifetime := n, hb_sessions := gm_put sid b (hb_sessions h)\<rparr>)"
proof -
  let ?h = "h\<lparr>hb_lastLifetime := n, hb_sessions := gm_put sid b (hb_sessions h)\<rparr>"
  have "same_fence h ?h" by (simp add: same_fence_def)
  note s = fence_simps [OF this]
  have "writer_ok ?h (hb_writer ?h)" using assms(1,4) s by (cases "hb_writer h") (auto simp: hub_inv_def)
  moreover have "cache_ok ?h" using assms(1-3) s by (auto simp: hub_inv_def cache_ok_def)
  ultimately show ?thesis using assms(1) s by (simp add: hub_inv_def hub_store_ok_def answers_ok_def)
qed

lemma hub_inv_promote_end: "hub_inv h \<Longrightarrow> hub_inv (promote_end h)"
proof (cases "hb_writer h")
  case (PromoteEnd a sid r dis v p t)
  assume inv: "hub_inv h"
  let ?n = "hb_lastLifetime h + 1"
  let ?b = "\<lparr>sb_account = a, sb_runnerID = r, sb_version = v, sb_lifetime = ?n\<rparr>"
  let ?h = "h\<lparr>hb_lastLifetime := ?n, hb_sessions := gm_put sid ?b (hb_sessions h)\<rparr>"
  have "written h sid a r v" "current h v" using inv PromoteEnd by (simp_all add: hub_inv_def)
  then have h: "hub_inv ?h" using hub_inv_cache [OF inv, of sid ?b ?n] PromoteEnd by simp
  have "hub_inv (?h\<lparr>hb_sessions := (if dis \<noteq> [] \<and> dis \<noteq> sid then gm_del dis (hb_sessions ?h) else hb_sessions ?h)\<rparr>)"
    using h hub_inv_sessions [OF h, of dis] by auto
  from hub_inv_emit [OF hub_inv_writer [OF hub_inv_accounts [OF this], where w = Idle]] show ?thesis
    using PromoteEnd by (auto simp: promote_end_def newBindingLocked_def Let_def)
qed (simp_all add: promote_end_def)

lemma refused_fence: "\<not> refused r e h \<Longrightarrow> fenced h r e v \<Longrightarrow> current h v"
  by (simp add: fenced_def)

lemma unrefused_idle: "hub_inv h \<Longrightarrow> gm_getz 0 (hb_reapStale h) r = 0 \<Longrightarrow> hb_writer h = EnrollReap r e off ses \<Longrightarrow> \<not> hb_hasStore h"
  by (auto simp: hub_inv_def)

lemma hub_inv_lookup_fill: "hub_inv h \<Longrightarrow> hub_inv (lookup_fill k h)"
proof (cases "k < length (hb_threads h)"; cases "hb_threads h ! k")
  fix sid e a r v
  assume inv: "hub_inv h" and k: "k < length (hb_threads h)" "hb_threads h ! k = LookupFill sid e a r v"
  let ?n = "hb_lastLifetime h + 1"
  let ?b = "\<lparr>sb_account = a, sb_runnerID = r, sb_version = v, sb_lifetime = ?n\<rparr>"
  let ?h = "end_thread k h"
  have t: "written h sid a r v" "fenced h r e v" using thread_at [OF inv k] by simp_all
  have inv': "hub_inv ?h" by (rule hub_inv_end_thread [OF inv])
  have "hub_inv (?h\<lparr>hb_lastLifetime := ?n, hb_sessions := gm_put sid ?b (hb_sessions ?h)\<rparr>)" if "\<not> refused r e h"
  proof (rule hub_inv_cache [OF inv'])
    show "written ?h sid (sb_account ?b) (sb_runnerID ?b) (sb_version ?b)" using t(1) by (simp add: written_def)
    show "current ?h (sb_version ?b)" using refused_fence [OF that t(2)] by (simp add: current_def)
    show "\<not> hb_hasStore ?h" if "hb_writer ?h = EnrollReap (sb_runnerID ?b) e' off ses" for e' off ses
      using unrefused_idle [OF inv] that \<open>\<not> refused r e h\<close> by (auto simp: refused_def)
  qed
  then show ?thesis using inv' k
    by (auto simp: lookup_fill_def newBindingLocked_def Let_def hub_inv_answer_none intro!: hub_inv_answer split: option.split)
qed (simp_all add: lookup_fill_def)

lemma hub_inv_session_fill: "hub_inv h \<Longrightarrow> hub_inv (session_fill k h)"
proof (cases "k < length (hb_threads h)"; cases "hb_threads h ! k")
  fix a r e sid own v
  assume inv: "hub_inv h" and k: "k < length (hb_threads h)" "hb_threads h ! k = AccountFill a r e sid own v"
  let ?n = "hb_lastLifetime h + 1"
  let ?b = "\<lparr>sb_account = a, sb_runnerID = own, sb_version = v, sb_lifetime = ?n\<rparr>"
  let ?h = "(end_thread k h)\<lparr>hb_accounts := gm_del a (hb_accounts h)\<rparr>"
  have t: "written h sid a own v" "fenced h own e v" "hb_runner h \<noteq> None" using thread_at [OF inv k] by simp_all
  have inv': "hub_inv ?h" by (intro hub_inv_accounts hub_inv_end_thread inv)
  have fill: "hub_inv (?h\<lparr>hb_lastLifetime := ?n, hb_sessions := gm_put sid ?b (hb_sessions ?h)\<rparr>)" if n: "\<not> refused own e h"
  proof (rule hub_inv_cache [OF inv'])
    show "written ?h sid (sb_account ?b) (sb_runnerID ?b) (sb_version ?b)" using t(1) by (simp add: written_def)
    show "current ?h (sb_version ?b)" using refused_fence [OF n t(2)] by (simp add: current_def)
    show "\<not> hb_hasStore ?h" if "hb_writer ?h = EnrollReap (sb_runnerID ?b) e' off ses" for e' off ses
      using unrefused_idle [OF inv] that n by (auto simp: refused_def)
  qed
  have put: "hub_inv (?h\<lparr>hb_lastLifetime := ?n, hb_sessions := gm_put sid ?b (hb_sessions ?h), hb_accounts := gm_put a sid (hb_accounts ?h)\<rparr>)"
    if n: "\<not> refused own e h" using hub_inv_accounts [OF fill [OF n], of "gm_put a sid (hb_accounts ?h)"] by simp
  have "hub_inv (end_thread k h)" by (rule hub_inv_end_thread [OF inv])
  then show ?thesis using put inv' k t(3)
    by (auto simp: session_fill_def newBindingLocked_def Let_def refused_def split: option.split)
qed (simp_all add: session_fill_def)

text \<open>A step of an enrollment: the writes, the table and the answers stay, the cache shrinks, the fence only grows.\<close>

lemma hub_inv_fence:
  assumes "hub_inv h" and later: "hub_later h h'" and "hb_writes h' = hb_writes h" and "hb_reaped h' = hb_reaped h"
    and "hb_db h' = hb_db h" and "hb_answers h' = hb_answers h" and "hb_threads h' = hb_threads h"
    and "\<And>sid b. gm_get (hb_sessions h') sid = Some b \<Longrightarrow> gm_get (hb_sessions h) sid = Some b" and "writer_ok h' (hb_writer h')"
  shows "hub_inv h'"
proof -
  have c: "current h' = current h" "written h' = written h" using assms(3,4) by (simp_all add: current_def written_def fun_eq_iff)
  have "\<forall>th \<in> set (hb_threads h). thread_ok h th" using assms(1) by (simp add: hub_inv_def)
  from threads_later [OF later this] have "\<forall>th \<in> set (hb_threads h'). thread_ok h' th" using assms(7) by simp
  moreover have "hub_store_ok h'" "answers_ok h'" using assms(1) by (simp_all add: hub_inv_def hub_store_ok_def answers_ok_def assms(3-6) c)
  moreover have "cache_ok h'" using assms(1,8) by (auto simp: hub_inv_def cache_ok_def c)
  ultimately show ?thesis using assms(9) by (simp add: hub_inv_def)
qed

lemma hub_inv_enroll_begin: "hub_inv h \<Longrightarrow> hub_inv (enroll_begin rid tier posture h)"
proof (cases "hb_writer h \<noteq> Idle \<or> list_ex is_limited (hb_threads h)")
  case False
  assume inv: "hub_inv h"
  show ?thesis
  proof (rule hub_inv_fence [OF inv])
    show "hub_later h (enroll_begin rid tier posture h)"
      using False by (auto simp: hub_later_def enroll_begin_def Let_def fenced_def refused_def current_def)
  qed (use False in \<open>auto simp: enroll_begin_def Let_def\<close>)
qed (simp add: enroll_begin_def)

lemma hub_inv_enroll_end: "hub_inv h \<Longrightarrow> hub_inv (fst (enroll_end faulted h))"
proof (cases "hb_writer h")
  case (EnrollEnd rid e okd off ses rows)
  assume inv: "hub_inv h"
  show ?thesis
  proof (rule hub_inv_fence [OF inv])
    show "hub_later h (fst (enroll_end faulted h))"
      using EnrollEnd by (auto simp: hub_later_def enroll_end_def Let_def emit_def fenced_def refused_def current_def)
  qed (use EnrollEnd in \<open>auto simp: enroll_end_def emit_def Let_def\<close>)
qed (simp_all add: enroll_end_def)

text \<open>The sweep retires the versions of its Runner: no other write carries one, no cached binding does, and a lookup that still
  holds one is fenced by the stale mark.\<close>

lemma hub_inv_swept:
  assumes inv: "hub_inv h" and w: "hb_writer h = EnrollReap rid e off ses" and st: "hb_hasStore h"
    and d: "DeleteSessionBindingsForRunner fault rid (hb_db h) = (db, Inr rows)"
    and vs: "\<And>v. v \<in> set vs \<longleftrightarrow> (\<exists>s a. (s, a, rid, v) \<in> live_writes (hb_db h))"
  shows "hub_inv (h\<lparr>hb_db := db, hb_reaped := hb_reaped h @ vs, hb_writer := EnrollEnd rid e okd off' ses' rows'\<rparr>)" (is "hub_inv ?h")
proof -
  have stale: "gm_getz 0 (hb_reapStale h) rid \<noteq> 0" and cold: "\<And>sid b. gm_get (hb_sessions h) sid = Some b \<Longrightarrow> sb_runnerID b \<noteq> rid"
    using inv w st by (auto simp: hub_inv_def)
  have known: "live_writes (hb_db h) \<subseteq> set (hb_writes h)" and one: "one_write (set (hb_writes h))" using inv by (simp_all add: hub_inv_def hub_store_ok_def)
  have own: "r = rid" if v: "v \<in> set vs" "v \<noteq> []" and "written h sid a r v" for sid a r v
  proof -
    obtain s a' where "(s, a', rid, v) \<in> set (hb_writes h)" using v(1) vs known by blast
    with one that(3) v(2) have "(s, a', rid, v) = (sid, a, r, v)" unfolding one_write_def written_def by fastforce
    then show ?thesis by simp
  qed
  have cur: "current ?h v" if "written h sid a r v" "current h v" "r \<noteq> rid" for sid a r v
    using that own [of v sid a r] by (auto simp: current_def)
  have wr: "written ?h = written h" by (simp add: written_def fun_eq_iff)
  have "hub_later h ?h"
    using own stale cur by (auto simp: hub_later_def fenced_def refused_def) (metis neq0_conv)
  then have "\<forall>th \<in> set (hb_threads ?h). thread_ok ?h th" using inv threads_later [of h ?h] by (simp add: hub_inv_def)
  moreover have "cache_ok ?h" unfolding cache_ok_def wr
  proof (intro allI impI)
    fix sid b
    assume "gm_get (hb_sessions ?h) sid = Some b"
    then have g: "gm_get (hb_sessions h) sid = Some b" by simp
    with inv have "written h sid (sb_account b) (sb_runnerID b) (sb_version b) \<and> current h (sb_version b)" by (simp add: hub_inv_def cache_ok_def)
    with cur cold [OF g] show "written h sid (sb_account b) (sb_runnerID b) (sb_version b) \<and> current ?h (sb_version b)" by blast
  qed
  moreover have left: "(s, a, r, v) \<in> live_writes (hb_db h) \<and> current ?h v" if "(s, a, r, v) \<in> live_writes db" for s a r v
  proof -
    have l: "(s, a, r, v) \<in> live_writes (hb_db h)" "r \<noteq> rid" using that table.sweep_writes [OF d] by auto
    then have "written h s a r v" "current h v" using known inv by (auto simp: written_def hub_inv_def hub_store_ok_def)
    with cur l show ?thesis by blast
  qed
  have "set vs \<subseteq> version_of ` set (hb_writes h)" using vs known by force
  then have "hub_store_ok ?h" using inv left known by (auto simp: hub_inv_def hub_store_ok_def)
  moreover have "answers_ok ?h" using inv by (simp add: hub_inv_def answers_ok_def wr)
  ultimately show ?thesis by (simp add: hub_inv_def)
qed

lemma hub_inv_enroll_reap: "hub_inv h \<Longrightarrow> hub_inv (enroll_reap fault h)"
proof (cases "hb_writer h")
  case (EnrollReap rid e off ses)
  assume inv: "hub_inv h"
  have plain: "hub_inv (h\<lparr>hb_writer := EnrollEnd rid e okd off ses []\<rparr>)" for okd by (rule hub_inv_writer [OF inv]) simp
  show ?thesis
  proof (cases "hb_hasStore h")
    case True
    obtain db res where d: "DeleteSessionBindingsForRunner fault rid (hb_db h) = (db, res)" by fastforce
    show ?thesis
    proof (cases res)
      case (Inr rows)
      have "v \<in> set (map br_version (filter (\<lambda>r. br_runner r = rid) (bd_rows (hb_db h)))) \<longleftrightarrow> (\<exists>s a. (s, a, rid, v) \<in> live_writes (hb_db h))" for v
        by (auto simp: live_writes_def row_write_def image_iff)
      from hub_inv_swept [OF inv EnrollReap True d [unfolded Inr] this] show ?thesis using EnrollReap True d Inr by (simp add: enroll_reap_def)
    qed (use plain EnrollReap True d in \<open>simp add: enroll_reap_def\<close>)
  qed (use plain EnrollReap in \<open>simp add: enroll_reap_def\<close>)
qed (simp_all add: enroll_reap_def)

lemmas hub_inv_ops = hub_inv_bindContainer hub_inv_unbindContainer hub_inv_OnBindingChange hub_inv_enroll_begin hub_inv_enroll_reap
  hub_inv_enroll_end hub_inv_promote_begin hub_inv_promote_store hub_inv_promote_end hub_inv_release_begin hub_inv_release_store hub_inv_release_end
  hub_inv_drop_begin hub_inv_limited_store hub_inv_limited_end hub_inv_lookup_begin hub_inv_lookup_read hub_inv_lookup_fill
  hub_inv_session_begin hub_inv_session_read hub_inv_session_fill

lemma hub_inv_exec: "hub_inv h \<Longrightarrow> hub_fresh op h \<Longrightarrow> hub_inv (hub_exec op h)"
proof (cases op)
  case (PeerBind t sid a r i v)
  assume "hub_inv h" "hub_fresh op h"
  with hub_inv_PeerBind [of h v t sid a r i] PeerBind show ?thesis by (simp del: hub_exec.simps)
qed (simp_all add: hub_inv_ops hub_inv_db table.release_writes table.sweep_subset)

interpretation hub: op_system hub_fresh hub_exec hub_inv
  by unfold_locales (rule hub_inv_exec)

section \<open>Histories\<close>

lemma newBindingLocked_simps [simp]: "snd (newBindingLocked a r v h) = \<lparr>sb_account = a, sb_runnerID = r, sb_version = v, sb_lifetime = hb_lastLifetime h + 1\<rparr>"
  "fst (newBindingLocked a r v h) = h\<lparr>hb_lastLifetime := hb_lastLifetime h + 1\<rparr>"
  by (simp_all add: newBindingLocked_def Let_def)

lemmas hub_step_defs = bindContainer_def unbindContainer_def OnBindingChange_def enroll_begin_def enroll_reap_def enroll_end_def promote_begin_def
  promote_store_def promote_end_def release_begin_def release_store_def release_end_def drop_begin_def limited_store_def limited_end_def
  lookup_begin_def lookup_read_def lookup_fill_def session_begin_def session_read_def session_fill_def hub_ops_simps newBindingLocked_def

lemmas hub_splits = option.split sum.split prod.split writer.split thread.split binding_error.split

lemma reaped_grows: "set (hb_reaped h) \<subseteq> set (hb_reaped (hub_exec op h))"
  by (cases op) (auto simp: hub_step_defs split: hub_splits)

text \<open>An answer that finds a binding is in the cache when it is given.\<close>

definition answers_grow :: "hub \<Rightarrow> hub \<Rightarrow> bool" where
  "answers_grow h h' \<longleftrightarrow> hb_answers h' = hb_answers h
     \<or> (\<exists>sid a. hb_answers h' = hb_answers h @ [(sid, a)] \<and> (\<forall>b. a = bindingFound b \<longrightarrow> gm_get (hb_sessions h') sid = Some b))"

lemma answers_step: "answers_grow h (hub_exec op h)"
  by (cases op) (auto simp: answers_grow_def hub_step_defs split: hub_splits)

text \<open>Runs of the hub, from any state of it.\<close>

abbreviation hub_run :: "hub \<Rightarrow> hub \<Rightarrow> bool" where
  "hub_run \<equiv> reaches hub_fresh hub_exec"

lemma reaped_run: "hub_run h h' \<Longrightarrow> set (hb_reaped h) \<subseteq> set (hb_reaped h')"
  by (induction rule: reaches.induct) (use reaped_grows in blast)+

lemma cached_current: "hub_inv h \<Longrightarrow> gm_get (hb_sessions h) sid = Some b \<Longrightarrow> v \<in> set (hb_reaped h) \<Longrightarrow> v \<noteq> [] \<Longrightarrow> sb_version b \<noteq> v"
  by (auto simp: hub_inv_def cache_ok_def current_def)

lemma answers_run:
  assumes "hub_run h h'" and "hub_inv h" and "v \<in> set (hb_reaped h)" and "v \<noteq> []"
  shows "\<exists>new. hb_answers h' = hb_answers h @ new \<and> (\<forall>sid b. (sid, bindingFound b) \<in> set new \<longrightarrow> sb_version b \<noteq> v)"
  using assms
proof (induction rule: reaches.induct)
  case (reaches_step t op)
  then obtain new where new: "hb_answers t = hb_answers h @ new" "\<forall>sid b. (sid, bindingFound b) \<in> set new \<longrightarrow> sb_version b \<noteq> v" by blast
  have inv: "hub_inv (hub_exec op t)" using hub.reaches_inv [OF reaches.reaches_step] reaches_step by blast
  have v: "v \<in> set (hb_reaped (hub_exec op t))" using reaped_run [OF reaches.reaches_step] reaches_step by blast
  have "\<forall>sid b. gm_get (hb_sessions (hub_exec op t)) sid = Some b \<longrightarrow> sb_version b \<noteq> v" using cached_current [OF inv _ v assms(4)] by blast
  then show ?case using answers_step [of t op] new unfolding answers_grow_def by (auto, blast)
qed simp

section \<open>Limited releases\<close>

definition keeps_newer :: "string \<Rightarrow> string \<Rightarrow> sessionBinding \<Rightarrow> hub \<Rightarrow> hub \<Rightarrow> bool" where
  "keeps_newer t sid only h h' \<longleftrightarrow>
    (\<forall>s live. gm_get (hb_sessions h) s = Some live \<and> (s \<noteq> sid \<or> \<not> sameBinding live only) \<longrightarrow> gm_get (hb_sessions h') s = Some live)
    \<and> (\<forall>r \<in> set (bd_rows (hb_db h)). \<not> (br_tenant r = t \<and> br_session r = sid \<and> br_version r = sb_version only) \<longrightarrow> r \<in> set (bd_rows (hb_db h')))
    \<and> (\<forall>live. gm_get (hb_sessions h) sid = Some live \<and> \<not> sameBinding live only \<longrightarrow> hb_effects h' = hb_effects h)"

lemma spares_same: "hb_sessions h' = hb_sessions h \<Longrightarrow> hb_db h' = hb_db h \<Longrightarrow> hb_effects h' = hb_effects h \<Longrightarrow> keeps_newer t sid only h h'"
  by (simp add: keeps_newer_def)

lemma spares_stale: "hb_sessions h' = hb_sessions h \<Longrightarrow> hb_db h' = hb_db h \<Longrightarrow> hb_effects h' = hb_effects h
    \<Longrightarrow> keeps_newer t sid only h (evictStaleBinding sid only h')"
  by (auto simp: keeps_newer_def evictStaleBinding_def evict_def split: option.split)

lemma delete_version_rows:
  assumes "DeleteSessionBindingVersion fault t sid v db = (db', res)" and "r \<in> set (bd_rows db)"
    and "\<not> (br_tenant r = t \<and> br_session r = sid \<and> br_version r = v)"
  shows "r \<in> set (bd_rows db')"
  using assms by (auto simp: DeleteSessionBindingVersion_def delete_bindings_def Let_def split: if_splits)

lemma spares_db: "keeps_newer t sid only h h' \<Longrightarrow> DeleteSessionBindingVersion fault t sid (sb_version only) (hb_db h') = (db, res)
    \<Longrightarrow> keeps_newer t sid only h (h'\<lparr>hb_db := db\<rparr>)"
  using delete_version_rows unfolding keeps_newer_def by auto

lemma spares_trans_stale:
  assumes "keeps_newer t sid only h h'" and "hb_sessions h' = hb_sessions h"
  shows "keeps_newer t sid only h (evictStaleBinding sid only h')"
  using assms by (auto simp: keeps_newer_def evictStaleBinding_def evict_def split: option.split)

lemma spares_thread: "keeps_newer t sid only h (set_thread k th h') = keeps_newer t sid only h h'" "keeps_newer t sid only h (end_thread k h') = keeps_newer t sid only h h'"
  by (simp_all add: keeps_newer_def set_thread_def end_thread_def)

lemma limited_store_spares:
  assumes "k < length (hb_threads h)" and "hb_threads h ! k = LimitedStore t sid only x"
  shows "keeps_newer t sid only h (limited_store fault k h)"
proof -
  obtain db res where d: "DeleteSessionBindingVersion fault t sid (sb_version only) (hb_db h) = (db, res)" by fastforce
  have s: "keeps_newer t sid only h h" "keeps_newer t sid only h (evictStaleBinding sid only h)" by (simp_all add: spares_same spares_stale)
  have s': "keeps_newer t sid only h (h\<lparr>hb_db := db\<rparr>)" by (rule spares_db [OF s(1) d])
  have "keeps_newer t sid only h (evictStaleBinding sid only (h\<lparr>hb_db := db\<rparr>))" by (rule spares_trans_stale [OF s']) simp
  then show ?thesis using assms d s s'
    by (cases res) (auto simp: limited_store_def spares_thread split: sum.split binding_error.split)
qed

lemma limited_end_spares:
  assumes "k < length (hb_threads h)" and "hb_threads h ! k = LimitedEnd t sid only x p"
  shows "keeps_newer t sid only h (limited_end k h)"
  using assms by (cases "gm_get (hb_sessions h) sid") (auto simp: limited_end_def keeps_newer_def release_maps_def emit_def evict_def end_thread_def Let_def)

section \<open>Properties\<close>

text \<open>C2: a reaped binding never returns. Once the enrollment of a Runner has removed a binding from the table, no interleaving of lookups that read its row
  before, promotions, releases and further enrollments puts it back: it is on no row, not in the cache,
  and no answer given from then on carries it.\<close>

theorem reaped_binding_never_returns:
  assumes "one_write (live_writes db)" and "hub_run (NewHub hasStore db) h" and "hub_run h h'"
    and "v \<in> set (hb_reaped h)" and "v \<noteq> []"
  shows "(\<forall>sid b. gm_get (hb_sessions h') sid = Some b \<longrightarrow> sb_version b \<noteq> v)
    \<and> (\<forall>w \<in> live_writes (hb_db h'). version_of w \<noteq> v)
    \<and> (\<exists>new. hb_answers h' = hb_answers h @ new \<and> (\<forall>sid b. (sid, bindingFound b) \<in> set new \<longrightarrow> sb_version b \<noteq> v))"
proof -
  have inv: "hub_inv h" by (rule hub.reaches_inv [OF assms(2) hub_inv_new [OF assms(1)]])
  have inv': "hub_inv h'" by (rule hub.reaches_inv [OF assms(3) inv])
  have v: "v \<in> set (hb_reaped h')" using reaped_run [OF assms(3)] assms(4) by blast
  have "\<forall>w \<in> live_writes (hb_db h'). version_of w \<noteq> v" using inv' v assms(5) unfolding hub_inv_def hub_store_ok_def current_def by blast
  moreover have "\<forall>sid b. gm_get (hb_sessions h') sid = Some b \<longrightarrow> sb_version b \<noteq> v" using cached_current [OF inv' _ v assms(5)] by blast
  ultimately show ?thesis using answers_run [OF assms(3) inv assms(4,5)] by blast
qed

definition demo_table :: bindings_db where
  "demo_table = \<lparr>bd_rows = [], bd_events = [], bd_agents = [(''a'', ''t''), (''b'', ''t'')]\<rparr>"

definition demo_bound :: "hub_op list" where
  "demo_bound = [EnrollBegin ''r'' 1 1, EnrollReapStep False, EnrollEndStep [], BindContainer ''c'' ''a'' ''r'',
     PromoteBegin ''t'' ''c'' ''s'', PromoteStoreStep False ''i'' ''v'', PromoteEndStep]"

text \<open>A lookup of another cache's session reads the row, an enrollment reaps it, and the late fill is refused.\<close>

definition demo_reaped :: "hub_op list" where
  "demo_reaped = demo_bound @ [BindingChanged ''s'', LookupBegin False ''t'' ''s'', LookupReadStep False 0,
     EnrollBegin ''r'' 1 1, EnrollReapStep False]"

definition demo_late :: "hub_op list" where
  "demo_late = [LookupFillStep 0, EnrollEndStep []]"

lemma one_write_empty: "one_write (live_writes demo_table)"
  by (simp add: one_write_def live_writes_def demo_table_def)

lemma demo_reaped_run: "hub_run (NewHub True demo_table) (fold hub_exec demo_reaped (NewHub True demo_table))"
  by (rule reaches_fold) code_simp

lemma demo_late_run: "hub_run (fold hub_exec demo_reaped (NewHub True demo_table)) (fold hub_exec demo_late (fold hub_exec demo_reaped (NewHub True demo_table)))"
  by (rule reaches_fold) code_simp

theorem reaped_binding_never_returns_witness:
  "hb_reaped (fold hub_exec demo_reaped (NewHub True demo_table)) = [''v'']
    \<and> hb_answers (fold hub_exec demo_late (fold hub_exec demo_reaped (NewHub True demo_table))) = [(''s'', bindingUnverifiable)]
    \<and> ''v'' \<notin> {sb_version b | sid b. gm_get (hb_sessions (fold hub_exec demo_late (fold hub_exec demo_reaped (NewHub True demo_table)))) sid = Some b}"
proof -
  have r: "hb_reaped (fold hub_exec demo_reaped (NewHub True demo_table)) = [''v'']" by code_simp
  have "\<forall>sid b. gm_get (hb_sessions (fold hub_exec demo_late (fold hub_exec demo_reaped (NewHub True demo_table)))) sid = Some b \<longrightarrow> sb_version b \<noteq> ''v''"
    using r reaped_binding_never_returns [OF one_write_empty demo_reaped_run demo_late_run, of "''v''"] by simp
  moreover have "hb_answers (fold hub_exec demo_late (fold hub_exec demo_reaped (NewHub True demo_table))) = [(''s'', bindingUnverifiable)]" by code_simp
  ultimately show ?thesis using r unfolding mem_Collect_eq by metis
qed



text \<open>A release limited to one binding spares a newer one. Whatever happened since the binding was looked up, the release
  leaves every other session and every binding that is not the one it was made for in the cache, removes no
  row of another write, and reports nothing lost when the session has been bound anew.\<close>

theorem limited_release_spares_newer:
  assumes "k < length (hb_threads h)" and "hb_threads h ! k \<in> {LimitedStore t sid only x, LimitedEnd t sid only x p}"
    and "h' \<in> {limited_store fault k h, limited_end k h}"
  shows "(\<forall>s live. gm_get (hb_sessions h) s = Some live \<and> (s \<noteq> sid \<or> \<not> sameBinding live only) \<longrightarrow> gm_get (hb_sessions h') s = Some live)
    \<and> (\<forall>r \<in> set (bd_rows (hb_db h)). \<not> (br_tenant r = t \<and> br_session r = sid \<and> br_version r = sb_version only) \<longrightarrow> r \<in> set (bd_rows (hb_db h')))
    \<and> (\<forall>live. gm_get (hb_sessions h) sid = Some live \<and> \<not> sameBinding live only \<longrightarrow> hb_effects h' = hb_effects h)"
proof -
  have "keeps_newer t sid only h (limited_store fault k h)" "keeps_newer t sid only h (limited_end k h)"
    using assms(1,2) by (auto intro: limited_store_spares limited_end_spares) (simp_all add: limited_store_def limited_end_def keeps_newer_def)
  with assms(3) show ?thesis unfolding keeps_newer_def by blast
qed

text \<open>A lost session is bound anew between the lookup and the release made for it.\<close>

definition demo_stale :: hub where
  "demo_stale = (fold hub_exec demo_bound (NewHub True demo_table))
     \<lparr>hb_threads := [LimitedStore ''t'' ''s'' \<lparr>sb_account = ''a'', sb_runnerID = ''r'', sb_version = ''u'', sb_lifetime = 7\<rparr> True]\<rparr>"

theorem limited_release_spares_newer_witness:
  "gm_get (hb_sessions (limited_store False 0 demo_stale)) ''s'' = Some \<lparr>sb_account = ''a'', sb_runnerID = ''r'', sb_version = ''v'', sb_lifetime = 1\<rparr>"
proof -
  let ?only = "\<lparr>sb_account = ''a'', sb_runnerID = ''r'', sb_version = ''u'', sb_lifetime = 7\<rparr>"
  let ?live = "\<lparr>sb_account = ''a'', sb_runnerID = ''r'', sb_version = ''v'', sb_lifetime = 1\<rparr>"
  have l: "gm_get (hb_sessions demo_stale) ''s'' = Some ?live" by code_simp
  moreover have "\<not> sameBinding ?live ?only" by (simp add: sameBinding_def)
  moreover have "0 < length (hb_threads demo_stale)" "hb_threads demo_stale ! 0 \<in> {LimitedStore ''t'' ''s'' ?only True, LimitedEnd ''t'' ''s'' ?only True []}"
    by (simp_all add: demo_stale_def)
  ultimately show ?thesis
    using limited_release_spares_newer [of 0 demo_stale "''t''" "''s''" ?only True "[]" "limited_store False 0 demo_stale" False] by blast
qed

text \<open>A session the store refuses to re-point is re-pointed in the cache. When a promotion names a session another agent of the tenant holds, the
  store keeps the first agent and reports a conflict; the hub treats the conflict like a fault of the store and answers the
  second agent for the session from then on.\<close>

theorem conflict_rebinds_in_cache:
  assumes "hb_writer h = PromoteStore t account sid runnerID" and "hb_hasStore h" and "runnerID \<noteq> []" and "db_ok (hb_db h)"
    and "snd (RecordSessionBinding False t sid account runnerID i v (hb_db h)) = Inl BindingConflict"
  shows "hb_db (promote_end (promote_store False i v h)) = hb_db h
    \<and> AccountForLiveSession runnerID sid (promote_end (promote_store False i v h)) = Some account
    \<and> (\<exists>first r v'. first \<noteq> account \<and> ResolveSessionBinding False t sid (hb_db h) = Inr (first, r, v'))"
proof -
  obtain db where d: "RecordSessionBinding False t sid account runnerID i v (hb_db h) = (db, Inl BindingConflict)" using assms(5) by (cases "RecordSessionBinding False t sid account runnerID i v (hb_db h)") auto
  have "sid \<noteq> []" and "\<exists>r \<in> set (bd_rows (hb_db h)). session_key r = (t, sid) \<and> br_account r \<noteq> account"
    using d by (auto simp: RecordSessionBinding_def record_tx_def Let_def upsert_binding_def list_ex_iff split: if_splits sum.splits option.splits)
  then obtain row where row: "SessionBinding_row t sid (hb_db h) = Some row" "br_account row \<noteq> account"
    using session_row_iff [OF assms(4)] by blast
  then have "ResolveSessionBinding False t sid (hb_db h) = Inr (br_account row, br_runner row, br_version row)"
    using \<open>sid \<noteq> []\<close> by (simp add: ResolveSessionBinding_def)
  then show ?thesis using assms(1-3) d row(2)
    by (simp add: promote_store_def promote_end_def AccountForLiveSession_def hub_ops_simps newBindingLocked_def)
qed

definition demo_conflict :: hub where
  "demo_conflict = fold hub_exec (demo_bound @ [BindContainer ''d'' ''b'' ''r'', PromoteBegin ''t'' ''d'' ''s'']) (NewHub True demo_table)"

theorem conflict_rebinds_in_cache_witness:
  "AccountForLiveSession ''r'' ''s'' (promote_end (promote_store False ''j'' ''w'' demo_conflict)) = Some ''b''"
proof -
  have "hb_db demo_conflict = fst (RecordSessionBinding False ''t'' ''s'' ''a'' ''r'' ''i'' ''v'' demo_table)" by code_simp
  moreover have "db_ok demo_table" by (simp add: demo_table_def db_ok_def rows_ok_def billing_ok_def event_keys_def)
  then have "db_ok (fst (RecordSessionBinding False ''t'' ''s'' ''a'' ''r'' ''i'' ''v'' demo_table))"
    by (rule bind_ok) (simp add: fresh_interval_def demo_table_def)
  ultimately have ok: "db_ok (hb_db demo_conflict)" by simp
  have "hb_writer demo_conflict = PromoteStore ''t'' ''b'' ''s'' ''r''" "hb_hasStore demo_conflict"
    "snd (RecordSessionBinding False ''t'' ''s'' ''b'' ''r'' ''j'' ''w'' (hb_db demo_conflict)) = Inl BindingConflict" by code_simp+
  from conflict_rebinds_in_cache [OF this(1,2) _ ok this(3)] show ?thesis by simp
qed

end
