(* ===== verification/Delivery_Cursors.thy ===== *)
theory Delivery_Cursors
  imports Comms_Types Op_System
begin

text \<open>
  The durable delivery state, \<open>src/go/internal/store/delivery_cursors.go\<close> with the statements of \<open>src/go/internal/store/queries/delivery_cursors.sql\<close>: how far
  an agent has acknowledged each channel, the mentions it is still owed, and the reads the recovery sweeps are made of.
  \<open>messages.seq\<close> is one sequence for all channels, drawn before the message commits, so messages may
  appear out of order; a channel's own numbers are sparse.

  The tables \<open>messages\<close> (with the channel of the topic), \<open>agent_delivery_cursors\<close> and \<open>owed_mentions\<close> are the state; who
  belongs where and who may reach whom (\<open>agent_accounts\<close>, \<open>channel_members\<close>, \<open>user_peers\<close> and their neighbours) is \<open>delivery_env\<close>, which other
  operations of the store change at any time. Only the columns the statements select by are modelled; a message's text and
  its decoding are left out. \<open>dh_\<close> fields are histories: the head a cursor was seeded at, the acknowledgements that
  resolved, and the numbers a cursor passed without one.
\<close>

section \<open>Tables\<close>

record agent_row =
  ag_account :: string
  ag_owner :: string
  ag_home :: "string option"
  ag_parent :: "string option"

record channel_row =
  cw_id :: string
  cw_mandatory :: bool
  cw_mode :: nat
  cw_parent :: "string option"

record member_row =
  me_channel :: string
  me_account :: string
  me_subscribed :: bool

record delivery_env =
  ev_agents :: "agent_row list"
  ev_system :: "string list"
  ev_peers :: "(string \<times> string) list"
  ev_channels :: "channel_row list"
  ev_members :: "member_row list"
  ev_subscriptions :: "member_row list"

record message_row =
  mr_id :: string
  mr_channel :: string
  mr_author :: string
  mr_seq :: nat
  mr_routed :: bool

record cursor_row =
  cu_acked :: nat
  cu_above :: "nat list"

record delivery_db =
  dd_env :: delivery_env
  dd_messages :: "message_row list"
  dd_cursors :: "(string \<times> string, cursor_row) gomap"
  dd_owed :: "(string \<times> string \<times> string) list"

section \<open>Membership and reach\<close>

definition agent_of :: "delivery_env \<Rightarrow> string \<Rightarrow> agent_row option" where
  "agent_of ev a = find (\<lambda>r. ag_account r = a) (ev_agents ev)"

text \<open>The recursive query \<open>chain\<close>: an agent and its ancestors, each once.\<close>

lemma chain_shrinks:
  assumes "agent_of ev a = Some r" and "a \<notin> set visited"
  shows "card (ag_account ` set (ev_agents ev) - set (a # visited)) < card (ag_account ` set (ev_agents ev) - set visited)"
proof (rule psubset_card_mono)
  have "a \<in> ag_account ` set (ev_agents ev)" using assms(1) by (auto simp: agent_of_def find_Some_iff)
  then show "ag_account ` set (ev_agents ev) - set (a # visited) \<subset> ag_account ` set (ev_agents ev) - set visited" using assms(2) by auto
qed simp

function chain :: "delivery_env \<Rightarrow> string list \<Rightarrow> string \<Rightarrow> string list" where
  "chain ev visited a =
    (if a \<in> set visited then visited
     else case agent_of ev a of None \<Rightarrow> visited
          | Some r \<Rightarrow> (case ag_parent r of None \<Rightarrow> a # visited | Some p \<Rightarrow> chain ev (a # visited) p))"
  by pat_completeness auto
termination
  by (relation "measure (\<lambda>(ev, visited, a). card (ag_account ` set (ev_agents ev) - set visited))")
    (auto simp: chain_shrinks simp del: set_simps)

declare chain.simps [simp del]

text \<open>\<open>participants\<close>: the channels an agent takes part in, with its subscription; a channel of mode 1 holds the agents below its parent.\<close>

definition subscription :: "delivery_env \<Rightarrow> string \<Rightarrow> string \<Rightarrow> bool" where
  "subscription ev ch a = (case find (\<lambda>s. me_channel s = ch \<and> me_account s = a) (ev_subscriptions ev) of None \<Rightarrow> False | Some s \<Rightarrow> me_subscribed s)"

definition participants :: "delivery_env \<Rightarrow> string \<Rightarrow> (channel_row \<times> bool) list" where
  "participants ev a =
    concat (map (\<lambda>m. map (\<lambda>c. (c, me_subscribed m)) (filter (\<lambda>c. cw_id c = me_channel m \<and> cw_mode c = 0) (ev_channels ev)))
      (filter (\<lambda>m. me_account m = a) (ev_members ev)))
    @ (if agent_of ev a = None then []
       else map (\<lambda>c. (c, subscription ev (cw_id c) a))
         (filter (\<lambda>c. cw_mode c = 1 \<and> (case cw_parent c of None \<Rightarrow> False | Some p \<Rightarrow> p \<in> set (chain ev [] a))) (ev_channels ev)))"

definition InSweepSet :: "string \<Rightarrow> string \<Rightarrow> delivery_db \<Rightarrow> bool" where
  "InSweepSet a ch db = (case agent_of (dd_env db) a of None \<Rightarrow> False
     | Some r \<Rightarrow> list_ex (\<lambda>(c, subscribed). cw_id c = ch \<and> (subscribed \<or> ag_home r = Some ch \<or> cw_mandatory c)) (participants (dd_env db) a))"

definition effective_owner :: "delivery_env \<Rightarrow> string \<Rightarrow> string" where
  "effective_owner ev author = (case agent_of ev author of None \<Rightarrow> author | Some r \<Rightarrow> ag_owner r)"

text \<open>The predicate \<open>reach\<close>: same owner, a system account, or owners that peer with each other.\<close>

definition reach :: "delivery_env \<Rightarrow> string \<Rightarrow> string \<Rightarrow> bool" where
  "reach ev author a = (case agent_of ev a of None \<Rightarrow> False
     | Some r \<Rightarrow> ag_owner r = effective_owner ev author \<or> author \<in> set (ev_system ev)
         \<or> ((effective_owner ev author, ag_owner r) \<in> set (ev_peers ev) \<and> (ag_owner r, effective_owner ev author) \<in> set (ev_peers ev)))"

section \<open>Cursors\<close>

definition channel_head :: "string \<Rightarrow> delivery_db \<Rightarrow> nat" where
  "channel_head ch db = fold max (map mr_seq (filter (\<lambda>m. mr_channel m = ch) (dd_messages db))) 0"

definition seed_row :: "string \<Rightarrow> delivery_db \<Rightarrow> string \<Rightarrow> delivery_db" where
  "seed_row ch db a = (if agent_of (dd_env db) a = None \<or> gm_get (dd_cursors db) (a, ch) \<noteq> None then db
     else db\<lparr>dd_cursors := gm_put (a, ch) \<lparr>cu_acked = channel_head ch db, cu_above = []\<rparr> (dd_cursors db)\<rparr>)"

definition SeedDeliveryCursor :: "string \<Rightarrow> string \<Rightarrow> delivery_db \<Rightarrow> delivery_db" where
  "SeedDeliveryCursor a ch db = seed_row ch db a"

definition seedChannelDeliveryCursors :: "string \<Rightarrow> delivery_db \<Rightarrow> delivery_db" where
  "seedChannelDeliveryCursors ch db = fold (\<lambda>a db. seed_row ch db a) (map me_account (filter (\<lambda>m. me_channel m = ch) (ev_members (dd_env db)))) db"

definition ResolveAckMessage :: "string \<Rightarrow> string \<Rightarrow> delivery_db \<Rightarrow> nat option" where
  "ResolveAckMessage messageID ch db = map_option mr_seq (find (\<lambda>m. mr_id m = messageID \<and> mr_channel m = ch) (dd_messages db))"

definition MessageChannel :: "string \<Rightarrow> delivery_db \<Rightarrow> string option" where
  "MessageChannel messageID db = map_option mr_channel (find (\<lambda>m. mr_id m = messageID) (dd_messages db))"

definition SkippableSeqsAbove :: "string \<Rightarrow> nat \<Rightarrow> string \<Rightarrow> delivery_db \<Rightarrow> nat list" where
  "SkippableSeqsAbove ch acked a db = (if agent_of (dd_env db) a = None then []
     else map mr_seq (filter (\<lambda>m. mr_channel m = ch \<and> acked < mr_seq m \<and> (mr_author m = a \<or> \<not> reach (dd_env db) (mr_author m) a)) (dd_messages db)))"

text \<open>The loop of \<open>AckDelivery\<close>: the contiguous cursor moves across numbers that are acknowledged or skippable.\<close>

function advance :: "nat list \<Rightarrow> nat list \<Rightarrow> nat \<Rightarrow> nat" where
  "advance over skippable acked = (if acked + 1 \<in> set over \<union> set skippable then advance over skippable (acked + 1) else acked)"
  by pat_completeness auto
termination
proof (relation "measure (\<lambda>(over, skippable, acked). card {s \<in> set over \<union> set skippable. acked < s})")
  fix over skippable :: "nat list" and acked :: nat
  assume "acked + 1 \<in> set over \<union> set skippable"
  then have "{s \<in> set over \<union> set skippable. acked + 1 < s} \<subset> {s \<in> set over \<union> set skippable. acked < s}" by (auto simp: psubset_eq)
  then show "((over, skippable, acked + 1), over, skippable, acked) \<in> measure (\<lambda>(over, skippable, acked). card {s \<in> set over \<union> set skippable. acked < s})"
    by (auto intro: psubset_card_mono)
qed simp

declare advance.simps [simp del]

definition ClearOwedMention :: "string \<Rightarrow> string \<Rightarrow> delivery_db \<Rightarrow> delivery_db" where
  "ClearOwedMention a messageID db = db\<lparr>dd_owed := filter (\<lambda>(a', m, _). \<not> (a' = a \<and> m = messageID)) (dd_owed db)\<rparr>"

text \<open>\<open>fault\<close> is an error of the database anywhere in the transaction: it rolls back.\<close>

definition AckDelivery :: "bool \<Rightarrow> string \<Rightarrow> string \<Rightarrow> string \<Rightarrow> delivery_db \<Rightarrow> delivery_db \<times> bool" where
  "AckDelivery fault a ch messageID db =
    (if fault then (db, False)
     else case ResolveAckMessage messageID ch db of None \<Rightarrow> (db, True)
     | Some seq \<Rightarrow>
        (let db1 = ClearOwedMention a messageID db
         in case gm_get (dd_cursors db) (a, ch) of None \<Rightarrow> (db1, True)
            | Some cursor \<Rightarrow>
               if seq \<le> cu_acked cursor then (db1, True)
               else
                (let over = (if seq \<in> set (cu_above cursor) then cu_above cursor else cu_above cursor @ [seq]);
                     skippable = SkippableSeqsAbove ch (cu_acked cursor) a db;
                     acked = advance over skippable (cu_acked cursor)
                 in (db1\<lparr>dd_cursors := gm_put (a, ch) \<lparr>cu_acked = acked, cu_above = filter (\<lambda>s. acked < s) over\<rparr> (dd_cursors db1)\<rparr>, True))))"

section \<open>Owed mentions\<close>

definition RecordOwedMention :: "string \<Rightarrow> string \<Rightarrow> string \<Rightarrow> delivery_db \<Rightarrow> delivery_db" where
  "RecordOwedMention a ch messageID db =
    (if agent_of (dd_env db) a = None \<or> \<not> list_ex (\<lambda>m. mr_id m = messageID) (dd_messages db)
        \<or> list_ex (\<lambda>(a', m, _). a' = a \<and> m = messageID) (dd_owed db) then db
     else db\<lparr>dd_owed := dd_owed db @ [(a, messageID, ch)]\<rparr>)"

definition by_channel :: "message_row list \<Rightarrow> (string, message_row list) gomap" where
  "by_channel rows = fold (\<lambda>m out. gm_put (mr_channel m) (gm_getz [] out (mr_channel m) @ [m]) out) rows []"

definition channel_order :: "message_row list \<Rightarrow> message_row list" where
  "channel_order rows = sort_key mr_channel (sort_key mr_seq rows)"

definition OwedMentions :: "string \<Rightarrow> delivery_db \<Rightarrow> (string, message_row list) gomap" where
  "OwedMentions a db = by_channel (channel_order (filter (\<lambda>m. (\<exists>o' \<in> set (dd_owed db). fst o' = a \<and> fst (snd o') = mr_id m)
     \<and> reach (dd_env db) (mr_author m) a) (dd_messages db)))"

definition CountOwedMentions :: "delivery_db \<Rightarrow> nat" where
  "CountOwedMentions db = length (dd_owed db)"

definition OwedMentionAccounts :: "delivery_db \<Rightarrow> string list" where
  "OwedMentionAccounts db = sort (remdups (map fst (dd_owed db)))"

definition MarkMentionsRouted :: "string \<Rightarrow> delivery_db \<Rightarrow> delivery_db" where
  "MarkMentionsRouted messageID db = db\<lparr>dd_messages := map (\<lambda>m. if mr_id m = messageID then m\<lparr>mr_routed := True\<rparr> else m) (dd_messages db)\<rparr>"

definition UnroutedMentionMessages :: "nat \<Rightarrow> nat \<Rightarrow> delivery_db \<Rightarrow> message_row list" where
  "UnroutedMentionMessages afterSeq limit db = take limit (sort_key mr_seq (filter (\<lambda>m. \<not> mr_routed m \<and> afterSeq < mr_seq m) (dd_messages db)))"

section \<open>The sweep read\<close>

definition unacked :: "string \<Rightarrow> delivery_db \<Rightarrow> message_row \<Rightarrow> bool" where
  "unacked a db m = (case gm_get (dd_cursors db) (a, mr_channel m) of
     None \<Rightarrow> channel_head (mr_channel m) db < mr_seq m
   | Some cursor \<Rightarrow> cu_acked cursor < mr_seq m \<and> mr_seq m \<notin> set (cu_above cursor))"

definition UndeliveredMessages :: "string \<Rightarrow> delivery_db \<Rightarrow> (string, message_row list) gomap" where
  "UndeliveredMessages a db = by_channel (channel_order (filter (\<lambda>m. InSweepSet a (mr_channel m) db \<and> mr_author m \<noteq> a
     \<and> reach (dd_env db) (mr_author m) a \<and> unacked a db m) (dd_messages db)))"

section \<open>Runs\<close>

record delivery_state =
  dh_db :: delivery_db
  dh_seeds :: "string \<times> string \<rightharpoonup> nat"
  dh_acks :: "(string \<times> string \<times> nat) list"
  dh_skips :: "(string \<times> string \<times> nat) list"

datatype delivery_op = Post message_row | SetEnv delivery_env | Seed string string | SeedChannel string
  | Ack bool string string string | RecordOwed string string string | ClearOwed string string | MarkRouted string

definition new_seeds :: "delivery_db \<Rightarrow> delivery_db \<Rightarrow> (string \<times> string \<rightharpoonup> nat) \<Rightarrow> (string \<times> string \<rightharpoonup> nat)" where
  "new_seeds db db' seeds k = (if gm_get (dd_cursors db) k = None then map_option cu_acked (gm_get (dd_cursors db') k) else seeds k)"

definition cursor_at :: "delivery_db \<Rightarrow> string \<Rightarrow> string \<Rightarrow> nat" where
  "cursor_at db a ch = (case gm_get (dd_cursors db) (a, ch) of None \<Rightarrow> 0 | Some c \<Rightarrow> cu_acked c)"

fun delivery_exec :: "delivery_op \<Rightarrow> delivery_state \<Rightarrow> delivery_state" where
  "delivery_exec (Post m) st = st\<lparr>dh_db := (dh_db st)\<lparr>dd_messages := dd_messages (dh_db st) @ [m]\<rparr>\<rparr>"
| "delivery_exec (SetEnv ev) st = st\<lparr>dh_db := (dh_db st)\<lparr>dd_env := ev\<rparr>\<rparr>"
| "delivery_exec (Seed a ch) st = (let db' = SeedDeliveryCursor a ch (dh_db st)
     in st\<lparr>dh_db := db', dh_seeds := new_seeds (dh_db st) db' (dh_seeds st)\<rparr>)"
| "delivery_exec (SeedChannel ch) st = (let db' = seedChannelDeliveryCursors ch (dh_db st)
     in st\<lparr>dh_db := db', dh_seeds := new_seeds (dh_db st) db' (dh_seeds st)\<rparr>)"
| "delivery_exec (Ack fault a ch mid) st = (let db' = fst (AckDelivery fault a ch mid (dh_db st));
       skipped = filter (\<lambda>s. cursor_at (dh_db st) a ch < s \<and> s \<le> cursor_at db' a ch) (SkippableSeqsAbove ch (cursor_at (dh_db st) a ch) a (dh_db st))
     in st\<lparr>dh_db := db', dh_skips := dh_skips st @ map (\<lambda>s. (a, ch, s)) skipped,
       dh_acks := dh_acks st @ (if fault then [] else case ResolveAckMessage mid ch (dh_db st) of None \<Rightarrow> [] | Some s \<Rightarrow> [(a, ch, s)])\<rparr>)"
| "delivery_exec (RecordOwed a ch mid) st = st\<lparr>dh_db := RecordOwedMention a ch mid (dh_db st)\<rparr>"
| "delivery_exec (ClearOwed a mid) st = st\<lparr>dh_db := ClearOwedMention a mid (dh_db st)\<rparr>"
| "delivery_exec (MarkRouted mid) st = st\<lparr>dh_db := MarkMentionsRouted mid (dh_db st)\<rparr>"

text \<open>Message ids and sequence numbers are new; a number may be lower than one that committed before.\<close>

fun delivery_ok :: "delivery_op \<Rightarrow> delivery_state \<Rightarrow> bool" where
  "delivery_ok (Post m) st \<longleftrightarrow> 0 < mr_seq m \<and> \<not> mr_routed m \<and> mr_id m \<notin> mr_id ` set (dd_messages (dh_db st)) \<and> mr_seq m \<notin> mr_seq ` set (dd_messages (dh_db st))"
| "delivery_ok _ st \<longleftrightarrow> True"

definition NewDelivery :: "delivery_env \<Rightarrow> delivery_state" where
  "NewDelivery ev = \<lparr>dh_db = \<lparr>dd_env = ev, dd_messages = [], dd_cursors = [], dd_owed = []\<rparr>, dh_seeds = (\<lambda>_. None), dh_acks = [], dh_skips = []\<rparr>"

section \<open>The advance loop\<close>

lemma advance_ge: "acked \<le> advance over skippable acked"
  by (induction over skippable acked rule: advance.induct) (subst advance.simps, auto)

lemma advance_passed: "acked < s \<Longrightarrow> s \<le> advance over skippable acked \<Longrightarrow> s \<in> set over \<union> set skippable"
proof (induction over skippable acked rule: advance.induct)
  case (1 over skippable acked)
  then show ?case using advance.simps [of over skippable acked] by (cases "s = acked + 1") (auto split: if_splits)
qed

lemma advance_stops: "advance over skippable acked + 1 \<notin> set over \<union> set skippable"
proof (induction over skippable acked rule: advance.induct)
  case (1 over skippable acked)
  then show ?case using advance.simps [of over skippable acked] by (auto split: if_splits)
qed

section \<open>The invariant\<close>

definition cursor_ok :: "delivery_state \<Rightarrow> string \<Rightarrow> string \<Rightarrow> cursor_row \<Rightarrow> bool" where
  "cursor_ok st a ch c \<longleftrightarrow> (\<exists>s0. dh_seeds st (a, ch) = Some s0 \<and> s0 \<le> cu_acked c
    \<and> (\<forall>s. s0 < s \<and> s \<le> cu_acked c \<longrightarrow> (a, ch, s) \<in> set (dh_acks st) \<union> set (dh_skips st)))
    \<and> (\<forall>s. s \<in> set (cu_above c) \<longleftrightarrow> cu_acked c < s \<and> (a, ch, s) \<in> set (dh_acks st))
    \<and> (\<forall>s. (a, ch, s) \<in> set (dh_skips st) \<longrightarrow> s \<le> cu_acked c)"

definition delivery_inv :: "delivery_state \<Rightarrow> bool" where
  "delivery_inv st \<longleftrightarrow> distinct (map mr_id (dd_messages (dh_db st))) \<and> distinct (map mr_seq (dd_messages (dh_db st)))
    \<and> (\<forall>a ch c. gm_get (dd_cursors (dh_db st)) (a, ch) = Some c \<longrightarrow> cursor_ok st a ch c)
    \<and> (\<forall>a ch. gm_get (dd_cursors (dh_db st)) (a, ch) = None \<longrightarrow> dh_seeds st (a, ch) = None \<and> (\<forall>s. (a, ch, s) \<notin> set (dh_skips st)))
    \<and> (\<forall>a ch s. (a, ch, s) \<in> set (dh_acks st) \<union> set (dh_skips st) \<longrightarrow> (\<exists>m \<in> set (dd_messages (dh_db st)). mr_channel m = ch \<and> mr_seq m = s))"

lemma find_SomeD: "find P xs = Some x \<Longrightarrow> x \<in> set xs \<and> P x"
  by (auto simp: find_Some_iff)

lemma same_id: "distinct (map mr_id ms) \<Longrightarrow> m \<in> set ms \<Longrightarrow> m' \<in> set ms \<Longrightarrow> mr_id m = mr_id m' \<Longrightarrow> m = m'"
  by (meson distinct_map inj_onD)

lemma same_seq: "distinct (map mr_seq ms) \<Longrightarrow> m \<in> set ms \<Longrightarrow> m' \<in> set ms \<Longrightarrow> mr_seq m = mr_seq m' \<Longrightarrow> m = m'"
  by (meson distinct_map inj_onD)

lemma resolve_message:
  assumes "distinct (map mr_id (dd_messages db))" and "m \<in> set (dd_messages db)"
  shows "ResolveAckMessage (mr_id m) ch db = (if mr_channel m = ch then Some (mr_seq m) else None)"
proof (cases "find (\<lambda>m'. mr_id m' = mr_id m \<and> mr_channel m' = ch) (dd_messages db)")
  case None
  then show ?thesis using assms(2) by (auto simp: ResolveAckMessage_def find_None_iff)
next
  case (Some m')
  then have "m' = m" using find_SomeD [OF Some] same_id [OF assms(1), of m' m] assms(2) by blast
  then show ?thesis using Some find_SomeD [OF Some] by (simp add: ResolveAckMessage_def)
qed

lemma resolve_found: "ResolveAckMessage mid ch db = Some s \<Longrightarrow> \<exists>m \<in> set (dd_messages db). mr_id m = mid \<and> mr_channel m = ch \<and> mr_seq m = s"
  by (auto simp: ResolveAckMessage_def dest: find_SomeD)

lemma recorded_message: "delivery_inv st \<Longrightarrow> (a, ch, s) \<in> set (dh_acks st) \<union> set (dh_skips st)
    \<Longrightarrow> \<exists>m \<in> set (dd_messages (dh_db st)). mr_channel m = ch \<and> mr_seq m = s"
  unfolding delivery_inv_def by blast

lemma head_fold: "fold max xs (n::nat) = Max (insert n (set xs))"
  by (metis List.finite_set Max.set_eq_fold list.set(2))

lemma head_ge: "m \<in> set (dd_messages db) \<Longrightarrow> mr_seq m \<le> channel_head (mr_channel m) db"
  by (auto simp: channel_head_def head_fold)

lemma delivery_inv_new: "delivery_inv (NewDelivery ev)"
  by (simp add: delivery_inv_def NewDelivery_def)

text \<open>Operations that leave the cursors and the histories alone.\<close>

lemma delivery_inv_frame:
  assumes inv: "delivery_inv st" and "dd_cursors (dh_db st') = dd_cursors (dh_db st)"
    and "dh_seeds st' = dh_seeds st" "dh_acks st' = dh_acks st" "dh_skips st' = dh_skips st"
    and "distinct (map mr_id (dd_messages (dh_db st')))" "distinct (map mr_seq (dd_messages (dh_db st')))"
    and keep: "\<And>m. m \<in> set (dd_messages (dh_db st)) \<Longrightarrow> \<exists>m' \<in> set (dd_messages (dh_db st')). mr_channel m' = mr_channel m \<and> mr_seq m' = mr_seq m"
  shows "delivery_inv st'"
proof -
  have "\<exists>m \<in> set (dd_messages (dh_db st')). mr_channel m = ch \<and> mr_seq m = s"
    if h: "(a, ch, s) \<in> set (dh_acks st) \<union> set (dh_skips st)" for a ch s
  proof -
    obtain m where "m \<in> set (dd_messages (dh_db st))" "mr_channel m = ch" "mr_seq m = s" using recorded_message [OF inv h] by blast
    then show ?thesis using keep [of m] by simp
  qed
  then show ?thesis using inv assms(6,7) by (simp add: delivery_inv_def cursor_ok_def assms(2-5))
qed

text \<open>A seed starts at the head, above every acknowledgement made without a cursor.\<close>

lemma delivery_inv_seeded:
  assumes inv: "delivery_inv st" and db: "db' = (dh_db st)\<lparr>dd_cursors := m\<rparr>"
    and old: "\<And>k c. gm_get (dd_cursors (dh_db st)) k = Some c \<Longrightarrow> gm_get m k = Some c"
    and new: "\<And>a ch c. gm_get (dd_cursors (dh_db st)) (a, ch) = None \<Longrightarrow> gm_get m (a, ch) = Some c \<Longrightarrow> c = \<lparr>cu_acked = channel_head ch (dh_db st), cu_above = []\<rparr>"
  shows "delivery_inv (st\<lparr>dh_db := db', dh_seeds := new_seeds (dh_db st) db' (dh_seeds st)\<rparr>)" (is "delivery_inv ?st")
proof -
  have "cursor_ok ?st a ch c" if k: "gm_get m (a, ch) = Some c" for a ch c
  proof (cases "gm_get (dd_cursors (dh_db st)) (a, ch)")
    case None
    note c = new [OF None k]
    have "s \<le> channel_head ch (dh_db st)" if h: "(a, ch, s) \<in> set (dh_acks st)" for s
    proof -
      obtain msg where "msg \<in> set (dd_messages (dh_db st))" "mr_channel msg = ch" "mr_seq msg = s" using recorded_message [OF inv, of a ch s] h by blast
      then show ?thesis using head_ge [of msg "dh_db st"] by simp
    qed
    moreover have "\<forall>s. (a, ch, s) \<notin> set (dh_skips st)" using inv None by (simp add: delivery_inv_def)
    ultimately show ?thesis using c None k by (auto simp: cursor_ok_def new_seeds_def db not_less)
  next
    case (Some c')
    then have "cursor_ok st a ch c" using inv old [OF Some] k by (simp add: delivery_inv_def)
    then show ?thesis using Some by (auto simp: cursor_ok_def new_seeds_def)
  qed
  moreover have "gm_get (dd_cursors (dh_db st)) (a, ch) = None" if "gm_get m (a, ch) = None" for a ch
    using old [of "(a, ch)"] that by (cases "gm_get (dd_cursors (dh_db st)) (a, ch)") auto
  ultimately show ?thesis using inv by (simp add: delivery_inv_def db new_seeds_def)
qed

lemma channel_head_cursors: "channel_head ch (db\<lparr>dd_cursors := m\<rparr>) = channel_head ch db"
  by (simp add: channel_head_def)

lemma seed_row_get: "gm_get (dd_cursors (seed_row ch db a)) k = (if k = (a, ch) \<and> agent_of (dd_env db) a \<noteq> None \<and> gm_get (dd_cursors db) k = None
    then Some \<lparr>cu_acked = channel_head ch db, cu_above = []\<rparr> else gm_get (dd_cursors db) k)"
  by (auto simp: seed_row_def)

lemma seed_row_rest: "\<exists>m. seed_row ch db a = db\<lparr>dd_cursors := m\<rparr>"
  by (simp add: seed_row_def) (metis delivery_db.surjective delivery_db.update_convs(3))

lemma seed_rows:
  "\<exists>m. fold (\<lambda>a db. seed_row ch db a) as db = db\<lparr>dd_cursors := m\<rparr>
    \<and> (\<forall>k c. gm_get (dd_cursors db) k = Some c \<longrightarrow> gm_get m k = Some c)
    \<and> (\<forall>k c. gm_get (dd_cursors db) k = None \<longrightarrow> gm_get m k = Some c \<longrightarrow> snd k = ch \<and> c = \<lparr>cu_acked = channel_head ch db, cu_above = []\<rparr>)"
proof (induction as rule: rev_induct)
  case Nil
  show ?case by (rule exI [of _ "dd_cursors db"]) simp
next
  case (snoc a as)
  then obtain m where m: "fold (\<lambda>a db. seed_row ch db a) as db = db\<lparr>dd_cursors := m\<rparr>"
    "\<forall>k c. gm_get (dd_cursors db) k = Some c \<longrightarrow> gm_get m k = Some c"
    "\<forall>k c. gm_get (dd_cursors db) k = None \<longrightarrow> gm_get m k = Some c \<longrightarrow> snd k = ch \<and> c = \<lparr>cu_acked = channel_head ch db, cu_above = []\<rparr>" by blast
  obtain m' where m': "seed_row ch (db\<lparr>dd_cursors := m\<rparr>) a = db\<lparr>dd_cursors := m'\<rparr>" using seed_row_rest [of ch "db\<lparr>dd_cursors := m\<rparr>" a] by auto
  have g: "gm_get m' k = (if k = (a, ch) \<and> agent_of (dd_env db) a \<noteq> None \<and> gm_get m k = None
      then Some \<lparr>cu_acked = channel_head ch db, cu_above = []\<rparr> else gm_get m k)" for k
    using seed_row_get [of ch "db\<lparr>dd_cursors := m\<rparr>" a k] channel_head_cursors [of ch m db] by (auto simp: m')
  show ?case
  proof (intro exI conjI allI impI)
    show "fold (\<lambda>a db. seed_row ch db a) (as @ [a]) db = db\<lparr>dd_cursors := m'\<rparr>" using m(1) m' by simp
  next
    fix k c
    assume "gm_get (dd_cursors db) k = Some c"
    then have "gm_get m k = Some c" using m(2) by blast
    then show "gm_get m' k = Some c" by (simp add: g)
  next
    fix k c
    assume k: "gm_get (dd_cursors db) k = None" "gm_get m' k = Some c"
    then have "k = (a, ch) \<and> c = \<lparr>cu_acked = channel_head ch db, cu_above = []\<rparr> \<or> gm_get m k = Some c" using g [of k] by (auto split: if_splits)
    then show "snd k = ch" and "c = \<lparr>cu_acked = channel_head ch db, cu_above = []\<rparr>" using m(3) k(1) by (cases k; auto)+
  qed
qed

lemma delivery_inv_seed_rows:
  assumes inv: "delivery_inv st" and db': "db' = fold (\<lambda>a db. seed_row ch db a) as (dh_db st)"
  shows "delivery_inv (st\<lparr>dh_db := db', dh_seeds := new_seeds (dh_db st) db' (dh_seeds st)\<rparr>)"
proof -
  obtain m where m: "db' = (dh_db st)\<lparr>dd_cursors := m\<rparr>"
    "\<forall>k c. gm_get (dd_cursors (dh_db st)) k = Some c \<longrightarrow> gm_get m k = Some c"
    "\<forall>k c. gm_get (dd_cursors (dh_db st)) k = None \<longrightarrow> gm_get m k = Some c \<longrightarrow> snd k = ch \<and> c = \<lparr>cu_acked = channel_head ch (dh_db st), cu_above = []\<rparr>"
    using seed_rows [of ch as "dh_db st"] unfolding db' by blast
  show ?thesis
  proof (rule delivery_inv_seeded [OF inv m(1)])
    show "gm_get m k = Some c" if "gm_get (dd_cursors (dh_db st)) k = Some c" for k c using m(2) that by blast
    show "c = \<lparr>cu_acked = channel_head ch' (dh_db st), cu_above = []\<rparr>"
      if "gm_get (dd_cursors (dh_db st)) (a, ch') = None" "gm_get m (a, ch') = Some c" for a ch' c using m(3) [rule_format, OF that] by simp
  qed
qed

lemma delivery_inv_seed: "delivery_inv st \<Longrightarrow> delivery_inv (delivery_exec (Seed a ch) st)"
  using delivery_inv_seed_rows [of st _ ch "[a]"] by (simp add: SeedDeliveryCursor_def Let_def)

lemma delivery_inv_seedChannel: "delivery_inv st \<Longrightarrow> delivery_inv (delivery_exec (SeedChannel ch) st)"
  using delivery_inv_seed_rows [OF _ refl, of st ch] by (simp add: seedChannelDeliveryCursors_def Let_def)

text \<open>What an acknowledgement that moves a cursor does.\<close>

lemma ack_cases:
  obtains (ignored) "fault \<or> ResolveAckMessage mid ch (dh_db st) = None" "fst (AckDelivery fault a ch mid (dh_db st)) = dh_db st"
  | (uncounted) s where "\<not> fault" "ResolveAckMessage mid ch (dh_db st) = Some s" "fst (AckDelivery fault a ch mid (dh_db st)) = ClearOwedMention a mid (dh_db st)"
      "case gm_get (dd_cursors (dh_db st)) (a, ch) of None \<Rightarrow> True | Some c \<Rightarrow> s \<le> cu_acked c"
  | (counted) s c over acked where "\<not> fault" "ResolveAckMessage mid ch (dh_db st) = Some s" "gm_get (dd_cursors (dh_db st)) (a, ch) = Some c" "cu_acked c < s"
      "set over = insert s (set (cu_above c))" "acked = advance over (SkippableSeqsAbove ch (cu_acked c) a (dh_db st)) (cu_acked c)"
      "fst (AckDelivery fault a ch mid (dh_db st)) = (ClearOwedMention a mid (dh_db st))
         \<lparr>dd_cursors := gm_put (a, ch) \<lparr>cu_acked = acked, cu_above = filter (\<lambda>s. acked < s) over\<rparr> (dd_cursors (dh_db st))\<rparr>"
proof (cases "fault \<or> ResolveAckMessage mid ch (dh_db st) = None")
  case True
  then show ?thesis by (intro ignored) (auto simp: AckDelivery_def)
next
  case False
  then obtain s where s: "\<not> fault" "ResolveAckMessage mid ch (dh_db st) = Some s" by auto
  show ?thesis
  proof (cases "case gm_get (dd_cursors (dh_db st)) (a, ch) of None \<Rightarrow> True | Some c \<Rightarrow> s \<le> cu_acked c")
    case True
    then show ?thesis using s by (intro uncounted [OF s]) (auto simp: AckDelivery_def Let_def split: option.splits)
  next
    case no: False
    then obtain c where c: "gm_get (dd_cursors (dh_db st)) (a, ch) = Some c" "cu_acked c < s" by (auto split: option.splits)
    let ?over = "if s \<in> set (cu_above c) then cu_above c else cu_above c @ [s]"
    show ?thesis by (rule counted [OF s c, of ?over]) (use s c in \<open>auto simp: AckDelivery_def ClearOwedMention_def Let_def\<close>)
  qed
qed

lemma skippable_seq: "s \<in> set (SkippableSeqsAbove ch n a db) \<Longrightarrow> n < s \<and> (\<exists>m \<in> set (dd_messages db). mr_channel m = ch \<and> mr_seq m = s
    \<and> (mr_author m = a \<or> \<not> reach (dd_env db) (mr_author m) a))"
  by (auto simp: SkippableSeqsAbove_def split: if_splits)

lemma delivery_inv_clear: "delivery_inv (st\<lparr>dh_db := ClearOwedMention a mid (dh_db st)\<rparr>) = delivery_inv st"
  by (simp add: delivery_inv_def cursor_ok_def ClearOwedMention_def)

lemma delivery_inv_acked:
  assumes inv: "delivery_inv st" and m: "m \<in> set (dd_messages (dh_db st))" "mr_channel m = ch" "mr_seq m = s"
    and low: "\<And>c. gm_get (dd_cursors (dh_db st)) (a, ch) = Some c \<Longrightarrow> s \<le> cu_acked c"
  shows "delivery_inv (st\<lparr>dh_acks := dh_acks st @ [(a, ch, s)]\<rparr>)"
proof -
  have "cursor_ok (st\<lparr>dh_acks := dh_acks st @ [(a, ch, s)]\<rparr>) a' ch' c" if "gm_get (dd_cursors (dh_db st)) (a', ch') = Some c" for a' ch' c
  proof -
    have "cursor_ok st a' ch' c" using inv that by (simp add: delivery_inv_def)
    moreover have "\<not> cu_acked c < s" if "a' = a" "ch' = ch" using low that \<open>gm_get (dd_cursors (dh_db st)) (a', ch') = Some c\<close> by (simp add: not_less)
    ultimately show ?thesis by (auto simp: cursor_ok_def)
  qed
  then show ?thesis using inv m by (auto simp: delivery_inv_def)
qed

lemma delivery_inv_counted:
  assumes inv: "delivery_inv st" and c: "gm_get (dd_cursors (dh_db st)) (a, ch) = Some c" and s: "cu_acked c < s"
    and m: "m \<in> set (dd_messages (dh_db st))" "mr_channel m = ch" "mr_seq m = s"
    and over: "set over = insert s (set (cu_above c))" and skip: "skip = SkippableSeqsAbove ch (cu_acked c) a (dh_db st)"
    and acked: "acked = advance over skip (cu_acked c)"
  shows "delivery_inv (st\<lparr>dh_db := (dh_db st)\<lparr>dd_cursors := gm_put (a, ch) \<lparr>cu_acked = acked, cu_above = filter (\<lambda>s. acked < s) over\<rparr> (dd_cursors (dh_db st))\<rparr>,
      dh_skips := dh_skips st @ map (\<lambda>s. (a, ch, s)) (filter (\<lambda>s. cu_acked c < s \<and> s \<le> acked) skip), dh_acks := dh_acks st @ [(a, ch, s)]\<rparr>)"
    (is "delivery_inv ?st")
proof -
  let ?c = "\<lparr>cu_acked = acked, cu_above = filter (\<lambda>s. acked < s) over\<rparr>"
  have ok: "cursor_ok st a ch c" using inv c by (simp add: delivery_inv_def)
  have ge: "cu_acked c \<le> acked" unfolding acked by (rule advance_ge)
  have pass: "x \<in> insert s (set (cu_above c)) \<union> set skip" if "cu_acked c < x" "x \<le> acked" for x
    using advance_passed [OF that(1), of over skip] that(2) over unfolding acked by simp
  have above: "x \<in> set (cu_above c) \<longleftrightarrow> cu_acked c < x \<and> (a, ch, x) \<in> set (dh_acks st)" for x using ok by (simp add: cursor_ok_def)
  obtain s0 where s0: "dh_seeds st (a, ch) = Some s0" "s0 \<le> cu_acked c"
    "\<And>x. s0 < x \<and> x \<le> cu_acked c \<Longrightarrow> (a, ch, x) \<in> set (dh_acks st) \<union> set (dh_skips st)" using ok unfolding cursor_ok_def by blast
  have "cursor_ok ?st a ch ?c"
    unfolding cursor_ok_def
  proof (intro conjI exI [of _ s0] allI impI)
    fix x
    assume x: "s0 < x \<and> x \<le> cu_acked ?c"
    show "(a, ch, x) \<in> set (dh_acks ?st) \<union> set (dh_skips ?st)"
    proof (cases "x \<le> cu_acked c")
      case True
      with s0(3) [of x] x show ?thesis by auto
    next
      case False
      with pass [of x] x have "x = s \<or> x \<in> set (cu_above c) \<or> x \<in> set skip" by simp
      with above [of x] False x show ?thesis by auto
    qed
  next
    fix x
    show "x \<in> set (cu_above ?c) \<longleftrightarrow> cu_acked ?c < x \<and> (a, ch, x) \<in> set (dh_acks ?st)" using ge s
      by (cases "x = s") (auto simp: over above)
  next
    fix x
    assume "(a, ch, x) \<in> set (dh_skips ?st)"
    then show "x \<le> cu_acked ?c" using ok ge unfolding cursor_ok_def by fastforce
  qed (use s0 ge in auto)
  moreover have "cursor_ok ?st a' ch' c'" if "gm_get (dd_cursors (dh_db st)) (a', ch') = Some c'" "(a', ch') \<noteq> (a, ch)" for a' ch' c'
  proof -
    have "cursor_ok st a' ch' c'" using inv that(1) by (simp add: delivery_inv_def)
    then show ?thesis using that(2) by (auto simp: cursor_ok_def)
  qed
  moreover have "\<exists>m \<in> set (dd_messages (dh_db st)). mr_channel m = ch \<and> mr_seq m = x" if "x \<in> set skip" for x
    using skippable_seq [of x ch "cu_acked c" a "dh_db st"] that unfolding skip by blast
  ultimately show ?thesis using inv m c by (auto simp: delivery_inv_def)
qed

lemma cursor_at_clear: "cursor_at (ClearOwedMention a' mid db) a ch = cursor_at db a ch"
  by (simp add: cursor_at_def ClearOwedMention_def)

lemma no_skips: "filter (\<lambda>s. n < s \<and> s \<le> (n::nat)) xs = []"
  by (auto simp: filter_empty_conv)

lemma delivery_inv_ack: "delivery_inv st \<Longrightarrow> delivery_inv (delivery_exec (Ack fault a ch mid) st)"
proof -
  assume inv: "delivery_inv st"
  show ?thesis
  proof (cases rule: ack_cases [of fault mid ch st a])
    case ignored
    then show ?thesis using inv by (auto simp: Let_def no_skips)
  next
    case (uncounted s)
    obtain m where m: "m \<in> set (dd_messages (dh_db st))" "mr_channel m = ch" "mr_seq m = s" using resolve_found [OF uncounted(2)] by blast
    have "delivery_inv (st\<lparr>dh_acks := dh_acks st @ [(a, ch, s)]\<rparr>)" by (rule delivery_inv_acked [OF inv m]) (use uncounted(4) in simp)
    then have "delivery_inv (st\<lparr>dh_db := ClearOwedMention a mid (dh_db st), dh_acks := dh_acks st @ [(a, ch, s)]\<rparr>)"
      by (simp add: delivery_inv_def cursor_ok_def ClearOwedMention_def)
    then show ?thesis using uncounted(1-3) by (simp add: Let_def cursor_at_clear no_skips)
  next
    case (counted s c over acked)
    obtain m where m: "m \<in> set (dd_messages (dh_db st))" "mr_channel m = ch" "mr_seq m = s" using resolve_found [OF counted(2)] by blast
    have "cursor_at (dh_db st) a ch = cu_acked c" using counted(3) by (simp add: cursor_at_def)
    moreover have "cursor_at (fst (AckDelivery fault a ch mid (dh_db st))) a ch = acked" by (simp add: counted(7) cursor_at_def)
    moreover have "delivery_inv (st\<lparr>dh_db := fst (AckDelivery fault a ch mid (dh_db st)),
        dh_skips := dh_skips st @ map (\<lambda>s. (a, ch, s)) (filter (\<lambda>s. cu_acked c < s \<and> s \<le> acked) (SkippableSeqsAbove ch (cu_acked c) a (dh_db st))),
        dh_acks := dh_acks st @ [(a, ch, s)]\<rparr>)"
      using delivery_inv_counted [OF inv counted(3,4) m counted(5) refl counted(6)]
      by (simp add: counted(7) delivery_inv_def cursor_ok_def ClearOwedMention_def)
    ultimately show ?thesis using counted(1,2) by (simp add: Let_def)
  qed
qed

lemma delivery_inv_distinct: "delivery_inv st \<Longrightarrow> distinct (map mr_id (dd_messages (dh_db st))) \<and> distinct (map mr_seq (dd_messages (dh_db st)))"
  by (simp add: delivery_inv_def)

lemma delivery_inv_exec: "delivery_inv st \<Longrightarrow> delivery_ok op st \<Longrightarrow> delivery_inv (delivery_exec op st)"
proof (cases op)
  case (Post m)
  assume inv: "delivery_inv st" and "delivery_ok op st"
  then have d: "distinct (map mr_id (dd_messages (dh_db st) @ [m]))" "distinct (map mr_seq (dd_messages (dh_db st) @ [m]))"
    using Post delivery_inv_distinct [OF inv] by auto
  show ?thesis by (rule delivery_inv_frame [OF inv]) (use d Post in auto)
next
  case (MarkRouted mid)
  assume inv: "delivery_inv st"
  let ?f = "\<lambda>m. if mr_id m = mid then m\<lparr>mr_routed := True\<rparr> else m"
  have f: "map mr_id (map ?f ms) = map mr_id ms" "map mr_seq (map ?f ms) = map mr_seq ms" for ms by (induction ms) auto
  show ?thesis
  proof (rule delivery_inv_frame [OF inv])
    show "\<exists>m' \<in> set (dd_messages (dh_db (delivery_exec op st))). mr_channel m' = mr_channel m \<and> mr_seq m' = mr_seq m"
      if "m \<in> set (dd_messages (dh_db st))" for m
      by (rule bexI [of _ "?f m"]) (use MarkRouted that in \<open>auto simp: MarkMentionsRouted_def\<close>)
  qed (use MarkRouted delivery_inv_distinct [OF inv] in \<open>simp_all add: MarkMentionsRouted_def f del: map_map\<close>)
next
  case (RecordOwed a ch mid)
  assume inv: "delivery_inv st"
  show ?thesis by (rule delivery_inv_frame [OF inv]) (use RecordOwed delivery_inv_distinct [OF inv] in \<open>auto simp: RecordOwedMention_def\<close>)
next
  case (SetEnv ev)
  assume inv: "delivery_inv st"
  show ?thesis by (rule delivery_inv_frame [OF inv]) (use SetEnv delivery_inv_distinct [OF inv] in auto)
qed (simp_all add: delivery_inv_seed delivery_inv_seedChannel delivery_inv_ack delivery_inv_clear del: delivery_exec.simps(3,4,5))

interpretation delivery: op_system delivery_ok delivery_exec delivery_inv
  by unfold_locales (rule delivery_inv_exec)

section \<open>Reads\<close>

lemma by_channel_get: "gm_getz [] (by_channel rows) ch = filter (\<lambda>m. mr_channel m = ch) rows"
proof -
  have "gm_getz [] (fold (\<lambda>m out. gm_put (mr_channel m) (gm_getz [] out (mr_channel m) @ [m]) out) rows out) ch
      = gm_getz [] out ch @ filter (\<lambda>m. mr_channel m = ch) rows" for out
    by (induction rows arbitrary: out) (auto simp: gm_getz_def)
  then show ?thesis by (simp add: by_channel_def gm_getz_def)
qed

lemma channel_order_filter: "filter (\<lambda>m. mr_channel m = ch) (channel_order rows) = sort_key mr_seq (filter (\<lambda>m. mr_channel m = ch) rows)"
  by (simp add: channel_order_def sort_key_stable filter_sort)

lemma unacked_exact:
  assumes inv: "delivery_inv st" and m: "m \<in> set (dd_messages (dh_db st))"
  shows "unacked a (dh_db st) m \<longleftrightarrow> (\<exists>s0. dh_seeds st (a, mr_channel m) = Some s0 \<and> s0 < mr_seq m
    \<and> (a, mr_channel m, mr_seq m) \<notin> set (dh_acks st) \<union> set (dh_skips st))"
proof (cases "gm_get (dd_cursors (dh_db st)) (a, mr_channel m)")
  case None
  then have "dh_seeds st (a, mr_channel m) = None" using inv by (simp add: delivery_inv_def)
  then show ?thesis using None head_ge [OF m] by (simp add: unacked_def)
next
  case (Some c)
  then have "cursor_ok st a (mr_channel m) c" using inv by (simp add: delivery_inv_def)
  then obtain s0 where "dh_seeds st (a, mr_channel m) = Some s0" "s0 \<le> cu_acked c"
    "\<And>s. s0 < s \<Longrightarrow> s \<le> cu_acked c \<Longrightarrow> (a, mr_channel m, s) \<in> set (dh_acks st) \<union> set (dh_skips st)"
    "\<And>s. s \<in> set (cu_above c) \<longleftrightarrow> cu_acked c < s \<and> (a, mr_channel m, s) \<in> set (dh_acks st)"
    "\<And>s. (a, mr_channel m, s) \<in> set (dh_skips st) \<Longrightarrow> s \<le> cu_acked c" unfolding cursor_ok_def by blast
  then show ?thesis using Some by (auto simp: unacked_def not_le dest: le_less_trans) (metis UnE not_less)+
qed

abbreviation delivery_run :: "delivery_state \<Rightarrow> delivery_state \<Rightarrow> bool" where
  "delivery_run \<equiv> reaches delivery_ok delivery_exec"

definition swept :: "string \<Rightarrow> string \<Rightarrow> delivery_state \<Rightarrow> message_row list" where
  "swept a ch st = gm_getz [] (UndeliveredMessages a (dh_db st)) ch"

lemma swept_eq: "swept a ch st = sort_key mr_seq (filter (\<lambda>m. mr_channel m = ch \<and> InSweepSet a ch (dh_db st) \<and> mr_author m \<noteq> a
    \<and> reach (dd_env (dh_db st)) (mr_author m) a \<and> unacked a (dh_db st) m) (dd_messages (dh_db st)))"
  by (simp add: swept_def UndeliveredMessages_def by_channel_get channel_order_filter) (metis (mono_tags, lifting) filter_cong)

lemma history_grows:
  assumes "delivery_run st st'"
  shows "set (dh_acks st) \<subseteq> set (dh_acks st')"
  using assms
proof (induction rule: reaches.induct)
  case (reaches_step t op)
  then show ?case by (cases op) (auto simp: Let_def)
qed simp

text \<open>Messages stay; only their routed mark changes.\<close>

lemma message_kept: "m \<in> set (dd_messages (dh_db st)) \<Longrightarrow> \<exists>m' \<in> set (dd_messages (dh_db (delivery_exec op st))).
    mr_id m' = mr_id m \<and> mr_channel m' = mr_channel m \<and> mr_seq m' = mr_seq m \<and> mr_author m' = mr_author m"
proof (cases op)
  case (MarkRouted mid)
  assume "m \<in> set (dd_messages (dh_db st))"
  then show ?thesis using MarkRouted by (intro bexI [of _ "if mr_id m = mid then m\<lparr>mr_routed := True\<rparr> else m"]) (auto simp: MarkMentionsRouted_def)
next
  case (SeedChannel ch)
  assume "m \<in> set (dd_messages (dh_db st))"
  moreover have "dd_messages (fold (\<lambda>a db. seed_row ch db a) as db) = dd_messages db" for as db
    using seed_rows [of ch as db] by auto
  ultimately show ?thesis using SeedChannel by (auto simp: seedChannelDeliveryCursors_def Let_def)
next
  case (Ack fault a ch mid)
  assume "m \<in> set (dd_messages (dh_db st))"
  then show ?thesis using Ack by (auto simp: AckDelivery_def ClearOwedMention_def Let_def split: option.split)
next
  case (Seed a ch)
  assume "m \<in> set (dd_messages (dh_db st))"
  then show ?thesis using Seed by (auto simp: SeedDeliveryCursor_def seed_row_def Let_def)
qed (auto simp: RecordOwedMention_def ClearOwedMention_def)

text \<open>Operations that neither acknowledge a message for an agent nor change who may reach whom.\<close>

fun quiet :: "string \<Rightarrow> string \<Rightarrow> delivery_op \<Rightarrow> bool" where
  "quiet a mid (Ack fault a' ch mid') \<longleftrightarrow> \<not> (a' = a \<and> mid' = mid)"
| "quiet a mid (SetEnv ev) \<longleftrightarrow> False"
| "quiet a mid op \<longleftrightarrow> True"

lemma seeded_cursor: "delivery_inv st \<Longrightarrow> dh_seeds st (a, ch) = Some s0 \<Longrightarrow> gm_get (dd_cursors (dh_db st)) (a, ch) \<noteq> None"
  unfolding delivery_inv_def by fastforce

lemma quiet_step:
  assumes inv: "delivery_inv st" and "quiet a (mr_id m) op" and m: "m \<in> set (dd_messages (dh_db st))"
    and w: "mr_author m \<noteq> a" "reach (dd_env (dh_db st)) (mr_author m) a"
    and new: "(a, mr_channel m, mr_seq m) \<notin> set (dh_acks st) \<union> set (dh_skips st)" and s0: "dh_seeds st (a, mr_channel m) = Some s0"
  shows "(a, mr_channel m, mr_seq m) \<notin> set (dh_acks (delivery_exec op st)) \<union> set (dh_skips (delivery_exec op st))
    \<and> dd_env (dh_db (delivery_exec op st)) = dd_env (dh_db st) \<and> dh_seeds (delivery_exec op st) (a, mr_channel m) = Some s0"
proof (cases op)
  case (Ack fault a' ch mid)
  have one: "m' = m" if "m' \<in> set (dd_messages (dh_db st))" "mr_seq m' = mr_seq m" for m'
    using same_seq [OF _ that(1) m that(2)] delivery_inv_distinct [OF inv] by blast
  have "ResolveAckMessage mid ch (dh_db st) \<noteq> Some (mr_seq m)" if "a' = a" "ch = mr_channel m"
    using resolve_found [of mid ch "dh_db st" "mr_seq m"] one assms(2) Ack that by auto
  moreover have "mr_seq m \<notin> set (SkippableSeqsAbove ch n a (dh_db st))" for n
    using skippable_seq [of "mr_seq m" ch n a "dh_db st"] one w by blast
  moreover have "dd_env (fst (AckDelivery fault a' ch mid (dh_db st))) = dd_env (dh_db st)"
    by (auto simp: AckDelivery_def ClearOwedMention_def Let_def split: option.split)
  ultimately show ?thesis using Ack new s0 by (auto simp: Let_def split: option.splits)
next
  case (SeedChannel ch)
  have "dd_env (fold (\<lambda>a db. seed_row ch db a) as db) = dd_env db" for as db using seed_rows [of ch as db] by auto
  then show ?thesis using SeedChannel new s0 seeded_cursor [OF inv s0] by (auto simp: seedChannelDeliveryCursors_def Let_def new_seeds_def)
next
  case (Seed a' ch)
  then show ?thesis using new s0 seeded_cursor [OF inv s0] by (auto simp: SeedDeliveryCursor_def seed_row_def Let_def new_seeds_def)
qed (use assms in \<open>auto simp: RecordOwedMention_def ClearOwedMention_def MarkMentionsRouted_def\<close>)

lemma quiet_run:
  assumes "delivery_inv st" and "admitted delivery_ok delivery_exec ops st" and "list_all (quiet a (mr_id m)) ops"
    and "m \<in> set (dd_messages (dh_db st))" and "mr_author m \<noteq> a" and "reach (dd_env (dh_db st)) (mr_author m) a"
    and "(a, mr_channel m, mr_seq m) \<notin> set (dh_acks st) \<union> set (dh_skips st)" and "dh_seeds st (a, mr_channel m) = Some s0"
  shows "\<exists>m' \<in> set (dd_messages (dh_db (fold delivery_exec ops st))). mr_id m' = mr_id m \<and> mr_channel m' = mr_channel m \<and> mr_seq m' = mr_seq m
    \<and> mr_author m' = mr_author m \<and> (a, mr_channel m, mr_seq m) \<notin> set (dh_acks (fold delivery_exec ops st)) \<union> set (dh_skips (fold delivery_exec ops st))
    \<and> dd_env (dh_db (fold delivery_exec ops st)) = dd_env (dh_db st) \<and> dh_seeds (fold delivery_exec ops st) (a, mr_channel m) = Some s0"
  using assms
proof (induction ops arbitrary: st m)
  case Nil
  then show ?case by (intro bexI [of _ m]) simp_all
next
  case (Cons op ops)
  let ?st = "delivery_exec op st"
  have inv: "delivery_inv ?st" and adm: "admitted delivery_ok delivery_exec ops ?st" using Cons.prems(1,2) delivery_inv_exec by auto
  have "quiet a (mr_id m) op" using Cons.prems(3) by simp
  note q = quiet_step [OF Cons.prems(1) this Cons.prems(4-8)]
  obtain m' where m': "m' \<in> set (dd_messages (dh_db ?st))" "mr_id m' = mr_id m" "mr_channel m' = mr_channel m" "mr_seq m' = mr_seq m" "mr_author m' = mr_author m"
    using message_kept [OF Cons.prems(4)] by blast
  from Cons.IH [OF inv adm, of m'] show ?case using q m' Cons.prems(3,5,6) by simp
qed

section \<open>Properties\<close>

text \<open>C3: the sweep is exact. In every state reached by posts that commit in any order, seeds, acknowledgements and changes of membership and
  reach, the sweep of an agent lists for a channel exactly the messages of the channel it takes part in that others wrote,
  whose author may reach it, that are newer than the head its cursor was seeded at, and that it has neither acknowledged nor
  passed as its own or out of reach; in ascending order, each once.\<close>

theorem sweep_exact:
  assumes "delivery_run (NewDelivery ev) st"
  shows "set (swept a ch st) = {m \<in> set (dd_messages (dh_db st)). mr_channel m = ch \<and> InSweepSet a ch (dh_db st) \<and> mr_author m \<noteq> a
      \<and> reach (dd_env (dh_db st)) (mr_author m) a \<and> (\<exists>s0. dh_seeds st (a, ch) = Some s0 \<and> s0 < mr_seq m
      \<and> (a, ch, mr_seq m) \<notin> set (dh_acks st) \<union> set (dh_skips st))}
    \<and> sorted_wrt (<) (map mr_seq (swept a ch st))"
proof -
  have inv: "delivery_inv st" by (rule delivery.reaches_inv [OF assms delivery_inv_new])
  have "distinct (map mr_seq (filter P (dd_messages (dh_db st))))" for P
    using delivery_inv_distinct [OF inv] by (simp add: distinct_map_filter)
  then have "sorted_wrt (<) (map mr_seq (swept a ch st))" by (simp add: swept_eq strict_sorted_iff distinct_map)
  moreover have "set (swept a ch st) = {m \<in> set (dd_messages (dh_db st)). mr_channel m = ch \<and> InSweepSet a ch (dh_db st) \<and> mr_author m \<noteq> a
      \<and> reach (dd_env (dh_db st)) (mr_author m) a \<and> unacked a (dh_db st) m}" by (auto simp: swept_eq)
  moreover have "\<dots> = {m \<in> set (dd_messages (dh_db st)). mr_channel m = ch \<and> InSweepSet a ch (dh_db st) \<and> mr_author m \<noteq> a
      \<and> reach (dd_env (dh_db st)) (mr_author m) a \<and> (\<exists>s0. dh_seeds st (a, ch) = Some s0 \<and> s0 < mr_seq m
      \<and> (a, ch, mr_seq m) \<notin> set (dh_acks st) \<union> set (dh_skips st))}" using unacked_exact [OF inv, of _ a] by auto
  ultimately show ?thesis by simp
qed

definition demo_env :: delivery_env where
  "demo_env = \<lparr>ev_agents = [\<lparr>ag_account = ''a'', ag_owner = ''u'', ag_home = None, ag_parent = None\<rparr>], ev_system = [], ev_peers = [],
     ev_channels = [\<lparr>cw_id = ''c'', cw_mandatory = False, cw_mode = 0, cw_parent = None\<rparr>],
     ev_members = [\<lparr>me_channel = ''c'', me_account = ''a'', me_subscribed = True\<rparr>], ev_subscriptions = []\<rparr>"

definition demo_message :: "string \<Rightarrow> nat \<Rightarrow> message_row" where
  "demo_message mid n = \<lparr>mr_id = mid, mr_channel = ''c'', mr_author = ''u'', mr_seq = n, mr_routed = False\<rparr>"

text \<open>Number 2 commits first and is acknowledged.\<close>

definition demo_cursors :: delivery_state where
  "demo_cursors = fold delivery_exec [Seed ''a'' ''c'', Post (demo_message ''m2'' 2), Ack False ''a'' ''c'' ''m2''] (NewDelivery demo_env)"

lemma demo_cursors_run: "delivery_run (NewDelivery demo_env) demo_cursors"
  unfolding demo_cursors_def by (rule reaches_fold) code_simp

theorem sweep_exact_witness:
  "demo_message ''m1'' 1 \<in> set (swept ''a'' ''c'' (delivery_exec (Post (demo_message ''m1'' 1)) demo_cursors))
    \<and> sorted_wrt (<) (map mr_seq (swept ''a'' ''c'' (delivery_exec (Post (demo_message ''m1'' 1)) demo_cursors)))"
proof -
  let ?st = "delivery_exec (Post (demo_message ''m1'' 1)) demo_cursors"
  have "delivery_run (NewDelivery demo_env) ?st" by (rule reaches_step [OF demo_cursors_run]) code_simp
  note e = sweep_exact [OF this, of "''a''" "''c''"]
  have "demo_message ''m1'' 1 \<in> set (dd_messages (dh_db ?st))" "InSweepSet ''a'' ''c'' (dh_db ?st)" "reach (dd_env (dh_db ?st)) ''u'' ''a''"
    "dh_seeds ?st (''a'', ''c'') = Some 0" "(''a'', ''c'', 1) \<notin> set (dh_acks ?st) \<union> set (dh_skips ?st)" by code_simp+
  with e show ?thesis by (simp add: demo_message_def)
qed

text \<open>C10: no unacknowledged post is lost. Take a message posted to a channel after an agent's cursor was seeded below its number, by someone else who may reach the
  agent; commits may be out of order. Whatever is posted, seeded or acknowledged from then on, as long as this agent does not
  acknowledge this message and reach does not change, the sweep of the agent lists it while it takes part in the channel.\<close>

theorem unacked_post_swept:
  assumes "delivery_run (NewDelivery ev) st" and "delivery_ok (Post m) st" and "dh_seeds st (a, mr_channel m) = Some s0" and "s0 < mr_seq m"
    and "mr_author m \<noteq> a" and "reach (dd_env (dh_db st)) (mr_author m) a"
    and "admitted delivery_ok delivery_exec (Post m # ops) st" and "list_all (quiet a (mr_id m)) ops"
    and "st' = fold delivery_exec (Post m # ops) st" and "InSweepSet a (mr_channel m) (dh_db st')"
  shows "mr_id m \<in> mr_id ` set (swept a (mr_channel m) st')"
proof -
  have inv: "delivery_inv st" by (rule delivery.reaches_inv [OF assms(1) delivery_inv_new])
  let ?st = "delivery_exec (Post m) st"
  have inv1: "delivery_inv ?st" by (rule delivery_inv_exec [OF inv assms(2)])
  have "\<forall>x \<in> set (dd_messages (dh_db st)). mr_seq x \<noteq> mr_seq m" using assms(2) by (metis delivery_ok.simps(1) image_eqI)
  then have "(a, mr_channel m, mr_seq m) \<notin> set (dh_acks st) \<union> set (dh_skips st)"
    using recorded_message [OF inv, of a "mr_channel m" "mr_seq m"] by blast
  then obtain m' where m': "m' \<in> set (dd_messages (dh_db st'))" "mr_id m' = mr_id m" "mr_channel m' = mr_channel m" "mr_seq m' = mr_seq m" "mr_author m' = mr_author m"
    "(a, mr_channel m, mr_seq m) \<notin> set (dh_acks st') \<union> set (dh_skips st')" "dd_env (dh_db st') = dd_env (dh_db st)" "dh_seeds st' (a, mr_channel m) = Some s0"
    using quiet_run [OF inv1, of ops a m s0] assms(3,5-8) unfolding assms(9) by auto
  have "delivery_inv st'" unfolding assms(9) by (rule delivery.run_inv [OF inv assms(7)])
  from unacked_exact [OF this m'(1), of a] have "unacked a (dh_db st') m'" using m' assms(4) by simp
  then have "m' \<in> set (swept a (mr_channel m) st')" using m' assms(5,6,10) by (simp add: swept_eq)
  then show ?thesis using m'(2) by (metis image_eqI)
qed

theorem unacked_post_swept_witness:
  "mr_id (demo_message ''m1'' 1) \<in> mr_id ` set (swept ''a'' ''c'' (fold delivery_exec [Post (demo_message ''m1'' 1), Post (demo_message ''m3'' 3), Ack False ''a'' ''c'' ''m3''] demo_cursors))"
proof -
  let ?ops = "[Post (demo_message ''m3'' 3), Ack False ''a'' ''c'' ''m3'']"
  let ?st = "fold delivery_exec (Post (demo_message ''m1'' 1) # ?ops) demo_cursors"
  have "delivery_ok (Post (demo_message ''m1'' 1)) demo_cursors" "dh_seeds demo_cursors (''a'', ''c'') = Some 0"
    "reach (dd_env (dh_db demo_cursors)) ''u'' ''a''" "admitted delivery_ok delivery_exec (Post (demo_message ''m1'' 1) # ?ops) demo_cursors"
    "InSweepSet ''a'' ''c'' (dh_db ?st)" by code_simp+
  then show ?thesis using unacked_post_swept [OF demo_cursors_run, of "demo_message ''m1'' 1" "''a''" 0 ?ops ?st]
    by (simp add: demo_message_def del: fold.simps)
qed

lemma ack_settles:
  assumes inv: "delivery_inv st" and m: "m \<in> set (dd_messages (dh_db st))" and "mr_channel m = ch"
    and run: "delivery_run (delivery_exec (Ack False a ch (mr_id m)) st) st'"
  shows "mr_seq m \<notin> mr_seq ` set (swept a ch st')"
proof -
  have r: "ResolveAckMessage (mr_id m) ch (dh_db st) = Some (mr_seq m)"
    using resolve_message [OF _ m, of ch] delivery_inv_distinct [OF inv] assms(3) by simp
  then have "(a, ch, mr_seq m) \<in> set (dh_acks (delivery_exec (Ack False a ch (mr_id m)) st))" by (simp add: Let_def)
  then have acked: "(a, ch, mr_seq m) \<in> set (dh_acks st')" using history_grows [OF run] by blast
  have "delivery_inv (delivery_exec (Ack False a ch (mr_id m)) st)" by (rule delivery_inv_exec [OF inv]) simp
  then have inv': "delivery_inv st'" by (rule delivery.reaches_inv [OF run])
  have "mr_seq m' \<noteq> mr_seq m" if "m' \<in> set (swept a ch st')" for m'
    using that unacked_exact [OF inv', of m' a] acked by (auto simp: swept_eq)
  then show ?thesis by (metis (no_types, lifting) imageE)
qed

text \<open>An acknowledged message is done with. Once an agent's acknowledgement of a message in its channel has been recorded, no later sweep of the agent lists the message,
  whatever happens in between, and the acknowledgement also ends a mention the agent was owed for it.\<close>

theorem acked_never_swept:
  assumes "delivery_run (NewDelivery ev) st" and "m \<in> set (dd_messages (dh_db st))" and "mr_channel m = ch"
    and "delivery_run (delivery_exec (Ack False a ch (mr_id m)) st) st'"
  shows "mr_seq m \<notin> mr_seq ` set (swept a ch st')
    \<and> (a, mr_id m) \<notin> (\<lambda>(a, mid, _). (a, mid)) ` set (dd_owed (dh_db (delivery_exec (Ack False a ch (mr_id m)) st)))"
proof -
  have inv: "delivery_inv st" by (rule delivery.reaches_inv [OF assms(1) delivery_inv_new])
  have r: "ResolveAckMessage (mr_id m) ch (dh_db st) = Some (mr_seq m)"
    using resolve_message [OF _ assms(2), of ch] delivery_inv_distinct [OF inv] assms(3) by simp
  have "dd_owed (dh_db (delivery_exec (Ack False a ch (mr_id m)) st)) = dd_owed (ClearOwedMention a (mr_id m) (dh_db st))"
    using r by (auto simp: AckDelivery_def ClearOwedMention_def Let_def split: option.split)
  then have "(a, mr_id m) \<notin> (\<lambda>(a, mid, _). (a, mid)) ` set (dd_owed (dh_db (delivery_exec (Ack False a ch (mr_id m)) st)))"
    by (auto simp: ClearOwedMention_def)
  then show ?thesis using ack_settles [OF inv assms(2-4)] by blast
qed

theorem acked_never_swept_witness:
  "2 \<notin> mr_seq ` set (swept ''a'' ''c'' (delivery_exec (Ack False ''a'' ''c'' ''m2'') (fold delivery_exec [Seed ''a'' ''c'', Post (demo_message ''m2'' 2)] (NewDelivery demo_env))))"
proof -
  let ?st = "fold delivery_exec [Seed ''a'' ''c'', Post (demo_message ''m2'' 2)] (NewDelivery demo_env)"
  have run: "delivery_run (NewDelivery demo_env) ?st" by (rule reaches_fold) code_simp
  have m: "demo_message ''m2'' 2 \<in> set (dd_messages (dh_db ?st))" "mr_channel (demo_message ''m2'' 2) = ''c''" by code_simp+
  from acked_never_swept [OF run m, of "''a''", OF reaches_refl] show ?thesis by (simp add: demo_message_def del: fold.simps delivery_exec.simps)
qed

fun spares_owed :: "string \<Rightarrow> string \<Rightarrow> delivery_op \<Rightarrow> bool" where
  "spares_owed a mid (Ack fault a' ch mid') \<longleftrightarrow> \<not> (a' = a \<and> mid' = mid)"
| "spares_owed a mid (ClearOwed a' mid') \<longleftrightarrow> \<not> (a' = a \<and> mid' = mid)"
| "spares_owed a mid op \<longleftrightarrow> True"

definition owes :: "string \<Rightarrow> string \<Rightarrow> delivery_db \<Rightarrow> bool" where
  "owes a mid db \<longleftrightarrow> (\<exists>o' \<in> set (dd_owed db). fst o' = a \<and> fst (snd o') = mid)"

lemma owes_record: "agent_of (dd_env db) a \<noteq> None \<Longrightarrow> mid \<in> mr_id ` set (dd_messages db) \<Longrightarrow> owes a mid (RecordOwedMention a ch mid db)"
  by (auto simp: owes_def RecordOwedMention_def list_ex_iff) force

lemma owes_seed: "owes a mid (fold (\<lambda>a db. seed_row ch db a) as db) = owes a mid db"
  using seed_rows [of ch as db] by (auto simp: owes_def)

lemma owes_step: "owes a mid (dh_db st) \<Longrightarrow> spares_owed a mid op \<Longrightarrow> owes a mid (dh_db (delivery_exec op st))"
proof (cases op)
  case (Ack fault a' ch mid')
  assume "owes a mid (dh_db st)" "spares_owed a mid op"
  then show ?thesis using Ack by (fastforce simp: owes_def AckDelivery_def ClearOwedMention_def Let_def split: option.split)
next
  case (Seed a' ch)
  assume "owes a mid (dh_db st)"
  then show ?thesis using Seed owes_seed [of a mid ch "[a']" "dh_db st"] by (simp add: SeedDeliveryCursor_def Let_def)
next
  case (ClearOwed a' mid')
  assume "owes a mid (dh_db st)" "spares_owed a mid op"
  then show ?thesis using ClearOwed by (fastforce simp: owes_def ClearOwedMention_def)
qed (auto simp: owes_def RecordOwedMention_def MarkMentionsRouted_def seedChannelDeliveryCursors_def Let_def owes_seed [unfolded owes_def])

lemma owes_run: "owes a mid (dh_db st) \<Longrightarrow> list_all (spares_owed a mid) ops \<Longrightarrow> owes a mid (dh_db (fold delivery_exec ops st))"
  by (induction ops arbitrary: st) (auto simp: owes_step simp del: delivery_exec.simps)

lemma message_run: "m \<in> set (dd_messages (dh_db st)) \<Longrightarrow> \<exists>m' \<in> set (dd_messages (dh_db (fold delivery_exec ops st))).
    mr_id m' = mr_id m \<and> mr_channel m' = mr_channel m \<and> mr_seq m' = mr_seq m \<and> mr_author m' = mr_author m"
proof (induction ops arbitrary: st m)
  case (Cons op ops)
  obtain m' where m': "m' \<in> set (dd_messages (dh_db (delivery_exec op st)))" "mr_id m' = mr_id m" "mr_channel m' = mr_channel m" "mr_seq m' = mr_seq m" "mr_author m' = mr_author m"
    using message_kept [OF Cons.prems] by blast
  from Cons.IH [OF m'(1)] m' show ?case by simp
qed auto

text \<open>C25: an owed mention stays owed. Once a mention of a member of no sweep is recorded, every later read of the agent's owed mentions lists it under the channel of its
  message while its author may reach the agent, until the agent acknowledges that message or the mention is cleared.\<close>

theorem owed_mention_kept:
  assumes "m \<in> set (dd_messages (dh_db st))" and "agent_of (dd_env (dh_db st)) a \<noteq> None"
    and "list_all (spares_owed a (mr_id m)) ops" and "st' = fold delivery_exec (RecordOwed a ch (mr_id m) # ops) st"
    and "reach (dd_env (dh_db st')) (mr_author m) a"
  shows "mr_id m \<in> mr_id ` set (gm_getz [] (OwedMentions a (dh_db st')) (mr_channel m))"
proof -
  have "owes a (mr_id m) (dh_db (delivery_exec (RecordOwed a ch (mr_id m)) st))" using owes_record [OF assms(2)] assms(1) by simp
  then have o': "owes a (mr_id m) (dh_db st')" using owes_run [OF _ assms(3)] by (simp add: assms(4))
  obtain m' where m': "m' \<in> set (dd_messages (dh_db st'))" "mr_id m' = mr_id m" "mr_channel m' = mr_channel m" "mr_author m' = mr_author m"
    using message_run [OF assms(1), of "RecordOwed a ch (mr_id m) # ops"] unfolding assms(4) by blast
  have "m' \<in> set (gm_getz [] (OwedMentions a (dh_db st')) (mr_channel m))"
    using o' m' assms(5) by (auto simp: OwedMentions_def by_channel_get channel_order_filter owes_def)
  then show ?thesis using m'(2) by (metis image_eqI)
qed

theorem owed_mention_kept_witness:
  "''m2'' \<in> mr_id ` set (gm_getz [] (OwedMentions ''a'' (dh_db (fold delivery_exec [RecordOwed ''a'' ''c'' ''m2'', Post (demo_message ''m1'' 1)] demo_cursors))) ''c'')"
proof -
  have m: "demo_message ''m2'' 2 \<in> set (dd_messages (dh_db demo_cursors))" by code_simp
  have "agent_of (dd_env (dh_db demo_cursors)) ''a'' \<noteq> None"
    "reach (dd_env (dh_db (fold delivery_exec [RecordOwed ''a'' ''c'' ''m2'', Post (demo_message ''m1'' 1)] demo_cursors))) ''u'' ''a''" by code_simp+
  with owed_mention_kept [OF m, of "''a''" "[Post (demo_message ''m1'' 1)]" _ "''c''", OF _ _ refl] show ?thesis
    by (simp add: demo_message_def del: fold.simps delivery_exec.simps)
qed

end
