(* ===== verification/Hub_Frames.thy ===== *)
theory Hub_Frames
  imports Hub_Bindings Board_Gate Delivery_Cursors
begin

text \<open>
  The delivery of a Runner's frames into the Server, \<open>Deliver\<close> and its arms in \<open>src/go/internal/runnerhub/hub.go\<close>: gap tracking over the
  Runner's sequence numbers, the fence against streams of an earlier enrollment, the ordering of a session's
  lifecycle frames, and the acknowledgements. The board of \<open>Board_Gate\<close> is the lifecycle sink and the tables of
  \<open>Delivery_Cursors\<close> are the delivery store; \<open>Hub_Bindings\<close> answers who owns a session.

  A lifecycle frame holds the lock of its session from the record of its number to its publication, and in between the
  frames of other sessions run, so it is three steps: \<open>FrameBegin\<close>, \<open>FrameAccept\<close>, \<open>FramePublish\<close>; \<open>hf_flight\<close> holds
  the locked sessions. Every other frame is one step. An enrollment takes the write side of \<open>enrollMu\<close>, so it waits for
  the frames in flight. The answers of binding lookups and the faults of the store are inputs.

  The bounded cache of each session's latest number is a third-party library; its operations are the parameter \<open>seq_cache\<close> with
  the documented behaviour \<open>seq_laws\<close>. \<open>hf_seen\<close>, \<open>hf_published\<close> and \<open>hf_seq_ops\<close> are histories: the numbers recorded since
  the enrollment, the lifecycle frames published, and the operations on the cache.
\<close>

section \<open>Frames\<close>

record SessionFrame =
  sf_state :: agent_session_state
  sf_turn_sequence :: nat

datatype AgentFrame = AgentFrame_Session SessionFrame | AgentFrame_DeliveryAck string
  | AgentFrame_ForgeNotificationAck string string | AgentFrame_Unknown

record RunnerEvent =
  re_RunnerSeq :: "64 word"
  re_SessionID :: string
  re_RunnerID :: string
  re_Frame :: AgentFrame
  re_EnrollGen :: nat

section \<open>State\<close>

record 'l seq_cache =
  sc_New :: "nat \<Rightarrow> 'l"
  sc_Get :: "'l \<Rightarrow> string \<Rightarrow> 64 word option \<times> 'l"
  sc_Add :: "string \<Rightarrow> 64 word \<Rightarrow> 'l \<Rightarrow> 'l"
  sc_Purge :: "'l \<Rightarrow> 'l"

datatype seq_op = SGet string | SAdd string "64 word" | SPurge

datatype flight = Recorded RunnerEvent SessionFrame | Accepted RunnerEvent SessionFrame "sessionBinding option"

record publication =
  pb_gen :: nat
  pb_event_gen :: nat
  pb_runner :: string
  pb_seq :: "64 word"
  pb_binding :: "sessionBinding option"
  pb_status :: session_status

datatype frame_effect = SettleEdge string agent_session_state nat | PresenceEdge string string agent_session_state
  | DropLost nat string string sessionBinding | ForgeAdvance string string string

record 'l frames =
  hf_enrollGen :: nat
  hf_runner :: "attachedRunner option"
  hf_lastSeq :: "64 word"
  hf_missing :: "64 word list"
  hf_gapOverflow :: bool
  hf_unknown :: "64 word"
  hf_droppedAcks :: "64 word"
  hf_seqs :: 'l
  hf_seq_ops :: "seq_op list"
  hf_flight :: "(string, flight) gomap"
  hf_board :: projection
  hf_tail :: "(string \<times> SessionFrame) list"
  hf_effects :: "frame_effect list"
  hf_delivery :: "delivery_db option"
  hf_seen :: "64 word list"
  hf_published :: "publication list"

definition maxLifecycleSeqs :: nat where
  "maxLifecycleSeqs = 4096"

definition maxMissingSeqs :: nat where
  "maxMissingSeqs = 4096"

definition newFrames :: "'l seq_cache \<Rightarrow> projection \<Rightarrow> delivery_db option \<Rightarrow> 'l frames" where
  "newFrames C board delivery = \<lparr>hf_enrollGen = 1, hf_runner = None, hf_lastSeq = 0, hf_missing = [], hf_gapOverflow = False, hf_unknown = 0,
     hf_droppedAcks = 0, hf_seqs = sc_New C maxLifecycleSeqs, hf_seq_ops = [], hf_flight = [], hf_board = board, hf_tail = [], hf_effects = [],
     hf_delivery = delivery, hf_seen = [], hf_published = []\<rparr>"

section \<open>Sequence numbers\<close>

lemma word_step: "(s::64 word) < seq \<Longrightarrow> unat (s + 1) = unat s + 1"
  using unsigned_less [of seq, where ?'a = nat] by (simp add: word_less_nat_alt unat_word_ariths)

function add_missing :: "64 word \<Rightarrow> 64 word \<Rightarrow> 64 word list \<Rightarrow> bool \<Rightarrow> 64 word list \<times> bool" where
  "add_missing s seq missing overflow =
    (if s < seq
     then (if maxMissingSeqs \<le> length missing then (missing, True)
           else add_missing (s + 1) seq (List.insert s missing) overflow)
     else (missing, overflow))"
  by pat_completeness auto
termination
  by (relation "measure (\<lambda>(s, seq, _). unat seq - unat s)") (auto simp: word_step word_less_nat_alt)

declare add_missing.simps [simp del]

definition recordSeq :: "64 word \<Rightarrow> 'l frames \<Rightarrow> 'l frames" where
  "recordSeq seq h =
    (let h0 = h\<lparr>hf_seen := hf_seen h @ [seq]\<rparr>
     in if seq \<le> hf_lastSeq h then h0\<lparr>hf_missing := removeAll seq (hf_missing h)\<rparr>
        else
         (let (missing, overflow) =
            (if hf_lastSeq h \<noteq> 0 \<and> hf_lastSeq h + 1 < seq then add_missing (hf_lastSeq h + 1) seq (hf_missing h) (hf_gapOverflow h)
             else (hf_missing h, hf_gapOverflow h))
          in h0\<lparr>hf_missing := missing, hf_gapOverflow := overflow, hf_lastSeq := seq\<rparr>))"

definition SeenGap :: "'l frames \<Rightarrow> bool" where
  "SeenGap h \<longleftrightarrow> hf_gapOverflow h \<or> 0 < length (hf_missing h)"

record FrameDiagnostics =
  fd_SeenGap :: bool
  fd_UnknownFrames :: "64 word"
  fd_DroppedAcks :: "64 word"

definition FrameDiagnostics_of :: "'l frames \<Rightarrow> FrameDiagnostics" where
  "FrameDiagnostics_of h = \<lparr>fd_SeenGap = SeenGap h, fd_UnknownFrames = hf_unknown h, fd_DroppedAcks = hf_droppedAcks h\<rparr>"

definition countUnknown :: "'l frames \<Rightarrow> 'l frames" where
  "countUnknown h = h\<lparr>hf_unknown := hf_unknown h + 1\<rparr>"

definition countDroppedAck :: "'l frames \<Rightarrow> 'l frames" where
  "countDroppedAck h = h\<lparr>hf_droppedAcks := hf_droppedAcks h + 1\<rparr>"

definition staleEnrollment :: "RunnerEvent \<Rightarrow> 'l frames \<Rightarrow> bool" where
  "staleEnrollment ev h \<longleftrightarrow> re_EnrollGen ev \<noteq> 0 \<and> re_EnrollGen ev \<noteq> hf_enrollGen h"

section \<open>Session frames\<close>

definition sessionState :: "AgentFrame \<Rightarrow> agent_session_state" where
  "sessionState frame = (case frame of AgentFrame_Session sf \<Rightarrow> sf_state sf | _ \<Rightarrow> AGENT_SESSION_STATE_UNSPECIFIED)"

text \<open>\<open>cached\<close> is the entry of the cache, \<open>found\<close> the answer of the lookup made on a miss.\<close>

definition frameSession :: "string \<Rightarrow> sessionBinding option \<Rightarrow> bindingLookup \<Rightarrow> bool \<Rightarrow> 'l frames \<Rightarrow> sessionBinding option \<times> bool" where
  "frameSession runnerID cached found lifecycle h =
    (if runnerID = [] then (None, False)
     else
      (let enrolled = (case hf_runner h of None \<Rightarrow> False | Some r \<Rightarrow> ar_id r = runnerID)
       in case cached of
            Some b \<Rightarrow> (Some b, sb_runnerID b = runnerID)
          | None \<Rightarrow> if \<not> lifecycle \<and> \<not> enrolled then (None, False)
              else (case found of bindingUnverifiable \<Rightarrow> (None, False)
                    | bindingFound b \<Rightarrow> (Some b, sb_runnerID b = runnerID)
                    | bindingNotFound \<Rightarrow> (None, enrolled))))"

definition runtime_of :: "'l frames \<Rightarrow> int \<times> int" where
  "runtime_of h = (case hf_runner h of None \<Rightarrow> (0, 0) | Some r \<Rightarrow> (ar_tier r, ar_egressPosture r))"

text \<open>\<open>deliverSession\<close> of a lifecycle frame up to the check of its number: a frame the Runner does not own is dropped, an older one is ignored.\<close>

definition lifecycle_accept :: "'l seq_cache \<Rightarrow> string \<Rightarrow> sessionBinding option \<Rightarrow> bindingLookup \<Rightarrow> 'l frames \<Rightarrow> 'l frames" where
  "lifecycle_accept C sid cached found h = (case gm_get (hf_flight h) sid of
     Some (Recorded ev sf) \<Rightarrow>
       (let unlocked = h\<lparr>hf_flight := gm_del sid (hf_flight h)\<rparr>;
            (binding, allowed) = frameSession (re_RunnerID ev) cached found True h
        in if \<not> allowed then unlocked
           else
            (let (last, seqs) = sc_Get C (hf_seqs h) sid;
                 seq = re_RunnerSeq ev;
                 newer = (case last of None \<Rightarrow> True | Some l \<Rightarrow> l < seq)
             in if newer then h\<lparr>hf_seqs := sc_Add C sid seq seqs, hf_seq_ops := hf_seq_ops h @ [SGet sid, SAdd sid seq], hf_flight := gm_put sid (Accepted ev sf binding) (hf_flight h),
                     hf_tail := hf_tail h @ [(sid, sf)]\<rparr>
                else unlocked\<lparr>hf_seqs := seqs, hf_seq_ops := hf_seq_ops h @ [SGet sid]\<rparr>))
   | _ \<Rightarrow> h)"

definition status_of :: "RunnerEvent \<Rightarrow> SessionFrame \<Rightarrow> sessionBinding option \<Rightarrow> 'l frames \<Rightarrow> session_status" where
  "status_of ev sf binding h = \<lparr>ss_session_id = re_SessionID ev, ss_state = sf_state sf,
     ss_agent_account_id = (case binding of None \<Rightarrow> [] | Some b \<Rightarrow> sb_account b),
     ss_runtime_tier = fst (runtime_of h), ss_egress_posture = snd (runtime_of h)\<rparr>"

text \<open>The publication: the board, the settle edge, the presence edge, and the release of an errored session.\<close>

definition lifecycle_publish :: "string \<Rightarrow> int \<Rightarrow> string \<Rightarrow> 'l frames \<Rightarrow> 'l frames" where
  "lifecycle_publish tp now sid h = (case gm_get (hf_flight h) sid of
     Some (Accepted ev sf binding) \<Rightarrow>
       (let status = status_of ev sf binding h
        in h\<lparr>hf_flight := gm_del sid (hf_flight h),
             hf_board := PublishSessionStatus tp now (Some status) (hf_board h),
             hf_effects := hf_effects h @ [SettleEdge sid (sf_state sf) (sf_turn_sequence sf)]
               @ (case binding of None \<Rightarrow> [] | Some b \<Rightarrow> [PresenceEdge (sb_account b) sid (sf_state sf)])
               @ (case binding of Some b \<Rightarrow> if sf_state sf = AGENT_SESSION_STATE_ERRORED then [DropLost (hf_enrollGen h) (re_RunnerID ev) sid b] else []
                  | None \<Rightarrow> []),
             hf_published := hf_published h @ [\<lparr>pb_gen = hf_enrollGen h, pb_event_gen = re_EnrollGen ev, pb_runner = re_RunnerID ev,
               pb_seq = re_RunnerSeq ev, pb_binding = binding, pb_status = status\<rparr>]\<rparr>)
   | _ \<Rightarrow> h)"

section \<open>Acknowledgements\<close>

text \<open>\<open>scoped\<close> is the outcome of \<open>runnerSessionCtx\<close>, \<open>agent\<close> that of \<open>accountForRunnerSession\<close>; the faults are those of the two store calls.\<close>

definition deliverAck :: "bool \<Rightarrow> string option \<Rightarrow> bool \<Rightarrow> bool \<Rightarrow> string \<Rightarrow> 'l frames \<Rightarrow> 'l frames" where
  "deliverAck scoped agent channelFault ackFault messageID h = (case hf_delivery h of None \<Rightarrow> h
     | Some db \<Rightarrow>
        if messageID = [] \<or> \<not> scoped then countDroppedAck h
        else (case agent of None \<Rightarrow> countDroppedAck h
          | Some a \<Rightarrow> (case (if channelFault then None else MessageChannel messageID db) of None \<Rightarrow> countDroppedAck h
              | Some ch \<Rightarrow> (case AckDelivery ackFault a ch messageID db of
                   (db', ok) \<Rightarrow> if ok then h\<lparr>hf_delivery := Some db'\<rparr> else countDroppedAck h))))"

definition forgeNotificationAck :: "bool \<Rightarrow> string option \<Rightarrow> bool \<Rightarrow> string \<Rightarrow> string \<Rightarrow> 'l frames \<Rightarrow> 'l frames" where
  "forgeNotificationAck scoped agent advanced subscriptionID revision h = (case hf_delivery h of None \<Rightarrow> h
     | Some _ \<Rightarrow>
        if subscriptionID = [] \<or> \<not> scoped then countDroppedAck h
        else (case agent of None \<Rightarrow> countDroppedAck h
          | Some a \<Rightarrow> if advanced then h\<lparr>hf_effects := hf_effects h @ [ForgeAdvance a subscriptionID revision]\<rparr> else countDroppedAck h))"

section \<open>Deliver\<close>

text \<open>What a delivery reads of the other components: the cached binding and the lookup's answer, the scoping and the account of an
  acknowledgement, and the outcomes of the store calls.\<close>

record frame_reads =
  fr_cached :: "sessionBinding option"
  fr_found :: bindingLookup
  fr_scoped :: bool
  fr_agent :: "string option"
  fr_channelFault :: bool
  fr_ackFault :: bool
  fr_advanced :: bool

definition frame_begin :: "frame_reads \<Rightarrow> RunnerEvent \<Rightarrow> 'l frames \<Rightarrow> 'l frames" where
  "frame_begin rd ev h =
    (let stale = staleEnrollment ev h;
         lifecycle = sessionState (re_Frame ev) \<noteq> AGENT_SESSION_STATE_UNSPECIFIED
     in if \<not> stale \<and> lifecycle \<and> gm_get (hf_flight h) (re_SessionID ev) \<noteq> None then h
        else
         (let h1 = (if stale then h else recordSeq (re_RunnerSeq ev) h)
          in case re_Frame ev of
               AgentFrame_Unknown \<Rightarrow> countUnknown h1
             | AgentFrame_Session sf \<Rightarrow>
                 if stale then h1
                 else if lifecycle then h1\<lparr>hf_flight := gm_put (re_SessionID ev) (Recorded ev sf) (hf_flight h1)\<rparr>
                 else if snd (frameSession (re_RunnerID ev) (fr_cached rd) (fr_found rd) False h1) then h1\<lparr>hf_tail := hf_tail h1 @ [(re_SessionID ev, sf)]\<rparr>
                 else h1
             | AgentFrame_DeliveryAck mid \<Rightarrow> deliverAck (fr_scoped rd) (fr_agent rd) (fr_channelFault rd) (fr_ackFault rd) mid h1
             | AgentFrame_ForgeNotificationAck sub revision \<Rightarrow> forgeNotificationAck (fr_scoped rd) (fr_agent rd) (fr_advanced rd) sub revision h1))"

text \<open>The part of \<open>enroll\<close> that concerns frames; \<open>enrollCount\<close> is one behind \<open>enrollGen\<close>.\<close>

definition frames_enroll :: "'l seq_cache \<Rightarrow> string \<Rightarrow> int \<Rightarrow> int \<Rightarrow> 'l frames \<Rightarrow> 'l frames" where
  "frames_enroll C rid tier posture h = (if hf_flight h \<noteq> [] then h
     else h\<lparr>hf_seqs := sc_Purge C (hf_seqs h), hf_seq_ops := hf_seq_ops h @ [SPurge], hf_enrollGen := hf_enrollGen h + 1,
       hf_runner := Some \<lparr>ar_id = rid, ar_enrollment = hf_enrollGen h, ar_tier = tier, ar_egressPosture = posture\<rparr>,
       hf_lastSeq := 0, hf_missing := [], hf_gapOverflow := False, hf_seen := []\<rparr>)"

datatype frame_op = FrameBegin frame_reads RunnerEvent | FrameAccept string "sessionBinding option" bindingLookup | FramePublish string int string
  | FramesEnroll string int int | DeliveryStep delivery_db

fun frame_exec :: "'l seq_cache \<Rightarrow> frame_op \<Rightarrow> 'l frames \<Rightarrow> 'l frames" where
  "frame_exec C (FrameBegin rd ev) h = frame_begin rd ev h"
| "frame_exec C (FrameAccept sid cached found) h = lifecycle_accept C sid cached found h"
| "frame_exec C (FramePublish tp now sid) h = lifecycle_publish tp now sid h"
| "frame_exec C (FramesEnroll rid tier posture) h = frames_enroll C rid tier posture h"
| "frame_exec C (DeliveryStep db) h = h\<lparr>hf_delivery := map_option (\<lambda>_. db) (hf_delivery h)\<rparr>"

section \<open>The cache of latest numbers\<close>

fun seq_apply :: "'l seq_cache \<Rightarrow> seq_op \<Rightarrow> 'l \<Rightarrow> 'l" where
  "seq_apply C (SGet k) c = snd (sc_Get C c k)"
| "seq_apply C (SAdd k v) c = sc_Add C k v c"
| "seq_apply C SPurge c = sc_Purge C c"

fun seq_step :: "seq_op \<Rightarrow> (string \<rightharpoonup> 64 word) \<Rightarrow> (string \<rightharpoonup> 64 word)" where
  "seq_step (SGet k) m = m"
| "seq_step (SAdd k v) m = m(k \<mapsto> v)"
| "seq_step SPurge m = Map.empty"

definition seq_map :: "seq_op list \<Rightarrow> string \<rightharpoonup> 64 word" where
  "seq_map ops = fold seq_step ops Map.empty"

text \<open>The documented behaviour of the cache: while no more keys than its size were added since the last purge, a lookup finds the last value added.\<close>

definition seq_laws :: "'l seq_cache \<Rightarrow> nat \<Rightarrow> bool" where
  "seq_laws C n \<longleftrightarrow> (\<forall>ops k. card (dom (seq_map ops)) \<le> n \<longrightarrow> fst (sc_Get C (fold (seq_apply C) ops (sc_New C n)) k) = seq_map ops k)"

text \<open>A session's frames are checked while no more sessions than the cache holds had lifecycle frames since the enrollment.\<close>

fun frame_ok :: "frame_op \<Rightarrow> 'l frames \<Rightarrow> bool" where
  "frame_ok (FrameAccept sid cached found) h \<longleftrightarrow> card (dom (seq_map (hf_seq_ops h))) \<le> maxLifecycleSeqs"
| "frame_ok _ h \<longleftrightarrow> True"

lemma seq_map_append [simp]: "seq_map (ops @ [SGet k]) = seq_map ops" "seq_map (ops @ [SGet k, SAdd k' v]) = (seq_map ops)(k' \<mapsto> v)"
  "seq_map (ops @ [SPurge]) = Map.empty" "seq_map [] = Map.empty"
  by (simp_all add: seq_map_def)

section \<open>Gap tracking\<close>

lemma word_between: "(s::64 word) < seq \<Longrightarrow> s \<le> x \<and> x < seq \<longleftrightarrow> x = s \<or> s + 1 \<le> x \<and> x < seq"
  by (auto simp: word_le_nat_alt word_less_nat_alt word_step [unfolded word_less_nat_alt] word_unat_eq_iff)

lemma word_succ_le: "(n::64 word) < m \<Longrightarrow> n < s \<longleftrightarrow> n + 1 \<le> s"
  by (auto simp: word_le_nat_alt word_less_nat_alt word_step [unfolded word_less_nat_alt])

lemma add_missing_ok:
  assumes "distinct missing" and "length missing \<le> maxMissingSeqs" and "add_missing s seq missing overflow = (missing', overflow')"
  shows "distinct missing' \<and> length missing' \<le> maxMissingSeqs \<and> set missing' \<subseteq> set missing \<union> {x. s \<le> x \<and> x < seq}
    \<and> (overflow \<longrightarrow> overflow') \<and> (\<not> overflow' \<longrightarrow> set missing' = set missing \<union> {x. s \<le> x \<and> x < seq})"
  using assms
proof (induction s seq missing overflow rule: add_missing.induct)
  case (1 s seq missing overflow)
  show ?case
  proof (cases "s < seq \<and> length missing < maxMissingSeqs")
    case True
    then have r: "add_missing (s + 1) seq (List.insert s missing) overflow = (missing', overflow')"
      using 1(4) by (subst (asm) add_missing.simps) (simp add: not_le)
    have "distinct (List.insert s missing)" "length (List.insert s missing) \<le> maxMissingSeqs"
      using 1(2) True by (simp_all add: List.insert_def)
    note ih = 1(1) [OF _ _ this r]
    have "{x. s \<le> x \<and> x < seq} = insert s {x. s + 1 \<le> x \<and> x < seq}" using word_between [of s seq] True by auto
    then show ?thesis using ih True by auto
  next
    case False
    then have "missing' = missing \<and> (if s < seq then overflow' else overflow' = overflow)"
      using 1(4) by (subst (asm) add_missing.simps) (auto split: if_splits)
    then show ?thesis using 1(2,3) by (auto split: if_splits)
  qed
qed

text \<open>The first number other than zero an enrollment saw: the baseline.\<close>

definition baseline :: "64 word list \<Rightarrow> 64 word" where
  "baseline seen = (case filter (\<lambda>s. s \<noteq> 0) seen of [] \<Rightarrow> 0 | s # _ \<Rightarrow> s)"

definition unseen :: "64 word list \<Rightarrow> 64 word \<Rightarrow> 64 word set" where
  "unseen seen n = {s. baseline seen < s \<and> s < n \<and> s \<notin> set seen}"

definition gap_inv :: "'l frames \<Rightarrow> bool" where
  "gap_inv h \<longleftrightarrow> distinct (hf_missing h) \<and> length (hf_missing h) \<le> maxMissingSeqs \<and> hf_lastSeq h = Max (insert 0 (set (hf_seen h)))
    \<and> set (hf_missing h) \<subseteq> unseen (hf_seen h) (hf_lastSeq h)
    \<and> (\<not> hf_gapOverflow h \<longrightarrow> set (hf_missing h) = unseen (hf_seen h) (hf_lastSeq h))"

lemma baseline_append: "baseline (seen @ [s]) = (if baseline seen = 0 then s else baseline seen)"
  by (auto simp: baseline_def split: list.split) (metis (mono_tags) filter_eq_Cons_iff)+

lemma baseline_in: "baseline seen \<noteq> 0 \<Longrightarrow> baseline seen \<in> set seen"
  by (auto simp: baseline_def split: list.splits) (metis filter_eq_Cons_iff in_set_conv_decomp)

lemma baseline_zero: "baseline seen = 0 \<longleftrightarrow> (\<forall>s \<in> set seen. s = 0)"
  by (auto simp: baseline_def filter_eq_Cons_iff filter_empty_conv split: list.split)

lemma Max_append: "Max (insert 0 (set (seen @ [s::64 word]))) = max s (Max (insert 0 (set seen)))"
  by (simp add: insert_commute [of 0 s])

lemma gap_inv_record: "gap_inv h \<Longrightarrow> gap_inv (recordSeq seq h)"
proof -
  assume inv: "gap_inv h"
  let ?last = "hf_lastSeq h" and ?seen = "hf_seen h"
  have last: "?last = Max (insert 0 (set ?seen))" and d: "distinct (hf_missing h)" "length (hf_missing h) \<le> maxMissingSeqs" using inv by (simp_all add: gap_inv_def)
  have ge: "s \<le> ?last" if "s \<in> set ?seen" for s using that by (simp add: last)
  have zero: "?last = 0 \<longleftrightarrow> baseline ?seen = 0"
    unfolding baseline_zero last by (metis List.finite_set Max_ge Max_in finite_insert insertCI insertE insert_not_empty word_le_0_iff)
  show ?thesis
  proof (cases "seq \<le> ?last")
    case True
    have b: "baseline (?seen @ [seq]) = baseline ?seen" using True zero by (auto simp: baseline_append)
    have "unseen (?seen @ [seq]) ?last = unseen ?seen ?last - {seq}" by (auto simp: unseen_def b)
    moreover have "Max (insert 0 (set (?seen @ [seq]))) = ?last" using True by (simp only: Max_append last [symmetric]) simp
    moreover have "length (removeAll seq (hf_missing h)) \<le> maxMissingSeqs" using d(2) length_filter_le by (simp add: removeAll_filter_not_eq) (meson le_trans length_filter_le)
    ultimately show ?thesis using True inv by (auto simp: gap_inv_def recordSeq_def distinct_removeAll Let_def)
  next
    case False
    then have new: "Max (insert 0 (set (?seen @ [seq]))) = seq" using False by (simp only: Max_append last [symmetric]) simp
    have fresh: "seq \<notin> set ?seen" using ge False by auto
    have un: "unseen (?seen @ [seq]) seq = (if ?last = 0 then {} else unseen ?seen ?last \<union> {s. ?last + 1 \<le> s \<and> s < seq})"
    proof (cases "?last = 0")
      case True
      then show ?thesis using zero by (auto simp: unseen_def baseline_append)
    next
      case nz: False
      have b: "baseline ?seen \<in> set ?seen" using zero nz baseline_in by blast
      have l: "?last \<in> set ?seen" using nz last by (metis List.finite_set Max_in finite_insert insertE insert_not_empty)
      have step: "?last < s \<longleftrightarrow> ?last + 1 \<le> s" for s using False by (intro word_succ_le [of ?last seq]) simp
      have b': "baseline (?seen @ [seq]) = baseline ?seen" using zero nz by (simp add: baseline_append)
      have "x \<in> unseen (?seen @ [seq]) seq \<longleftrightarrow> x \<in> unseen ?seen ?last \<or> ?last < x \<and> x < seq" for x
      proof (cases x ?last rule: linorder_cases)
        case less
        then show ?thesis using False by (auto simp: unseen_def b')
      next
        case equal
        then show ?thesis using l by (auto simp: unseen_def b')
      next
        case greater
        then have "x \<notin> set ?seen" "baseline ?seen < x" using ge [of x] ge [OF b] by auto
        then show ?thesis using greater by (auto simp: unseen_def b')
      qed
      then show ?thesis using nz step by auto
    qed
    show ?thesis
    proof (cases "?last \<noteq> 0 \<and> ?last + 1 < seq")
      case True
      obtain m ov where a: "add_missing (?last + 1) seq (hf_missing h) (hf_gapOverflow h) = (m, ov)" by fastforce
      note ok = add_missing_ok [OF d a]
      have "recordSeq seq h = h\<lparr>hf_seen := ?seen @ [seq], hf_missing := m, hf_gapOverflow := ov, hf_lastSeq := seq\<rparr>"
        using False True a by (simp add: recordSeq_def Let_def)
      then show ?thesis using ok inv True un new by (auto simp: gap_inv_def)
    next
      case no: False
      have "{s. ?last + 1 \<le> s \<and> s < seq} = {}" if "?last \<noteq> 0" using no that by auto
      moreover have "set (hf_missing h) = {}" if "?last = 0" using inv that by (auto simp: gap_inv_def unseen_def)
      moreover have "recordSeq seq h = h\<lparr>hf_seen := ?seen @ [seq], hf_lastSeq := seq\<rparr>" using False no by (auto simp: recordSeq_def Let_def)
      ultimately show ?thesis using inv un new by (auto simp: gap_inv_def unseen_def split: if_splits)
    qed
  qed
qed

section \<open>Order of lifecycle frames\<close>

definition later_pub :: "publication \<Rightarrow> publication \<Rightarrow> bool" where
  "later_pub p q \<longleftrightarrow> (pb_gen p = pb_gen q \<and> ss_session_id (pb_status p) = ss_session_id (pb_status q) \<longrightarrow> pb_seq p < pb_seq q)"

text \<open>The frame in flight for a session: it is of the current enrollment, and an accepted one is newer than all published.\<close>

fun flight_ok :: "'l frames \<Rightarrow> string \<Rightarrow> flight \<Rightarrow> bool" where
  "flight_ok h sid (Recorded ev sf) \<longleftrightarrow> re_SessionID ev = sid \<and> (re_EnrollGen ev = 0 \<or> re_EnrollGen ev = hf_enrollGen h)
     \<and> sf_state sf \<noteq> AGENT_SESSION_STATE_UNSPECIFIED"
| "flight_ok h sid (Accepted ev sf binding) \<longleftrightarrow> re_SessionID ev = sid \<and> (re_EnrollGen ev = 0 \<or> re_EnrollGen ev = hf_enrollGen h)
     \<and> sf_state sf \<noteq> AGENT_SESSION_STATE_UNSPECIFIED \<and> (\<forall>b. binding = Some b \<longrightarrow> sb_runnerID b = re_RunnerID ev)
     \<and> seq_map (hf_seq_ops h) sid = Some (re_RunnerSeq ev)
     \<and> (\<forall>p \<in> set (hf_published h). pb_gen p = hf_enrollGen h \<and> ss_session_id (pb_status p) = sid \<longrightarrow> pb_seq p < re_RunnerSeq ev)"

definition last_published :: "string \<Rightarrow> 'l frames \<Rightarrow> session_status option" where
  "last_published sid h = (case rev (filter (\<lambda>p. ss_session_id (pb_status p) = sid) (hf_published h)) of [] \<Rightarrow> None | p # _ \<Rightarrow> Some (pb_status p))"

definition pub_ok :: "publication \<Rightarrow> bool" where
  "pub_ok p \<longleftrightarrow> (pb_event_gen p = 0 \<or> pb_event_gen p = pb_gen p) \<and> ss_state (pb_status p) \<noteq> AGENT_SESSION_STATE_UNSPECIFIED
    \<and> (case pb_binding p of None \<Rightarrow> ss_agent_account_id (pb_status p) = []
       | Some b \<Rightarrow> sb_runnerID b = pb_runner p \<and> ss_agent_account_id (pb_status p) = sb_account b)"

definition order_inv :: "'l seq_cache \<Rightarrow> 'l frames \<Rightarrow> bool" where
  "order_inv C h \<longleftrightarrow> hf_seqs h = fold (seq_apply C) (hf_seq_ops h) (sc_New C maxLifecycleSeqs)
    \<and> sorted_wrt later_pub (hf_published h) \<and> (\<forall>p \<in> set (hf_published h). pb_gen p \<le> hf_enrollGen h \<and> pub_ok p)
    \<and> (\<forall>p \<in> set (hf_published h). pb_gen p = hf_enrollGen h \<longrightarrow>
         (\<exists>l. seq_map (hf_seq_ops h) (ss_session_id (pb_status p)) = Some l \<and> pb_seq p \<le> l))
    \<and> (\<forall>sid f. gm_get (hf_flight h) sid = Some f \<longrightarrow> flight_ok h sid f)
    \<and> (\<forall>sid. sid \<noteq> [] \<longrightarrow> map_option (statusOf sid) (gm_get (pj_sessions (hf_board h)) sid) = last_published sid h)"

lemma order_inv_new: "order_inv C (newFrames C (NewProjection b) db)"
  by (simp add: order_inv_def newFrames_def NewProjection_def last_published_def)

text \<open>Steps that touch neither the cache, the publications nor the enrollment.\<close>

definition same_order :: "'l frames \<Rightarrow> 'l frames \<Rightarrow> bool" where
  "same_order h h' \<longleftrightarrow> hf_seqs h' = hf_seqs h \<and> hf_seq_ops h' = hf_seq_ops h \<and> hf_published h' = hf_published h \<and> hf_enrollGen h' = hf_enrollGen h
    \<and> hf_board h' = hf_board h"

lemma order_inv_same:
  assumes "order_inv C h" and "same_order h h'" and "\<And>sid f. gm_get (hf_flight h') sid = Some f \<Longrightarrow> gm_get (hf_flight h) sid = Some f \<or> flight_ok h sid f"
  shows "order_inv C h'"
proof -
  have "flight_ok h' sid f = flight_ok h sid f" for sid f using assms(2) by (cases f) (simp_all add: same_order_def)
  then have "\<forall>sid f. gm_get (hf_flight h') sid = Some f \<longrightarrow> flight_ok h' sid f" using assms(1,3) unfolding order_inv_def by blast
  then show ?thesis using assms(1,2) by (simp add: order_inv_def same_order_def last_published_def)
qed

lemma order_inv_keep: "order_inv C h \<Longrightarrow> same_order h h' \<Longrightarrow> hf_flight h' = hf_flight h \<Longrightarrow> order_inv C h'"
  by (erule (1) order_inv_same) simp

lemma deliverAck_same: "same_order h (deliverAck sc ag cf af mid h) \<and> hf_flight (deliverAck sc ag cf af mid h) = hf_flight h"
  by (auto simp: deliverAck_def same_order_def countDroppedAck_def split: option.split prod.split)

lemma forgeAck_same: "same_order h (forgeNotificationAck sc ag ad sub rv h) \<and> hf_flight (forgeNotificationAck sc ag ad sub rv h) = hf_flight h"
  by (auto simp: forgeNotificationAck_def same_order_def countDroppedAck_def split: option.split)

lemma recordSeq_same: "same_order h (recordSeq seq h) \<and> hf_flight (recordSeq seq h) = hf_flight h"
  by (auto simp: recordSeq_def same_order_def Let_def split: prod.split)

lemma same_order_trans: "same_order h h' \<Longrightarrow> same_order h' h'' \<Longrightarrow> same_order h h''"
  by (simp add: same_order_def)

lemma order_inv_begin: "order_inv C h \<Longrightarrow> order_inv C (frame_begin rd ev h)"
proof -
  assume inv: "order_inv C h"
  define h1 where "h1 = (if staleEnrollment ev h then h else recordSeq (re_RunnerSeq ev) h)"
  have s1: "same_order h h1" "hf_flight h1 = hf_flight h" using recordSeq_same [of h] by (auto simp: h1_def same_order_def)
  have ack: "order_inv C (deliverAck sc ag cf af mid h1)" "order_inv C (forgeNotificationAck sc ag ad sub rv h1)" for sc ag cf af mid ad sub rv
    by (rule order_inv_keep [OF inv], use same_order_trans [OF s1(1)] deliverAck_same [of h1] forgeAck_same [of h1] s1(2) in simp_all)+
  have "order_inv C h1" "order_inv C (countUnknown h1)" "order_inv C (h1\<lparr>hf_tail := t\<rparr>)" for t
    by (rule order_inv_keep [OF inv], use s1 in \<open>simp_all add: same_order_def countUnknown_def\<close>)+
  moreover have "order_inv C (h1\<lparr>hf_flight := gm_put (re_SessionID ev) (Recorded ev sf) (hf_flight h1)\<rparr>)"
    if "\<not> staleEnrollment ev h" "sf_state sf \<noteq> AGENT_SESSION_STATE_UNSPECIFIED" for sf
    by (rule order_inv_same [OF inv]) (use that s1 in \<open>auto simp: same_order_def staleEnrollment_def split: if_splits\<close>)
  ultimately show ?thesis using inv ack unfolding frame_begin_def Let_def h1_def [symmetric]
    by (auto simp: sessionState_def split: AgentFrame.split)
qed

lemma allowed_binding: "frameSession r cached found lc h = (Some b, True) \<Longrightarrow> sb_runnerID b = r"
  by (auto simp: frameSession_def Let_def split: if_splits option.splits bindingLookup.splits)

lemma order_flight: "order_inv C h \<Longrightarrow> gm_get (hf_flight h) sid = Some f \<Longrightarrow> flight_ok h sid f"
  unfolding order_inv_def by blast

lemma order_latest: "order_inv C h \<Longrightarrow> p \<in> set (hf_published h) \<Longrightarrow> pb_gen p = hf_enrollGen h \<Longrightarrow>
    \<exists>l. seq_map (hf_seq_ops h) (ss_session_id (pb_status p)) = Some l \<and> pb_seq p \<le> l"
  unfolding order_inv_def by blast

lemma order_cache: "order_inv C h \<Longrightarrow> hf_seqs h = fold (seq_apply C) (hf_seq_ops h) (sc_New C maxLifecycleSeqs)"
  by (simp add: order_inv_def)

lemma order_pubs: "order_inv C h \<Longrightarrow> sorted_wrt later_pub (hf_published h) \<and> (\<forall>p \<in> set (hf_published h). pb_gen p \<le> hf_enrollGen h \<and> pub_ok p)"
  by (simp add: order_inv_def)

lemma order_board: "order_inv C h \<Longrightarrow> sid \<noteq> [] \<Longrightarrow> map_option (statusOf sid) (gm_get (pj_sessions (hf_board h)) sid) = last_published sid h"
  unfolding order_inv_def by blast

lemma order_invI:
  assumes "hf_seqs h = fold (seq_apply C) (hf_seq_ops h) (sc_New C maxLifecycleSeqs)"
    and "sorted_wrt later_pub (hf_published h)" and "\<And>p. p \<in> set (hf_published h) \<Longrightarrow> pb_gen p \<le> hf_enrollGen h \<and> pub_ok p"
    and "\<And>p. p \<in> set (hf_published h) \<Longrightarrow> pb_gen p = hf_enrollGen h \<Longrightarrow>
      \<exists>l. seq_map (hf_seq_ops h) (ss_session_id (pb_status p)) = Some l \<and> pb_seq p \<le> l"
    and "\<And>sid f. gm_get (hf_flight h) sid = Some f \<Longrightarrow> flight_ok h sid f"
    and "\<And>sid. sid \<noteq> [] \<Longrightarrow> map_option (statusOf sid) (gm_get (pj_sessions (hf_board h)) sid) = last_published sid h"
  shows "order_inv C h"
  using assms unfolding order_inv_def by blast

text \<open>A lookup that finds nothing newer changes the cache's bookkeeping and not its contents.\<close>

lemma order_inv_get:
  assumes inv: "order_inv C h"
  shows "order_inv C (h\<lparr>hf_flight := gm_del sid (hf_flight h), hf_seqs := snd (sc_Get C (hf_seqs h) sid), hf_seq_ops := hf_seq_ops h @ [SGet sid]\<rparr>)"
    (is "order_inv C ?h")
proof (rule order_invI)
  fix sid' f
  assume "gm_get (hf_flight ?h) sid' = Some f"
  then have "flight_ok h sid' f" using order_flight [OF inv] by (simp split: if_splits)
  then show "flight_ok ?h sid' f" by (cases f) simp_all
qed (use order_cache [OF inv] order_pubs [OF inv] order_latest [OF inv] order_board [OF inv] in \<open>simp_all add: last_published_def\<close>)

lemma order_inv_add:
  assumes inv: "order_inv C h" and fl: "flight_ok h sid (Recorded ev sf)" and b: "\<And>b. binding = Some b \<Longrightarrow> sb_runnerID b = re_RunnerID ev"
    and new: "\<And>l. seq_map (hf_seq_ops h) sid = Some l \<Longrightarrow> l < re_RunnerSeq ev"
  shows "order_inv C (h\<lparr>hf_seqs := sc_Add C sid (re_RunnerSeq ev) (snd (sc_Get C (hf_seqs h) sid)),
      hf_seq_ops := hf_seq_ops h @ [SGet sid, SAdd sid (re_RunnerSeq ev)],
      hf_flight := gm_put sid (Accepted ev sf binding) (hf_flight h), hf_tail := hf_tail h @ [(sid, sf)]\<rparr>)" (is "order_inv C ?h")
proof (rule order_invI)
  have newer: "pb_seq p < re_RunnerSeq ev" if "p \<in> set (hf_published h)" "pb_gen p = hf_enrollGen h" "ss_session_id (pb_status p) = sid" for p
    using order_latest [OF inv that(1,2)] new that(3) by fastforce
  show "flight_ok ?h sid' f'" if "gm_get (hf_flight ?h) sid' = Some f'" for sid' f'
  proof (cases "sid' = sid")
    case True
    then show ?thesis using that fl b newer by auto
  next
    case False
    then have "flight_ok h sid' f'" using that order_flight [OF inv] by simp
    then show ?thesis using False by (cases f') simp_all
  qed
  show "\<exists>l. seq_map (hf_seq_ops ?h) (ss_session_id (pb_status p)) = Some l \<and> pb_seq p \<le> l"
    if "p \<in> set (hf_published ?h)" "pb_gen p = hf_enrollGen ?h" for p
    using order_latest [OF inv, of p] newer [of p] that by (auto simp: less_imp_le)
qed (use order_cache [OF inv] order_pubs [OF inv] order_board [OF inv] in \<open>simp_all add: last_published_def\<close>)

lemma order_inv_unlock: "order_inv C h \<Longrightarrow> order_inv C (h\<lparr>hf_flight := gm_del sid (hf_flight h)\<rparr>)"
  by (erule order_inv_same) (auto simp: same_order_def split: if_splits)

lemma order_inv_accept:
  assumes laws: "seq_laws C maxLifecycleSeqs" and inv: "order_inv C h" and few: "card (dom (seq_map (hf_seq_ops h))) \<le> maxLifecycleSeqs"
  shows "order_inv C (lifecycle_accept C sid cached found h)"
proof (cases "gm_get (hf_flight h) sid")
  case (Some f)
  show ?thesis
  proof (cases f)
    case (Recorded ev sf)
    obtain binding allowed where g: "frameSession (re_RunnerID ev) cached found True h = (binding, allowed)" by fastforce
    obtain latest seqs where get: "sc_Get C (hf_seqs h) sid = (latest, seqs)" by fastforce
    have latest: "latest = seq_map (hf_seq_ops h) sid"
      using laws few get unfolding seq_laws_def order_cache [OF inv] by (metis fst_conv)
    show ?thesis
    proof (cases "allowed \<and> (case latest of None \<Rightarrow> True | Some l \<Rightarrow> l < re_RunnerSeq ev)")
      case True
      have "flight_ok h sid (Recorded ev sf)" using order_flight [OF inv Some] Recorded by simp
      moreover have "sb_runnerID b = re_RunnerID ev" if "binding = Some b" for b using allowed_binding g True that by fastforce
      moreover have "l < re_RunnerSeq ev" if "seq_map (hf_seq_ops h) sid = Some l" for l using True latest that by simp
      ultimately show ?thesis using order_inv_add [OF inv, of sid ev sf binding] Some Recorded g get True
        by (simp add: lifecycle_accept_def Let_def)
    next
      case False
      then show ?thesis using order_inv_unlock [OF inv, of sid] order_inv_get [OF inv, of sid] Some Recorded g get
        by (auto simp: lifecycle_accept_def Let_def)
    qed
  qed (use inv Some in \<open>simp add: lifecycle_accept_def\<close>)
qed (use inv in \<open>simp add: lifecycle_accept_def\<close>)

lemma last_published_append: "last_published sid (h\<lparr>hf_published := ps @ [p]\<rparr>)
    = (if ss_session_id (pb_status p) = sid then Some (pb_status p) else last_published sid (h\<lparr>hf_published := ps\<rparr>))"
  by (simp add: last_published_def)

lemma order_inv_publish:
  assumes inv: "order_inv C h"
  shows "order_inv C (lifecycle_publish tp now sid h)"
proof (cases "gm_get (hf_flight h) sid")
  case (Some f)
  show ?thesis
  proof (cases f)
    case (Accepted ev sf binding)
    let ?h = "lifecycle_publish tp now sid h" and ?s = "status_of ev sf binding h"
    define p where "p = \<lparr>pb_gen = hf_enrollGen h, pb_event_gen = re_EnrollGen ev, pb_runner = re_RunnerID ev,
      pb_seq = re_RunnerSeq ev, pb_binding = binding, pb_status = ?s\<rparr>"
    have fl: "flight_ok h sid (Accepted ev sf binding)" using order_flight [OF inv Some] Accepted by simp
    have h: "hf_seqs ?h = hf_seqs h" "hf_seq_ops ?h = hf_seq_ops h" "hf_published ?h = hf_published h @ [p]" "hf_enrollGen ?h = hf_enrollGen h"
      "hf_flight ?h = gm_del sid (hf_flight h)" "hf_board ?h = PublishSessionStatus tp now (Some ?s) (hf_board h)"
      using Some Accepted by (simp_all add: lifecycle_publish_def Let_def p_def)
    have s: "ss_session_id ?s = sid" "ss_state ?s \<noteq> AGENT_SESSION_STATE_UNSPECIFIED" using fl by (simp_all add: status_of_def)
    have "pub_ok p" using fl by (auto simp: pub_ok_def p_def status_of_def split: option.split)
    moreover have "later_pub q p" if "q \<in> set (hf_published h)" for q using fl that s by (auto simp: later_pub_def p_def)
    moreover have "flight_ok ?h sid' f'" if "gm_get (hf_flight ?h) sid' = Some f'" for sid' f'
    proof -
      have "flight_ok h sid' f'" "sid' \<noteq> sid" using that order_flight [OF inv] h by (simp_all split: if_splits)
      then show ?thesis using s by (cases f') (auto simp: h p_def)
    qed
    moreover have "map_option (statusOf i) (gm_get (pj_sessions (hf_board ?h)) i) = last_published i ?h" if "i \<noteq> []" for i
      using order_board [OF inv that] s that
      by (auto simp: h PublishSessionStatus_def last_published_def statusOf_def p_def)
    moreover have "\<exists>l. seq_map (hf_seq_ops h) sid = Some l \<and> re_RunnerSeq ev \<le> l" using fl by simp
    ultimately show ?thesis using order_cache [OF inv] order_pubs [OF inv] order_latest [OF inv] s
      by (intro order_invI) (auto simp: h p_def sorted_wrt_append)
  qed (use inv Some in \<open>simp add: lifecycle_publish_def\<close>)
qed (use inv in \<open>simp add: lifecycle_publish_def\<close>)

lemma order_inv_enroll:
  assumes inv: "order_inv C h"
  shows "order_inv C (frames_enroll C rid tier posture h)"
proof (cases "hf_flight h = []")
  case True
  have "pb_gen p \<noteq> hf_enrollGen h + 1" if "p \<in> set (hf_published h)" for p using order_pubs [OF inv] that by auto
  then show ?thesis using True order_cache [OF inv] order_pubs [OF inv] order_board [OF inv]
    by (intro order_invI) (auto simp: frames_enroll_def last_published_def)
qed (use inv in \<open>simp add: frames_enroll_def\<close>)

lemma order_inv_step: "seq_laws C maxLifecycleSeqs \<Longrightarrow> order_inv C h \<Longrightarrow> frame_ok op h \<Longrightarrow> order_inv C (frame_exec C op h)"
proof (cases op)
  case (DeliveryStep db)
  assume "order_inv C h"
  then show ?thesis unfolding DeliveryStep by (rule order_inv_keep) (simp_all add: same_order_def)
qed (simp_all add: order_inv_begin order_inv_accept order_inv_publish order_inv_enroll)

section \<open>Every run\<close>

interpretation frame_order: op_system frame_ok "frame_exec C" "\<lambda>h. seq_laws C maxLifecycleSeqs \<and> order_inv C h" for C
  by unfold_locales (simp add: order_inv_step)

text \<open>Steps that leave the numbers alone.\<close>

definition same_gap :: "'l frames \<Rightarrow> 'l frames \<Rightarrow> bool" where
  "same_gap h h' \<longleftrightarrow> hf_lastSeq h' = hf_lastSeq h \<and> hf_missing h' = hf_missing h \<and> hf_gapOverflow h' = hf_gapOverflow h \<and> hf_seen h' = hf_seen h"

lemma gap_inv_same: "same_gap h h' \<Longrightarrow> gap_inv h' = gap_inv h"
  by (simp add: same_gap_def gap_inv_def)

lemma ack_same_gap: "same_gap h (deliverAck sc ag cf af mid h)" "same_gap h (forgeNotificationAck sc ag ad sub rv h)"
  by (auto simp: deliverAck_def forgeNotificationAck_def same_gap_def countDroppedAck_def split: option.split prod.split)

lemma lifecycle_same_gap: "same_gap h (lifecycle_accept C sid cached found h)" "same_gap h (lifecycle_publish tp now sid h)"
  by (auto simp: lifecycle_accept_def lifecycle_publish_def same_gap_def Let_def split: option.split flight.split prod.split)

lemma begin_same_gap: "\<exists>h1. h1 \<in> {h, recordSeq (re_RunnerSeq ev) h} \<and> same_gap h1 (frame_begin rd ev h)"
proof -
  define h1 where "h1 = (if staleEnrollment ev h then h else recordSeq (re_RunnerSeq ev) h)"
  have "same_gap h1 h1" "same_gap h1 (countUnknown h1)" "same_gap h1 (h1\<lparr>hf_tail := t\<rparr>)" "same_gap h1 (h1\<lparr>hf_flight := fl\<rparr>)" for t fl
    by (simp_all add: same_gap_def countUnknown_def)
  then have "same_gap h1 (frame_begin rd ev h) \<or> frame_begin rd ev h = h" unfolding frame_begin_def Let_def h1_def [symmetric]
    using ack_same_gap [of h1] by (auto split: AgentFrame.split)
  moreover have "h1 \<in> {h, recordSeq (re_RunnerSeq ev) h}" by (simp add: h1_def)
  ultimately show ?thesis by (metis insertI1 same_gap_def)
qed

lemma gap_inv_step: "gap_inv h \<Longrightarrow> gap_inv (frame_exec C op h)"
proof (cases op)
  case (FrameBegin rd ev)
  assume "gap_inv h"
  then show ?thesis unfolding FrameBegin frame_exec.simps by (metis begin_same_gap empty_iff gap_inv_record gap_inv_same insertE)
next
  case (FrameAccept sid cached found)
  assume "gap_inv h"
  then show ?thesis unfolding FrameAccept frame_exec.simps gap_inv_same [OF lifecycle_same_gap(1)] .
next
  case (FramePublish tp now sid)
  assume "gap_inv h"
  then show ?thesis unfolding FramePublish frame_exec.simps gap_inv_same [OF lifecycle_same_gap(2)] .
next
  case (FramesEnroll rid tier posture)
  assume "gap_inv h"
  then show ?thesis unfolding FramesEnroll by (cases "hf_flight h = []") (simp_all add: frames_enroll_def, simp add: gap_inv_def unseen_def)
next
  case (DeliveryStep db)
  assume "gap_inv h"
  then show ?thesis unfolding DeliveryStep frame_exec.simps by (subst gap_inv_same [of h]) (simp_all add: same_gap_def)
qed

interpretation frame_gap: free_system "frame_exec C" gap_inv for C
  by unfold_locales (rule gap_inv_step)

lemma gap_inv_new: "gap_inv (newFrames C board db)"
  by (simp add: gap_inv_def newFrames_def unseen_def)

abbreviation frame_run :: "'l seq_cache \<Rightarrow> 'l frames \<Rightarrow> 'l frames \<Rightarrow> bool" where
  "frame_run C \<equiv> reaches frame_ok (frame_exec C)"

section \<open>Properties\<close>

text \<open>C6: the board shows each session's latest lifecycle frame, however the frames of the sessions interleave, streams of earlier enrollments linger and enrollments come between. In
  every reachable state the published frames of one session in one enrollment carry increasing Runner numbers, none came from a stream of another enrollment,
  and a frame names an agent account only from a binding of the very Runner that sent it; and the snapshot of a session is the status published last for it.
  The cache of latest numbers behaves as documented and no more sessions than it holds had lifecycle frames since the enrollment.\<close>

theorem board_shows_latest:
  assumes "seq_laws C maxLifecycleSeqs" and "frame_run C (newFrames C (NewProjection bus) db) h"
  shows "sorted_wrt (\<lambda>p q. pb_gen p = pb_gen q \<and> ss_session_id (pb_status p) = ss_session_id (pb_status q) \<longrightarrow> pb_seq p < pb_seq q) (hf_published h)
    \<and> (\<forall>p \<in> set (hf_published h). pb_event_gen p \<in> {0, pb_gen p}
         \<and> (ss_agent_account_id (pb_status p) \<noteq> [] \<longrightarrow>
             (\<exists>b. pb_binding p = Some b \<and> sb_runnerID b = pb_runner p \<and> ss_agent_account_id (pb_status p) = sb_account b)))
    \<and> (sid \<noteq> [] \<longrightarrow> Snapshot sid (hf_board h) = (case rev (filter (\<lambda>p. ss_session_id (pb_status p) = sid) (hf_published h)) of
          [] \<Rightarrow> [] | p # _ \<Rightarrow> [pb_status p]))"
proof -
  have "seq_laws C maxLifecycleSeqs \<and> order_inv C h" by (rule frame_order.reaches_inv [OF assms(2)]) (simp add: assms(1) order_inv_new)
  then have inv: "order_inv C h" ..
  have "sorted_wrt later_pub (hf_published h)" using order_pubs [OF inv] ..
  moreover have "pb_event_gen p \<in> {0, pb_gen p} \<and> (ss_agent_account_id (pb_status p) \<noteq> [] \<longrightarrow>
      (\<exists>b. pb_binding p = Some b \<and> sb_runnerID b = pb_runner p \<and> ss_agent_account_id (pb_status p) = sb_account b))"
    if "p \<in> set (hf_published h)" for p using order_pubs [OF inv] that by (auto simp: pub_ok_def split: option.splits)
  moreover have "Snapshot sid (hf_board h) = (case last_published sid h of None \<Rightarrow> [] | Some s \<Rightarrow> [s])" if "sid \<noteq> []"
    using that by (simp add: Snapshot_def order_board [OF inv that, symmetric] split: option.split)
  ultimately show ?thesis
    unfolding later_pub_def [abs_def] last_published_def by (simp split: list.split)
qed

text \<open>A cache that keeps every key, and an enrollment in which the older of two frames of one session arrives last.\<close>

definition list_cache :: "(string, 64 word) gomap seq_cache" where
  "list_cache = \<lparr>sc_New = (\<lambda>_. []), sc_Get = (\<lambda>c k. (gm_get c k, c)), sc_Add = gm_put, sc_Purge = (\<lambda>_. [])\<rparr>"

lemma list_cache_get: "gm_get (fold (seq_apply list_cache) ops c) k = fold seq_step ops (gm_get c) k"
proof (induction ops arbitrary: c)
  case (Cons op ops)
  have "gm_get (seq_apply list_cache op c) = seq_step op (gm_get c)" by (cases op) (auto simp: list_cache_def fun_eq_iff)
  then show ?case using Cons by simp
qed simp

lemma list_cache_laws: "seq_laws list_cache n"
  using list_cache_get [of _ "[]"] by (simp add: seq_laws_def seq_map_def list_cache_def fun_eq_iff)

definition demo_reads :: frame_reads where
  "demo_reads = \<lparr>fr_cached = None, fr_found = bindingNotFound, fr_scoped = True, fr_agent = Some ''a'', fr_channelFault = False, fr_ackFault = False,
     fr_advanced = True\<rparr>"

definition demo_event :: "64 word \<Rightarrow> agent_session_state \<Rightarrow> RunnerEvent" where
  "demo_event seq state = \<lparr>re_RunnerSeq = seq, re_SessionID = ''s'', re_RunnerID = ''r'',
     re_Frame = AgentFrame_Session \<lparr>sf_state = state, sf_turn_sequence = 0\<rparr>, re_EnrollGen = 2\<rparr>"

definition demo_frames :: "frame_op list" where
  "demo_frames = [FramesEnroll ''r'' 1 0, FrameBegin demo_reads (demo_event 2 AGENT_SESSION_STATE_STOPPED), FrameAccept ''s'' None bindingNotFound,
     FramePublish ''t'' 0 ''s'', FrameBegin demo_reads (demo_event 1 AGENT_SESSION_STATE_WORKING), FrameAccept ''s'' None bindingNotFound,
     FramePublish ''t'' 0 ''s'']"

theorem board_shows_latest_witness:
  "map ss_state (Snapshot ''s'' (hf_board (fold (frame_exec list_cache) demo_frames (newFrames list_cache (NewProjection (NewBus 7)) None))))
    = [AGENT_SESSION_STATE_STOPPED]"
proof -
  let ?h0 = "newFrames list_cache (NewProjection (NewBus 7)) None" and ?run = "\<lambda>h. fold (frame_exec list_cache) demo_frames h"
  have "admitted frame_ok (frame_exec list_cache) demo_frames ?h0"
    by (simp add: demo_frames_def demo_event_def demo_reads_def newFrames_def frame_begin_def lifecycle_accept_def lifecycle_publish_def frames_enroll_def recordSeq_def
      staleEnrollment_def sessionState_def frameSession_def list_cache_def maxLifecycleSeqs_def seq_map_def Let_def)
  then have "frame_run list_cache ?h0 (?run ?h0)" by (rule reaches_fold)
  from board_shows_latest [OF list_cache_laws this, of "''s''"]
  have "Snapshot ''s'' (hf_board (?run ?h0)) = (case rev (filter (\<lambda>p. ss_session_id (pb_status p) = ''s'') (hf_published (?run ?h0))) of [] \<Rightarrow> [] | p # _ \<Rightarrow> [pb_status p])"
    by simp
  moreover have "map (\<lambda>p. ss_state (pb_status p)) (filter (\<lambda>p. ss_session_id (pb_status p) = ''s'') (hf_published (?run ?h0))) = [AGENT_SESSION_STATE_STOPPED]" by code_simp
  ultimately show ?thesis by (auto simp: map_eq_Cons_conv)
qed

text \<open>C19: the gap flag is exact. The hub keeps at most 4096 missing numbers. As long as it never had to drop one, the flag is up exactly
  when some number above the first one the enrollment saw and below the latest has not been seen, the latest being the largest seen; and once it had to drop one the flag stays up.\<close>

theorem gap_exact:
  "let h = fold (frame_exec C) ops (newFrames C board db)
   in length (hf_missing h) \<le> 4096 \<and> hf_lastSeq h = Max (insert 0 (set (hf_seen h)))
    \<and> (if hf_gapOverflow h then fd_SeenGap (FrameDiagnostics_of h)
       else fd_SeenGap (FrameDiagnostics_of h) = (\<exists>s. baseline (hf_seen h) < s \<and> s < hf_lastSeq h \<and> s \<notin> set (hf_seen h)))"
proof -
  define h where "h = fold (frame_exec C) ops (newFrames C board db)"
  have inv: "gap_inv h" unfolding h_def by (rule frame_gap.fold_inv [OF gap_inv_new])
  have "hf_missing h \<noteq> [] \<longleftrightarrow> unseen (hf_seen h) (hf_lastSeq h) \<noteq> {}" if "\<not> hf_gapOverflow h" using inv that by (simp add: gap_inv_def flip: set_empty)
  moreover have "length (hf_missing h) \<le> 4096" "hf_lastSeq h = Max (insert 0 (set (hf_seen h)))" using inv by (simp_all add: gap_inv_def maxMissingSeqs_def)
  ultimately show ?thesis unfolding h_def [symmetric] Let_def
    by (auto simp: FrameDiagnostics_of_def SeenGap_def unseen_def)
qed

text \<open>C18: an acknowledgement is applied or counted, never lost in silence. Whatever stream a frame that acknowledges a message came by, either the
  counter of dropped acknowledgements goes up and the delivery tables stay as they are, or the session had an account and the message exists, the tables change
  exactly by that account's acknowledgement in the message's channel, and no later sweep of the account lists the message.\<close>

theorem ack_applied_or_counted:
  assumes "delivery_run (NewDelivery env) st" and "hf_delivery h = Some (dh_db st)" and "re_Frame ev = AgentFrame_DeliveryAck mid"
  shows "hf_droppedAcks (frame_begin rd ev h) = hf_droppedAcks h + 1 \<and> hf_delivery (frame_begin rd ev h) = hf_delivery h
    \<or> hf_droppedAcks (frame_begin rd ev h) = hf_droppedAcks h
      \<and> (\<exists>a m. fr_agent rd = Some a \<and> m \<in> set (dd_messages (dh_db st)) \<and> mr_id m = mid
          \<and> hf_delivery (frame_begin rd ev h) = Some (dh_db (delivery_exec (Ack False a (mr_channel m) mid) st))
          \<and> (\<forall>st'. delivery_run (delivery_exec (Ack False a (mr_channel m) mid) st) st' \<longrightarrow> mr_seq m \<notin> mr_seq ` set (swept a (mr_channel m) st')))"
proof -
  have inv: "delivery_inv st" by (rule delivery.reaches_inv [OF assms(1) delivery_inv_new])
  define h1 where "h1 = (if staleEnrollment ev h then h else recordSeq (re_RunnerSeq ev) h)"
  have h1: "hf_delivery h1 = Some (dh_db st)" "hf_droppedAcks h1 = hf_droppedAcks h"
    using assms(2) by (auto simp: h1_def recordSeq_def Let_def split: prod.split)
  have b: "frame_begin rd ev h = deliverAck (fr_scoped rd) (fr_agent rd) (fr_channelFault rd) (fr_ackFault rd) mid h1"
    using assms(3) by (simp add: frame_begin_def Let_def h1_def sessionState_def)
  show ?thesis
  proof (cases "hf_droppedAcks (frame_begin rd ev h) = hf_droppedAcks h + 1 \<and> hf_delivery (frame_begin rd ev h) = hf_delivery h")
    case False
    then obtain a ch where a: "fr_agent rd = Some a" "MessageChannel mid (dh_db st) = Some ch" "\<not> fr_ackFault rd"
      and eff: "hf_delivery (frame_begin rd ev h) = Some (fst (AckDelivery False a ch mid (dh_db st)))" "hf_droppedAcks (frame_begin rd ev h) = hf_droppedAcks h"
      using h1 assms(2) unfolding b deliverAck_def countDroppedAck_def by (auto simp: AckDelivery_def Let_def split: option.splits if_splits)
    obtain m where m: "m \<in> set (dd_messages (dh_db st))" "mr_id m = mid" "mr_channel m = ch"
      using a(2) by (auto simp: MessageChannel_def dest: find_SomeD)
    then show ?thesis using a eff ack_settles [OF inv m(1) m(3), of a] by (intro disjI2 conjI exI [of _ a] exI [of _ m]) (auto simp: Let_def)
  qed blast
qed

theorem ack_applied_or_counted_witness:
  "\<exists>a. hf_delivery (frame_begin demo_reads ((demo_event 1 AGENT_SESSION_STATE_STOPPED)\<lparr>re_Frame := AgentFrame_DeliveryAck ''m2''\<rparr>)
      (newFrames list_cache (NewProjection (NewBus 7)) (Some (dh_db demo_cursors))))
    = Some (dh_db (delivery_exec (Ack False a ''c'' ''m2'') demo_cursors))"
proof -
  let ?h = "newFrames list_cache (NewProjection (NewBus 7)) (Some (dh_db demo_cursors))"
    and ?ev = "(demo_event 1 AGENT_SESSION_STATE_STOPPED)\<lparr>re_Frame := AgentFrame_DeliveryAck ''m2''\<rparr>"
  have m: "mr_channel m = ''c''" if "m \<in> set (dd_messages (dh_db demo_cursors))" for m
  proof -
    have "list_all (\<lambda>m. mr_channel m = ''c'') (dd_messages (dh_db demo_cursors))" by code_simp
    then show ?thesis using that by (simp add: list_all_iff)
  qed
  have "hf_delivery ?h = Some (dh_db demo_cursors)" "re_Frame ?ev = AgentFrame_DeliveryAck ''m2''" by (simp_all add: newFrames_def)
  note ack = ack_applied_or_counted [OF demo_cursors_run this, of demo_reads]
  have "hf_droppedAcks (frame_begin demo_reads ?ev ?h) \<noteq> hf_droppedAcks ?h + 1" by code_simp
  then show ?thesis using ack m by metis
qed

end
