(* ===== verification/Runner_Control.thy ===== *)
theory Runner_Control
  imports Go_Prelude Op_System
begin

text \<open>
  The control lane of the Runner, \<open>src/go/internal/runner/gateway/control.go\<close>: the one way control operations reach an agent. An accepted operation is
  stamped with the session's next number and retained until the agent acknowledges it; a subscription (\<open>serve\<close>) drains what is retained
  to the agent's stream, a new subscription takes over from the one before, and a barrier holds live operations while a transcript
  is replayed.

  Every method first looks the session up under the producer's lock and then works under the session's lock, so each is
  two steps and anything may run in between: the first leaves an entry in \<open>cp_calls\<close>, \<open>Locked\<close> runs it. A retired
  session stays reachable for calls that looked it up before, so sessions are cells of a heap. A subscription is a
  goroutine, a \<open>drainer\<close>, with its own wake channel (one slot, \<open>dr_token\<close>, and \<open>dr_closed\<close>); it moves in steps between which it
  holds no lock. Numbers and generations are counters of 64 bits that do not wrap in the life of a process and are naturals here.

  Histories: \<open>rt_id\<close> tells accepted operations apart across renumbering, \<open>dr_written\<close> is the stream of a subscription,
  \<open>cp_accepted\<close> the accepted operations, \<open>cp_acked\<close> what left retention by an acknowledgement, \<open>cp_replaced\<close> what a restart left behind.
\<close>

section \<open>Operations and sessions\<close>

datatype control_variant = AC_Prompt string | AC_Steer "string option" | AC_Deliver "string option" | AC_Config | AC_Replay | AC_ReplayComplete
  | AC_ForgeNotification string | AC_StartNow | AC_Unset

record AgentControl =
  ac_ControlSeq :: nat
  ac_control :: control_variant

datatype control_error = ErrNoAgent | errEmptyControlVariant | errRetentionFull | errNoBoundSession

record retained =
  rt_seq :: nat
  rt_op :: AgentControl
  rt_id :: nat

record controlSession =
  cs_nextSeq :: nat
  cs_ops :: "retained list"
  cs_held :: bool
  cs_sub :: nat
  cs_wake :: "nat option"
  cs_live :: bool
  cs_retired :: bool
  cs_cursor :: nat
  cs_epoch :: nat

definition maxRetainedOps :: nat where
  "maxRetainedOps = 4096"

definition representable :: "AgentControl \<Rightarrow> bool" where
  "representable op = (case ac_control op of AC_Replay \<Rightarrow> False | AC_Config \<Rightarrow> False | AC_Steer m \<Rightarrow> m \<noteq> None | AC_Deliver m \<Rightarrow> m \<noteq> None
     | AC_Unset \<Rightarrow> False | _ \<Rightarrow> True)"

definition replayPath :: "AgentControl \<Rightarrow> bool" where
  "replayPath op = (case ac_control op of AC_ReplayComplete \<Rightarrow> True | AC_Replay \<Rightarrow> True | _ \<Rightarrow> False)"

section \<open>Acknowledged ranges\<close>

text \<open>\<open>slices.BinarySearch\<close>: the first index whose element is not below the target, and whether it holds the target.\<close>

function bsearch :: "nat list \<Rightarrow> nat \<Rightarrow> nat \<Rightarrow> nat \<Rightarrow> nat" where
  "bsearch xs target i j =
    (if i < j then (let h = (i + j) div 2 in if xs ! h < target then bsearch xs target (h + 1) j else bsearch xs target i h) else i)"
  by pat_completeness auto
termination
  by (relation "measure (\<lambda>(xs, target, i, j). j - i)") auto

declare bsearch.simps [simp del]

definition BinarySearch :: "nat list \<Rightarrow> nat \<Rightarrow> nat \<times> bool" where
  "BinarySearch xs target = (let i = bsearch xs target 0 (length xs) in (i, i < length xs \<and> xs ! i = target))"

fun cover_pairs :: "nat list \<Rightarrow> nat list \<Rightarrow> int list \<Rightarrow> int list" where
  "cover_pairs seqs (start # end' # pairs) cover =
    (if end' < start then cover_pairs seqs pairs cover
     else
      (let lo = fst (BinarySearch seqs start);
           (hi0, found) = BinarySearch seqs end';
           hi = (if found then hi0 + 1 else hi0)
       in if lo < hi
          then (let c1 = cover[lo := cover ! lo + 1] in cover_pairs seqs pairs (c1[hi := c1 ! hi - 1]))
          else cover_pairs seqs pairs cover))"
| "cover_pairs seqs _ cover = cover"

fun covered :: "nat list \<Rightarrow> int list \<Rightarrow> int \<Rightarrow> nat list" where
  "covered (seq # seqs) (c # cover) depth = (let d = depth + c in if 0 < d then seq # covered seqs cover d else covered seqs cover d)"
| "covered _ _ depth = []"

definition appliedRangesSet :: "nat list \<Rightarrow> nat list \<Rightarrow> nat list" where
  "appliedRangesSet appliedRanges retainedSeqs =
    (if appliedRanges = [] \<or> retainedSeqs = [] then []
     else
      (let seqs = sort (remdups retainedSeqs);
           pairs = take (2 * min (length appliedRanges div 2) maxRetainedOps) appliedRanges
       in covered seqs (cover_pairs seqs pairs (replicate (length seqs + 1) 0)) 0))"

definition boundedAboveSet :: "nat list \<Rightarrow> nat list \<Rightarrow> nat list" where
  "boundedAboveSet appliedAbove retainedSeqs = remdups (filter (\<lambda>seq. seq \<in> set retainedSeqs) appliedAbove)"

section \<open>The drain of a subscription\<close>

datatype serve_phase = LoopTop | Sending "retained list" | Writing retained "retained list" | Parked | Returning | Returned

record drainer =
  dr_session :: nat
  dr_phase :: serve_phase
  dr_mine :: nat
  dr_token :: bool
  dr_closed :: bool
  dr_sent :: nat
  dr_above :: "nat list"
  dr_written :: "retained list"

function absorbContiguous :: "nat \<Rightarrow> nat list \<Rightarrow> nat \<times> nat list" where
  "absorbContiguous sent ahead =
    (if sent + 1 \<in> set ahead then absorbContiguous (sent + 1) (removeAll (sent + 1) ahead) else (sent, ahead))"
  by pat_completeness auto
termination
  by (relation "measure (\<lambda>(sent, ahead). length ahead)") (auto simp: length_removeAll_less)

declare absorbContiguous.simps [simp del]

definition absorbJump :: "nat \<Rightarrow> nat list \<Rightarrow> nat \<times> nat list" where
  "absorbJump from ahead = absorbContiguous from (filter (\<lambda>seq. from < seq) ahead)"

definition collectBatch :: "controlSession \<Rightarrow> nat \<Rightarrow> nat list \<Rightarrow> retained list" where
  "collectBatch s sent ahead =
    (let low = fst (BinarySearch (map rt_seq (cs_ops s)) sent)
     in filter (\<lambda>r. sent < rt_seq r \<and> rt_seq r \<notin> set ahead \<and> (\<not> cs_held s \<or> replayPath (rt_op r))) (drop low (cs_ops s)))"

definition loop_top :: "controlSession \<Rightarrow> drainer \<Rightarrow> drainer" where
  "loop_top s d =
    (if cs_sub s \<noteq> dr_mine d then d\<lparr>dr_phase := Returning\<rparr>
     else
      (let (sent, ahead) = (if dr_sent d < cs_cursor s then absorbJump (cs_cursor s) (dr_above d) else (dr_sent d, dr_above d))
       in d\<lparr>dr_sent := sent, dr_above := ahead, dr_phase := Sending (collectBatch s sent ahead)\<rparr>))"

definition check_displaced :: "controlSession \<Rightarrow> drainer \<Rightarrow> drainer" where
  "check_displaced s d = (case dr_phase d of
     Sending (r # batch) \<Rightarrow> if cs_sub s \<noteq> dr_mine d then d\<lparr>dr_phase := Returning\<rparr> else d\<lparr>dr_phase := Writing r batch\<rparr>
   | Sending [] \<Rightarrow> d\<lparr>dr_phase := Parked\<rparr>
   | _ \<Rightarrow> d)"

definition write_op :: "drainer \<Rightarrow> drainer" where
  "write_op d = (case dr_phase d of
     Writing r batch \<Rightarrow>
       (let d1 = d\<lparr>dr_written := dr_written d @ [r], dr_phase := Sending batch\<rparr>
        in if rt_seq r = dr_sent d + 1
           then (let (sent, ahead) = absorbContiguous (rt_seq r) (dr_above d) in d1\<lparr>dr_sent := sent, dr_above := ahead\<rparr>)
           else d1\<lparr>dr_above := rt_seq r # dr_above d\<rparr>)
   | _ \<Rightarrow> d)"

definition take_wake :: "drainer \<Rightarrow> drainer" where
  "take_wake d = (if dr_phase d = Parked \<and> (dr_token d \<or> dr_closed d) then d\<lparr>dr_token := False, dr_phase := LoopTop\<rparr> else d)"

section \<open>The producer\<close>

datatype control_call = SendCall bool AgentControl | RetireCall | RestartCall nat AgentControl | SnapshotCall nat nat "nat list" "nat list"
  | PruneCall nat nat "nat list" "nat list" "nat list" | HoldCall | ReleaseCall nat | ServeCall | CallDone

record acked_op =
  ao_session :: nat
  ao_op :: retained
  ao_epoch :: nat
  ao_acked :: nat
  ao_above :: "nat list"
  ao_ranges :: "nat list"

record controlProducer =
  cp_sessions :: "(string, nat) gomap"
  cp_lastEpoch :: nat
  cp_heap :: "controlSession list"
  cp_drainers :: "drainer list"
  cp_calls :: "(nat \<times> control_call) list"
  cp_errors :: "control_error list"
  cp_accepted :: "(nat \<times> nat \<times> AgentControl) list"
  cp_acked :: "acked_op list"
  cp_replaced :: "(nat \<times> nat) list"

definition newControlProducer :: controlProducer where
  "newControlProducer = \<lparr>cp_sessions = [], cp_lastEpoch = 0, cp_heap = [], cp_drainers = [], cp_calls = [], cp_errors = [], cp_accepted = [],
     cp_acked = [], cp_replaced = []\<rparr>"

definition existingSession :: "string \<Rightarrow> controlProducer \<Rightarrow> nat option" where
  "existingSession sid p = gm_get (cp_sessions p) sid"

definition add_call :: "nat \<Rightarrow> control_call \<Rightarrow> controlProducer \<Rightarrow> controlProducer" where
  "add_call obj c p = p\<lparr>cp_calls := cp_calls p @ [(obj, c)]\<rparr>"

definition refuse :: "control_error \<Rightarrow> controlProducer \<Rightarrow> controlProducer" where
  "refuse e p = p\<lparr>cp_errors := cp_errors p @ [e]\<rparr>"

definition Bind :: "string \<Rightarrow> controlProducer \<Rightarrow> controlProducer" where
  "Bind sid p = (case existingSession sid p of Some _ \<Rightarrow> p
     | None \<Rightarrow> p\<lparr>cp_lastEpoch := cp_lastEpoch p + 1,
         cp_heap := cp_heap p @ [\<lparr>cs_nextSeq = 0, cs_ops = [], cs_held = False, cs_sub = 0, cs_wake = None, cs_live = False, cs_retired = False,
           cs_cursor = 0, cs_epoch = cp_lastEpoch p + 1\<rparr>],
         cp_sessions := gm_put sid (length (cp_heap p)) (cp_sessions p)\<rparr>)"

definition Epoch :: "string \<Rightarrow> controlProducer \<Rightarrow> nat" where
  "Epoch sid p = (case existingSession sid p of None \<Rightarrow> 0 | Some obj \<Rightarrow> cs_epoch (cp_heap p ! obj))"

definition subscriptionGeneration :: "string \<Rightarrow> controlProducer \<Rightarrow> nat" where
  "subscriptionGeneration sid p = (case existingSession sid p of None \<Rightarrow> 0 | Some obj \<Rightarrow> cs_sub (cp_heap p ! obj))"

text \<open>The first step of each method.\<close>

definition send :: "string \<Rightarrow> AgentControl \<Rightarrow> bool \<Rightarrow> controlProducer \<Rightarrow> controlProducer" where
  "send sid op requireLive p =
    (if \<not> representable op then refuse errEmptyControlVariant p
     else case existingSession sid p of None \<Rightarrow> refuse errNoBoundSession p | Some obj \<Rightarrow> add_call obj (SendCall requireLive op) p)"

definition Send :: "string \<Rightarrow> AgentControl \<Rightarrow> controlProducer \<Rightarrow> controlProducer" where
  "Send sid op p = send sid op False p"

definition SendIfLive :: "string \<Rightarrow> AgentControl \<Rightarrow> controlProducer \<Rightarrow> controlProducer" where
  "SendIfLive sid op p = send sid op True p"

definition Retire :: "string \<Rightarrow> controlProducer \<Rightarrow> controlProducer" where
  "Retire sid p = (case existingSession sid p of None \<Rightarrow> p
     | Some obj \<Rightarrow> add_call obj RetireCall (p\<lparr>cp_sessions := gm_del sid (cp_sessions p)\<rparr>))"

definition Restart :: "string \<Rightarrow> AgentControl \<Rightarrow> controlProducer \<Rightarrow> controlProducer" where
  "Restart sid first p = (case existingSession sid p of None \<Rightarrow> refuse errNoBoundSession p
     | Some obj \<Rightarrow> add_call obj (RestartCall (cp_lastEpoch p + 1) first) (p\<lparr>cp_lastEpoch := cp_lastEpoch p + 1\<rparr>))"

definition AckControl :: "string \<Rightarrow> nat \<Rightarrow> nat \<Rightarrow> nat list \<Rightarrow> nat list \<Rightarrow> controlProducer \<Rightarrow> controlProducer" where
  "AckControl sid epoch ackedSeq appliedAbove appliedRanges p = (case existingSession sid p of None \<Rightarrow> p
     | Some obj \<Rightarrow> if appliedAbove \<noteq> [] \<or> appliedRanges \<noteq> [] then add_call obj (SnapshotCall epoch ackedSeq appliedAbove appliedRanges) p
         else add_call obj (PruneCall epoch ackedSeq [] [] []) p)"

definition HoldForReplay :: "string \<Rightarrow> controlProducer \<Rightarrow> controlProducer" where
  "HoldForReplay sid p = (case existingSession sid p of None \<Rightarrow> p | Some obj \<Rightarrow> add_call obj HoldCall p)"

definition ReleaseReplayBarrier :: "string \<Rightarrow> nat \<Rightarrow> controlProducer \<Rightarrow> controlProducer" where
  "ReleaseReplayBarrier sid epoch p = (case existingSession sid p of None \<Rightarrow> p | Some obj \<Rightarrow> add_call obj (ReleaseCall epoch) p)"

definition serve :: "string \<Rightarrow> controlProducer \<Rightarrow> controlProducer" where
  "serve sid p = (case existingSession sid p of None \<Rightarrow> refuse errNoBoundSession p | Some obj \<Rightarrow> add_call obj ServeCall p)"

text \<open>The wake channel of a session's subscription.\<close>

definition signalLocked :: "controlSession \<Rightarrow> drainer list \<Rightarrow> drainer list" where
  "signalLocked s ds = (case cs_wake s of None \<Rightarrow> ds | Some i \<Rightarrow> ds[i := (ds ! i)\<lparr>dr_token := True\<rparr>])"

definition close_wake :: "controlSession \<Rightarrow> drainer list \<Rightarrow> drainer list" where
  "close_wake s ds = (case cs_wake s of None \<Rightarrow> ds | Some i \<Rightarrow> ds[i := (ds ! i)\<lparr>dr_closed := True\<rparr>])"

text \<open>The second steps, under the session's lock.\<close>

definition send_locked :: "nat \<Rightarrow> bool \<Rightarrow> AgentControl \<Rightarrow> controlProducer \<Rightarrow> controlProducer" where
  "send_locked obj requireLive op p =
    (let s = cp_heap p ! obj
     in if requireLive \<and> \<not> cs_live s then refuse ErrNoAgent p
        else if maxRetainedOps \<le> length (cs_ops s) \<and> \<not> replayPath op then refuse errRetentionFull p
        else
         (let seq = cs_nextSeq s + 1;
              stamped = op\<lparr>ac_ControlSeq := seq\<rparr>;
              id' = length (cp_accepted p);
              s1 = s\<lparr>cs_nextSeq := seq, cs_ops := cs_ops s @ [\<lparr>rt_seq = seq, rt_op = stamped, rt_id = id'\<rparr>]\<rparr>
          in p\<lparr>cp_heap := (cp_heap p)[obj := s1],
               cp_drainers := (if \<not> cs_held s \<or> replayPath stamped then signalLocked s1 (cp_drainers p) else cp_drainers p),
               cp_accepted := cp_accepted p @ [(obj, id', op)]\<rparr>))"

definition retire_locked :: "nat \<Rightarrow> controlProducer \<Rightarrow> controlProducer" where
  "retire_locked obj p =
    (let s = cp_heap p ! obj
     in p\<lparr>cp_heap := (cp_heap p)[obj := s\<lparr>cs_sub := cs_sub s + 1, cs_live := False, cs_retired := True, cs_ops := [], cs_wake := None\<rparr>],
          cp_drainers := close_wake s (cp_drainers p)\<rparr>)"

fun renumber :: "nat \<Rightarrow> retained list \<Rightarrow> retained list" where
  "renumber n [] = []"
| "renumber n (r # rs) = r\<lparr>rt_seq := n, rt_op := (rt_op r)\<lparr>ac_ControlSeq := n\<rparr>\<rparr> # renumber (n + 1) rs"

definition restart_locked :: "nat \<Rightarrow> nat \<Rightarrow> AgentControl \<Rightarrow> controlProducer \<Rightarrow> controlProducer" where
  "restart_locked obj epoch first p =
    (let s = cp_heap p ! obj;
         id' = length (cp_accepted p);
         ops = \<lparr>rt_seq = 1, rt_op = first\<lparr>ac_ControlSeq := 1\<rparr>, rt_id = id'\<rparr> # renumber 2 (filter (\<lambda>r. \<not> replayPath (rt_op r)) (cs_ops s))
     in p\<lparr>cp_heap := (cp_heap p)[obj := s\<lparr>cs_epoch := epoch, cs_sub := cs_sub s + 1, cs_live := False, cs_wake := None, cs_ops := ops,
            cs_nextSeq := length ops, cs_cursor := 0, cs_held := False\<rparr>],
          cp_drainers := close_wake s (cp_drainers p),
          cp_accepted := cp_accepted p @ [(obj, id', first)],
          cp_replaced := cp_replaced p @ map (\<lambda>r. (obj, rt_id r)) (filter (\<lambda>r. replayPath (rt_op r)) (cs_ops s))\<rparr>)"

definition ack_snapshot :: "nat \<Rightarrow> nat list \<Rightarrow> nat list \<Rightarrow> controlProducer \<Rightarrow> nat list" where
  "ack_snapshot obj appliedAbove appliedRanges p =
    (let retainedSeqs = map rt_seq (cs_ops (cp_heap p ! obj))
     in boundedAboveSet appliedAbove retainedSeqs @ appliedRangesSet appliedRanges retainedSeqs)"

definition ack_prune :: "nat \<Rightarrow> nat \<Rightarrow> nat \<Rightarrow> nat list \<Rightarrow> nat list \<Rightarrow> nat list \<Rightarrow> controlProducer \<Rightarrow> controlProducer" where
  "ack_prune obj epoch ackedSeq ahead rawAbove rawRanges p =
    (let s = cp_heap p ! obj
     in if cs_epoch s \<noteq> epoch then p
        else
         (let acked = min ackedSeq (cs_nextSeq s);
              cursor = max acked (cs_cursor s);
              keep = (\<lambda>r. cursor < rt_seq r \<and> rt_seq r \<notin> set ahead)
          in p\<lparr>cp_heap := (cp_heap p)[obj := s\<lparr>cs_cursor := cursor, cs_ops := filter keep (cs_ops s)\<rparr>],
               cp_acked := cp_acked p @ map (\<lambda>r. \<lparr>ao_session = obj, ao_op = r, ao_epoch = epoch, ao_acked = ackedSeq, ao_above = rawAbove,
                 ao_ranges = rawRanges\<rparr>) (filter (\<lambda>r. \<not> keep r) (cs_ops s))\<rparr>))"

definition hold_locked :: "nat \<Rightarrow> controlProducer \<Rightarrow> controlProducer" where
  "hold_locked obj p = p\<lparr>cp_heap := (cp_heap p)[obj := (cp_heap p ! obj)\<lparr>cs_held := True\<rparr>]\<rparr>"

definition release_locked :: "nat \<Rightarrow> nat \<Rightarrow> controlProducer \<Rightarrow> controlProducer" where
  "release_locked obj epoch p =
    (let s = cp_heap p ! obj
     in if cs_epoch s \<noteq> epoch then p
        else p\<lparr>cp_heap := (cp_heap p)[obj := s\<lparr>cs_held := False\<rparr>], cp_drainers := signalLocked s (cp_drainers p)\<rparr>)"

definition serve_bind :: "nat \<Rightarrow> controlProducer \<Rightarrow> controlProducer" where
  "serve_bind obj p =
    (let s = cp_heap p ! obj
     in if cs_retired s then refuse errNoBoundSession p
        else
         (let mine = cs_sub s + 1
          in p\<lparr>cp_heap := (cp_heap p)[obj := s\<lparr>cs_sub := mine, cs_wake := Some (length (cp_drainers p)), cs_live := True\<rparr>],
               cp_drainers := close_wake s (cp_drainers p) @ [\<lparr>dr_session = obj, dr_phase = LoopTop, dr_mine = mine, dr_token = True, dr_closed = False,
                 dr_sent = cs_cursor s, dr_above = [], dr_written = []\<rparr>]\<rparr>))"

definition run_call :: "nat \<Rightarrow> control_call \<Rightarrow> controlProducer \<Rightarrow> controlProducer" where
  "run_call obj c p = (case c of
     SendCall requireLive op \<Rightarrow> send_locked obj requireLive op p
   | RetireCall \<Rightarrow> retire_locked obj p
   | RestartCall epoch first \<Rightarrow> restart_locked obj epoch first p
   | SnapshotCall epoch acked ahead ranges \<Rightarrow> add_call obj (PruneCall epoch acked (ack_snapshot obj ahead ranges p) ahead ranges) p
   | PruneCall epoch acked ahead rawAbove rawRanges \<Rightarrow> ack_prune obj epoch acked ahead rawAbove rawRanges p
   | HoldCall \<Rightarrow> hold_locked obj p
   | ReleaseCall epoch \<Rightarrow> release_locked obj epoch p
   | ServeCall \<Rightarrow> serve_bind obj p
   | CallDone \<Rightarrow> p)"

definition locked :: "nat \<Rightarrow> controlProducer \<Rightarrow> controlProducer" where
  "locked i p = (if i < length (cp_calls p)
     then (case cp_calls p ! i of (obj, c) \<Rightarrow> run_call obj c (p\<lparr>cp_calls := (cp_calls p)[i := (obj, CallDone)]\<rparr>)) else p)"

text \<open>The steps of a subscription: its next one, a write that fails, the end of its context.\<close>

definition serve_exit :: "nat \<Rightarrow> controlProducer \<Rightarrow> controlProducer" where
  "serve_exit i p =
    (let d = cp_drainers p ! i; obj = dr_session d; s = cp_heap p ! obj
     in p\<lparr>cp_heap := (cp_heap p)[obj := s\<lparr>cs_live := cs_live s \<and> cs_sub s \<noteq> dr_mine d\<rparr>], cp_drainers := (cp_drainers p)[i := d\<lparr>dr_phase := Returned\<rparr>]\<rparr>)"

definition drain_step :: "nat \<Rightarrow> controlProducer \<Rightarrow> controlProducer" where
  "drain_step i p = (if length (cp_drainers p) \<le> i then p
     else
      (let d = cp_drainers p ! i; s = cp_heap p ! dr_session d
       in case dr_phase d of
            LoopTop \<Rightarrow> p\<lparr>cp_drainers := (cp_drainers p)[i := loop_top s d]\<rparr>
          | Sending _ \<Rightarrow> p\<lparr>cp_drainers := (cp_drainers p)[i := check_displaced s d]\<rparr>
          | Writing _ _ \<Rightarrow> p\<lparr>cp_drainers := (cp_drainers p)[i := write_op d]\<rparr>
          | Parked \<Rightarrow> p\<lparr>cp_drainers := (cp_drainers p)[i := take_wake d]\<rparr>
          | Returning \<Rightarrow> serve_exit i p
          | Returned \<Rightarrow> p))"

definition write_fail :: "nat \<Rightarrow> controlProducer \<Rightarrow> controlProducer" where
  "write_fail i p = (if length (cp_drainers p) \<le> i then p
     else (case dr_phase (cp_drainers p ! i) of Writing _ _ \<Rightarrow> p\<lparr>cp_drainers := (cp_drainers p)[i := (cp_drainers p ! i)\<lparr>dr_phase := Returning\<rparr>]\<rparr> | _ \<Rightarrow> p))"

definition cancel_serve :: "nat \<Rightarrow> controlProducer \<Rightarrow> controlProducer" where
  "cancel_serve i p = (if length (cp_drainers p) \<le> i then p
     else (case dr_phase (cp_drainers p ! i) of Parked \<Rightarrow> p\<lparr>cp_drainers := (cp_drainers p)[i := (cp_drainers p ! i)\<lparr>dr_phase := Returning\<rparr>]\<rparr> | _ \<Rightarrow> p))"

datatype control_op = OBind string | OSend string AgentControl | OSendIfLive string AgentControl | ORetire string | ORestart string AgentControl
  | OAck string nat nat "nat list" "nat list" | OHold string | ORelease string nat | OServe string | OLocked nat | ODrain nat | OWriteFail nat | OCancel nat

fun control_exec :: "control_op \<Rightarrow> controlProducer \<Rightarrow> controlProducer" where
  "control_exec (OBind sid) p = Bind sid p"
| "control_exec (OSend sid op) p = Send sid op p"
| "control_exec (OSendIfLive sid op) p = SendIfLive sid op p"
| "control_exec (ORetire sid) p = Retire sid p"
| "control_exec (ORestart sid first) p = Restart sid first p"
| "control_exec (OAck sid epoch acked ahead ranges) p = AckControl sid epoch acked ahead ranges p"
| "control_exec (OHold sid) p = HoldForReplay sid p"
| "control_exec (ORelease sid epoch) p = ReleaseReplayBarrier sid epoch p"
| "control_exec (OServe sid) p = serve sid p"
| "control_exec (OLocked i) p = locked i p"
| "control_exec (ODrain i) p = drain_step i p"
| "control_exec (OWriteFail i) p = write_fail i p"
| "control_exec (OCancel i) p = cancel_serve i p"

section \<open>Search and coverage\<close>

lemma bsearch_spec:
  assumes "i \<le> j" and "j \<le> length xs" and "sorted xs" and "\<And>k. k < i \<Longrightarrow> xs ! k < t" and "\<And>k. j \<le> k \<Longrightarrow> k < length xs \<Longrightarrow> t \<le> xs ! k"
  shows "bsearch xs t i j \<le> j \<and> (\<forall>k < bsearch xs t i j. xs ! k < t) \<and> (\<forall>k. bsearch xs t i j \<le> k \<longrightarrow> k < length xs \<longrightarrow> t \<le> xs ! k)"
  using assms
proof (induction xs t i j rule: bsearch.induct)
  case (1 xs t i j)
  show ?case
  proof (cases "i < j")
    case True
    define h where "h = (i + j) div 2"
    have h: "i \<le> h" "h < j" using True by (auto simp: h_def)
    show ?thesis
    proof (cases "xs ! h < t")
      case less: True
      have "xs ! k < t" if "k < h + 1" for k
        using sorted_nth_mono [OF 1(5), of k h] that h 1(4) less by force
      moreover have "bsearch xs t i j = bsearch xs t (h + 1) j" using True less by (simp add: bsearch.simps [of xs t i j] Let_def h_def)
      ultimately show ?thesis using 1(1) [OF True h_def less] 1(4,5,7) h by simp
    next
      case False
      have "t \<le> xs ! k" if "h \<le> k" "k < length xs" for k
        using sorted_nth_mono [OF 1(5) that] False by simp
      moreover have "bsearch xs t i j = bsearch xs t i h" using True False by (simp add: bsearch.simps [of xs t i j] Let_def h_def)
      moreover have "h \<le> length xs" using h 1(4) by simp
      ultimately show ?thesis using 1(2) [OF True h_def False h(1)] 1(5,6) h by fastforce
    qed
  next
    case False
    then have "bsearch xs t i j = i" by (simp add: bsearch.simps [of xs t i j])
    moreover have "i = j" using False 1(3) by simp
    ultimately show ?thesis using 1(6,7) by simp
  qed
qed

lemma BinarySearch_spec:
  assumes "sorted xs"
  shows "fst (BinarySearch xs t) \<le> length xs" and "k < length xs \<Longrightarrow> fst (BinarySearch xs t) \<le> k \<longleftrightarrow> t \<le> xs ! k"
proof -
  note b = bsearch_spec [OF _ _ assms, of 0 "length xs" t, simplified]
  show "fst (BinarySearch xs t) \<le> length xs" using b by (simp add: BinarySearch_def Let_def)
  show "fst (BinarySearch xs t) \<le> k \<longleftrightarrow> t \<le> xs ! k" if "k < length xs"
  proof -
    have "fst (BinarySearch xs t) = bsearch xs t 0 (length xs)" by (simp add: BinarySearch_def Let_def)
    then show ?thesis using b that by (metis not_le)
  qed
qed

lemma collectBatch_eq:
  assumes "sorted (map rt_seq (cs_ops s))"
  shows "collectBatch s sent ahead = filter (\<lambda>r. sent < rt_seq r \<and> rt_seq r \<notin> set ahead \<and> (\<not> cs_held s \<or> replayPath (rt_op r))) (cs_ops s)"
proof -
  let ?i = "fst (BinarySearch (map rt_seq (cs_ops s)) sent)" and ?P = "\<lambda>r. sent < rt_seq r \<and> rt_seq r \<notin> set ahead \<and> (\<not> cs_held s \<or> replayPath (rt_op r))"
  have "\<not> ?P r" if r: "r \<in> set (take ?i (cs_ops s))" for r
  proof -
    obtain k where "k < length (take ?i (cs_ops s))" "r = take ?i (cs_ops s) ! k" using r by (metis in_set_conv_nth)
    then have "k < ?i" "k < length (cs_ops s)" "r = cs_ops s ! k" by simp_all
    then have "rt_seq r < sent" using BinarySearch_spec(2) [OF assms, of k sent] by (simp add: not_le [symmetric])
    then show ?thesis by simp
  qed
  then have "filter ?P (take ?i (cs_ops s)) = []" by (simp add: filter_empty_conv)
  moreover have "filter ?P (cs_ops s) = filter ?P (take ?i (cs_ops s)) @ filter ?P (drop ?i (cs_ops s))" by (simp only: filter_append [symmetric] append_take_drop_id)
  ultimately have "filter ?P (cs_ops s) = filter ?P (drop ?i (cs_ops s))" by (simp only: append_Nil)
  then show ?thesis by (simp add: collectBatch_def Let_def)
qed

fun range_pairs :: "nat list \<Rightarrow> (nat \<times> nat) list" where
  "range_pairs (a # b # rest) = (a, b) # range_pairs rest"
| "range_pairs _ = []"

lemma range_pairs_take: "range_pairs (take (2 * min (length xs div 2) n) xs) = take n (range_pairs xs)"
proof (induction xs arbitrary: n rule: range_pairs.induct)
  case (1 a b rest)
  then show ?case by (cases n) auto
qed auto

lemma sum_take_update:
  "lo < length c \<Longrightarrow> sum_list (take n (c[lo := c ! lo + x])) = sum_list (take n c) + (if lo < n then x else (0::int))"
proof (induction c arbitrary: lo n)
  case (Cons y c)
  then show ?case by (cases lo; cases n) auto
qed simp

lemma upper_index:
  assumes "sorted_wrt (<) seqs" and "BinarySearch seqs e = (hi0, found)" and "i < length seqs"
  shows "i < (if found then hi0 + 1 else hi0) \<longleftrightarrow> seqs ! i \<le> e" and "(if found then hi0 + 1 else hi0) \<le> length seqs"
proof -
  have s: "sorted seqs" using assms(1) by (simp add: strict_sorted_iff)
  note b = BinarySearch_spec [OF s, where t = e, unfolded assms(2) fst_conv]
  have f: "found \<longleftrightarrow> hi0 < length seqs \<and> seqs ! hi0 = e" using assms(2) by (auto simp: BinarySearch_def Let_def)
  have m: "k < i' \<Longrightarrow> i' < length seqs \<Longrightarrow> seqs ! k < seqs ! i'" for k i' using assms(1) by (simp add: sorted_wrt_iff_nth_less)
  show "(if found then hi0 + 1 else hi0) \<le> length seqs" using f b(1) by auto
  show "i < (if found then hi0 + 1 else hi0) \<longleftrightarrow> seqs ! i \<le> e"
  proof (cases found)
    case True
    then show ?thesis using f m [of hi0 i] m [of i hi0] assms(3) by (cases i hi0 rule: linorder_cases) auto
  next
    case False
    have "hi0 = i" if "seqs ! i = e"
    proof -
      have "hi0 \<le> i" using b(2) [OF assms(3)] that by simp
      moreover have "\<not> hi0 < i"
      proof
        assume "hi0 < i"
        then have "seqs ! hi0 < e" "hi0 < length seqs" using m [of hi0 i] that assms(3) by auto
        then show False using b(2) [of hi0] by simp
      qed
      ultimately show ?thesis by simp
    qed
    then show ?thesis using False f b(2) [OF assms(3)] assms(3) by auto
  qed
qed

lemma cover_pairs_sum:
  assumes "sorted_wrt (<) seqs" and "length cover = length seqs + 1" and "i < length seqs"
  shows "sum_list (take (Suc i) (cover_pairs seqs pairs cover)) =
    sum_list (take (Suc i) cover) + int (length (filter (\<lambda>(a, b). a \<le> seqs ! i \<and> seqs ! i \<le> b) (range_pairs pairs)))"
  using assms(2)
proof (induction pairs arbitrary: cover rule: range_pairs.induct)
  case (1 start e pairs)
  obtain hi0 found where b: "BinarySearch seqs e = (hi0, found)" by fastforce
  define lo hi where "lo = fst (BinarySearch seqs start)" and "hi = (if found then hi0 + 1 else hi0)"
  have s: "sorted seqs" using assms(1) by (simp add: strict_sorted_iff)
  have bounds: "hi \<le> length seqs" "i < hi \<longleftrightarrow> seqs ! i \<le> e" "lo \<le> i \<longleftrightarrow> start \<le> seqs ! i"
    using upper_index [OF assms(1) b assms(3)] BinarySearch_spec(2) [OF s assms(3)] by (simp_all add: lo_def hi_def)
  show ?case
  proof (cases "start \<le> e \<and> lo < hi")
    case True
    define c1 where "c1 = cover[lo := cover ! lo + 1]"
    have c: "cover_pairs seqs (start # e # pairs) cover = cover_pairs seqs pairs (c1[hi := c1 ! hi + (- 1)])"
      using True b by (simp add: Let_def lo_def [symmetric] hi_def [symmetric] c1_def)
    have "sum_list (take (Suc i) c1) = sum_list (take (Suc i) cover) + (if lo \<le> i then 1 else 0)"
      unfolding c1_def using sum_take_update [of lo cover "Suc i" 1] True bounds(1) 1(2) by (simp add: less_Suc_eq_le)
    moreover have "sum_list (take (Suc i) (c1[hi := c1 ! hi + (- 1)])) = sum_list (take (Suc i) c1) + (if hi \<le> i then - 1 else 0)"
      using sum_take_update [of hi c1 "Suc i" "- 1"] bounds(1) 1(2) by (simp add: c1_def less_Suc_eq_le)
    moreover have "length (c1[hi := c1 ! hi + (- 1)]) = length seqs + 1" using 1(2) by (simp add: c1_def)
    note 1(1) [OF this]
    ultimately show ?thesis unfolding c using True bounds(2,3) by auto
  next
    case False
    then have "cover_pairs seqs (start # e # pairs) cover = cover_pairs seqs pairs cover"
      using b by (auto simp: Let_def lo_def [symmetric] hi_def [symmetric])
    moreover have "\<not> (start \<le> seqs ! i \<and> seqs ! i \<le> e)" using False bounds(2,3) by auto
    ultimately show ?thesis using 1 by simp
  qed
qed simp_all

lemma set_covered:
  "length seqs \<le> length cover \<Longrightarrow> set (covered seqs cover depth) = {seqs ! i | i. i < length seqs \<and> 0 < depth + sum_list (take (Suc i) cover)}"
proof (induction seqs cover depth rule: covered.induct)
  case (1 seq seqs c cover depth)
  have split: "{(seq # seqs) ! i | i. i < length (seq # seqs) \<and> 0 < depth + sum_list (take (Suc i) (c # cover))} =
    (if 0 < depth + c then {seq} else {}) \<union> {seqs ! i | i. i < length seqs \<and> 0 < (depth + c) + sum_list (take (Suc i) cover)}"
    (is "?L = ?A \<union> ?B")
  proof (intro set_eqI iffI)
    fix x
    assume "x \<in> ?L"
    then obtain i where i: "x = (seq # seqs) ! i" "i < length (seq # seqs)" "0 < depth + sum_list (take (Suc i) (c # cover))" by blast
    then show "x \<in> ?A \<union> ?B" by (cases i) (auto simp: add.assoc)
  next
    fix x
    assume "x \<in> ?A \<union> ?B"
    then show "x \<in> ?L"
    proof
      assume "x \<in> ?B"
      then obtain i where "x = seqs ! i" "i < length seqs" "0 < (depth + c) + sum_list (take (Suc i) cover)" by blast
      then show ?thesis by (intro CollectI exI [of _ "Suc i"]) (auto simp: add.assoc)
    qed (auto split: if_splits intro!: exI [of _ 0])
  qed
  have "set (covered seqs cover (depth + c)) = {seqs ! i | i. i < length seqs \<and> 0 < (depth + c) + sum_list (take (Suc i) cover)}"
    using 1(1,2) [OF refl] 1(3) by (cases "0 < depth + c") simp_all
  then show ?case unfolding split by (simp add: Let_def)
qed auto

lemma cover_pairs_length [simp]: "length (cover_pairs seqs pairs cover) = length cover"
  by (induction seqs pairs cover rule: cover_pairs.induct) (auto simp: Let_def split: prod.split)

lemma set_appliedRangesSet:
  "set (appliedRangesSet ranges retainedSeqs) = {s \<in> set retainedSeqs. \<exists>(a, b) \<in> set (take maxRetainedOps (range_pairs ranges)). a \<le> s \<and> s \<le> b}"
proof (cases "ranges = [] \<or> retainedSeqs = []")
  case False
  define seqs where "seqs = sort (remdups retainedSeqs)"
  define cover where "cover = cover_pairs seqs (take (2 * min (length ranges div 2) maxRetainedOps) ranges) (replicate (length seqs + 1) 0)"
  have st: "sorted_wrt (<) seqs" by (simp add: seqs_def strict_sorted_iff)
  have d: "0 < sum_list (take (Suc i) cover) \<longleftrightarrow> (\<exists>(a, b) \<in> set (take maxRetainedOps (range_pairs ranges)). a \<le> seqs ! i \<and> seqs ! i \<le> b)"
    if "i < length seqs" for i
    using cover_pairs_sum [OF st _ that, of "replicate (length seqs + 1) 0" "take (2 * min (length ranges div 2) maxRetainedOps) ranges"]
    unfolding cover_def range_pairs_take by (simp add: take_replicate sum_list_replicate filter_empty_conv case_prod_unfold del: replicate.simps)
  have "set (appliedRangesSet ranges retainedSeqs) = {seqs ! i | i. i < length seqs \<and> 0 < 0 + sum_list (take (Suc i) cover)}"
    using False set_covered [of seqs cover 0] by (simp add: appliedRangesSet_def Let_def seqs_def [symmetric] cover_def [symmetric]) (simp add: cover_def)
  also have "\<dots> = {s \<in> set seqs. \<exists>(a, b) \<in> set (take maxRetainedOps (range_pairs ranges)). a \<le> s \<and> s \<le> b}"
    using d by (auto simp: in_set_conv_nth)
  finally show ?thesis by (simp add: seqs_def)
qed (auto simp: appliedRangesSet_def)

section \<open>Watermarks\<close>

lemma absorbContiguous_spec:
  assumes "absorbContiguous from ahead = (sent, ahead')"
  shows "from \<le> sent \<and> {x. from < x \<and> x \<le> sent} \<subseteq> set ahead \<and> set ahead' = set ahead - {x. from < x \<and> x \<le> sent}"
  using assms
proof (induction "from" ahead rule: absorbContiguous.induct)
  case (1 "from" ahead)
  show ?case
  proof (cases "from + 1 \<in> set ahead")
    case True
    then have "absorbContiguous (from + 1) (removeAll (from + 1) ahead) = (sent, ahead')" using 1(2) by (simp add: absorbContiguous.simps [of "from" ahead])
    note ih = 1(1) [OF True this]
    have "{x. from < x \<and> x \<le> sent} = insert (from + 1) {x. from + 1 < x \<and> x \<le> sent}" using ih by auto
    then show ?thesis using ih True by auto
  next
    case False
    then show ?thesis using 1(2) by (simp add: absorbContiguous.simps [of "from" ahead]) auto
  qed
qed

section \<open>Invariants\<close>

fun batch_of :: "serve_phase \<Rightarrow> retained list" where
  "batch_of (Sending batch) = batch"
| "batch_of (Writing r batch) = r # batch"
| "batch_of _ = []"

definition lives :: "retained list \<Rightarrow> retained list" where
  "lives rs = filter (\<lambda>r. \<not> replayPath (rt_op r)) rs"

definition serving :: "drainer \<Rightarrow> bool" where
  "serving d \<longleftrightarrow> dr_phase d \<noteq> Returning \<and> dr_phase d \<noteq> Returned"

definition flow :: "drainer \<Rightarrow> retained list" where
  "flow d = dr_written d @ batch_of (dr_phase d)"

definition session_ok :: "controlSession \<Rightarrow> bool" where
  "session_ok s \<longleftrightarrow> sorted_wrt (<) (map rt_seq (cs_ops s)) \<and> cs_cursor s \<le> cs_nextSeq s \<and> length (lives (cs_ops s)) \<le> maxRetainedOps
    \<and> (\<forall>r \<in> set (cs_ops s). cs_cursor s < rt_seq r \<and> rt_seq r \<le> cs_nextSeq s \<and> ac_ControlSeq (rt_op r) = rt_seq r)"

text \<open>A subscription by itself: its stream and the batch in hand repeat no number and keep live operations in order; the watermark and the set say what was written.\<close>

definition stream_ok :: "drainer \<Rightarrow> bool" where
  "stream_ok d \<longleftrightarrow> distinct (map rt_seq (flow d)) \<and> sorted_wrt (<) (map rt_seq (batch_of (dr_phase d))) \<and> sorted_wrt (<) (map rt_seq (lives (flow d)))
    \<and> (\<forall>r \<in> set (dr_written d). rt_seq r \<le> dr_sent d \<or> rt_seq r \<in> set (dr_above d))
    \<and> (\<forall>r \<in> set (batch_of (dr_phase d)). dr_sent d < rt_seq r \<and> rt_seq r \<notin> set (dr_above d))"

definition eligible :: "controlSession \<Rightarrow> retained \<Rightarrow> bool" where
  "eligible s r \<longleftrightarrow> \<not> cs_held s \<or> replayPath (rt_op r)"

text \<open>The current subscription of a session: what is retained and let through is written, in hand, or a wake is due.\<close>

definition current_ok :: "controlSession \<Rightarrow> nat \<Rightarrow> drainer \<Rightarrow> bool" where
  "current_ok s i d \<longleftrightarrow> cs_wake s = Some i \<and> \<not> dr_closed d \<and> dr_sent d \<le> cs_nextSeq s \<and> (\<forall>x \<in> set (dr_above d). x \<le> cs_nextSeq s)
    \<and> (\<forall>x \<in> set (flow d). rt_seq x \<le> cs_nextSeq s)
    \<and> (\<forall>r \<in> set (cs_ops s). \<forall>x \<in> set (flow d). rt_seq x = rt_seq r \<longrightarrow> x = r)
    \<and> (\<forall>r \<in> set (cs_ops s). rt_seq r \<le> dr_sent d \<or> rt_seq r \<in> set (dr_above d) \<longrightarrow> r \<in> set (dr_written d))
    \<and> (\<forall>r \<in> set (cs_ops s). eligible s r \<longrightarrow> r \<in> set (flow d) \<or> dr_token d \<or> dr_phase d = LoopTop)
    \<and> (\<forall>r \<in> set (lives (cs_ops s)). r \<notin> set (flow d) \<longrightarrow> (\<forall>x \<in> set (lives (flow d)). rt_seq x < rt_seq r))"

definition serves :: "controlSession \<Rightarrow> drainer \<Rightarrow> bool" where
  "serves s d \<longleftrightarrow> dr_mine d = cs_sub s \<and> serving d"

definition drain_ok :: "controlSession list \<Rightarrow> nat \<Rightarrow> drainer \<Rightarrow> bool" where
  "drain_ok heap i d \<longleftrightarrow> dr_session d < length heap \<and> dr_mine d \<le> cs_sub (heap ! dr_session d) \<and> stream_ok d
    \<and> (serves (heap ! dr_session d) d \<longrightarrow> current_ok (heap ! dr_session d) i d)"

definition wake_ok :: "drainer list \<Rightarrow> nat \<Rightarrow> controlSession \<Rightarrow> bool" where
  "wake_ok ds obj s \<longleftrightarrow> (\<forall>i. cs_wake s = Some i \<longrightarrow> i < length ds \<and> dr_session (ds ! i) = obj)"

definition control_inv :: "controlProducer \<Rightarrow> bool" where
  "control_inv p \<longleftrightarrow> (\<forall>sid obj. gm_get (cp_sessions p) sid = Some obj \<longrightarrow> obj < length (cp_heap p))
    \<and> (\<forall>obj c. (obj, c) \<in> set (cp_calls p) \<longrightarrow> obj < length (cp_heap p))
    \<and> (\<forall>obj < length (cp_heap p). session_ok (cp_heap p ! obj) \<and> wake_ok (cp_drainers p) obj (cp_heap p ! obj))
    \<and> (\<forall>i < length (cp_drainers p). drain_ok (cp_heap p) i (cp_drainers p ! i))"

lemma control_invI:
  assumes "\<And>sid obj. gm_get (cp_sessions p) sid = Some obj \<Longrightarrow> obj < length (cp_heap p)"
    and "\<And>obj c. (obj, c) \<in> set (cp_calls p) \<Longrightarrow> obj < length (cp_heap p)"
    and "\<And>obj. obj < length (cp_heap p) \<Longrightarrow> session_ok (cp_heap p ! obj) \<and> wake_ok (cp_drainers p) obj (cp_heap p ! obj)"
    and "\<And>i. i < length (cp_drainers p) \<Longrightarrow> drain_ok (cp_heap p) i (cp_drainers p ! i)"
  shows "control_inv p"
  using assms unfolding control_inv_def by blast

lemma inv_sessions: "control_inv p \<Longrightarrow> gm_get (cp_sessions p) sid = Some obj \<Longrightarrow> obj < length (cp_heap p)"
  unfolding control_inv_def by blast

lemma inv_calls: "control_inv p \<Longrightarrow> (obj, c) \<in> set (cp_calls p) \<Longrightarrow> obj < length (cp_heap p)"
  unfolding control_inv_def by blast

lemma inv_session: "control_inv p \<Longrightarrow> obj < length (cp_heap p) \<Longrightarrow> session_ok (cp_heap p ! obj)"
  unfolding control_inv_def by blast

lemma inv_wake: "control_inv p \<Longrightarrow> obj < length (cp_heap p) \<Longrightarrow> wake_ok (cp_drainers p) obj (cp_heap p ! obj)"
  unfolding control_inv_def by blast

lemma inv_drain: "control_inv p \<Longrightarrow> i < length (cp_drainers p) \<Longrightarrow> drain_ok (cp_heap p) i (cp_drainers p ! i)"
  unfolding control_inv_def by blast

lemmas inv_facts = inv_sessions inv_calls inv_session inv_wake inv_drain

text \<open>Steps that touch neither sessions nor subscriptions.\<close>

lemma control_inv_frame:
  assumes "control_inv p" and "cp_heap p' = cp_heap p" and "cp_drainers p' = cp_drainers p"
    and "\<And>sid obj. gm_get (cp_sessions p') sid = Some obj \<Longrightarrow> gm_get (cp_sessions p) sid = Some obj"
    and "\<And>obj c. (obj, c) \<in> set (cp_calls p') \<Longrightarrow> obj < length (cp_heap p)"
  shows "control_inv p'"
proof (rule control_invI)
  show "obj < length (cp_heap p')" if "gm_get (cp_sessions p') sid = Some obj" for sid obj
    using inv_sessions [OF assms(1) assms(4) [OF that]] assms(2) by simp
  show "obj < length (cp_heap p')" if "(obj, c) \<in> set (cp_calls p')" for obj c using assms(5) [OF that] assms(2) by simp
qed (use assms(2,3) inv_facts [OF assms(1)] in simp_all)

lemma control_inv_cong:
  "cp_heap p' = cp_heap p \<Longrightarrow> cp_drainers p' = cp_drainers p \<Longrightarrow> cp_sessions p' = cp_sessions p \<Longrightarrow> cp_calls p' = cp_calls p \<Longrightarrow> control_inv p' = control_inv p"
  by (simp add: control_inv_def)

lemma control_inv_refuse: "control_inv p \<Longrightarrow> control_inv (refuse e p)"
  by (rule control_inv_frame [of p]) (auto simp: refuse_def dest: inv_calls)

lemma control_inv_add_call: "control_inv p \<Longrightarrow> obj < length (cp_heap p) \<Longrightarrow> control_inv (add_call obj c p)"
  by (rule control_inv_frame [of p]) (auto simp: add_call_def dest: inv_calls)

lemma control_inv_new: "control_inv newControlProducer"
  by (simp add: control_inv_def newControlProducer_def)

section \<open>Changes of a session\<close>

lemma signal_nth:
  "i < length ds \<Longrightarrow> signalLocked s ds ! i = (if cs_wake s = Some i then (ds ! i)\<lparr>dr_token := True\<rparr> else ds ! i)"
  "length (signalLocked s ds) = length ds"
  by (auto simp: signalLocked_def nth_list_update split: option.split)

lemma close_nth:
  "i < length ds \<Longrightarrow> close_wake s ds ! i = (if cs_wake s = Some i then (ds ! i)\<lparr>dr_closed := True\<rparr> else ds ! i)"
  "length (close_wake s ds) = length ds"
  by (auto simp: close_wake_def nth_list_update split: option.split)

lemma token_stream [simp]: "stream_ok (d\<lparr>dr_token := b\<rparr>) = stream_ok d" "stream_ok (d\<lparr>dr_closed := b\<rparr>) = stream_ok d"
  by (simp_all add: stream_ok_def flow_def)

lemma token_serves [simp]: "serves s (d\<lparr>dr_token := b\<rparr>) = serves s d" "serves s (d\<lparr>dr_closed := b\<rparr>) = serves s d"
  by (simp_all add: serves_def serving_def)

text \<open>A change that keeps the subscription: operations leave, new ones come at the end, and what becomes eligible is signalled.\<close>

lemma current_ok_change:
  assumes cur: "current_ok s i d" and "cs_wake s' = cs_wake s" and next': "cs_nextSeq s \<le> cs_nextSeq s'"
    and ops: "\<And>r. r \<in> set (cs_ops s') \<Longrightarrow> r \<in> set (cs_ops s) \<or> cs_nextSeq s < rt_seq r"
    and sig: "\<And>r. \<not> sig \<Longrightarrow> r \<in> set (cs_ops s') \<Longrightarrow> eligible s' r \<Longrightarrow> r \<in> set (cs_ops s) \<and> eligible s r"
  shows "current_ok s' i (d\<lparr>dr_token := dr_token d \<or> sig\<rparr>)"
proof -
  have bounds: "dr_sent d \<le> cs_nextSeq s" "\<And>x. x \<in> set (dr_above d) \<Longrightarrow> x \<le> cs_nextSeq s" "\<And>x. x \<in> set (flow d) \<Longrightarrow> rt_seq x \<le> cs_nextSeq s"
    using cur by (auto simp: current_ok_def)
  have "x = r" if "r \<in> set (cs_ops s')" "x \<in> set (flow d)" "rt_seq x = rt_seq r" for r x
    using ops [OF that(1)] bounds(3) [OF that(2)] that cur unfolding current_ok_def by auto
  moreover have "r \<in> set (dr_written d)" if "r \<in> set (cs_ops s')" "rt_seq r \<le> dr_sent d \<or> rt_seq r \<in> set (dr_above d)" for r
    using ops [OF that(1)] bounds(1,2) that cur unfolding current_ok_def by force
  moreover have "r \<in> set (flow d) \<or> dr_token d \<or> sig \<or> dr_phase d = LoopTop" if "r \<in> set (cs_ops s')" "eligible s' r" for r
    using sig [OF _ that] cur unfolding current_ok_def by blast
  moreover have "rt_seq x < rt_seq r" if "r \<in> set (lives (cs_ops s'))" "r \<notin> set (flow d)" "x \<in> set (lives (flow d))" for r x
  proof -
    have "r \<in> set (cs_ops s')" "x \<in> set (flow d)" "\<not> replayPath (rt_op r)" using that by (auto simp: lives_def)
    then show ?thesis using ops [of r] bounds(3) [of x] that cur unfolding current_ok_def by (auto simp: lives_def)
  qed
  moreover have "rt_seq x \<le> cs_nextSeq s'" if "x \<in> set (flow d)" for x using bounds(3) [OF that] next' by simp
  moreover have "x \<le> cs_nextSeq s'" if "x \<in> set (dr_above d)" for x using bounds(2) [OF that] next' by simp
  moreover have "cs_wake s' = Some i" "\<not> dr_closed d" "dr_sent d \<le> cs_nextSeq s'" using cur assms(2) bounds(1) next' by (simp_all add: current_ok_def)
  ultimately show ?thesis unfolding current_ok_def by (auto simp: flow_def)
qed

lemma control_inv_session:
  assumes inv: "control_inv p" and obj: "obj < length (cp_heap p)" and s: "s = cp_heap p ! obj" and ok: "session_ok s'"
    and same: "cs_sub s' = cs_sub s" "cs_wake s' = cs_wake s" and next': "cs_nextSeq s \<le> cs_nextSeq s'"
    and ops: "\<And>r. r \<in> set (cs_ops s') \<Longrightarrow> r \<in> set (cs_ops s) \<or> cs_nextSeq s < rt_seq r"
    and sig: "\<And>r. \<not> sig \<Longrightarrow> r \<in> set (cs_ops s') \<Longrightarrow> eligible s' r \<Longrightarrow> r \<in> set (cs_ops s) \<and> eligible s r"
  shows "control_inv (p\<lparr>cp_heap := (cp_heap p)[obj := s'], cp_drainers := (if sig then signalLocked s (cp_drainers p) else cp_drainers p)\<rparr>)"
    (is "control_inv ?p")
proof (rule control_invI)
  let ?ds = "cp_drainers ?p"
  have ds: "length ?ds = length (cp_drainers p)" "\<And>i. i < length (cp_drainers p) \<Longrightarrow>
      ?ds ! i = (if cs_wake s = Some i then (cp_drainers p ! i)\<lparr>dr_token := dr_token (cp_drainers p ! i) \<or> sig\<rparr> else cp_drainers p ! i)"
    by (auto simp: signal_nth)
  show "session_ok (cp_heap ?p ! o') \<and> wake_ok ?ds o' (cp_heap ?p ! o')" if "o' < length (cp_heap ?p)" for o'
  proof -
    have "wake_ok (cp_drainers p) o' (cp_heap ?p ! o')" using inv_wake [OF inv, of o'] that same(2) s by (cases "o' = obj") (auto simp: wake_ok_def)
    then have "wake_ok ?ds o' (cp_heap ?p ! o')" using ds by (auto simp: wake_ok_def)
    then show ?thesis using inv_session [OF inv, of o'] that ok by (cases "o' = obj") auto
  qed
  show "drain_ok (cp_heap ?p) i (?ds ! i)" if "i < length ?ds" for i
  proof -
    let ?d = "cp_drainers p ! i"
    have i: "i < length (cp_drainers p)" using that ds(1) by simp
    have d: "drain_ok (cp_heap p) i ?d" by (rule inv_drain [OF inv i])
    show ?thesis
    proof (cases "dr_session ?d = obj")
      case True
      have e: "?ds ! i = (if cs_wake s = Some i then ?d\<lparr>dr_token := dr_token ?d \<or> sig\<rparr> else ?d)" by (rule ds(2) [OF i])
      have "current_ok s' i (?ds ! i)" if "serves s ?d"
      proof -
        have cur: "current_ok s i ?d" using d that True s by (simp add: drain_ok_def)
        then have "cs_wake s = Some i" by (simp add: current_ok_def)
        then show ?thesis using current_ok_change [OF cur same(2) next' ops sig] e by simp
      qed
      moreover have "serves s' (?ds ! i) = serves s ?d" using same(1) e by (simp add: serves_def serving_def)
      moreover have "dr_session (?ds ! i) = obj" "dr_mine (?ds ! i) = dr_mine ?d" "stream_ok (?ds ! i) = stream_ok ?d" using e True by simp_all
      ultimately show ?thesis using d True obj s same(1) by (simp add: drain_ok_def)
    next
      case False
      have "cs_wake s \<noteq> Some i" using inv_wake [OF inv obj] False s by (auto simp: wake_ok_def)
      then have "?ds ! i = ?d" using ds(2) [OF i] by simp
      then show ?thesis using d False by (simp add: drain_ok_def)
    qed
  qed
qed (use inv_sessions [OF inv] inv_calls [OF inv] in auto)

text \<open>A change that ends the subscription, and one that also begins another.\<close>

lemma displaced_ok:
  assumes "drain_ok heap i d" and "obj < length heap" and "cs_sub s' = cs_sub (heap ! obj) + 1"
    and "wake_ok ds obj (heap ! obj)" and "d = ds ! i"
  shows "drain_ok (heap[obj := s']) i (if cs_wake (heap ! obj) = Some i then d\<lparr>dr_closed := True\<rparr> else d)"
proof (cases "dr_session d = obj")
  case True
  then have "dr_mine d < cs_sub s'" using assms(1,3) by (simp add: drain_ok_def)
  then show ?thesis using assms(1,2) True by (auto simp: drain_ok_def serves_def)
next
  case False
  then have "cs_wake (heap ! obj) \<noteq> Some i" using assms(4,5) by (auto simp: wake_ok_def)
  then show ?thesis using assms(1) False by (simp add: drain_ok_def)
qed

lemma control_inv_displace:
  assumes inv: "control_inv p" and obj: "obj < length (cp_heap p)" and s: "s = cp_heap p ! obj" and ok: "session_ok s'"
    and sub: "cs_sub s' = cs_sub s + 1" "cs_wake s' = None"
  shows "control_inv (p\<lparr>cp_heap := (cp_heap p)[obj := s'], cp_drainers := close_wake s (cp_drainers p)\<rparr>)" (is "control_inv ?p")
proof (rule control_invI)
  show "session_ok (cp_heap ?p ! o') \<and> wake_ok (cp_drainers ?p) o' (cp_heap ?p ! o')" if "o' < length (cp_heap ?p)" for o'
    using that inv_session [OF inv, of o'] inv_wake [OF inv, of o'] ok sub(2)
    by (cases "o' = obj") (auto simp: wake_ok_def close_nth)
  show "drain_ok (cp_heap ?p) i (cp_drainers ?p ! i)" if "i < length (cp_drainers ?p)" for i
    using displaced_ok [OF inv_drain [OF inv, of i] obj _ inv_wake [OF inv obj] refl, of s'] that sub(1) s by (simp add: close_nth)
qed (use inv_sessions [OF inv] inv_calls [OF inv] in auto)

text \<open>A step of a subscription on its own.\<close>

lemma control_inv_drainer:
  assumes inv: "control_inv p" and i: "i < length (cp_drainers p)" and d: "d = cp_drainers p ! i"
    and same: "dr_session d' = dr_session d" "dr_mine d' = dr_mine d" and ok: "stream_ok d'"
    and cur: "serves (cp_heap p ! dr_session d) d' \<Longrightarrow> current_ok (cp_heap p ! dr_session d) i d'"
  shows "control_inv (p\<lparr>cp_drainers := (cp_drainers p)[i := d']\<rparr>)" (is "control_inv ?p")
proof (rule control_invI)
  show "session_ok (cp_heap ?p ! o') \<and> wake_ok (cp_drainers ?p) o' (cp_heap ?p ! o')" if "o' < length (cp_heap ?p)" for o'
    using that inv_session [OF inv, of o'] inv_wake [OF inv, of o'] same(1) d i by (simp add: wake_ok_def) (metis nth_list_update_eq nth_list_update_neq)
  show "drain_ok (cp_heap ?p) j (cp_drainers ?p ! j)" if "j < length (cp_drainers ?p)" for j
    using that inv_drain [OF inv, of j] inv_drain [OF inv i] same ok cur d by (cases "j = i") (auto simp: drain_ok_def)
qed (use inv_sessions [OF inv] inv_calls [OF inv] in auto)

section \<open>Every operation keeps the invariant\<close>

lemma control_inv_Bind: "control_inv p \<Longrightarrow> control_inv (Bind sid p)"
proof (cases "existingSession sid p")
  case None
  assume inv: "control_inv p"
  show ?thesis
  proof (rule control_invI)
    show "drain_ok (cp_heap (Bind sid p)) i (cp_drainers (Bind sid p) ! i)" if "i < length (cp_drainers (Bind sid p))" for i
      using that None inv_drain [OF inv, of i] by (simp add: Bind_def drain_ok_def nth_append)
    show "session_ok (cp_heap (Bind sid p) ! o') \<and> wake_ok (cp_drainers (Bind sid p)) o' (cp_heap (Bind sid p) ! o')"
      if "o' < length (cp_heap (Bind sid p))" for o'
      using that None inv_session [OF inv, of o'] inv_wake [OF inv, of o']
      by (auto simp: Bind_def nth_append session_ok_def lives_def wake_ok_def)
    show "o' < length (cp_heap (Bind sid p))" if "gm_get (cp_sessions (Bind sid p)) sid' = Some o'" for sid' o'
      using that None inv_sessions [OF inv, of sid' o'] by (simp add: Bind_def split: if_splits)
    show "o' < length (cp_heap (Bind sid p))" if "(o', c) \<in> set (cp_calls (Bind sid p))" for o' c
      using that None inv_calls [OF inv, of o' c] by (simp add: Bind_def)
  qed
qed (simp add: Bind_def)

lemma lives_Nil [simp]: "lives [] = []"
  by (simp add: lives_def)

lemma lives_append [simp]: "lives (xs @ ys) = lives xs @ lives ys"
  by (simp add: lives_def)

lemma set_lives: "set (lives xs) = {r \<in> set xs. \<not> replayPath (rt_op r)}"
  by (simp add: lives_def)

lemma lives_filter: "lives (filter P xs) = filter P (lives xs)"
  by (simp add: lives_def conj_commute)

lemma replayPath_seq [simp]: "replayPath (op\<lparr>ac_ControlSeq := n\<rparr>) = replayPath op"
  by (simp add: replayPath_def)

lemma session_ok_append:
  assumes "session_ok s" and "replayPath op \<or> length (cs_ops s) < maxRetainedOps"
  shows "session_ok (s\<lparr>cs_nextSeq := cs_nextSeq s + 1,
    cs_ops := cs_ops s @ [\<lparr>rt_seq = cs_nextSeq s + 1, rt_op = op\<lparr>ac_ControlSeq := cs_nextSeq s + 1\<rparr>, rt_id = id'\<rparr>]\<rparr>)"
proof -
  have "length (lives (cs_ops s)) \<le> length (cs_ops s)" by (simp add: lives_def)
  then have "length (lives (cs_ops s)) < maxRetainedOps \<or> replayPath op" using assms(2) by linarith
  then show ?thesis using assms(1) by (auto simp: session_ok_def sorted_wrt_append less_Suc_eq_le le_SucI) (simp_all add: lives_def)
qed

lemma control_inv_send: "control_inv p \<Longrightarrow> obj < length (cp_heap p) \<Longrightarrow> control_inv (send_locked obj rl op p)"
proof -
  assume inv: "control_inv p" and obj: "obj < length (cp_heap p)"
  define s where "s = cp_heap p ! obj"
  show ?thesis
  proof (cases "(rl \<and> \<not> cs_live s) \<or> (maxRetainedOps \<le> length (cs_ops s) \<and> \<not> replayPath op)")
    case False
    let ?seq = "cs_nextSeq s + 1"
    let ?s = "s\<lparr>cs_nextSeq := ?seq, cs_ops := cs_ops s @ [\<lparr>rt_seq = ?seq, rt_op = op\<lparr>ac_ControlSeq := ?seq\<rparr>, rt_id = length (cp_accepted p)\<rparr>]\<rparr>"
    have "session_ok ?s" using session_ok_append [of s op] inv_session [OF inv obj] False s_def by auto
    then have "control_inv (p\<lparr>cp_heap := (cp_heap p)[obj := ?s],
        cp_drainers := (if \<not> cs_held s \<or> replayPath op then signalLocked s (cp_drainers p) else cp_drainers p)\<rparr>)" (is "control_inv ?p")
      by (intro control_inv_session [OF inv obj s_def]) (auto simp: eligible_def)
    moreover have "signalLocked ?s = signalLocked s" by (simp add: signalLocked_def fun_eq_iff)
    then have "control_inv (send_locked obj rl op p) = control_inv ?p"
      using False by (intro control_inv_cong) (auto simp: send_locked_def Let_def s_def [symmetric])
    ultimately show ?thesis by simp
  qed (use inv in \<open>auto simp: send_locked_def Let_def s_def [symmetric] control_inv_refuse\<close>)
qed

lemma control_inv_retire: "control_inv p \<Longrightarrow> obj < length (cp_heap p) \<Longrightarrow> control_inv (retire_locked obj p)"
  unfolding retire_locked_def Let_def
  by (rule control_inv_displace) (auto simp: session_ok_def lives_def dest: inv_session)

lemma renumber_length [simp]: "length (renumber n rs) = length rs"
  by (induction n rs rule: renumber.induct) simp_all

lemma renumber_seqs: "map rt_seq (renumber n rs) = [n..<n + length rs]"
  by (induction n rs rule: renumber.induct) (simp_all add: upt_conv_Cons del: upt_Suc)

lemma renumber_ids: "map rt_id (renumber n rs) = map rt_id rs"
  by (induction n rs rule: renumber.induct) simp_all

lemma renumber_member: "r \<in> set (renumber n rs) \<Longrightarrow> \<exists>r' \<in> set rs. rt_id r = rt_id r' \<and> ac_control (rt_op r) = ac_control (rt_op r') \<and> ac_ControlSeq (rt_op r) = rt_seq r"
  by (induction n rs rule: renumber.induct) auto

lemma renumber_keeps: "r' \<in> set rs \<Longrightarrow> \<exists>r \<in> set (renumber n rs). rt_id r = rt_id r' \<and> ac_control (rt_op r) = ac_control (rt_op r')"
  by (induction n rs rule: renumber.induct) auto

lemma control_inv_restart:
  assumes inv: "control_inv p" and obj: "obj < length (cp_heap p)" and first: "replayPath first"
  shows "control_inv (restart_locked obj epoch first p)"
proof -
  define s where "s = cp_heap p ! obj"
  define ops where "ops = \<lparr>rt_seq = 1, rt_op = first\<lparr>ac_ControlSeq := 1\<rparr>, rt_id = length (cp_accepted p)\<rparr>
    # renumber 2 (filter (\<lambda>r. \<not> replayPath (rt_op r)) (cs_ops s))"
  let ?s = "s\<lparr>cs_epoch := epoch, cs_sub := cs_sub s + 1, cs_live := False, cs_wake := None, cs_ops := ops,
            cs_nextSeq := length ops, cs_cursor := 0, cs_held := False\<rparr>"
  have seqs: "map rt_seq ops = [1..<1 + length ops]" by (simp add: ops_def renumber_seqs upt_conv_Cons numeral_2_eq_2 del: upt_Suc)
  have m: "0 < rt_seq r \<and> rt_seq r \<le> length ops" if "r \<in> set ops" for r
  proof -
    have "rt_seq r \<in> set (map rt_seq ops)" using that by simp
    then show ?thesis unfolding seqs by auto
  qed
  have c: "r \<in> set ops \<Longrightarrow> ac_ControlSeq (rt_op r) = rt_seq r" for r using renumber_member [of r] by (auto simp: ops_def)
  have "length (lives ops) \<le> length (filter (\<lambda>r. \<not> replayPath (rt_op r)) (cs_ops s))"
    using first length_filter_le [of _ "renumber 2 (filter (\<lambda>r. \<not> replayPath (rt_op r)) (cs_ops s))"] by (simp add: lives_def ops_def)
  then have len: "length (lives ops) \<le> maxRetainedOps" using inv_session [OF inv obj] by (simp add: s_def session_ok_def lives_def)
  have "session_ok ?s" using m c len seqs by (simp add: session_ok_def del: upt_Suc)
  then have "control_inv (p\<lparr>cp_heap := (cp_heap p)[obj := ?s], cp_drainers := close_wake s (cp_drainers p)\<rparr>)" (is "control_inv ?p")
    by (intro control_inv_displace [OF inv obj s_def]) simp_all
  moreover have "control_inv (restart_locked obj epoch first p) = control_inv ?p"
    by (rule control_inv_cong) (simp_all add: restart_locked_def Let_def s_def [symmetric] ops_def)
  ultimately show ?thesis by simp
qed

lemma control_inv_prune: "control_inv p \<Longrightarrow> obj < length (cp_heap p) \<Longrightarrow> control_inv (ack_prune obj epoch acked ahead ra rr p)"
proof -
  assume inv: "control_inv p" and obj: "obj < length (cp_heap p)"
  define s where "s = cp_heap p ! obj"
  show ?thesis
  proof (cases "cs_epoch s = epoch")
    case True
    define cursor where "cursor = max (min acked (cs_nextSeq s)) (cs_cursor s)"
    let ?s = "s\<lparr>cs_cursor := cursor, cs_ops := filter (\<lambda>r. cursor < rt_seq r \<and> rt_seq r \<notin> set ahead) (cs_ops s)\<rparr>"
    have ok: "session_ok s" using inv_session [OF inv obj] s_def by simp
    have "length (lives (cs_ops ?s)) \<le> length (lives (cs_ops s))" by (simp add: lives_filter)
    then have "session_ok ?s" using ok by (auto simp: session_ok_def cursor_def sorted_wrt_filter sorted_wrt_map)
    then have "control_inv (p\<lparr>cp_heap := (cp_heap p)[obj := ?s], cp_drainers := (if False then signalLocked s (cp_drainers p) else cp_drainers p)\<rparr>)" (is "control_inv ?p")
      by (intro control_inv_session [OF inv obj s_def]) (auto simp: eligible_def)
    moreover have "control_inv (ack_prune obj epoch acked ahead ra rr p) = control_inv ?p"
      using True by (intro control_inv_cong) (simp_all add: ack_prune_def Let_def s_def [symmetric] cursor_def [symmetric] del: max_less_iff_conj)
    ultimately show ?thesis by simp
  qed (use inv in \<open>simp add: ack_prune_def Let_def s_def [symmetric]\<close>)
qed

lemma control_inv_hold: "control_inv p \<Longrightarrow> obj < length (cp_heap p) \<Longrightarrow> control_inv (hold_locked obj p)"
  unfolding hold_locked_def
  using control_inv_session [of p obj _ "(cp_heap p ! obj)\<lparr>cs_held := True\<rparr>" False] inv_session [of p obj]
  by (simp add: eligible_def session_ok_def)

lemma control_inv_release: "control_inv p \<Longrightarrow> obj < length (cp_heap p) \<Longrightarrow> control_inv (release_locked obj epoch p)"
  unfolding release_locked_def Let_def
  using control_inv_session [of p obj _ "(cp_heap p ! obj)\<lparr>cs_held := False\<rparr>" True] inv_session [of p obj]
  by (simp add: eligible_def session_ok_def)

lemma control_inv_serve_bind:
  assumes inv: "control_inv p" and obj: "obj < length (cp_heap p)"
  shows "control_inv (serve_bind obj p)"
proof (cases "cs_retired (cp_heap p ! obj)")
  case False
  let ?s = "cp_heap p ! obj" and ?n = "length (cp_drainers p)" and ?p = "serve_bind obj p"
  define s' where "s' = ?s\<lparr>cs_sub := cs_sub ?s + 1, cs_wake := Some ?n, cs_live := True\<rparr>"
  define d where "d = \<lparr>dr_session = obj, dr_phase = LoopTop, dr_mine = cs_sub ?s + 1, dr_token = True, dr_closed = False,
    dr_sent = cs_cursor ?s, dr_above = [], dr_written = []\<rparr>"
  have p: "cp_heap ?p = (cp_heap p)[obj := s']" "cp_drainers ?p = close_wake ?s (cp_drainers p) @ [d]" "cp_sessions ?p = cp_sessions p" "cp_calls ?p = cp_calls p"
    using False by (simp_all add: serve_bind_def Let_def s'_def d_def)
  have ok: "session_ok ?s" by (rule inv_session [OF inv obj])
  show ?thesis
  proof (rule control_invI)
    show "session_ok (cp_heap ?p ! o') \<and> wake_ok (cp_drainers ?p) o' (cp_heap ?p ! o')" if "o' < length (cp_heap ?p)" for o'
      using that inv_session [OF inv, of o'] inv_wake [OF inv, of o'] ok unfolding p
      by (cases "o' = obj") (auto simp: wake_ok_def close_nth nth_append s'_def d_def session_ok_def)
    show "drain_ok (cp_heap ?p) i (cp_drainers ?p ! i)" if "i < length (cp_drainers ?p)" for i
    proof (cases "i < ?n")
      case True
      then show ?thesis using displaced_ok [OF inv_drain [OF inv True] obj _ inv_wake [OF inv obj] refl, of s']
        unfolding p by (simp add: close_nth nth_append s'_def)
    next
      case False
      then have "i = ?n" using that by (simp add: p close_nth)
      then show ?thesis using ok obj unfolding p
        by (auto simp: nth_append close_nth drain_ok_def d_def s'_def stream_ok_def flow_def current_ok_def session_ok_def lives_def)
    qed
  qed (use inv_sessions [OF inv] inv_calls [OF inv] in \<open>auto simp: p\<close>)
qed (use inv in \<open>simp add: serve_bind_def Let_def control_inv_refuse\<close>)

section \<open>Steps of a subscription\<close>

lemma stream_ok_quiet: "stream_ok d \<Longrightarrow> batch_of ph = [] \<Longrightarrow> stream_ok (d\<lparr>dr_phase := ph\<rparr>)"
  by (auto simp: stream_ok_def flow_def sorted_wrt_append)

lemma stream_ok_same: "stream_ok d \<Longrightarrow> batch_of ph = batch_of (dr_phase d) \<Longrightarrow> stream_ok (d\<lparr>dr_phase := ph\<rparr>)"
  by (simp add: stream_ok_def flow_def)

lemma current_ok_same:
  "current_ok s i d \<Longrightarrow> batch_of ph = batch_of (dr_phase d) \<Longrightarrow> dr_phase d \<noteq> LoopTop \<Longrightarrow> current_ok s i (d\<lparr>dr_phase := ph\<rparr>)"
  by (auto simp: current_ok_def flow_def)

lemma quiet_serves: "\<not> serves s (d\<lparr>dr_phase := Returning\<rparr>)" "\<not> serves s (d\<lparr>dr_phase := Returned\<rparr>)"
  by (simp_all add: serves_def serving_def)

lemma absorb_top:
  assumes "(if dr_sent d < cs_cursor s then absorbJump (cs_cursor s) (dr_above d) else (dr_sent d, dr_above d)) = (sent, ahead)"
  shows "dr_sent d \<le> sent" and "set ahead \<subseteq> set (dr_above d)" and "\<And>x. x \<in> set (dr_above d) \<Longrightarrow> x \<le> sent \<or> x \<in> set ahead"
    and "\<And>x. x \<le> sent \<Longrightarrow> x \<le> dr_sent d \<or> x \<le> cs_cursor s \<or> x \<in> set (dr_above d)"
proof -
  consider (jump) "dr_sent d < cs_cursor s" "absorbContiguous (cs_cursor s) (filter (\<lambda>x. cs_cursor s < x) (dr_above d)) = (sent, ahead)"
    | (stay) "sent = dr_sent d" "ahead = dr_above d" using assms by (auto simp: absorbJump_def split: if_splits)
  then have "dr_sent d \<le> sent \<and> set ahead \<subseteq> set (dr_above d) \<and> (\<forall>x. x \<in> set (dr_above d) \<longrightarrow> x \<le> sent \<or> x \<in> set ahead)
    \<and> (\<forall>x. x \<le> sent \<longrightarrow> x \<le> dr_sent d \<or> x \<le> cs_cursor s \<or> x \<in> set (dr_above d))"
  proof cases
    case jump
    note a = absorbContiguous_spec [OF jump(2)]
    have "x \<in> set (dr_above d)" if "x \<le> sent" "cs_cursor s < x" for x using a that by auto
    moreover have "x \<le> sent \<or> x \<in> set ahead" if "x \<in> set (dr_above d)" for x using a that by (cases "cs_cursor s < x") auto
    moreover have "set ahead \<subseteq> set (dr_above d)" "dr_sent d \<le> sent" using a jump(1) by auto
    ultimately show ?thesis by (metis not_le)
  qed simp
  then show "dr_sent d \<le> sent" "set ahead \<subseteq> set (dr_above d)" "\<And>x. x \<in> set (dr_above d) \<Longrightarrow> x \<le> sent \<or> x \<in> set ahead"
    "\<And>x. x \<le> sent \<Longrightarrow> x \<le> dr_sent d \<or> x \<le> cs_cursor s \<or> x \<in> set (dr_above d)" by blast+
qed

text \<open>A batch is what the current subscription has not written and the barrier lets through.\<close>

lemma collect_ok:
  assumes ok: "session_ok s" and st: "stream_ok d" and cur: "current_ok s i d" and ph: "dr_phase d = LoopTop"
    and top': "(if dr_sent d < cs_cursor s then absorbJump (cs_cursor s) (dr_above d) else (dr_sent d, dr_above d)) = (sent, ahead)"
  shows "stream_ok (d\<lparr>dr_sent := sent, dr_above := ahead, dr_phase := Sending (collectBatch s sent ahead)\<rparr>)" (is "stream_ok ?d")
    and "current_ok s i (d\<lparr>dr_sent := sent, dr_above := ahead, dr_phase := Sending (collectBatch s sent ahead)\<rparr>)"
proof -
  define b where "b = collectBatch s sent ahead"
  have b: "b = filter (\<lambda>r. sent < rt_seq r \<and> rt_seq r \<notin> set ahead \<and> eligible s r) (cs_ops s)"
    using ok collectBatch_eq [of s sent ahead] by (simp add: b_def session_ok_def strict_sorted_iff eligible_def)
  note absorb = absorb_top [OF top']
  have flow: "flow d = dr_written d" using ph by (simp add: flow_def)
  have opsgt: "cs_cursor s < rt_seq r" "rt_seq r \<le> cs_nextSeq s" if "r \<in> set (cs_ops s)" for r using ok that by (auto simp: session_ok_def)
  have written: "rt_seq x \<le> sent \<or> rt_seq x \<in> set ahead" if "x \<in> set (dr_written d)" for x
    using st that absorb(1,3) by (fastforce simp: stream_ok_def)
  have done': "r \<in> set (dr_written d)" if "r \<in> set (cs_ops s)" "rt_seq r \<le> sent \<or> rt_seq r \<in> set ahead" for r
    using cur that opsgt(1) [OF that(1)] absorb(2) absorb(4) [of "rt_seq r"] unfolding current_ok_def by (meson not_le subsetD)
  have new: "sent < rt_seq r" "rt_seq r \<notin> set ahead" "r \<in> set (cs_ops s)" if "r \<in> set b" for r using that by (auto simp: b)
  have fresh: "rt_seq x \<noteq> rt_seq r" if "r \<in> set b" "x \<in> set (dr_written d)" for r x
    using new [OF that(1)] written [OF that(2)] by auto
  have sb: "sorted_wrt (<) (map rt_seq b)" using ok unfolding b by (simp add: session_ok_def sorted_wrt_map sorted_wrt_filter)
  have later: "rt_seq x < rt_seq r" if "r \<in> set (lives b)" "x \<in> set (lives (dr_written d))" for r x
  proof -
    have "r \<in> set (lives (cs_ops s))" "r \<notin> set (dr_written d)" using that fresh [of r r] new(3) [of r] by (auto simp: set_lives)
    then show ?thesis using cur that(2) unfolding current_ok_def flow by blast
  qed
  have lb: "sorted_wrt (<) (map rt_seq (lives b))" using sb by (simp add: lives_def sorted_wrt_map sorted_wrt_filter)
  have distinct: "distinct (map rt_seq b)" using sb strict_sorted_iff by blast
  show "stream_ok ?d" unfolding b_def [symmetric]
    using st lb sb distinct fresh written later
    by (auto simp: stream_ok_def flow_def ph sorted_wrt_append b)
  have all: "r \<in> set (dr_written d) \<union> set b" if "r \<in> set (cs_ops s)" "eligible s r" for r
    using done' [OF that(1)] that unfolding b by fastforce
  have rest: "rt_seq x < rt_seq r" if "r \<in> set (lives (cs_ops s))" "r \<notin> set (dr_written d) \<union> set b" "x \<in> set (lives (dr_written d @ b))" for r x
  proof -
    have "r \<in> set (cs_ops s)" "\<not> eligible s r" using that all by (auto simp: set_lives)
    then have "lives b = []" unfolding b lives_def by (auto simp: eligible_def filter_empty_conv)
    then show ?thesis using that cur unfolding current_ok_def flow by auto
  qed
  have "sent \<le> cs_nextSeq s" using absorb(4) [of sent] cur ok unfolding current_ok_def session_ok_def by auto
  moreover have "x \<le> cs_nextSeq s" if "x \<in> set ahead" for x using that absorb(2) cur unfolding current_ok_def by blast
  moreover have "x = r" if "r \<in> set (cs_ops s)" "x \<in> set b" "rt_seq x = rt_seq r" for x r
    using that ok unfolding b by (auto simp: session_ok_def sorted_wrt_map sorted_wrt_iff_nth_less in_set_conv_nth) (metis linorder_neqE_nat less_irrefl)
  ultimately show "current_ok s i ?d" unfolding b_def [symmetric]
    using cur opsgt done' all rest unfolding current_ok_def
    by (auto simp: flow_def ph b)
qed

text \<open>A write moves the head of the batch to the stream; the watermark advances over what is already written.\<close>

lemma written_ok:
  assumes st: "stream_ok d" and ph: "dr_phase d = Writing r batch"
    and adv: "(if rt_seq r = dr_sent d + 1 then absorbContiguous (rt_seq r) (dr_above d) else (dr_sent d, rt_seq r # dr_above d)) = (sent, ahead)"
  shows "dr_sent d \<le> sent" and "\<And>x. x \<le> dr_sent d \<or> x \<in> set (dr_above d) \<or> x = rt_seq r \<longleftrightarrow> x \<le> sent \<or> x \<in> set ahead"
    and "\<And>x. x \<in> set batch \<Longrightarrow> sent < rt_seq x \<and> rt_seq x \<notin> set ahead"
proof -
  have b: "sorted_wrt (<) (map rt_seq (r # batch))" "\<And>x. x \<in> set (r # batch) \<Longrightarrow> dr_sent d < rt_seq x \<and> rt_seq x \<notin> set (dr_above d)"
    using st ph by (auto simp: stream_ok_def)
  have "dr_sent d \<le> sent \<and> (\<forall>x. x \<le> dr_sent d \<or> x \<in> set (dr_above d) \<or> x = rt_seq r \<longleftrightarrow> x \<le> sent \<or> x \<in> set ahead)"
  proof (cases "rt_seq r = dr_sent d + 1")
    case True
    then have "absorbContiguous (rt_seq r) (dr_above d) = (sent, ahead)" using adv by simp
    note a = absorbContiguous_spec [OF this]
    have "x \<le> sent \<longleftrightarrow> x \<le> dr_sent d \<or> x = rt_seq r \<or> rt_seq r < x \<and> x \<le> sent" for x using a True by auto
    then show ?thesis using a True by auto
  next
    case False
    then show ?thesis using adv by auto
  qed
  then show 1: "dr_sent d \<le> sent" and 2: "\<And>x. x \<le> dr_sent d \<or> x \<in> set (dr_above d) \<or> x = rt_seq r \<longleftrightarrow> x \<le> sent \<or> x \<in> set ahead" by blast+
  show "sent < rt_seq x \<and> rt_seq x \<notin> set ahead" if "x \<in> set batch" for x
    using b(1) b(2) [of x] 2 [of "rt_seq x"] that by (auto simp: not_le [symmetric])
qed

lemma write_op_ok:
  assumes st: "stream_ok d" and ph: "dr_phase d = Writing r batch"
  shows "stream_ok (write_op d)" and "current_ok s i d \<Longrightarrow> current_ok s i (write_op d)"
proof -
  obtain sent ahead where adv: "(if rt_seq r = dr_sent d + 1 then absorbContiguous (rt_seq r) (dr_above d) else (dr_sent d, rt_seq r # dr_above d)) = (sent, ahead)"
    by fastforce
  have e: "write_op d = d\<lparr>dr_written := dr_written d @ [r], dr_phase := Sending batch, dr_sent := sent, dr_above := ahead\<rparr>"
    using ph adv by (auto simp: write_op_def Let_def split: if_splits)
  note w = written_ok [OF st ph adv]
  have flow: "flow (write_op d) = flow d" by (simp add: e flow_def ph)
  have "\<forall>x \<in> set (dr_written d). rt_seq x \<le> dr_sent d \<or> rt_seq x \<in> set (dr_above d)" using st by (simp add: stream_ok_def)
  then have "\<forall>x \<in> set (dr_written d @ [r]). rt_seq x \<le> sent \<or> rt_seq x \<in> set ahead" using w(2) by (metis in_set_conv_decomp rotate1.simps(2) set_ConsD set_rotate1)
  then show "stream_ok (write_op d)" using st w(3) unfolding stream_ok_def flow by (simp add: e ph)
  show "current_ok s i (write_op d)" if cur: "current_ok s i d"
  proof -
    have r: "r \<in> set (flow d)" by (simp add: flow_def ph)
    have bound: "x \<le> cs_nextSeq s" if "x \<le> sent \<or> x \<in> set ahead" for x
      using that cur r unfolding w(2) [symmetric] current_ok_def by (metis le_trans)
    have "r' \<in> set (dr_written d @ [r])" if "r' \<in> set (cs_ops s)" "rt_seq r' \<le> sent \<or> rt_seq r' \<in> set ahead" for r'
      using that cur r unfolding w(2) [symmetric] current_ok_def by auto
    moreover have "sent \<le> cs_nextSeq s" "\<forall>x \<in> set ahead. x \<le> cs_nextSeq s" using bound by blast+
    ultimately show ?thesis using cur ph unfolding current_ok_def flow by (simp add: e)
  qed
qed

lemma control_inv_phase:
  assumes inv: "control_inv p" and i: "i < length (cp_drainers p)" and ph: "ph = Returning \<or> ph = Returned"
  shows "control_inv (p\<lparr>cp_drainers := (cp_drainers p)[i := (cp_drainers p ! i)\<lparr>dr_phase := ph\<rparr>]\<rparr>)"
proof -
  have "stream_ok (cp_drainers p ! i)" using inv_drain [OF inv i] by (simp add: drain_ok_def)
  then have "stream_ok ((cp_drainers p ! i)\<lparr>dr_phase := ph\<rparr>)" using ph by (intro stream_ok_quiet) auto
  then show ?thesis using ph by (intro control_inv_drainer [OF inv i refl]) (auto simp: serves_def serving_def)
qed

lemma control_inv_exit:
  assumes inv: "control_inv p" and i: "i < length (cp_drainers p)"
  shows "control_inv (serve_exit i p)"
proof -
  define obj where "obj = dr_session (cp_drainers p ! i)"
  let ?s = "cp_heap p ! obj" and ?p = "p\<lparr>cp_drainers := (cp_drainers p)[i := (cp_drainers p ! i)\<lparr>dr_phase := Returned\<rparr>]\<rparr>"
  let ?s' = "?s\<lparr>cs_live := cs_live ?s \<and> cs_sub ?s \<noteq> dr_mine (cp_drainers p ! i)\<rparr>"
  have p: "control_inv ?p" by (rule control_inv_phase [OF inv i]) simp
  have obj: "obj < length (cp_heap ?p)" using inv_drain [OF inv i] by (simp add: drain_ok_def obj_def)
  have ok: "session_ok ?s'" using inv_session [OF p obj] by (simp add: session_ok_def)
  have "control_inv (?p\<lparr>cp_heap := (cp_heap ?p)[obj := ?s'], cp_drainers := (if False then signalLocked ?s (cp_drainers ?p) else cp_drainers ?p)\<rparr>)" (is "control_inv ?p2")
    by (rule control_inv_session [OF p obj _ ok]) (auto simp: eligible_def)
  moreover have "control_inv (serve_exit i p) = control_inv ?p2" by (rule control_inv_cong) (simp_all add: serve_exit_def Let_def obj_def)
  ultimately show ?thesis by simp
qed

lemma control_inv_drain: "control_inv p \<Longrightarrow> control_inv (drain_step i p)"
proof (cases "i < length (cp_drainers p)")
  case True
  assume inv: "control_inv p"
  let ?d = "cp_drainers p ! i" and ?s = "cp_heap p ! dr_session (cp_drainers p ! i)"
  have d: "drain_ok (cp_heap p) i ?d" by (rule inv_drain [OF inv True])
  then have st: "stream_ok ?d" and cur: "serves ?s ?d \<Longrightarrow> current_ok ?s i ?d" and obj: "dr_session ?d < length (cp_heap p)" by (simp_all add: drain_ok_def)
  have ok: "session_ok ?s" by (rule inv_session [OF inv obj])
  show ?thesis
  proof (cases "dr_phase ?d")
    case LoopTop
    obtain sent ahead where t: "(if dr_sent ?d < cs_cursor ?s then absorbJump (cs_cursor ?s) (dr_above ?d) else (dr_sent ?d, dr_above ?d)) = (sent, ahead)" by fastforce
    have "control_inv (p\<lparr>cp_drainers := (cp_drainers p)[i := loop_top ?s ?d]\<rparr>)"
    proof (cases "cs_sub ?s = dr_mine ?d")
      case same: True
      then have c: "current_ok ?s i ?d" using cur LoopTop by (simp add: serves_def serving_def)
      have "loop_top ?s ?d = ?d\<lparr>dr_sent := sent, dr_above := ahead, dr_phase := Sending (collectBatch ?s sent ahead)\<rparr>"
        using same t by (simp add: loop_top_def)
      then show ?thesis using collect_ok [OF ok st c LoopTop t] by (intro control_inv_drainer [OF inv True refl]) simp_all
    next
      case False
      then show ?thesis using control_inv_phase [OF inv True, of Returning] by (simp add: loop_top_def)
    qed
    then show ?thesis using True LoopTop by (simp add: drain_step_def Let_def)
  next
    case (Sending batch)
    have "control_inv (p\<lparr>cp_drainers := (cp_drainers p)[i := check_displaced ?s ?d]\<rparr>)"
    proof (cases "batch \<noteq> [] \<and> cs_sub ?s \<noteq> dr_mine ?d")
      case True': True
      then show ?thesis using control_inv_phase [OF inv True, of Returning] Sending by (auto simp: check_displaced_def split: list.split)
    next
      case False
      define ph where "ph = (case batch of [] \<Rightarrow> Parked | r # rest \<Rightarrow> Writing r rest)"
      have e: "check_displaced ?s ?d = ?d\<lparr>dr_phase := ph\<rparr>" using False Sending by (auto simp: check_displaced_def ph_def split: list.split)
      have ph: "batch_of ph = batch_of (dr_phase ?d)" "serving (?d\<lparr>dr_phase := ph\<rparr>) = serving ?d" using Sending by (auto simp: ph_def serving_def split: list.split)
      show ?thesis unfolding e using stream_ok_same [OF st ph(1)] current_ok_same [OF cur ph(1)] ph(2) Sending
        by (intro control_inv_drainer [OF inv True refl]) (simp_all add: serves_def)
    qed
    then show ?thesis using True Sending by (simp add: drain_step_def Let_def)
  next
    case (Writing r batch)
    have "control_inv (p\<lparr>cp_drainers := (cp_drainers p)[i := write_op ?d]\<rparr>)"
      using write_op_ok [OF st Writing] cur Writing
      by (intro control_inv_drainer [OF inv True refl]) (auto simp: write_op_def serves_def serving_def Let_def split: prod.splits)
    then show ?thesis using True Writing by (simp add: drain_step_def Let_def)
  next
    case Parked
    have "control_inv (p\<lparr>cp_drainers := (cp_drainers p)[i := take_wake ?d]\<rparr>)"
      using st cur Parked
      by (intro control_inv_drainer [OF inv True refl]) (auto simp: take_wake_def serves_def serving_def stream_ok_def current_ok_def flow_def)
    then show ?thesis using True Parked by (simp add: drain_step_def Let_def)
  next
    case Returning
    then show ?thesis using control_inv_exit [OF inv True] True by (simp add: drain_step_def Let_def)
  qed (use inv True in \<open>simp add: drain_step_def Let_def\<close>)
qed (simp add: drain_step_def)

section \<open>What leaves retention\<close>

definition named :: "nat \<Rightarrow> nat list \<Rightarrow> nat list \<Rightarrow> nat \<Rightarrow> bool" where
  "named acked above' ranges s \<longleftrightarrow> s \<le> acked \<or> s \<in> set above' \<or> list_ex (\<lambda>(a, b). a \<le> s \<and> s \<le> b) (range_pairs ranges)"

fun call_ok :: "control_call \<Rightarrow> bool" where
  "call_ok (RestartCall epoch first) \<longleftrightarrow> replayPath first"
| "call_ok (PruneCall epoch acked ahead rawAbove rawRanges) \<longleftrightarrow> (\<forall>s \<in> set ahead. named acked rawAbove rawRanges s)"
| "call_ok _ \<longleftrightarrow> True"

definition calls_ok :: "controlProducer \<Rightarrow> bool" where
  "calls_ok p \<longleftrightarrow> (\<forall>obj c. (obj, c) \<in> set (cp_calls p) \<longrightarrow> call_ok c)"

definition bound_ok :: "controlProducer \<Rightarrow> bool" where
  "bound_ok p \<longleftrightarrow> (\<forall>sid obj. gm_get (cp_sessions p) sid = Some obj \<longrightarrow> \<not> cs_retired (cp_heap p ! obj) \<and> (obj, RetireCall) \<notin> set (cp_calls p)
    \<and> (\<forall>sid'. gm_get (cp_sessions p) sid' = Some obj \<longrightarrow> sid' = sid))"

definition op_kept :: "controlProducer \<Rightarrow> nat \<Rightarrow> nat \<Rightarrow> AgentControl \<Rightarrow> bool" where
  "op_kept p obj n op \<longleftrightarrow> (\<exists>r \<in> set (cs_ops (cp_heap p ! obj)). rt_id r = n \<and> ac_control (rt_op r) = ac_control op)
    \<or> (\<exists>a \<in> set (cp_acked p). ao_session a = obj \<and> rt_id (ao_op a) = n \<and> ac_control (rt_op (ao_op a)) = ac_control op
        \<and> named (ao_acked a) (ao_above a) (ao_ranges a) (rt_seq (ao_op a)))
    \<or> (replayPath op \<and> (obj, n) \<in> set (cp_replaced p))"

definition kept_inv :: "controlProducer \<Rightarrow> bool" where
  "kept_inv p \<longleftrightarrow> (\<forall>obj n op. (obj, n, op) \<in> set (cp_accepted p) \<longrightarrow> obj < length (cp_heap p) \<and> (\<not> cs_retired (cp_heap p ! obj) \<longrightarrow> op_kept p obj n op))"

lemma kept_invI:
  assumes "\<And>obj n op. (obj, n, op) \<in> set (cp_accepted p) \<Longrightarrow> obj < length (cp_heap p)"
    and "\<And>obj n op. (obj, n, op) \<in> set (cp_accepted p) \<Longrightarrow> \<not> cs_retired (cp_heap p ! obj) \<Longrightarrow> op_kept p obj n op"
  shows "kept_inv p"
  using assms unfolding kept_inv_def by blast

lemma kept_obj: "kept_inv p \<Longrightarrow> (obj, n, op) \<in> set (cp_accepted p) \<Longrightarrow> obj < length (cp_heap p)"
  unfolding kept_inv_def by blast

lemma kept_op: "kept_inv p \<Longrightarrow> (obj, n, op) \<in> set (cp_accepted p) \<Longrightarrow> \<not> cs_retired (cp_heap p ! obj) \<Longrightarrow> op_kept p obj n op"
  unfolding kept_inv_def by blast

lemma kept_frame:
  assumes inv: "kept_inv p" and same: "cp_accepted p' = cp_accepted p" "cp_acked p' = cp_acked p" "cp_replaced p' = cp_replaced p"
    and heap: "length (cp_heap p) \<le> length (cp_heap p')" "\<And>obj. obj < length (cp_heap p) \<Longrightarrow> cs_ops (cp_heap p' ! obj) = cs_ops (cp_heap p ! obj)
      \<and> cs_retired (cp_heap p' ! obj) = cs_retired (cp_heap p ! obj)"
  shows "kept_inv p'"
proof (rule kept_invI)
  fix obj n op
  assume "(obj, n, op) \<in> set (cp_accepted p')"
  then have a: "(obj, n, op) \<in> set (cp_accepted p)" using same by simp
  note o = kept_obj [OF inv a]
  show "obj < length (cp_heap p')" using o heap(1) by simp
  show "op_kept p' obj n op" if "\<not> cs_retired (cp_heap p' ! obj)"
    using kept_op [OF inv a] that heap(2) [OF o] same by (simp add: op_kept_def)
qed

text \<open>A change of one session: every operation it held is held, acknowledged or replaced afterwards.\<close>

lemma kept_session:
  assumes inv: "kept_inv p" and heap: "cp_heap p' = (cp_heap p)[obj := s']"
    and acc: "\<And>o' n op. (o', n, op) \<in> set (cp_accepted p') \<Longrightarrow> (o', n, op) \<in> set (cp_accepted p) \<or> o' < length (cp_heap p) \<and> op_kept p' o' n op"
    and grow: "set (cp_acked p) \<subseteq> set (cp_acked p')" "set (cp_replaced p) \<subseteq> set (cp_replaced p')" and ret: "cs_retired (cp_heap p ! obj) \<Longrightarrow> cs_retired s'"
    and ops: "\<And>r. \<not> cs_retired s' \<Longrightarrow> r \<in> set (cs_ops (cp_heap p ! obj)) \<Longrightarrow> op_kept p' obj (rt_id r) (rt_op r)"
  shows "kept_inv p'"
proof (rule kept_invI)
  fix o' n op
  assume a: "(o', n, op) \<in> set (cp_accepted p')"
  show "o' < length (cp_heap p')" using acc [OF a] kept_obj [OF inv] heap by auto
  assume nr: "\<not> cs_retired (cp_heap p' ! o')"
  show "op_kept p' o' n op"
  proof (cases "(o', n, op) \<in> set (cp_accepted p)")
    case True
    note o = kept_obj [OF inv True]
    have "\<not> cs_retired (cp_heap p ! o')" using nr ret o heap by (cases "o' = obj") auto
    then have k: "op_kept p o' n op" by (rule kept_op [OF inv True])
    show ?thesis
    proof (cases "o' = obj \<and> (\<exists>r \<in> set (cs_ops (cp_heap p ! obj)). rt_id r = n \<and> ac_control (rt_op r) = ac_control op)")
      case True
      then obtain r where r: "r \<in> set (cs_ops (cp_heap p ! obj))" "rt_id r = n" "ac_control (rt_op r) = ac_control op" by blast
      have "\<not> cs_retired s'" using nr True o heap by simp
      from ops [OF this r(1)] show ?thesis using r True by (simp add: op_kept_def replayPath_def)
    next
      case False
      then show ?thesis using k grow heap unfolding op_kept_def by (cases "o' = obj") auto
    qed
  qed (use acc [OF a] in blast)
qed

lemma kept_send: "kept_inv p \<Longrightarrow> obj < length (cp_heap p) \<Longrightarrow> kept_inv (send_locked obj rl op p)"
proof -
  assume inv: "kept_inv p" and obj: "obj < length (cp_heap p)"
  let ?s = "cp_heap p ! obj" and ?p = "send_locked obj rl op p"
  show ?thesis
  proof (cases "(rl \<and> \<not> cs_live ?s) \<or> (maxRetainedOps \<le> length (cs_ops ?s) \<and> \<not> replayPath op)")
    case True
    then show ?thesis by (intro kept_frame [OF inv]) (auto simp: send_locked_def Let_def refuse_def)
  next
    case False
    define s' where "s' = ?s\<lparr>cs_nextSeq := cs_nextSeq ?s + 1, cs_ops := cs_ops ?s @ [\<lparr>rt_seq = cs_nextSeq ?s + 1, rt_op = op\<lparr>ac_ControlSeq := cs_nextSeq ?s + 1\<rparr>,
      rt_id = length (cp_accepted p)\<rparr>]\<rparr>"
    have p: "cp_heap ?p = (cp_heap p)[obj := s']" "cp_accepted ?p = cp_accepted p @ [(obj, length (cp_accepted p), op)]" "cp_acked ?p = cp_acked p" "cp_replaced ?p = cp_replaced p"
      using False by (auto simp: send_locked_def Let_def s'_def)
    have k: "op_kept ?p obj (rt_id r) (rt_op r)" if "r \<in> set (cs_ops ?s)" for r using that obj by (auto simp: op_kept_def p s'_def)
    have new: "op_kept ?p obj (length (cp_accepted p)) op" using obj by (simp add: op_kept_def p s'_def)
    show ?thesis
      by (rule kept_session [OF inv p(1)]) (use k new obj in \<open>auto simp: p s'_def\<close>)
  qed
qed

lemma kept_retire: "kept_inv p \<Longrightarrow> kept_inv (retire_locked obj p)"
  by (rule kept_session [of p _ obj "(cp_heap p ! obj)\<lparr>cs_sub := cs_sub (cp_heap p ! obj) + 1, cs_live := False, cs_retired := True, cs_ops := [], cs_wake := None\<rparr>"])
    (simp_all add: retire_locked_def Let_def)

lemma kept_restart: "kept_inv p \<Longrightarrow> obj < length (cp_heap p) \<Longrightarrow> kept_inv (restart_locked obj epoch first p)"
proof -
  assume inv: "kept_inv p" and obj: "obj < length (cp_heap p)"
  let ?s = "cp_heap p ! obj" and ?p = "restart_locked obj epoch first p" and ?live = "\<lambda>r. \<not> replayPath (rt_op r)"
  define ops where "ops = \<lparr>rt_seq = 1, rt_op = first\<lparr>ac_ControlSeq := 1\<rparr>, rt_id = length (cp_accepted p)\<rparr> # renumber 2 (filter ?live (cs_ops ?s))"
  define s' where "s' = ?s\<lparr>cs_epoch := epoch, cs_sub := cs_sub ?s + 1, cs_live := False, cs_wake := None, cs_ops := ops,
            cs_nextSeq := length ops, cs_cursor := 0, cs_held := False\<rparr>"
  have p: "cp_heap ?p = (cp_heap p)[obj := s']" "cp_accepted ?p = cp_accepted p @ [(obj, length (cp_accepted p), first)]" "cp_acked ?p = cp_acked p"
    "cp_replaced ?p = cp_replaced p @ map (\<lambda>r. (obj, rt_id r)) (filter (\<lambda>r. replayPath (rt_op r)) (cs_ops ?s))"
    by (simp_all add: restart_locked_def Let_def s'_def ops_def)
  have new: "op_kept ?p obj (length (cp_accepted p)) first" using obj by (simp add: op_kept_def p s'_def ops_def)
  have "op_kept ?p obj (rt_id r) (rt_op r)" if "r \<in> set (cs_ops ?s)" for r
  proof (cases "replayPath (rt_op r)")
    case False
    then have "\<exists>r' \<in> set (renumber 2 (filter ?live (cs_ops ?s))). rt_id r' = rt_id r \<and> ac_control (rt_op r') = ac_control (rt_op r)"
      using that by (intro renumber_keeps) simp
    then show ?thesis using obj by (auto simp: op_kept_def p s'_def ops_def)
  qed (use that in \<open>simp add: op_kept_def p\<close>)
  then show ?thesis
    by (intro kept_session [OF inv p(1)]) (use new obj in \<open>auto simp: p s'_def\<close>)
qed

lemma kept_prune:
  assumes inv: "kept_inv p" and c: "control_inv p" and obj: "obj < length (cp_heap p)" and named: "\<forall>s \<in> set ahead. named acked ra rr s"
  shows "kept_inv (ack_prune obj epoch acked ahead ra rr p)"
proof (cases "cs_epoch (cp_heap p ! obj) = epoch")
  case True
  let ?s = "cp_heap p ! obj" and ?p = "ack_prune obj epoch acked ahead ra rr p"
  define cursor where "cursor = max (min acked (cs_nextSeq ?s)) (cs_cursor ?s)"
  let ?keep = "\<lambda>r. cursor < rt_seq r \<and> rt_seq r \<notin> set ahead"
  define s' where "s' = ?s\<lparr>cs_cursor := cursor, cs_ops := filter ?keep (cs_ops ?s)\<rparr>"
  have p: "cp_heap ?p = (cp_heap p)[obj := s']" "cp_accepted ?p = cp_accepted p" "cp_replaced ?p = cp_replaced p"
    "cp_acked ?p = cp_acked p @ map (\<lambda>r. \<lparr>ao_session = obj, ao_op = r, ao_epoch = epoch, ao_acked = acked, ao_above = ra, ao_ranges = rr\<rparr>) (filter (\<lambda>r. \<not> ?keep r) (cs_ops ?s))"
    using True by (simp_all add: ack_prune_def Let_def s'_def cursor_def del: max_less_iff_conj)
  have "op_kept ?p obj (rt_id r) (rt_op r)" if r: "r \<in> set (cs_ops ?s)" for r
  proof (cases "?keep r")
    case False
    have "cs_cursor ?s < rt_seq r" using inv_session [OF c obj] r by (simp add: session_ok_def)
    then have "named acked ra rr (rt_seq r)" using False named by (auto simp: cursor_def named_def)
    then show ?thesis using r False unfolding op_kept_def p(4)
      by (intro disjI2 disjI1 bexI [of _ "\<lparr>ao_session = obj, ao_op = r, ao_epoch = epoch, ao_acked = acked, ao_above = ra, ao_ranges = rr\<rparr>"]) auto
  qed (use r obj in \<open>auto simp: op_kept_def p s'_def\<close>)
  then show ?thesis
    by (intro kept_session [OF inv p(1)]) (auto simp: p s'_def)
qed (use inv in \<open>simp add: ack_prune_def Let_def\<close>)

section \<open>Every run\<close>

definition lane_inv :: "controlProducer \<Rightarrow> bool" where
  "lane_inv p \<longleftrightarrow> control_inv p \<and> kept_inv p \<and> calls_ok p \<and> bound_ok p"

lemma lane_inv_new: "lane_inv newControlProducer"
  by (simp add: lane_inv_def control_inv_new) (simp add: newControlProducer_def kept_inv_def calls_ok_def bound_ok_def)

lemma snapshot_named: "s \<in> set (ack_snapshot obj ra rr p) \<Longrightarrow> named acked ra rr s"
  by (auto simp: ack_snapshot_def boundedAboveSet_def Let_def named_def set_appliedRangesSet list_ex_iff dest: in_set_takeD)

lemma lookup_frame:
  assumes inv: "lane_inv p" and "cp_heap p' = cp_heap p" "cp_drainers p' = cp_drainers p" "cp_accepted p' = cp_accepted p" "cp_acked p' = cp_acked p"
    "cp_replaced p' = cp_replaced p" "cp_sessions p' = cp_sessions p"
    and calls: "\<And>obj c. (obj, c) \<in> set (cp_calls p') \<Longrightarrow> (obj, c) \<in> set (cp_calls p) \<or> obj < length (cp_heap p) \<and> call_ok c \<and> c \<noteq> RetireCall"
  shows "lane_inv p'"
proof -
  have c: "control_inv p" and k: "kept_inv p" and b: "bound_ok p" and co: "calls_ok p" using inv by (simp_all add: lane_inv_def)
  have "control_inv p'" by (rule control_inv_frame [OF c]) (use assms(2-7) calls inv_calls [OF c] in auto)
  moreover have "kept_inv p'" by (rule kept_frame [OF k]) (use assms(2-7) in simp_all)
  moreover have "calls_ok p'" using co calls unfolding calls_ok_def by blast
  moreover have "bound_ok p'" using b calls assms(2,7) unfolding bound_ok_def by metis
  ultimately show ?thesis by (simp add: lane_inv_def)
qed

lemma lane_inv_refuse: "lane_inv p \<Longrightarrow> lane_inv (refuse e p)"
  by (erule lookup_frame) (simp_all add: refuse_def)

lemma lane_inv_add: "lane_inv p \<Longrightarrow> obj < length (cp_heap p) \<Longrightarrow> call_ok c \<Longrightarrow> c \<noteq> RetireCall \<Longrightarrow> lane_inv (add_call obj c p)"
  by (erule lookup_frame) (auto simp: add_call_def)

lemma lane_inv_epoch: "lane_inv p \<Longrightarrow> lane_inv (p\<lparr>cp_lastEpoch := n\<rparr>)"
  by (erule lookup_frame) simp_all

lemma lane_session: "lane_inv p \<Longrightarrow> gm_get (cp_sessions p) sid = Some obj \<Longrightarrow> obj < length (cp_heap p)"
  by (auto simp: lane_inv_def dest: inv_sessions)

lemma lane_inv_Retire: "lane_inv p \<Longrightarrow> lane_inv (Retire sid p)"
proof (cases "gm_get (cp_sessions p) sid")
  case (Some obj)
  assume inv: "lane_inv p"
  have p: "cp_heap (Retire sid p) = cp_heap p" "cp_drainers (Retire sid p) = cp_drainers p" "cp_accepted (Retire sid p) = cp_accepted p"
    "cp_acked (Retire sid p) = cp_acked p" "cp_replaced (Retire sid p) = cp_replaced p" "cp_sessions (Retire sid p) = gm_del sid (cp_sessions p)"
    "cp_calls (Retire sid p) = cp_calls p @ [(obj, RetireCall)]"
    using Some by (simp_all add: Retire_def existingSession_def add_call_def)
  have c: "control_inv p" and k: "kept_inv p" and b: "bound_ok p" and co: "calls_ok p" using inv by (simp_all add: lane_inv_def)
  have "control_inv (Retire sid p)" by (rule control_inv_frame [OF c]) (auto simp: p inv_calls [OF c] inv_sessions [OF c Some] split: if_splits)
  moreover have "kept_inv (Retire sid p)" by (rule kept_frame [OF k]) (simp_all add: p)
  moreover have "calls_ok (Retire sid p)" using co by (auto simp: calls_ok_def p)
  moreover have "bound_ok (Retire sid p)" using b Some unfolding bound_ok_def p by (auto split: if_splits)
  ultimately show ?thesis by (simp add: lane_inv_def)
qed (simp add: Retire_def existingSession_def)

lemma lane_inv_Bind: "lane_inv p \<Longrightarrow> lane_inv (Bind sid p)"
proof (cases "gm_get (cp_sessions p) sid")
  case None
  assume inv: "lane_inv p"
  have p: "cp_accepted (Bind sid p) = cp_accepted p" "cp_acked (Bind sid p) = cp_acked p" "cp_replaced (Bind sid p) = cp_replaced p" "cp_calls (Bind sid p) = cp_calls p"
    "cp_sessions (Bind sid p) = gm_put sid (length (cp_heap p)) (cp_sessions p)" and heap: "\<exists>s. cp_heap (Bind sid p) = cp_heap p @ [s] \<and> \<not> cs_retired s"
    using None by (simp_all add: Bind_def existingSession_def)
  obtain s where s: "cp_heap (Bind sid p) = cp_heap p @ [s]" "\<not> cs_retired s" using heap by blast
  have c: "control_inv p" and k: "kept_inv p" and b: "bound_ok p" and co: "calls_ok p" using inv by (simp_all add: lane_inv_def)
  have "kept_inv (Bind sid p)" by (rule kept_frame [OF k]) (simp_all add: p s nth_append)
  moreover have "calls_ok (Bind sid p)" using co by (simp add: calls_ok_def p)
  moreover have "(length (cp_heap p), RetireCall) \<notin> set (cp_calls p)" using inv_calls [OF c] by blast
  moreover have "obj < length (cp_heap p)" if "gm_get (cp_sessions p) sid' = Some obj" for sid' obj by (rule inv_sessions [OF c that])
  ultimately show ?thesis using control_inv_Bind [OF c, of sid] b s unfolding lane_inv_def bound_ok_def p s(1)
    by (auto simp: nth_append split: if_splits)
qed (simp add: Bind_def existingSession_def)

lemma run_call_frame:
  "cp_sessions (run_call obj c p) = cp_sessions p" "length (cp_heap (run_call obj c p)) = length (cp_heap p)"
  "(o', c') \<in> set (cp_calls (run_call obj c p)) \<Longrightarrow> (o', c') \<in> set (cp_calls p) \<or> o' = obj \<and> call_ok c' \<and> c' \<noteq> RetireCall"
  "c \<noteq> RetireCall \<or> o' \<noteq> obj \<Longrightarrow> cs_retired (cp_heap (run_call obj c p) ! o') = cs_retired (cp_heap p ! o')"
proof -
  note defs = run_call_def send_locked_def retire_locked_def restart_locked_def ack_prune_def hold_locked_def release_locked_def serve_bind_def add_call_def refuse_def Let_def
  show "cp_sessions (run_call obj c p) = cp_sessions p" "length (cp_heap (run_call obj c p)) = length (cp_heap p)" by (auto simp: defs split: control_call.split)
  show "(o', c') \<in> set (cp_calls p) \<or> o' = obj \<and> call_ok c' \<and> c' \<noteq> RetireCall" if "(o', c') \<in> set (cp_calls (run_call obj c p))"
    using that by (auto simp: defs snapshot_named split: control_call.splits if_splits)
  have upd: "cs_retired ((cp_heap p)[obj := s'] ! o') = cs_retired (cp_heap p ! o')" if "cs_retired s' = cs_retired (cp_heap p ! obj) \<or> o' \<noteq> obj" for s'
    using that by (cases "obj < length (cp_heap p)") (auto simp: nth_list_update list_update_beyond)
  show "cs_retired (cp_heap (run_call obj c p) ! o') = cs_retired (cp_heap p ! o')" if "c \<noteq> RetireCall \<or> o' \<noteq> obj"
    using that by (auto simp: defs upd split: control_call.split)
qed

lemma kept_run_call:
  assumes "kept_inv p" and "control_inv p" and "obj < length (cp_heap p)" and "call_ok c"
  shows "kept_inv (run_call obj c p)"
proof (cases c)
  case (PruneCall epoch acked ahead ra rr)
  then show ?thesis using kept_prune [OF assms(1-3)] assms(4) by (simp add: run_call_def)
next
  case (ServeCall)
  then show ?thesis using assms(3)
    by (intro kept_frame [OF assms(1)]) (auto simp: run_call_def serve_bind_def refuse_def Let_def nth_list_update)
next
  case HoldCall
  then show ?thesis using assms(3) by (intro kept_frame [OF assms(1)]) (auto simp: run_call_def hold_locked_def nth_list_update)
next
  case (ReleaseCall epoch)
  then show ?thesis using assms(3) by (intro kept_frame [OF assms(1)]) (auto simp: run_call_def release_locked_def Let_def nth_list_update)
next
  case (SnapshotCall epoch acked ra rr)
  then show ?thesis by (intro kept_frame [OF assms(1)]) (auto simp: run_call_def add_call_def)
qed (use kept_send [OF assms(1,3)] kept_retire [OF assms(1)] kept_restart [OF assms(1,3)] assms(1) in \<open>simp_all add: run_call_def\<close>)

lemma control_run_call: "control_inv p \<Longrightarrow> obj < length (cp_heap p) \<Longrightarrow> call_ok c \<Longrightarrow> control_inv (run_call obj c p)"
  by (cases c) (simp_all add: run_call_def control_inv_send control_inv_retire control_inv_restart control_inv_prune control_inv_hold control_inv_release
    control_inv_serve_bind control_inv_add_call)

lemma lane_inv_locked: "lane_inv p \<Longrightarrow> lane_inv (locked i p)"
proof (cases "i < length (cp_calls p)")
  case True
  assume inv: "lane_inv p"
  obtain obj c where i: "cp_calls p ! i = (obj, c)" by fastforce
  let ?p = "p\<lparr>cp_calls := (cp_calls p)[i := (obj, CallDone)]\<rparr>"
  have mem: "(obj, c) \<in> set (cp_calls p)" using True i by (metis nth_mem)
  then have obj: "obj < length (cp_heap p)" and co: "call_ok c" using inv by (auto simp: lane_inv_def calls_ok_def dest: inv_calls)
  have p: "lane_inv ?p" by (rule lookup_frame [OF inv]) (use obj set_update_subset_insert in fastforce)+
  note r = run_call_frame [where obj = obj and c = c and p = ?p]
  have "calls_ok (run_call obj c ?p)" using p r(3) unfolding lane_inv_def calls_ok_def by blast
  moreover have "\<not> cs_retired (cp_heap (run_call obj c ?p) ! o')" if g: "gm_get (cp_sessions p) sid = Some o'" for sid o'
  proof -
    have "c \<noteq> RetireCall \<or> o' \<noteq> obj" using inv mem g unfolding lane_inv_def bound_ok_def by blast
    then show ?thesis using r(4) [of o'] inv g unfolding lane_inv_def bound_ok_def by simp
  qed
  moreover have "(o', RetireCall) \<notin> set (cp_calls (run_call obj c ?p))" if "gm_get (cp_sessions p) sid = Some o'" for sid o'
    using p r(3) [of o' RetireCall] that unfolding lane_inv_def bound_ok_def by auto
  moreover have "\<forall>sid' . gm_get (cp_sessions p) sid' = Some o' \<longrightarrow> sid' = sid" if "gm_get (cp_sessions p) sid = Some o'" for sid o'
    using inv that unfolding lane_inv_def bound_ok_def by blast
  ultimately have "calls_ok (run_call obj c ?p)" "bound_ok (run_call obj c ?p)" unfolding bound_ok_def r(1) by simp_all
  then show ?thesis using kept_run_call [of ?p obj c] control_run_call [of ?p obj c] p obj co True i by (simp add: lane_inv_def locked_def)
qed (simp add: locked_def)

text \<open>The steps of a subscription change no retained operation.\<close>

lemma lane_inv_subscription:
  assumes inv: "lane_inv p" and "control_inv p'" and "cp_accepted p' = cp_accepted p" "cp_acked p' = cp_acked p" "cp_replaced p' = cp_replaced p"
    "cp_sessions p' = cp_sessions p" "cp_calls p' = cp_calls p" and len: "length (cp_heap p') = length (cp_heap p)"
    and heap: "\<And>obj. obj < length (cp_heap p) \<Longrightarrow> cs_ops (cp_heap p' ! obj) = cs_ops (cp_heap p ! obj) \<and> cs_retired (cp_heap p' ! obj) = cs_retired (cp_heap p ! obj)"
  shows "lane_inv p'"
proof -
  have c: "control_inv p" and k: "kept_inv p" and b: "bound_ok p" and co: "calls_ok p" using inv by (simp_all add: lane_inv_def)
  have "kept_inv p'" by (rule kept_frame [OF k]) (use assms(3-5) len heap in simp_all)
  moreover have "bound_ok p'" using b heap inv_sessions [OF c] unfolding bound_ok_def assms(6,7) by metis
  ultimately show ?thesis using co assms(2,7) by (simp add: lane_inv_def calls_ok_def)
qed

lemma serve_exit_heap: "length (cp_heap (serve_exit i p)) = length (cp_heap p)"
  "cs_ops (cp_heap (serve_exit i p) ! obj) = cs_ops (cp_heap p ! obj) \<and> cs_retired (cp_heap (serve_exit i p) ! obj) = cs_retired (cp_heap p ! obj)"
  by (cases "dr_session (cp_drainers p ! i) < length (cp_heap p)";
      auto simp: serve_exit_def Let_def nth_list_update list_update_beyond)+

lemma lane_inv_drain: "lane_inv p \<Longrightarrow> lane_inv (drain_step i p)"
proof -
  assume inv: "lane_inv p"
  have "control_inv (drain_step i p)" using inv by (simp add: lane_inv_def control_inv_drain)
  then show ?thesis
  proof (rule lane_inv_subscription [OF inv])
    show "cs_ops (cp_heap (drain_step i p) ! obj) = cs_ops (cp_heap p ! obj) \<and> cs_retired (cp_heap (drain_step i p) ! obj) = cs_retired (cp_heap p ! obj)" for obj
      using serve_exit_heap(2) [of i p obj] by (simp add: drain_step_def Let_def split: serve_phase.split)
    show "length (cp_heap (drain_step i p)) = length (cp_heap p)" by (simp add: drain_step_def Let_def serve_exit_heap split: serve_phase.split)
  qed (simp_all add: drain_step_def Let_def serve_exit_def split: serve_phase.split)
qed

lemma lane_inv_quit: "lane_inv p \<Longrightarrow> lane_inv (write_fail i p)" "lane_inv p \<Longrightarrow> lane_inv (cancel_serve i p)"
proof -
  assume inv: "lane_inv p"
  have q: "lane_inv (p\<lparr>cp_drainers := (cp_drainers p)[i := (cp_drainers p ! i)\<lparr>dr_phase := Returning\<rparr>]\<rparr>)" if "i < length (cp_drainers p)"
    by (rule lane_inv_subscription [OF inv]) (use inv that control_inv_phase [of p i Returning] in \<open>auto simp: lane_inv_def\<close>)
  show "lane_inv (write_fail i p)" "lane_inv (cancel_serve i p)"
    using inv q by (auto simp: write_fail_def cancel_serve_def split: serve_phase.split)
qed

text \<open>The Runner restarts an agent with the release of the barrier as the first operation.\<close>

fun control_ok :: "control_op \<Rightarrow> controlProducer \<Rightarrow> bool" where
  "control_ok (ORestart sid first) p \<longleftrightarrow> replayPath first"
| "control_ok _ p \<longleftrightarrow> True"

lemma lane_inv_exec: "lane_inv p \<Longrightarrow> control_ok op p \<Longrightarrow> lane_inv (control_exec op p)"
  by (cases op) (auto simp: lane_inv_Bind lane_inv_Retire lane_inv_locked lane_inv_drain lane_inv_quit Send_def SendIfLive_def send_def Restart_def AckControl_def
    HoldForReplay_def ReleaseReplayBarrier_def serve_def existingSession_def lane_inv_refuse intro!: lane_inv_add lane_inv_epoch dest: lane_session split: option.split)

interpretation lane: op_system control_ok control_exec lane_inv
  by unfold_locales (rule lane_inv_exec)

abbreviation control_run :: "controlProducer \<Rightarrow> controlProducer \<Rightarrow> bool" where
  "control_run \<equiv> reaches control_ok control_exec"

lemma lane_reached: "control_run newControlProducer p \<Longrightarrow> lane_inv p"
  by (rule lane.reaches_inv [OF _ lane_inv_new])

section \<open>Properties\<close>

text \<open>C4: no wake-up is lost. When the current subscription of a session waits with an empty wake channel, it has written to its stream every operation
  the session retains, but for live ones a replay barrier holds back; this holds however sends, acknowledgements, barriers, restarts, retirements
  and takeovers interleave with it.\<close>

theorem parked_owes_nothing:
  assumes "control_run newControlProducer p" and "i < length (cp_drainers p)" and "dr_phase (cp_drainers p ! i) = Parked" and "\<not> dr_token (cp_drainers p ! i)"
    and "s = cp_heap p ! dr_session (cp_drainers p ! i)" and "dr_mine (cp_drainers p ! i) = cs_sub s"
    and "r \<in> set (cs_ops s)" and "\<not> cs_held s \<or> replayPath (rt_op r)"
  shows "r \<in> set (dr_written (cp_drainers p ! i))"
proof -
  have "control_inv p" using lane_reached [OF assms(1)] by (simp add: lane_inv_def)
  then have "drain_ok (cp_heap p) i (cp_drainers p ! i)" by (rule inv_drain [OF _ assms(2)])
  then have "current_ok s i (cp_drainers p ! i)" using assms(3,5,6) by (simp add: drain_ok_def serves_def serving_def)
  then have "r \<in> set (flow (cp_drainers p ! i)) \<or> dr_token (cp_drainers p ! i) \<or> dr_phase (cp_drainers p ! i) = LoopTop"
    using assms(7,8) unfolding current_ok_def eligible_def by blast
  then show ?thesis using assms(3,4) by (simp add: flow_def)
qed

definition demo_control :: "control_op list" where
  "demo_control = [OBind ''s'', OSend ''s'' \<lparr>ac_ControlSeq = 0, ac_control = AC_Prompt ''hi''\<rparr>, OLocked 0, OServe ''s'', OLocked 1] @ replicate 7 (ODrain 0)"

definition demo_lane :: controlProducer where
  "demo_lane = fold control_exec demo_control newControlProducer"

lemma demo_lane_run: "control_run newControlProducer demo_lane"
  unfolding demo_lane_def by (rule reaches_fold) code_simp

theorem parked_owes_nothing_witness:
  "\<lparr>rt_seq = 1, rt_op = \<lparr>ac_ControlSeq = 1, ac_control = AC_Prompt ''hi''\<rparr>, rt_id = 0\<rparr> \<in> set (dr_written (cp_drainers demo_lane ! 0))"
proof -
  have "0 < length (cp_drainers demo_lane)" "dr_phase (cp_drainers demo_lane ! 0) = Parked" "\<not> dr_token (cp_drainers demo_lane ! 0)"
    "dr_mine (cp_drainers demo_lane ! 0) = cs_sub (cp_heap demo_lane ! dr_session (cp_drainers demo_lane ! 0))"
    "\<lparr>rt_seq = 1, rt_op = \<lparr>ac_ControlSeq = 1, ac_control = AC_Prompt ''hi''\<rparr>, rt_id = 0\<rparr> \<in> set (cs_ops (cp_heap demo_lane ! dr_session (cp_drainers demo_lane ! 0)))"
    "\<not> cs_held (cp_heap demo_lane ! dr_session (cp_drainers demo_lane ! 0))" by code_simp+
  then show ?thesis using parked_owes_nothing [OF demo_lane_run _ _ _ refl] by blast
qed

text \<open>C5: an accepted operation is kept until the agent acknowledges it. As long as its session is bound, every operation the lane accepted is retained with its content,
  or an acknowledgement named the number it had then (by the cursor, by itself or in a range), or it was the release of a replay barrier and a
  restart replaced the agent it was meant for.\<close>

theorem kept_until_acked:
  assumes "control_run newControlProducer p" and "gm_get (cp_sessions p) sid = Some obj" and "(obj, n, op) \<in> set (cp_accepted p)"
  shows "(\<exists>r \<in> set (cs_ops (cp_heap p ! obj)). rt_id r = n \<and> ac_control (rt_op r) = ac_control op)
    \<or> (\<exists>a \<in> set (cp_acked p). ao_session a = obj \<and> rt_id (ao_op a) = n \<and> ac_control (rt_op (ao_op a)) = ac_control op
        \<and> named (ao_acked a) (ao_above a) (ao_ranges a) (rt_seq (ao_op a)))
    \<or> replayPath op \<and> (obj, n) \<in> set (cp_replaced p)"
proof -
  have inv: "lane_inv p" by (rule lane_reached [OF assms(1)])
  then have "\<not> cs_retired (cp_heap p ! obj)" using assms(2) unfolding lane_inv_def bound_ok_def by blast
  then show ?thesis using kept_op [OF _ assms(3)] inv unfolding lane_inv_def op_kept_def by blast
qed

theorem kept_until_acked_witness:
  "\<exists>a \<in> set (cp_acked (fold control_exec [OAck ''s'' 1 0 [] [1, 9], OLocked 2, OLocked 3] demo_lane)). rt_id (ao_op a) = 0"
proof -
  let ?p = "fold control_exec [OAck ''s'' 1 0 [] [1, 9], OLocked 2, OLocked 3] demo_lane" and ?op = "\<lparr>ac_ControlSeq = 0, ac_control = AC_Prompt ''hi''\<rparr>"
  have run: "control_run newControlProducer ?p" by (rule reaches_trans [OF reaches_fold demo_lane_run]) code_simp
  have "gm_get (cp_sessions ?p) ''s'' = Some 0" "(0, 0, ?op) \<in> set (cp_accepted ?p)" by code_simp+
  from kept_until_acked [OF run this] show ?thesis
  proof (elim disjE)
    assume "\<exists>r \<in> set (cs_ops (cp_heap ?p ! 0)). rt_id r = 0 \<and> ac_control (rt_op r) = ac_control ?op"
    moreover have "cs_ops (cp_heap ?p ! 0) = []" by code_simp
    ultimately show ?thesis by simp
  qed (auto simp: replayPath_def)
qed

text \<open>C21: a subscription repeats nothing and keeps the order. On the stream of any subscription, current or displaced, no number comes twice, and the live operations come
  in the order of their numbers, although the release of a replay barrier may overtake those the barrier holds back.\<close>

theorem stream_in_order:
  assumes "control_run newControlProducer p" and "d \<in> set (cp_drainers p)"
  shows "distinct (map rt_seq (dr_written d)) \<and> sorted_wrt (<) (map rt_seq (filter (\<lambda>r. \<not> replayPath (rt_op r)) (dr_written d)))"
proof -
  obtain i where "i < length (cp_drainers p)" "cp_drainers p ! i = d" using assms(2) by (metis in_set_conv_nth)
  then have "stream_ok d" using lane_reached [OF assms(1)] inv_drain [of p i] by (simp add: lane_inv_def drain_ok_def)
  then show ?thesis by (simp add: stream_ok_def flow_def lives_def sorted_wrt_append)
qed

theorem stream_in_order_witness: "distinct (map rt_seq (dr_written (cp_drainers demo_lane ! 0)))"
proof -
  have "0 < length (cp_drainers demo_lane)" by code_simp
  then show ?thesis using stream_in_order [OF demo_lane_run, of "cp_drainers demo_lane ! 0"] by simp
qed

text \<open>C20: acknowledged ranges are read exactly. Whatever numbers the agent sends, the retained numbers taken as acknowledged are those that lie in one of the first
  4096 ranges; a trailing unpaired value and an inverted range name nothing, and the result is no larger than what is retained.\<close>

theorem applied_ranges_exact:
  "set (appliedRangesSet ranges retainedSeqs) = {s \<in> set retainedSeqs. \<exists>(a, b) \<in> set (take 4096 (range_pairs ranges)). a \<le> s \<and> s \<le> b}"
  using set_appliedRangesSet by (simp add: maxRetainedOps_def)

text \<open>Retention is bounded and its cursor is sound. In every session of a reachable state at most 4096 live operations are retained, their numbers ascend, and every
  one lies above the acknowledged cursor and at or below the last number given out, so that no acknowledgement an agent may send hides an operation from the next subscription.\<close>

theorem retention_bounded:
  assumes "control_run newControlProducer p" and "s \<in> set (cp_heap p)"
  shows "length (filter (\<lambda>r. \<not> replayPath (rt_op r)) (cs_ops s)) \<le> 4096 \<and> sorted_wrt (<) (map rt_seq (cs_ops s)) \<and> cs_cursor s \<le> cs_nextSeq s
    \<and> (\<forall>r \<in> set (cs_ops s). cs_cursor s < rt_seq r \<and> rt_seq r \<le> cs_nextSeq s \<and> ac_ControlSeq (rt_op r) = rt_seq r)"
proof -
  obtain obj where "obj < length (cp_heap p)" "cp_heap p ! obj = s" using assms(2) by (metis in_set_conv_nth)
  then have "session_ok s" using lane_reached [OF assms(1)] inv_session [of p obj] by (simp add: lane_inv_def)
  then show ?thesis by (simp add: session_ok_def lives_def maxRetainedOps_def)
qed

theorem retention_bounded_witness: "cs_cursor (cp_heap (fold control_exec [OAck ''s'' 1 99 [] [], OLocked 2] demo_lane) ! 0) \<le> 1"
proof -
  let ?p = "fold control_exec [OAck ''s'' 1 99 [] [], OLocked 2] demo_lane"
  have run: "control_run newControlProducer ?p" by (rule reaches_trans [OF reaches_fold demo_lane_run]) code_simp
  have "0 < length (cp_heap ?p)" "cs_nextSeq (cp_heap ?p ! 0) = 1" by code_simp+
  then show ?thesis using retention_bounded [OF run, of "cp_heap ?p ! 0"] by simp
qed

end
